(* ===== verification/Prelude.thy ===== *)
theory Prelude
  imports Main "HOL-Library.AList" "HOL-Library.Multiset"
begin

text \<open>
  Shared vocabulary of the development: Go's fixed-width integers, truncating division,
  time values and durations, byte strings with \<open>strings.TrimSpace\<close>, Go maps as association
  lists (whose order is the iteration order the runtime happened to choose), and two contracts
  the components rely on: choosing a best element by a strict weak order, and a table
  that makes room before it inserts.
\<close>

named_theorems go_time "unfolding facts for time values and durations"
named_theorems go_int "facts about wrapped 64-bit integers and truncating division"
named_theorems gomap_simps "lookup and size facts for Go maps"

section \<open>Integers\<close>

text \<open>A Go \<open>int\<close>/\<open>int64\<close> is an \<open>int\<close> kept in range by wrapping after each operation.\<close>

definition i64 :: "int \<Rightarrow> int" where
  "i64 x = (x + 2 ^ 63) mod 2 ^ 64 - 2 ^ 63"

definition in_i64 :: "int \<Rightarrow> bool" where
  "in_i64 x \<longleftrightarrow> - (2 ^ 63) \<le> x \<and> x < 2 ^ 63"

lemma i64_id [go_int]: "in_i64 x \<Longrightarrow> i64 x = x"
  by (simp add: i64_def in_i64_def)

lemma i64_range: "in_i64 (i64 x)"
proof -
  have "0 \<le> (x + 2 ^ 63) mod 2 ^ 64" and "(x + 2 ^ 63) mod (2 ^ 64 :: int) < 2 ^ 64"
    by simp_all
  then show ?thesis by (simp add: i64_def in_i64_def)
qed

lemma i64_small: "0 \<le> x \<Longrightarrow> x < 2 ^ 63 \<Longrightarrow> i64 x = x"
  by (rule i64_id) (simp add: in_i64_def)

text \<open>Go's \<open>/\<close> truncates toward zero.\<close>

definition godiv :: "int \<Rightarrow> int \<Rightarrow> int" where
  "godiv a b = sgn a * sgn b * (\<bar>a\<bar> div \<bar>b\<bar>)"

definition gomod :: "int \<Rightarrow> int \<Rightarrow> int" where
  "gomod a b = a - b * godiv a b"

lemma godiv_nonneg [go_int]: "0 \<le> a \<Longrightarrow> 0 < b \<Longrightarrow> godiv a b = a div b"
  by (cases "a = 0") (simp_all add: godiv_def)

lemma gomod_nonneg [go_int]: "0 \<le> a \<Longrightarrow> 0 < b \<Longrightarrow> gomod a b = a mod b"
  by (simp add: gomod_def godiv_nonneg minus_mult_div_eq_mod)

section \<open>Time\<close>

text \<open>
  A \<open>time.Time\<close> is the number of nanoseconds since Go's zero instant (1 January of year 1,
  UTC), so \<open>t.IsZero()\<close> is \<open>t = 0\<close>; a \<open>time.Duration\<close> is a number of nanoseconds. \<open>Sub\<close>
  saturates at the ends of \<open>int64\<close>, which the difference to the zero time does reach.
\<close>

type_synonym gotime = int
type_synonym duration = int

definition ms :: duration where [go_time]: "ms = 1000000"
definition sec :: duration where [go_time]: "sec = 1000000000"
definition minute :: duration where [go_time]: "minute = 60 * 1000000000"
definition hour :: duration where [go_time]: "hour = 3600 * 1000000000"

definition time_sub :: "gotime \<Rightarrow> gotime \<Rightarrow> duration" where
  "time_sub a b = max (- (2 ^ 63)) (min (2 ^ 63 - 1) (a - b))"

lemma time_sub_le [simp]: "d < 2 ^ 63 - 1 \<Longrightarrow> - (2 ^ 63) \<le> d \<Longrightarrow> time_sub a b \<le> d \<longleftrightarrow> a - b \<le> d"
  by (auto simp: time_sub_def)

lemma time_sub_less [simp]: "d \<le> 2 ^ 63 - 1 \<Longrightarrow> - (2 ^ 63) < d \<Longrightarrow> time_sub a b < d \<longleftrightarrow> a - b < d"
  by (auto simp: time_sub_def)

lemma time_sub_exact: "in_i64 (a - b) \<Longrightarrow> time_sub a b = a - b"
  by (auto simp: time_sub_def in_i64_def)

lemma time_sub_nonneg [simp]: "0 \<le> time_sub a b \<longleftrightarrow> b \<le> a"
  by (auto simp: time_sub_def)

section \<open>Byte strings\<close>

text \<open>
  Go strings are byte strings: HOL's \<open>string\<close> (a \<open>char\<close> is a byte). \<open>TrimSpace\<close> removes the
  Unicode white space of \<open>unicode.IsSpace\<close>, written here as its UTF-8 byte sequences.
\<close>

definition ascii_space :: "char \<Rightarrow> bool" where
  "ascii_space c \<longleftrightarrow> (let n = of_char c :: nat in n = 32 \<or> 9 \<le> n \<and> n \<le> 13)"

definition multibyte_spaces :: "nat list list" where
  "multibyte_spaces =
     [[194, 133], [194, 160], [225, 154, 128], [226, 128, 168], [226, 128, 169],
      [226, 128, 175], [226, 129, 159], [227, 128, 128],
      [226, 128, 128], [226, 128, 129], [226, 128, 130], [226, 128, 131], [226, 128, 132],
      [226, 128, 133], [226, 128, 134], [226, 128, 135], [226, 128, 136], [226, 128, 137],
      [226, 128, 138]]"

text \<open>The length in bytes of the white space at the front of a string (0 for none).\<close>

definition space_len :: "nat list list \<Rightarrow> string \<Rightarrow> nat" where
  "space_len pats s =
     (case s of [] \<Rightarrow> 0
      | c # _ \<Rightarrow> if ascii_space c then 1
          else if of_char c < (128 :: nat) then 0
          else (case List.find (\<lambda>p. take (length p) (map of_char s) = p) pats of
                  None \<Rightarrow> 0 | Some p \<Rightarrow> length p))"

lemma space_len_le: "space_len pats s \<le> length s"
proof (cases s)
  case Nil
  then show ?thesis by (simp add: space_len_def)
next
  case (Cons c cs)
  have "length p \<le> length s" if "List.find (\<lambda>p. take (length p) (map of_char s) = p) pats = Some p" for p
  proof -
    from that have eq: "take (length p) (map of_char s) = p" by (auto simp: find_Some_iff)
    from arg_cong [OF eq, of length] show ?thesis by simp
  qed
  then show ?thesis by (auto simp: space_len_def Cons split: option.splits)
qed

function drop_spaces :: "nat list list \<Rightarrow> string \<Rightarrow> string" where
  "drop_spaces pats s =
     (let n = space_len pats s in if n = 0 then s else drop_spaces pats (drop n s))"
  by pat_completeness auto
termination
proof (relation "measure (\<lambda>(_, s). length s)")
  fix pats :: "nat list list" and s :: string and n
  assume "n = space_len pats s" and "n \<noteq> 0"
  moreover have "space_len pats s \<le> length s" by (rule space_len_le)
  ultimately show "((pats, drop n s), (pats, s)) \<in> measure (\<lambda>(_, s). length s)" by simp
qed simp

declare drop_spaces.simps [simp del]

definition trim_space :: "string \<Rightarrow> string" where
  "trim_space s = rev (drop_spaces (map rev multibyte_spaces) (rev (drop_spaces multibyte_spaces s)))"

lemma drop_spaces_idem [simp]: "drop_spaces pats (drop_spaces pats s) = drop_spaces pats s"
proof (induction pats s rule: drop_spaces.induct)
  case (1 pats s)
  show ?case
  proof (cases "space_len pats s = 0")
    case True
    then show ?thesis by (simp add: drop_spaces.simps [of pats s])
  next
    case False
    then show ?thesis using 1 by (simp add: drop_spaces.simps [of pats s])
  qed
qed

lemma drop_spaces_Nil [simp]: "drop_spaces pats [] = []"
  by (simp add: drop_spaces.simps [of pats "[]"] space_len_def)

lemma trim_space_Nil [simp]: "trim_space [] = []"
  by (simp add: trim_space_def)

text \<open>A text that is trimmed stays as it is.\<close>

lemma space_len_drop [simp]: "space_len pats (drop_spaces pats s) = 0"
proof (induction pats s rule: drop_spaces.induct)
  case (1 pats s)
  then show ?case by (cases "space_len pats s = 0") (simp_all add: drop_spaces.simps [of pats s])
qed

lemma space_len_prefix:
  assumes "space_len pats (s @ t) = 0" "[] \<notin> set pats"
  shows "space_len pats s = 0"
proof (cases s)
  case (Cons c cs)
  have "List.find (\<lambda>p. take (length p) (map of_char s) = p) pats = None" if "List.find (\<lambda>p. take (length p) (map of_char (s @ t)) = p) pats = None"
  proof -
    have "take (length p) (map of_char (s @ t)) = p" if "take (length p) (map of_char s) = p" for p :: "nat list"
    proof -
      from arg_cong [OF that, of length] have "length p \<le> length s" by simp
      with that show ?thesis by simp
    qed
    with that show ?thesis by (auto simp: find_None_iff)
  qed
  moreover have "List.find P pats = Some p \<Longrightarrow> length p \<noteq> 0" for P p
    using assms(2) by (auto simp: find_Some_iff) (metis nth_mem)
  ultimately show ?thesis using assms(1) by (auto simp: space_len_def Cons split: if_splits option.splits)
qed (simp add: space_len_def)

lemma drop_spaces_suffix: "\<exists>a. s = a @ drop_spaces pats s"
proof (induction pats s rule: drop_spaces.induct)
  case (1 pats s)
  show ?case
  proof (cases "space_len pats s = 0")
    case False
    with 1 obtain a where "drop (space_len pats s) s = a @ drop_spaces pats (drop (space_len pats s) s)" by blast
    then have "s = (take (space_len pats s) s @ a) @ drop_spaces pats (drop (space_len pats s) s)"
      by (metis append.assoc append_take_drop_id)
    moreover have "drop_spaces pats s = drop_spaces pats (drop (space_len pats s) s)"
      using False by (simp add: drop_spaces.simps [of pats s])
    ultimately show ?thesis by metis
  qed (simp add: drop_spaces.simps [of pats s])
qed

lemma trim_space_idem [simp]: "trim_space (trim_space s) = trim_space s"
proof -
  let ?last = "map rev multibyte_spaces"
  define t where "t = drop_spaces multibyte_spaces s"
  obtain a where "rev t = a @ drop_spaces ?last (rev t)" using drop_spaces_suffix by blast
  then have t: "t = rev (drop_spaces ?last (rev t)) @ rev a" by (metis rev_append rev_rev_ident)
  have "space_len multibyte_spaces t = 0" by (simp add: t_def)
  then have "space_len multibyte_spaces (rev (drop_spaces ?last (rev t))) = 0"
    by (subst (asm) t) (rule space_len_prefix, auto simp: multibyte_spaces_def)
  then have "drop_spaces multibyte_spaces (rev (drop_spaces ?last (rev t))) = rev (drop_spaces ?last (rev t))"
    by (simp add: drop_spaces.simps [of multibyte_spaces "rev _"])
  then show ?thesis by (simp add: trim_space_def flip: t_def)
qed

text \<open>Trimming removes no ASCII character other than white space.\<close>

lemma drop_spaces_keeps:
  "c \<in> set s \<Longrightarrow> \<not> ascii_space c \<Longrightarrow> of_char c < (128 :: nat) \<Longrightarrow> \<forall>p \<in> set pats. \<forall>b \<in> set p. 128 \<le> b \<Longrightarrow> c \<in> set (drop_spaces pats s)"
proof (induction pats s rule: drop_spaces.induct)
  case (1 pats s)
  let ?n = "space_len pats s"
  have "c \<notin> set (take ?n s)"
  proof (cases s)
    case (Cons d ds)
    have "c \<notin> set (take (length p) s)" if "List.find (\<lambda>p. take (length p) (map of_char s) = p) pats = Some p" for p
    proof
      assume "c \<in> set (take (length p) s)"
      then have "of_char c \<in> set (take (length p) (map of_char s) :: nat list)" by (simp add: take_map)
      moreover have "take (length p) (map of_char s) = p" "p \<in> set pats" using that by (auto simp: find_Some_iff)
      ultimately have "128 \<le> (of_char c :: nat)" using 1(5) by auto
      with 1(4) show False by simp
    qed
    with 1(3) Cons show ?thesis by (auto simp: space_len_def split: option.splits if_splits)
  qed simp
  with 1(2) have "c \<in> set (drop ?n s)" by (metis Un_iff append_take_drop_id set_append)
  with 1 show ?case by (simp add: drop_spaces.simps [of pats s] Let_def)
qed

lemma trim_space_keeps: "c \<in> set s \<Longrightarrow> \<not> ascii_space c \<Longrightarrow> of_char c < (128 :: nat) \<Longrightarrow> c \<in> set (trim_space s)"
  by (simp add: trim_space_def drop_spaces_keeps multibyte_spaces_def)

text \<open>Lower-casing of ASCII letters; the components take \<open>strings.ToLower\<close> as a parameter and
  the witnesses instantiate it with this function.\<close>

fun ascii_lower_char :: "char \<Rightarrow> char" where
  "ascii_lower_char (Char b0 b1 b2 b3 b4 b5 b6 b7) =
     (if \<not> b7 \<and> b6 \<and> \<not> b5 \<and> (b0 \<or> b1 \<or> b2 \<or> b3 \<or> b4)
         \<and> \<not> (b4 \<and> b3 \<and> (b2 \<or> b1 \<and> b0))
      then Char b0 b1 b2 b3 b4 True b6 b7 else Char b0 b1 b2 b3 b4 b5 b6 b7)"

definition ascii_lower :: "string \<Rightarrow> string" where
  "ascii_lower s = map ascii_lower_char s"

fun has_prefix :: "string \<Rightarrow> string \<Rightarrow> bool" where
  "has_prefix s [] = True"
| "has_prefix [] (c # cs) = False"
| "has_prefix (x # s) (c # cs) = (x = c \<and> has_prefix s cs)"

lemma has_prefix_iff: "has_prefix s p \<longleftrightarrow> (\<exists>r. s = p @ r)"
  by (induction s p rule: has_prefix.induct) auto

section \<open>Runes and decimal numbers\<close>

definition bytes :: "nat list \<Rightarrow> string" where
  "bytes ns = map char_of ns"

definition tail_byte :: "nat \<Rightarrow> bool" where
  "tail_byte b \<longleftrightarrow> 128 \<le> b \<and> b \<le> 191"

text \<open>The number of bytes of the UTF-8 encoded rune at the front, 0 if there is none.\<close>

fun rune_len :: "nat list \<Rightarrow> nat" where
  "rune_len [] = 0"
| "rune_len (a # bs) =
     (if a < 128 then 1
      else if 194 \<le> a \<and> a \<le> 223 then (case bs of b # _ \<Rightarrow> if tail_byte b then 2 else 0 | _ \<Rightarrow> 0)
      else if 224 \<le> a \<and> a \<le> 239 then
        (case bs of b # c # _ \<Rightarrow>
           if tail_byte b \<and> (a = 224 \<longrightarrow> 160 \<le> b) \<and> (a = 237 \<longrightarrow> b \<le> 159) \<and> tail_byte c then 3 else 0 | _ \<Rightarrow> 0)
      else if 240 \<le> a \<and> a \<le> 244 then
        (case bs of b # c # d # _ \<Rightarrow>
           if tail_byte b \<and> (a = 240 \<longrightarrow> 144 \<le> b) \<and> (a = 244 \<longrightarrow> b \<le> 143) \<and> tail_byte c \<and> tail_byte d
           then 4 else 0 | _ \<Rightarrow> 0)
      else 0)"

text \<open>The conversion to \<open>[]rune\<close>, each rune by its encoding; an invalid byte becomes U+FFFD. Converting back is \<open>concat\<close>.\<close>

function runes :: "string \<Rightarrow> string list" where
  "runes s =
     (case s of [] \<Rightarrow> []
      | _ # cs \<Rightarrow> (let n = rune_len (map of_char s)
                 in if n = 0 then bytes [239, 191, 189] # runes cs else take n s # runes (drop n s)))"
  by pat_completeness auto
termination by (relation "measure length") auto

declare runes.simps [simp del]

fun contains_text :: "string \<Rightarrow> string \<Rightarrow> bool" where
  "contains_text [] t = (t = [])"
| "contains_text (c # cs) t = (has_prefix (c # cs) t \<or> contains_text cs t)"

fun decimal :: "nat \<Rightarrow> string" where
  "decimal n = (if n < 10 then [char_of (48 + n)] else decimal (n div 10) @ [char_of (48 + n mod 10)])"

declare decimal.simps [simp del]

lemma decimal_digits: "c \<in> set (decimal n) \<Longrightarrow> \<exists>d < 10. c = char_of (48 + (d :: nat))"
proof (induction n rule: decimal.induct)
  case (1 n)
  have "c \<in> set (if n < 10 then [char_of (48 + n)] else decimal (n div 10) @ [char_of (48 + n mod 10)])"
    using 1(2) by (simp only: decimal.simps [of n, symmetric])
  with 1(1) show ?case by (auto split: if_splits intro: exI [of _ n] exI [of _ "n mod 10"])
qed

lemma char_of_digit_inject: "d < 10 \<Longrightarrow> e < 10 \<Longrightarrow> (char_of (48 + d) :: char) = char_of (48 + e) \<longleftrightarrow> d = (e :: nat)"
  by (simp add: char_of_eq_iff take_bit_eq_mod)

lemma decimal_nonempty [simp]: "decimal n \<noteq> []" "[] \<noteq> decimal n"
  by (simp_all add: decimal.simps [of n])

lemma decimal_inject [simp]: "decimal m = decimal n \<longleftrightarrow> m = n"
proof
  show "decimal m = decimal n \<Longrightarrow> m = n"
  proof (induction m arbitrary: n rule: decimal.induct)
    case (1 m)
    from 1(2) have eq: "(if m < 10 then [char_of (48 + m)] else decimal (m div 10) @ [char_of (48 + m mod 10)]) =
        (if n < 10 then [char_of (48 + n)] else decimal (n div 10) @ [char_of (48 + n mod 10)])"
      by (metis decimal.simps)
    show ?case
    proof (cases "m < 10 \<or> n < 10")
      case True
      with eq show ?thesis by (auto split: if_splits simp: char_of_digit_inject)
    next
      case False
      with eq have "m mod 10 = n mod 10" "m div 10 = n div 10"
        using 1(1) [of "n div 10"] by (auto simp: char_of_digit_inject)
      then show ?thesis by (metis div_mult_mod_eq)
    qed
  qed
qed simp

section \<open>Go maps\<close>

text \<open>
  A Go map is an association list with distinct keys; its order is the iteration order, about
  which the language promises nothing, so a result that is proved for every such list holds for
  every iteration order.
\<close>

type_synonym ('k, 'v) gomap = "('k \<times> 'v) list"

abbreviation gm_ok :: "('k, 'v) gomap \<Rightarrow> bool" where
  "gm_ok m \<equiv> distinct (map fst m)"

abbreviation gm_get :: "('k, 'v) gomap \<Rightarrow> 'k \<Rightarrow> 'v option" where
  "gm_get m k \<equiv> map_of m k"

abbreviation gm_set :: "'k \<Rightarrow> 'v \<Rightarrow> ('k, 'v) gomap \<Rightarrow> ('k, 'v) gomap" where
  "gm_set k v m \<equiv> AList.update k v m"

abbreviation gm_del :: "'k \<Rightarrow> ('k, 'v) gomap \<Rightarrow> ('k, 'v) gomap" where
  "gm_del k m \<equiv> AList.delete k m"

lemma gm_get_set [gomap_simps]: "gm_get (gm_set k v m) k' = (if k' = k then Some v else gm_get m k')"
  by (simp add: update_conv')

lemma gm_get_del [gomap_simps]: "gm_get (gm_del k m) k' = (if k' = k then None else gm_get m k')"
  by (simp add: delete_conv')

lemma gm_ok_set [simp, intro]: "gm_ok m \<Longrightarrow> gm_ok (gm_set k v m)"
  by (rule distinct_update)

lemma gm_ok_del [simp, intro]: "gm_ok m \<Longrightarrow> gm_ok (gm_del k m)"
  by (rule distinct_delete)

lemma gm_ok_filter [simp, intro]: "gm_ok m \<Longrightarrow> gm_ok (filter P m)"
  by (simp add: distinct_map_filter)

lemma gm_len_set [gomap_simps]:
  "length (gm_set k v m) = (if gm_get m k = None then Suc (length m) else length m)"
  by (induction m) auto

lemma gm_len_del [gomap_simps]:
  "gm_ok m \<Longrightarrow> length (gm_del k m) = (if gm_get m k = None then length m else length m - 1)"
proof (induction m)
  case Nil
  then show ?case by simp
next
  case (Cons a m)
  show ?case
  proof (cases "fst a = k")
    case True
    with Cons.prems have "k \<notin> fst ` set m" by (cases a) auto
    then have "gm_del k m = m" by (induction m) auto
    with True show ?thesis by (cases a) auto
  next
    case False
    have "m \<noteq> []" if "gm_get m k \<noteq> None" using that by auto
    with False Cons show ?thesis by (cases a) (auto simp: Suc_pred simp del: map_of_eq_None_iff)
  qed
qed

lemma gm_len_del_in: "gm_ok m \<Longrightarrow> gm_get m k = Some v \<Longrightarrow> length (gm_del k m) = length m - 1"
  by (simp add: gm_len_del)

lemma gm_get_filter:
  "gm_ok m \<Longrightarrow> gm_get (filter (\<lambda>(k, v). P k v) m) k =
     (case gm_get m k of None \<Rightarrow> None | Some v \<Rightarrow> if P k v then Some v else None)"
  by (induction m) (auto simp: map_of_eq_None_iff split: option.splits dest: map_of_SomeD)

lemma gm_in_set: "gm_ok m \<Longrightarrow> (k, v) \<in> set m \<longleftrightarrow> gm_get m k = Some v"
  by (auto intro: map_of_is_SomeI dest: map_of_SomeD)

lemma gm_set_entries: "(k', v') \<in> set (gm_set k v m) \<Longrightarrow> (k', v') = (k, v) \<or> (k', v') \<in> set m"
  by (induction m) (auto split: if_splits)

section \<open>Choosing the best element\<close>

text \<open>
  The code often scans a collection and keeps the best element so far, replacing it when
  a candidate is strictly better. \<open>pick\<close> is that scan.
\<close>

definition pick_step :: "('a \<Rightarrow> 'a \<Rightarrow> bool) \<Rightarrow> 'a \<Rightarrow> 'a option \<Rightarrow> 'a option" where
  "pick_step lt x b = (case b of None \<Rightarrow> Some x | Some y \<Rightarrow> if lt x y then Some x else Some y)"

definition pick :: "('a \<Rightarrow> 'a \<Rightarrow> bool) \<Rightarrow> 'a list \<Rightarrow> 'a option" where
  "pick lt xs = fold (pick_step lt) xs None"

lemma pick_snoc: "pick lt (xs @ [x]) = pick_step lt x (pick lt xs)"
  by (simp add: pick_def)

lemma pick_Nil [simp]: "pick lt [] = None"
  by (simp add: pick_def)

lemma pick_single [simp]: "pick lt [x] = Some x"
  by (simp add: pick_def pick_step_def)

lemma pick_None_iff [simp]: "pick lt xs = None \<longleftrightarrow> xs = []"
  by (induction xs rule: rev_induct) (auto simp: pick_snoc pick_step_def split: option.splits)

lemma pick_in_set: "pick lt xs = Some y \<Longrightarrow> y \<in> set xs"
  by (induction xs arbitrary: y rule: rev_induct)
    (auto simp: pick_snoc pick_step_def split: option.splits if_splits)

locale weak_order =
  fixes lt :: "'a \<Rightarrow> 'a \<Rightarrow> bool"
  assumes lt_irrefl: "\<not> lt x x"
    and lt_trans: "lt x y \<Longrightarrow> lt y z \<Longrightarrow> lt x z"
    and lt_negtrans: "\<not> lt x y \<Longrightarrow> \<not> lt y z \<Longrightarrow> \<not> lt x z"
begin

lemma lt_asym: "lt x y \<Longrightarrow> \<not> lt y x"
  using lt_irrefl lt_trans by blast

lemma pick_best: "pick lt xs = Some y \<Longrightarrow> x \<in> set xs \<Longrightarrow> \<not> lt x y"
proof (induction xs arbitrary: x y rule: rev_induct)
  case Nil
  then show ?case by simp
next
  case (snoc z xs)
  show ?case
  proof (cases "pick lt xs")
    case None
    with snoc.prems show ?thesis by (auto simp: pick_snoc pick_step_def lt_irrefl)
  next
    case (Some b)
    have old: "\<not> lt x b" if "x \<in> set xs" using snoc.IH [OF Some that] .
    show ?thesis
    proof (cases "lt z b")
      case True
      with snoc.prems Some have "y = z" by (simp add: pick_snoc pick_step_def)
      with snoc.prems True old lt_trans lt_irrefl show ?thesis by auto
    next
      case False
      with snoc.prems Some have "y = b" by (simp add: pick_snoc pick_step_def)
      with snoc.prems False old show ?thesis by auto
    qed
  qed
qed

end

text \<open>When distinct elements are always comparable the choice does not depend on the order of
  the scan, which for a Go map is unspecified.\<close>

locale strict_order = weak_order +
  assumes lt_total: "x \<noteq> y \<Longrightarrow> lt x y \<or> lt y x"
begin

lemma pick_unique:
  "pick lt xs = Some y \<longleftrightarrow> y \<in> set xs \<and> (\<forall>x \<in> set xs. \<not> lt x y)"
proof
  assume "pick lt xs = Some y"
  then show "y \<in> set xs \<and> (\<forall>x \<in> set xs. \<not> lt x y)" by (auto dest: pick_in_set pick_best)
next
  assume y: "y \<in> set xs \<and> (\<forall>x \<in> set xs. \<not> lt x y)"
  then obtain z where z: "pick lt xs = Some z" by (cases "pick lt xs") auto
  from z y have "\<not> lt y z" and "\<not> lt z y" by (auto dest: pick_in_set pick_best)
  with lt_total have "y = z" by blast
  with z show "pick lt xs = Some y" by simp
qed

lemma pick_order_independent: "set xs = set ys \<Longrightarrow> pick lt xs = pick lt ys"
proof -
  assume eq: "set xs = set ys"
  then have "pick lt xs = Some y \<longleftrightarrow> pick lt ys = Some y" for y
    by (simp only: pick_unique)
  then show ?thesis by (cases "pick lt xs") (metis not_None_eq, metis)
qed

end

section \<open>Tables that make room before an insertion\<close>

locale capped_table =
  fixes room :: "'t \<Rightarrow> 't" and put :: "'k \<Rightarrow> 'v \<Rightarrow> 't \<Rightarrow> 't"
    and has :: "'t \<Rightarrow> 'k \<Rightarrow> bool" and count :: "'t \<Rightarrow> nat" and cap :: nat
    and wf :: "'t \<Rightarrow> bool"
  assumes room_count: "wf t \<Longrightarrow> count t \<le> cap \<Longrightarrow> count (room t) < cap"
    and room_wf: "wf t \<Longrightarrow> wf (room t)"
    and put_new: "wf t \<Longrightarrow> count (put k v t) \<le> Suc (count t)"
    and put_old: "wf t \<Longrightarrow> has t k \<Longrightarrow> count (put k v t) = count t"
    and put_wf: "wf t \<Longrightarrow> wf (put k v t)"
begin

lemma put_room_cap: "wf t \<Longrightarrow> count t \<le> cap \<Longrightarrow> count (put k v (room t)) \<le> cap"
  using room_count [of t] room_wf [of t] put_new [of "room t" k v] by linarith

lemma put_has_cap: "wf t \<Longrightarrow> count t \<le> cap \<Longrightarrow> has t k \<Longrightarrow> count (put k v t) \<le> cap"
  by (simp add: put_old)

lemma put_room_wf: "wf t \<Longrightarrow> wf (put k v (room t))"
  by (simp add: room_wf put_wf)

end

end
