(* ===== verification/ClashSources.thy ===== *)
theory ClashSources
  imports Prelude
begin

text \<open>
  The health of Clash subscription sources (\<open>internal/clash/source_health.go\<close> and
  \<open>health_view.go\<close>): parsing of the \<open>subscription-userinfo\<close> traffic header, the merge of a new
  observation into the stored one, the admission reason the proxy failover reads, the view
  shown to the operator and the freshness window of a probe. \<open>strings.ToLower\<close>, SHA-256 source
  ids and URL hints are parameters (\<open>lower\<close>, \<open>sid\<close>, \<open>hint\<close>).
\<close>

section \<open>State\<close>

record source_traffic =
  tr_upload :: int
  tr_download :: int
  tr_total :: int
  tr_expires_at :: int
  tr_observed_at :: gotime

record source =
  src_node_count :: int
  src_id :: string
  src_index :: int
  src_url_hint :: string
  src_checked_at :: gotime
  src_last_success_at :: gotime
  src_failures :: int
  src_fetch_error :: string
  src_http_status :: int
  src_traffic :: "source_traffic option"

definition zero_source :: source where
  "zero_source = \<lparr>src_node_count = 0, src_id = [], src_index = 0, src_url_hint = [],
     src_checked_at = 0, src_last_success_at = 0, src_failures = 0, src_fetch_error = [],
     src_http_status = 0, src_traffic = None\<rparr>"

text \<open>The part of a subscription node that source health reads.\<close>

record node =
  nd_source_id :: string
  nd_proxy_id :: int
  nd_enabled :: bool

record proxy_source =
  ps_traffic_available :: bool
  ps_id :: string
  ps_blocked :: bool
  ps_reason :: string

section \<open>Traffic and admission\<close>

text \<open>\<open>time.Unix(s, 0)\<close>: seconds since 1970 as nanoseconds since year 1.\<close>

definition unix_time :: "int \<Rightarrow> gotime" where
  "unix_time s = (s + 62135596800) * 1000000000"

definition remaining :: "source_traffic option \<Rightarrow> int" where
  "remaining t =
     (case t of None \<Rightarrow> 0
      | Some t \<Rightarrow> if tr_total t \<le> 0 then 0
          else max 0 (i64 (max 0 (i64 (tr_total t - tr_upload t)) - tr_download t)))"

definition BlockReason :: "source \<Rightarrow> gotime \<Rightarrow> string" where
  "BlockReason s now =
     (case src_traffic s of None \<Rightarrow> ''''
      | Some t \<Rightarrow>
          if tr_expires_at t > 0 \<and> \<not> unix_time (tr_expires_at t) > now then ''expired''
          else if tr_total t > 0 \<and> remaining (Some t) = 0 then ''exhausted''
          else '''')"

section \<open>The traffic header\<close>

fun split_on :: "char \<Rightarrow> string \<Rightarrow> string list" where
  "split_on sep [] = [[]]"
| "split_on sep (c # cs) =
     (if c = sep then [] # split_on sep cs
      else (case split_on sep cs of [] \<Rightarrow> [[c]] | p # ps \<Rightarrow> (c # p) # ps))"

text \<open>\<open>strings.SplitN(s, "=", 2)\<close> when it yields two parts.\<close>

fun cut_at :: "char \<Rightarrow> string \<Rightarrow> (string \<times> string) option" where
  "cut_at sep [] = None"
| "cut_at sep (c # cs) =
     (if c = sep then Some ([], cs)
      else map_option (\<lambda>(a, b). (c # a, b)) (cut_at sep cs))"

definition digit_val :: "char \<Rightarrow> int option" where
  "digit_val c = (let n = of_char c :: int in if 48 \<le> n \<and> n \<le> 57 then Some (n - 48) else None)"

fun digits_val :: "int \<Rightarrow> string \<Rightarrow> int option" where
  "digits_val acc [] = Some acc"
| "digits_val acc (c # cs) =
     (case digit_val c of None \<Rightarrow> None | Some d \<Rightarrow> digits_val (10 * acc + d) cs)"

text \<open>\<open>strconv.ParseInt(s, 10, 64)\<close>: an optional sign, then one or more digits, in range.\<close>

definition signed_digits :: "int \<Rightarrow> string \<Rightarrow> int option" where
  "signed_digits sign ds =
     (if ds = [] then None
      else (case digits_val 0 ds of None \<Rightarrow> None
            | Some n \<Rightarrow> if in_i64 (sign * n) then Some (sign * n) else None))"

definition parse_int64 :: "string \<Rightarrow> int option" where
  "parse_int64 s =
     (case s of [] \<Rightarrow> None
      | c # r \<Rightarrow> if c = CHR ''+'' then signed_digits 1 r
          else if c = CHR ''-'' then signed_digits (-1) r
          else signed_digits 1 s)"

text \<open>One iteration of the loop over the header's parts, for a part \<open>key=v\<close> and then for a whole
  part; \<open>None\<close> is \<open>return nil\<close>.\<close>

definition traffic_pair :: "string \<Rightarrow> int option \<Rightarrow> (string \<rightharpoonup> int) \<Rightarrow> (string \<rightharpoonup> int) option" where
  "traffic_pair key v values =
     (if key \<noteq> ''upload'' \<and> key \<noteq> ''download'' \<and> key \<noteq> ''total'' \<and> key \<noteq> ''expire'' then Some values
      else (case v of
              None \<Rightarrow> None
            | Some n \<Rightarrow>
                if n < 0 then None
                else if values key \<noteq> None then None
                else Some (values(key \<mapsto> n))))"

definition traffic_part :: "(string \<Rightarrow> string) \<Rightarrow> string \<Rightarrow> (string \<rightharpoonup> int) \<Rightarrow> (string \<rightharpoonup> int) option" where
  "traffic_part lower part values =
     (case cut_at (CHR ''='') (trim_space part) of
        None \<Rightarrow> Some values
      | Some (k, v) \<Rightarrow> traffic_pair (lower (trim_space k)) (parse_int64 (trim_space v)) values)"

fun traffic_parts :: "(string \<Rightarrow> string) \<Rightarrow> string list \<Rightarrow> (string \<rightharpoonup> int) \<Rightarrow> (string \<rightharpoonup> int) option" where
  "traffic_parts lower [] values = Some values"
| "traffic_parts lower (p # ps) values =
     (case traffic_part lower p values of None \<Rightarrow> None | Some v \<Rightarrow> traffic_parts lower ps v)"

text \<open>A Go map read: the zero value when the key is missing.\<close>

definition value_or_zero :: "(string \<rightharpoonup> int) \<Rightarrow> string \<Rightarrow> int" where
  "value_or_zero m k = (case m k of None \<Rightarrow> 0 | Some v \<Rightarrow> v)"

definition parseSourceTraffic :: "(string \<Rightarrow> string) \<Rightarrow> string \<Rightarrow> gotime \<Rightarrow> source_traffic option" where
  "parseSourceTraffic lower raw now =
     (case traffic_parts lower (split_on (CHR '';'') raw) Map.empty of
        None \<Rightarrow> None
      | Some values \<Rightarrow>
          (let expire = value_or_zero values ''expire'' in
           if expire > 253402300799 then None
           else if values ''upload'' = None \<or> values ''download'' = None \<or> values ''total'' = None then
             (if expire > 0
              then Some \<lparr>tr_upload = 0, tr_download = 0, tr_total = 0, tr_expires_at = expire, tr_observed_at = now\<rparr>
              else None)
           else Some \<lparr>tr_upload = value_or_zero values ''upload'', tr_download = value_or_zero values ''download'',
                  tr_total = value_or_zero values ''total'', tr_expires_at = expire, tr_observed_at = now\<rparr>))"

section \<open>Sources of a subscription document\<close>

text \<open>The source part of \<open>normalizeSources\<close>: \<open>old\<close> maps an id to the last source that has it.\<close>

definition old_sources :: "source list \<Rightarrow> string \<rightharpoonup> source" where
  "old_sources srcs = foldl (\<lambda>m s. m(src_id s \<mapsto> s)) Map.empty srcs"

definition normalizeSources ::
    "(string \<Rightarrow> string) \<Rightarrow> (string \<Rightarrow> string) \<Rightarrow> string list \<Rightarrow> source list \<Rightarrow> source list" where
  "normalizeSources sid hint urls srcs =
     (let old = old_sources srcs in
      map (\<lambda>(i, raw).
             (case old (sid raw) of None \<Rightarrow> zero_source | Some s \<Rightarrow> s)
               \<lparr>src_id := sid raw, src_index := int i + 1, src_url_hint := hint raw\<rparr>)
          (enumerate 0 urls))"

definition mergeSourceObservation :: "gotime \<Rightarrow> gotime \<Rightarrow> source \<Rightarrow> source \<Rightarrow> source" where
  "mergeSourceObservation now1 now2 old observed =
     (if src_fetch_error observed = ''not_checked'' then
        old\<lparr>src_index := src_index observed, src_url_hint := src_url_hint observed\<rparr>
      else
        let observed = observed\<lparr>src_failures := 0\<rparr>;
            observed = (if src_fetch_error observed \<noteq> [] then
                observed\<lparr>src_failures := min (i64 (src_failures old + 1)) 100,
                         src_last_success_at := src_last_success_at old\<rparr>
              else observed)
        in (case src_traffic observed of
              None \<Rightarrow> observed\<lparr>src_traffic := src_traffic old\<rparr>
            | Some t \<Rightarrow>
                (case src_traffic old of
                   None \<Rightarrow> observed
                 | Some ot \<Rightarrow>
                     let t1 = (if BlockReason old now1 = ''exhausted'' \<and> tr_total t \<le> 0
                               then (if tr_expires_at t > 0 then ot\<lparr>tr_expires_at := tr_expires_at t\<rparr> else ot)
                               else t);
                         t2 = (if BlockReason old now2 = ''expired'' \<and> tr_expires_at t1 = 0
                               then t1\<lparr>tr_expires_at := tr_expires_at ot\<rparr>
                               else t1)
                     in observed\<lparr>src_traffic := Some t2\<rparr>)))"

definition sourceRefreshDue :: "source \<Rightarrow> gotime \<Rightarrow> bool" where
  "sourceRefreshDue src now =
     (let wait = (if src_failures src > 0 then min 15 (src_failures src) * minute else 5 * minute)
      in src_checked_at src = 0 \<or> time_sub now (src_checked_at src) \<ge> wait)"

section \<open>What the proxy failover sees\<close>

definition traffic_known :: "source \<Rightarrow> gotime \<Rightarrow> bool" where
  "traffic_known src now =
     (case src_traffic src of None \<Rightarrow> False
      | Some t \<Rightarrow> tr_total t > 0 \<and> remaining (Some t) > 0
                  \<and> time_sub now (tr_observed_at t) \<le> 15 * minute)"

definition source_of :: "source list \<Rightarrow> string \<Rightarrow> source" where
  "source_of srcs i = (case old_sources srcs i of None \<Rightarrow> zero_source | Some s \<Rightarrow> s)"

text \<open>The projection loop of \<open>LoadProxySources\<close> over a normalized document.\<close>

definition LoadProxySources :: "gotime \<Rightarrow> source list \<Rightarrow> node list \<Rightarrow> int \<rightharpoonup> proxy_source" where
  "LoadProxySources now srcs nodes =
     foldl (\<lambda>m n.
       let src = source_of srcs (nd_source_id n); reason = BlockReason src now
       in m(nd_proxy_id n \<mapsto> \<lparr>ps_traffic_available = traffic_known src now, ps_id = nd_source_id n,
              ps_blocked = (reason \<noteq> []), ps_reason = reason\<rparr>)) Map.empty nodes"

text \<open>\<open>ProbeFreshness\<close>: how old a probe may be to admit a proxy, for a pool of \<open>nodes\<close>.\<close>

definition ProbeFreshness :: "int \<Rightarrow> duration" where
  "ProbeFreshness nodes =
     (let rounds = godiv (nodes + 71) 72
      in min (4 * minute) (max (45 * sec) (rounds * (30 * sec) + 15 * sec)))"

section \<open>The operator's view\<close>

record sample =
  sm_status :: string
  sm_failures :: int
  sm_checked :: gotime

record source_view =
  sv_proxy_ids :: "int list"
  sv_blocked_proxy_ids :: "int list"
  sv_generation_blocked :: int
  sv_nodes :: int
  sv_healthy :: int
  sv_failed :: int
  sv_unknown :: int
  sv_bound_accounts :: int
  sv_status :: string

text \<open>The body of the loop over the document's nodes for one source; \<open>node_total\<close> is the number of
  nodes of the document.\<close>

definition view_node ::
    "gotime \<Rightarrow> int \<Rightarrow> (int \<rightharpoonup> sample) \<Rightarrow> (int \<rightharpoonup> int) \<Rightarrow> (int \<Rightarrow> bool) \<Rightarrow> string \<Rightarrow> node \<Rightarrow> source_view \<Rightarrow> source_view" where
  "view_node now node_total samples bound blocked sid n sv =
     (let sv = (if nd_source_id n = sid \<and> nd_proxy_id n > 0 then
                  let sv = sv\<lparr>sv_proxy_ids := sv_proxy_ids sv @ [nd_proxy_id n]\<rparr>
                  in (if blocked (nd_proxy_id n) then
                        sv\<lparr>sv_blocked_proxy_ids := sv_blocked_proxy_ids sv @ [nd_proxy_id n],
                           sv_generation_blocked := sv_generation_blocked sv + 1\<rparr>
                      else sv)
                else sv)
      in if \<not> nd_enabled n \<or> nd_source_id n \<noteq> sid then sv
         else
           let sv = sv\<lparr>sv_nodes := sv_nodes sv + 1,
                       sv_bound_accounts := sv_bound_accounts sv
                          + (case bound (nd_proxy_id n) of None \<Rightarrow> 0 | Some k \<Rightarrow> k)\<rparr>
           in (case samples (nd_proxy_id n) of
                 None \<Rightarrow> sv\<lparr>sv_unknown := sv_unknown sv + 1\<rparr>
               | Some h \<Rightarrow>
                   if time_sub now (sm_checked h) > ProbeFreshness node_total then sv\<lparr>sv_unknown := sv_unknown sv + 1\<rparr>
                   else if sm_status h = ''healthy'' then sv\<lparr>sv_healthy := sv_healthy sv + 1\<rparr>
                   else if sm_status h = ''unhealthy'' \<and> sm_failures h \<ge> 2 then sv\<lparr>sv_failed := sv_failed sv + 1\<rparr>
                   else sv\<lparr>sv_unknown := sv_unknown sv + 1\<rparr>))"

definition view_status :: "gotime \<Rightarrow> source \<Rightarrow> source_view \<Rightarrow> string" where
  "view_status now src sv =
     (if BlockReason src now \<noteq> [] then BlockReason src now
      else if sv_nodes sv > 0 \<and> sv_failed sv = sv_nodes sv then ''unavailable''
      else if src_fetch_error src \<noteq> [] then ''fetch_failed''
      else if sv_failed sv > 0 then ''degraded''
      else if sv_healthy sv > 0 then ''healthy''
      else if src_checked_at src \<noteq> 0 \<and> time_sub now (src_checked_at src) > 15 * minute then ''stale''
      else ''checking'')"

definition empty_view :: source_view where
  "empty_view = \<lparr>sv_proxy_ids = [], sv_blocked_proxy_ids = [], sv_generation_blocked = 0, sv_nodes = 0,
     sv_healthy = 0, sv_failed = 0, sv_unknown = 0, sv_bound_accounts = 0, sv_status = ''checking''\<rparr>"

definition source_health ::
    "gotime \<Rightarrow> (int \<rightharpoonup> sample) \<Rightarrow> (int \<rightharpoonup> int) \<Rightarrow> (int \<Rightarrow> bool) \<Rightarrow> node list \<Rightarrow> source \<Rightarrow> source_view" where
  "source_health now samples bound blocked nodes src =
     (let sv = fold (view_node now (int (length nodes)) samples bound blocked (src_id src)) nodes empty_view
      in sv\<lparr>sv_status := view_status now src sv\<rparr>)"

section \<open>Lemmas\<close>

lemma remaining_Some:
  assumes "0 \<le> tr_upload t" and "0 \<le> tr_download t" and "in_i64 (tr_upload t)" and "in_i64 (tr_download t)"
    and "in_i64 (tr_total t)"
  shows "remaining (Some t) = (if tr_total t \<le> 0 then 0 else max 0 (tr_total t - tr_upload t - tr_download t))"
proof (cases "tr_total t \<le> 0")
  case True
  then show ?thesis by (simp add: remaining_def)
next
  case False
  with assms have a: "i64 (tr_total t - tr_upload t) = tr_total t - tr_upload t"
    by (intro i64_id) (auto simp: in_i64_def)
  from assms False have b: "i64 (max 0 (tr_total t - tr_upload t) - tr_download t)
      = max 0 (tr_total t - tr_upload t) - tr_download t"
    by (intro i64_id) (auto simp: in_i64_def)
  from False assms(2) show ?thesis by (simp add: remaining_def a b)
qed

lemma remaining_nonneg: "0 \<le> remaining t"
  by (auto simp: remaining_def split: option.splits)

lemma BlockReason_traffic:
  "src_traffic s = src_traffic s' \<Longrightarrow> BlockReason s now = BlockReason s' now"
  by (simp add: BlockReason_def)

lemma exhausted_iff:
  "BlockReason s now = ''exhausted'' \<longleftrightarrow>
     (\<exists>t. src_traffic s = Some t \<and> tr_total t > 0 \<and> remaining (Some t) = 0
        \<and> \<not> (tr_expires_at t > 0 \<and> unix_time (tr_expires_at t) \<le> now))"
  by (auto simp: BlockReason_def not_less split: option.splits if_splits)

lemma expired_iff:
  "BlockReason s now = ''expired'' \<longleftrightarrow>
     (\<exists>t. src_traffic s = Some t \<and> tr_expires_at t > 0 \<and> unix_time (tr_expires_at t) \<le> now)"
  by (auto simp: BlockReason_def not_less split: option.splits if_splits)

lemma unblocked_iff:
  "BlockReason s now = '''' \<longleftrightarrow>
     (\<forall>t. src_traffic s = Some t \<longrightarrow> \<not> (tr_expires_at t > 0 \<and> unix_time (tr_expires_at t) \<le> now)
        \<and> \<not> (tr_total t > 0 \<and> remaining (Some t) = 0))"
  by (auto simp: BlockReason_def not_less split: option.splits if_splits)

lemma parse_int64_range: "parse_int64 s = Some n \<Longrightarrow> in_i64 n"
  by (auto simp: parse_int64_def signed_digits_def split: list.splits option.splits if_splits)

text \<open>Every value kept from the header is a non-negative \<open>int64\<close>.\<close>

definition good_values :: "(string \<rightharpoonup> int) \<Rightarrow> bool" where
  "good_values m \<longleftrightarrow> (\<forall>k n. m k = Some n \<longrightarrow> 0 \<le> n \<and> in_i64 n)"

lemma traffic_part_good: "good_values m \<Longrightarrow> traffic_part lower p m = Some m' \<Longrightarrow> good_values m'"
  by (auto simp: traffic_part_def traffic_pair_def good_values_def parse_int64_range split: option.splits if_splits)

lemma traffic_parts_good: "good_values m \<Longrightarrow> traffic_parts lower ps m = Some m' \<Longrightarrow> good_values m'"
  by (induction ps arbitrary: m) (auto split: option.splits dest: traffic_part_good)

lemma value_or_zero_good: "good_values m \<Longrightarrow> 0 \<le> value_or_zero m k \<and> in_i64 (value_or_zero m k)"
  by (auto simp: good_values_def value_or_zero_def in_i64_def split: option.splits)

definition traffic_ok :: "source_traffic \<Rightarrow> bool" where
  "traffic_ok t \<longleftrightarrow>
     0 \<le> tr_upload t \<and> in_i64 (tr_upload t) \<and> 0 \<le> tr_download t \<and> in_i64 (tr_download t)
     \<and> 0 \<le> tr_total t \<and> in_i64 (tr_total t) \<and> 0 \<le> tr_expires_at t \<and> tr_expires_at t \<le> 253402300799"

lemma parse_traffic_ok:
  assumes "parseSourceTraffic lower raw now = Some t"
  shows "traffic_ok t \<and> tr_observed_at t = now"
proof -
  obtain m where m: "traffic_parts lower (split_on (CHR '';'') raw) Map.empty = Some m"
    using assms by (auto simp: parseSourceTraffic_def split: option.splits)
  have "good_values Map.empty" by (simp add: good_values_def)
  from traffic_parts_good [OF this m] have good: "good_values m" .
  note v = value_or_zero_good [OF good]
  have z: "in_i64 0" by (simp add: in_i64_def)
  from assms m show ?thesis
    using v [of "''upload''"] v [of "''download''"] v [of "''total''"] v [of "''expire''"] z
    by (auto simp: parseSourceTraffic_def traffic_ok_def Let_def not_less split: if_splits)
qed

lemma remaining_ok: "traffic_ok t \<Longrightarrow> remaining (Some t) \<le> tr_total t"
  by (subst remaining_Some) (auto simp: traffic_ok_def)

subsection \<open>Merging observations\<close>

lemma merge_failures:
  assumes "0 \<le> src_failures old" and "src_failures old \<le> 100"
  shows "0 \<le> src_failures (mergeSourceObservation n1 n2 old obs)
       \<and> src_failures (mergeSourceObservation n1 n2 old obs) \<le> 100"
proof -
  from assms have "i64 (src_failures old + 1) = src_failures old + 1"
    by (intro i64_id) (simp add: in_i64_def)
  with assms show ?thesis
    by (auto simp: mergeSourceObservation_def Let_def split: option.splits)
qed

lemma merge_traffic:
  "src_fetch_error obs \<noteq> ''not_checked'' \<Longrightarrow>
   src_traffic (mergeSourceObservation now now old obs) =
     (case src_traffic obs of None \<Rightarrow> src_traffic old
      | Some t \<Rightarrow> (case src_traffic old of None \<Rightarrow> Some t
          | Some ot \<Rightarrow>
              if BlockReason old now = ''exhausted'' \<and> tr_total t \<le> 0
              then Some (if tr_expires_at t > 0 then ot\<lparr>tr_expires_at := tr_expires_at t\<rparr> else ot)
              else if BlockReason old now = ''expired'' \<and> tr_expires_at t = 0
              then Some (t\<lparr>tr_expires_at := tr_expires_at ot\<rparr>)
              else Some t))"
  by (auto simp: mergeSourceObservation_def Let_def split: option.splits)

lemma remaining_expiry [simp]: "remaining (Some (t\<lparr>tr_expires_at := e\<rparr>)) = remaining (Some t)"
  by (simp add: remaining_def)

lemma merge_exhausted:
  assumes old: "BlockReason old now = ''exhausted''"
    and obs: "\<And>t. src_traffic obs = Some t \<Longrightarrow> tr_total t \<le> 0"
  shows "BlockReason (mergeSourceObservation now now old obs) now \<noteq> ''''"
proof (cases "src_fetch_error obs = ''not_checked''")
  case True
  then have "src_traffic (mergeSourceObservation now now old obs) = src_traffic old"
    by (simp add: mergeSourceObservation_def)
  then show ?thesis using old BlockReason_traffic by (metis list.distinct(1))
next
  case False
  from old obtain ot where ot: "src_traffic old = Some ot" "tr_total ot > 0" "remaining (Some ot) = 0"
    by (auto simp: exhausted_iff)
  show ?thesis
    using merge_traffic [OF False, of now old] ot old obs
    by (auto simp: unblocked_iff split: option.splits)
qed

lemma merge_expired:
  assumes old: "BlockReason old now = ''expired''"
    and obs: "\<And>t. src_traffic obs = Some t \<Longrightarrow> tr_expires_at t = 0"
  shows "BlockReason (mergeSourceObservation now now old obs) now \<noteq> ''''"
proof (cases "src_fetch_error obs = ''not_checked''")
  case True
  then have "src_traffic (mergeSourceObservation now now old obs) = src_traffic old"
    by (simp add: mergeSourceObservation_def)
  then show ?thesis using old BlockReason_traffic by (metis list.distinct(1))
next
  case False
  from old obtain ot where ot: "src_traffic old = Some ot" "tr_expires_at ot > 0" "unix_time (tr_expires_at ot) \<le> now"
    by (auto simp: expired_iff)
  show ?thesis
    using merge_traffic [OF False, of now old] ot old obs
    by (auto simp: unblocked_iff split: option.splits)
qed

subsection \<open>Probe freshness\<close>

lemma ProbeFreshness_bounds: "45 * sec \<le> ProbeFreshness n \<and> ProbeFreshness n \<le> 4 * minute"
  by (simp add: ProbeFreshness_def Let_def sec_def minute_def)

lemma ProbeFreshness_eq:
  "0 \<le> n \<Longrightarrow> ProbeFreshness n = min (4 * minute) (max (45 * sec) ((n + 71) div 72 * (30 * sec) + 15 * sec))"
  by (simp add: ProbeFreshness_def godiv_nonneg)

subsection \<open>The view\<close>

lemma view_fold_counts:
  "sv_nodes sv = sv_healthy sv + sv_failed sv + sv_unknown sv \<Longrightarrow>
   sv_nodes (fold (view_node now k samples bound blocked i) ns sv) =
     sv_healthy (fold (view_node now k samples bound blocked i) ns sv)
     + sv_failed (fold (view_node now k samples bound blocked i) ns sv)
     + sv_unknown (fold (view_node now k samples bound blocked i) ns sv)"
proof (induction ns arbitrary: sv)
  case Nil
  then show ?case by simp
next
  case (Cons n ns)
  have "sv_nodes (view_node now k samples bound blocked i n sv) =
      sv_healthy (view_node now k samples bound blocked i n sv)
      + sv_failed (view_node now k samples bound blocked i n sv)
      + sv_unknown (view_node now k samples bound blocked i n sv)"
    using Cons.prems by (auto simp: view_node_def Let_def split: option.splits)
  then show ?case using Cons.IH by simp
qed

lemma view_fold_nodes:
  "sv_nodes (fold (view_node now k samples bound blocked i) ns sv) =
     sv_nodes sv + int (length (filter (\<lambda>n. nd_enabled n \<and> nd_source_id n = i) ns))"
proof (induction ns arbitrary: sv)
  case Nil
  then show ?case by simp
next
  case (Cons n ns)
  have "sv_nodes (view_node now k samples bound blocked i n sv) =
      sv_nodes sv + (if nd_enabled n \<and> nd_source_id n = i then 1 else 0)"
    by (auto simp: view_node_def Let_def split: option.splits)
  then show ?case using Cons.IH by simp
qed

lemma view_fold_blocked:
  "sv_blocked_proxy_ids (fold (view_node now k samples bound blocked i) ns sv) =
     sv_blocked_proxy_ids sv @ filter blocked (map nd_proxy_id
       (filter (\<lambda>n. nd_source_id n = i \<and> nd_proxy_id n > 0) ns))
   \<and> sv_generation_blocked (fold (view_node now k samples bound blocked i) ns sv) =
     sv_generation_blocked sv + int (length (filter blocked (map nd_proxy_id
       (filter (\<lambda>n. nd_source_id n = i \<and> nd_proxy_id n > 0) ns))))"
proof (induction ns arbitrary: sv)
  case Nil
  then show ?case by simp
next
  case (Cons n ns)
  have "sv_blocked_proxy_ids (view_node now k samples bound blocked i n sv) = sv_blocked_proxy_ids sv @
        (if nd_source_id n = i \<and> nd_proxy_id n > 0 \<and> blocked (nd_proxy_id n) then [nd_proxy_id n] else [])"
    and "sv_generation_blocked (view_node now k samples bound blocked i n sv) = sv_generation_blocked sv +
        (if nd_source_id n = i \<and> nd_proxy_id n > 0 \<and> blocked (nd_proxy_id n) then 1 else 0)"
    by (auto simp: view_node_def Let_def split: option.splits)
  then show ?case using Cons.IH [of "view_node now k samples bound blocked i n sv"] by simp
qed

lemma BlockReason_known: "BlockReason s now \<in> {'''', ''expired'', ''exhausted''}"
  by (simp add: BlockReason_def split: option.split)

lemma view_status_unavailable:
  "view_status now src sv = ''unavailable'' \<longleftrightarrow>
     BlockReason src now = '''' \<and> 0 < sv_nodes sv \<and> sv_failed sv = sv_nodes sv"
  using BlockReason_known [of src now] by (simp add: view_status_def) (elim disjE; simp)

subsection \<open>The projection to proxies\<close>

lemma LoadProxySources_snoc:
  "LoadProxySources now srcs (ns @ [n]) =
     (LoadProxySources now srcs ns)(nd_proxy_id n \<mapsto>
        \<lparr>ps_traffic_available = traffic_known (source_of srcs (nd_source_id n)) now, ps_id = nd_source_id n,
         ps_blocked = (BlockReason (source_of srcs (nd_source_id n)) now \<noteq> []),
         ps_reason = BlockReason (source_of srcs (nd_source_id n)) now\<rparr>)"
  by (simp add: LoadProxySources_def Let_def)

lemma LoadProxySources_entry:
  "LoadProxySources now srcs ns pid = Some p \<Longrightarrow>
     \<exists>n \<in> set ns. nd_proxy_id n = pid \<and> ps_id p = nd_source_id n
       \<and> ps_reason p = BlockReason (source_of srcs (nd_source_id n)) now
       \<and> (ps_blocked p \<longleftrightarrow> ps_reason p \<noteq> [])
       \<and> ps_traffic_available p = traffic_known (source_of srcs (nd_source_id n)) now"
proof (induction ns rule: rev_induct)
  case Nil
  then show ?case by (simp add: LoadProxySources_def)
next
  case (snoc n ns)
  then show ?case by (cases "nd_proxy_id n = pid") (auto simp: LoadProxySources_snoc)
qed

lemma old_sources_snoc: "old_sources (srcs @ [s]) = (old_sources srcs)(src_id s \<mapsto> s)"
  by (simp add: old_sources_def)

lemma old_sources_id: "old_sources srcs i = Some s \<Longrightarrow> s \<in> set srcs \<and> src_id s = i"
  by (induction srcs rule: rev_induct)
    (auto simp: old_sources_snoc old_sources_def [of "[]"] split: if_splits)

section \<open>Properties\<close>

text \<open>a traffic header that is accepted yields counters that are non-negative 64-bit values,
  an expiry no later than year 9999, the observation time of the request, and a remaining balance
  between 0 and the total.\<close>

theorem traffic_header_sound:
  assumes "parseSourceTraffic lower raw now = Some t"
  shows "traffic_ok t \<and> tr_observed_at t = now \<and> 0 \<le> remaining (Some t) \<and> remaining (Some t) \<le> tr_total t"
  using parse_traffic_ok [OF assms] remaining_ok remaining_nonneg by simp

theorem traffic_header_sound_witness:
  "parseSourceTraffic ascii_lower ''upload=3; Download=4; total=10; expire=1700000000'' 7
     = Some \<lparr>tr_upload = 3, tr_download = 4, tr_total = 10, tr_expires_at = 1700000000, tr_observed_at = 7\<rparr>
   \<and> remaining (Some \<lparr>tr_upload = 3, tr_download = 4, tr_total = 10, tr_expires_at = 1700000000, tr_observed_at = 7\<rparr>) \<le> 10"
proof -
  have p: "parseSourceTraffic ascii_lower ''upload=3; Download=4; total=10; expire=1700000000'' 7
     = Some \<lparr>tr_upload = 3, tr_download = 4, tr_total = 10, tr_expires_at = 1700000000, tr_observed_at = 7\<rparr>"
    by code_simp
  with traffic_header_sound [OF p] show ?thesis by simp
qed

text \<open>a source that was refused for an exhausted or expired subscription stays refused after a
  merge, unless the new observation carries positive evidence: a known total for an exhausted one, an
  expiry date for an expired one. A failed fetch, a missing header or unlimited counters never lift it.\<close>

theorem block_needs_evidence:
  assumes "BlockReason old now \<noteq> ''''"
    and "\<And>t. BlockReason old now = ''exhausted'' \<Longrightarrow> src_traffic obs = Some t \<Longrightarrow> tr_total t \<le> 0"
    and "\<And>t. BlockReason old now = ''expired'' \<Longrightarrow> src_traffic obs = Some t \<Longrightarrow> tr_expires_at t = 0"
  shows "BlockReason (mergeSourceObservation now now old obs) now \<noteq> ''''"
proof (cases "BlockReason old now = ''exhausted''")
  case True
  then show ?thesis using assms(2) by (intro merge_exhausted) auto
next
  case False
  with assms(1) have "BlockReason old now = ''expired''"
    by (auto simp: BlockReason_def split: option.splits if_splits)
  then show ?thesis using assms(3) by (intro merge_expired) auto
qed

text \<open>A source whose quota is used up, for the witnesses.\<close>

definition spent_source :: source where
  "spent_source = zero_source\<lparr>src_id := ''a'', src_failures := 3, src_traffic := Some
     \<lparr>tr_upload = 6, tr_download = 4, tr_total = 10, tr_expires_at = 0, tr_observed_at = 1\<rparr>\<rparr>"

theorem block_needs_evidence_witness:
  "BlockReason spent_source 5 = ''exhausted'' \<and>
   BlockReason (mergeSourceObservation 5 5 spent_source (zero_source\<lparr>src_fetch_error := ''http_error''\<rparr>)) 5 \<noteq> ''''"
proof -
  have e: "BlockReason spent_source 5 = ''exhausted''" by code_simp
  have "BlockReason (mergeSourceObservation 5 5 spent_source (zero_source\<lparr>src_fetch_error := ''http_error''\<rparr>)) 5 \<noteq> ''''"
    by (rule block_needs_evidence) (simp_all add: e zero_source_def)
  with e show ?thesis by simp
qed

text \<open>the freshness window of a probe always lies between 45 seconds and 4 minutes, and one full
  sweep of the automatic worker (72 probes in each 30 second round) fits into it exactly for pools of at
  most 576 nodes; above that the cap of 4 minutes is shorter than the sweep.\<close>

theorem probe_freshness_sweep:
  assumes "0 \<le> n"
  shows "45 * sec \<le> ProbeFreshness n \<and> ProbeFreshness n \<le> 4 * minute
    \<and> ((n + 71) div 72 * (30 * sec) \<le> ProbeFreshness n \<longleftrightarrow> n \<le> 576)"
proof -
  define r where "r = (n + 71) div 72"
  have r: "r \<le> 8 \<longleftrightarrow> n \<le> 576" unfolding r_def by linarith
  have "ProbeFreshness n = min (4 * minute) (max (45 * sec) (r * (30 * sec) + 15 * sec))"
    using assms by (simp only: ProbeFreshness_eq r_def)
  then have "r * (30 * sec) \<le> ProbeFreshness n \<longleftrightarrow> r \<le> 8"
    by (auto simp: sec_def minute_def)
  with r show ?thesis using ProbeFreshness_bounds [of n] unfolding r_def by blast
qed

theorem probe_freshness_sweep_witness:
  "\<not> (577 + 71) div 72 * (30 * sec) \<le> ProbeFreshness 577 \<and> ProbeFreshness 577 = 4 * minute"
proof -
  have "\<not> (577 + 71) div 72 * (30 * sec) \<le> ProbeFreshness 577"
    using probe_freshness_sweep [of 577] by simp
  moreover have "ProbeFreshness 577 = 4 * minute" by code_simp
  ultimately show ?thesis by simp
qed

text \<open>in the operator's view of a source every enabled node of the source is counted once, as
  healthy, failed or unknown; the blocked ids are the source's proxies that are blocked, with their count;
  and a source whose enabled nodes all failed is reported unavailable unless its subscription is refused.\<close>

theorem source_view_partition:
  "let sv = source_health now samples bound blocked nodes src;
       own = filter (\<lambda>n. nd_source_id n = src_id src) nodes
   in sv_nodes sv = int (length (filter nd_enabled own))
      \<and> sv_nodes sv = sv_healthy sv + sv_failed sv + sv_unknown sv
      \<and> sv_blocked_proxy_ids sv = filter blocked (map nd_proxy_id (filter (\<lambda>n. nd_proxy_id n > 0) own))
      \<and> sv_generation_blocked sv = int (length (sv_blocked_proxy_ids sv))
      \<and> (sv_status sv = ''unavailable'' \<longleftrightarrow>
           BlockReason src now = '''' \<and> 0 < sv_nodes sv \<and> sv_failed sv = sv_nodes sv)"
proof -
  define sv where "sv = fold (view_node now (int (length nodes)) samples bound blocked (src_id src)) nodes empty_view"
  have status: "view_status now src sv = ''unavailable'' \<longleftrightarrow>
      BlockReason src now = '''' \<and> 0 < sv_nodes sv \<and> sv_failed sv = sv_nodes sv"
    by (rule view_status_unavailable)
  have own: "filter (\<lambda>n. nd_enabled n \<and> nd_source_id n = src_id src) nodes
      = filter nd_enabled (filter (\<lambda>n. nd_source_id n = src_id src) nodes)"
    "filter (\<lambda>n. nd_source_id n = src_id src \<and> nd_proxy_id n > 0) nodes
      = filter (\<lambda>n. nd_proxy_id n > 0) (filter (\<lambda>n. nd_source_id n = src_id src) nodes)"
    by (simp_all add: conj_ac)
  have zero: "sv_nodes empty_view = 0" "sv_healthy empty_view = 0" "sv_failed empty_view = 0"
    "sv_unknown empty_view = 0" "sv_blocked_proxy_ids empty_view = []" "sv_generation_blocked empty_view = 0"
    by (simp_all add: empty_view_def)
  have nodes: "sv_nodes sv = int (length (filter nd_enabled (filter (\<lambda>n. nd_source_id n = src_id src) nodes)))"
    unfolding sv_def view_fold_nodes own zero by simp
  have counts: "sv_nodes sv = sv_healthy sv + sv_failed sv + sv_unknown sv"
    unfolding sv_def by (rule view_fold_counts) (simp add: zero)
  have blk: "sv_blocked_proxy_ids sv = filter blocked (map nd_proxy_id
        (filter (\<lambda>n. nd_proxy_id n > 0) (filter (\<lambda>n. nd_source_id n = src_id src) nodes)))"
    "sv_generation_blocked sv = int (length (sv_blocked_proxy_ids sv))"
    using view_fold_blocked [of now "int (length nodes)" samples bound blocked "src_id src" nodes empty_view]
    unfolding sv_def own zero by simp_all
  have "source_health now samples bound blocked nodes src = sv\<lparr>sv_status := view_status now src sv\<rparr>"
    by (simp add: source_health_def sv_def Let_def)
  then show ?thesis using status nodes counts blk by (simp add: Let_def)
qed

end
