(* ===== verification/ClashNodes.thy ===== *)
theory ClashNodes
  imports ClashSources
begin

text \<open>
  The content of a subscription (\<open>internal/clash/subscription.go\<close>): a Clash YAML document or a Base64 list of node links, turned
  into proxy nodes, each checked before it may reach the runtime. The YAML decoder is a third-party package and a parameter
  (\<open>decode_yaml\<close>, the list \<open>proxies\<close> of the document); \<open>url.Parse\<close> is the parameter \<open>ParseURL\<close>.
\<close>

section \<open>Configurations\<close>

text \<open>
  A decoded YAML value. \<open>YOther\<close> is a float, a timestamp or a mapping with keys that are no strings, by the text
  \<open>fmt.Sprint\<close> prints for it.
\<close>

datatype yaml =
    YNull
  | YBool bool
  | YInt int
  | YStr string
  | YList "yaml list"
  | YMap "(string \<times> yaml) list"
  | YOther string

type_synonym node_config = "(string, yaml) gomap"

record clash_node = node +
  nd_original_name :: string
  nd_name :: string
  nd_type :: string
  nd_config :: node_config
  nd_port :: int
  nd_password :: string

text \<open>\<open>v, _ := cfg[key].(string)\<close>.\<close>

definition config_string :: "node_config \<Rightarrow> string \<Rightarrow> string" where
  "config_string cfg key = (case gm_get cfg key of Some (YStr s) \<Rightarrow> s | _ \<Rightarrow> [])"

text \<open>\<open>strconv.Atoi(fmt.Sprint(cfg["port"]))\<close>: the text of the other kinds of values is no number.\<close>

definition config_port :: "node_config \<Rightarrow> int option" where
  "config_port cfg =
     (case gm_get cfg ''port'' of
        Some (YInt i) \<Rightarrow> Some i
      | Some (YStr s) \<Rightarrow> parse_int64 s
      | Some (YOther s) \<Rightarrow> parse_int64 s
      | _ \<Rightarrow> None)"

fun unsafeFileReference :: "yaml \<Rightarrow> bool"
  and unsafe_entries :: "(string \<times> yaml) list \<Rightarrow> bool"
  and unsafe_items :: "yaml list \<Rightarrow> bool" where
  "unsafeFileReference (YMap kvs) = unsafe_entries kvs"
| "unsafeFileReference (YList vs) = unsafe_items vs"
| "unsafeFileReference _ = False"
| "unsafe_entries [] = False"
| "unsafe_entries ((key, item) # kvs) =
     (key \<in> {''ca'', ''ca-file'', ''certificate-file'', ''private-key-file''} \<or>
      key \<in> {''certificate'', ''private-key''} \<and>
        \<not> contains_text (case item of YStr s \<Rightarrow> s | _ \<Rightarrow> []) ''-----BEGIN '' \<or>
      unsafeFileReference item \<or> unsafe_entries kvs)"
| "unsafe_items [] = False"
| "unsafe_items (v # vs) = (unsafeFileReference v \<or> unsafe_items vs)"

definition metadata_prefixes :: "string list" where
  "metadata_prefixes =
     [bytes [229, 137, 169, 228, 189, 153, 230, 181, 129, 233, 135, 143, 239, 188, 154],
      bytes [232, 183, 157, 231, 166, 187, 228, 184, 139, 230, 172, 161, 233, 135, 141, 231, 189, 174, 229, 137, 169,
             228, 189, 153, 239, 188, 154],
      bytes [229, 165, 151, 233, 164, 144, 229, 136, 176, 230, 156, 159, 239, 188, 154]]"

definition isSubscriptionMetadata :: "string \<Rightarrow> bool" where
  "isSubscriptionMetadata name = list_ex (has_prefix name) metadata_prefixes"

definition supported_types :: "string list" where
  "supported_types =
     [''ss'', ''ssr'', ''vmess'', ''vless'', ''trojan'', ''hysteria'', ''hysteria2'', ''tuic'', ''http'', ''socks5'', ''anytls'']"

datatype parse_error =
    BodyTooLarge | NotBase64 | BadLink | BadLinkPort | MissingUser | UnknownScheme
  | BadName nat | BadType | BadAddress | ForbiddenField string | FileReference | NoNodes

text \<open>The loop of \<open>normalizeProxyConfigs\<close> at index \<open>i\<close>, with the names already seen.\<close>

fun normalize_configs :: "nat \<Rightarrow> string list \<Rightarrow> node_config list \<Rightarrow> parse_error + clash_node list" where
  "normalize_configs i seen [] = Inr []"
| "normalize_configs i seen (cfg # cfgs) =
     (let name = trim_space (config_string cfg ''name''); typ = config_string cfg ''type'';
          host = config_string cfg ''server''
      in if isSubscriptionMetadata name then normalize_configs (Suc i) seen cfgs
         else if name = [] \<or> length (runes name) > 90 \<or> name \<in> set seen then Inl (BadName (Suc i))
         else if typ \<notin> set supported_types then Inl BadType
         else case config_port cfg of None \<Rightarrow> Inl BadAddress
              | Some port \<Rightarrow>
                  if host = [] \<or> port < 1 \<or> port > 65535 then Inl BadAddress
                  else (case List.find (\<lambda>key. gm_get cfg key \<noteq> None) [''dialer-proxy'', ''interface-name'', ''routing-mark''] of
                          Some key \<Rightarrow> Inl (ForbiddenField key)
                        | None \<Rightarrow>
                            if unsafeFileReference (YMap cfg) then Inl FileReference
                            else (case normalize_configs (Suc i) (name # seen) cfgs of
                                    Inl e \<Rightarrow> Inl e
                                  | Inr nodes \<Rightarrow>
                                      Inr (\<lparr>nd_source_id = [], nd_proxy_id = 0, nd_enabled = False, nd_original_name = [],
                                            nd_name = name, nd_type = typ,
                                            nd_config = gm_set ''port'' (YInt port) (gm_set ''name'' (YStr name) cfg),
                                            nd_port = 0, nd_password = []\<rparr> # nodes))))"

definition normalizeProxyConfigs :: "node_config list \<Rightarrow> parse_error + clash_node list" where
  "normalizeProxyConfigs cfgs =
     (case normalize_configs 0 [] cfgs of
        Inl e \<Rightarrow> Inl e
      | Inr nodes \<Rightarrow> if nodes = [] then Inl NoNodes else Inr nodes)"

section \<open>Base64\<close>

text \<open>The value of a character in the standard or in the URL alphabet.\<close>

definition b64_val :: "bool \<Rightarrow> char \<Rightarrow> nat option" where
  "b64_val url c =
     (let n = of_char c :: nat
      in if 65 \<le> n \<and> n \<le> 90 then Some (n - 65)
         else if 97 \<le> n \<and> n \<le> 122 then Some (n - 71)
         else if 48 \<le> n \<and> n \<le> 57 then Some (n + 4)
         else if c = (if url then CHR ''-'' else CHR ''+'') then Some 62
         else if c = (if url then CHR ''_'' else CHR ''/'') then Some 63
         else None)"

text \<open>The first bytes of a group of up to four characters, as many as are given.\<close>

definition b64_group :: "bool \<Rightarrow> string \<Rightarrow> string option" where
  "b64_group url cs =
     (case those (map (b64_val url) cs) of
        Some [a, b, c, d] \<Rightarrow> Some (bytes [a * 4 + b div 16, b mod 16 * 16 + c div 4, c mod 4 * 64 + d])
      | Some [a, b, c] \<Rightarrow> Some (bytes [a * 4 + b div 16, b mod 16 * 16 + c div 4])
      | Some [a, b] \<Rightarrow> Some (bytes [a * 4 + b div 16])
      | _ \<Rightarrow> None)"

text \<open>\<open>DecodeString\<close> of an encoding with or without padding, on a text without line breaks.\<close>

fun b64_decode :: "bool \<Rightarrow> bool \<Rightarrow> string \<Rightarrow> string option" where
  "b64_decode url padded [] = Some []"
| "b64_decode url padded [a] = None"
| "b64_decode url padded [a, b] = (if padded then None else b64_group url [a, b])"
| "b64_decode url padded [a, b, c] = (if padded then None else b64_group url [a, b, c])"
| "b64_decode url padded (a # b # c # d # rest) =
     (if padded \<and> d = CHR ''='' \<and> rest = []
      then b64_group url (if c = CHR ''='' then [a, b] else [a, b, c])
      else (case (b64_group url [a, b, c, d], b64_decode url padded rest) of
              (Some x, Some y) \<Rightarrow> Some (x @ y) | _ \<Rightarrow> None))"

definition decodeBase64Subscription :: "string \<Rightarrow> string option" where
  "decodeBase64Subscription body =
     (let raw = trim_space body
      in if raw = [] \<or> list_ex (\<lambda>c. c \<in> set (bytes [32, 9, 13, 10])) raw then None
         else List.find (\<lambda>decoded. contains_text decoded ''://'')
                (List.map_filter (\<lambda>(url, padded). b64_decode url padded raw)
                   [(False, True), (False, False), (True, True), (True, False)]))"


section \<open>Node links\<close>

text \<open>A parsed URL: \<open>Host\<close>, \<open>Hostname()\<close>, \<open>Port()\<close>, the user with the password if there is one, and \<open>Query().Get\<close>.\<close>

record url =
  url_scheme :: string
  url_host :: string
  url_hostname :: string
  url_port :: string
  url_user :: "(string \<times> string option) option"
  url_query :: "string \<Rightarrow> string"
  url_raw_query :: string
  url_fragment :: string

definition opt_entry :: "string \<Rightarrow> string \<Rightarrow> node_config \<Rightarrow> node_config" where
  "opt_entry key v cfg = (if v = [] then cfg else gm_set key (YStr v) cfg)"

definition flag_entry :: "bool \<Rightarrow> string \<Rightarrow> node_config \<Rightarrow> node_config" where
  "flag_entry b key cfg = (if b then gm_set key (YBool True) cfg else cfg)"

text \<open>The user name that every protocol needs; an empty one is an error.\<close>

definition url_username :: "url \<Rightarrow> string" where
  "url_username u = (case url_user u of None \<Rightarrow> [] | Some (name, _) \<Rightarrow> name)"

definition vless_config :: "url \<Rightarrow> node_config \<Rightarrow> node_config" where
  "vless_config u config =
     (let q = url_query u;
          config = opt_entry ''network'' (q ''type'') (gm_set ''uuid'' (YStr (url_username u)) (gm_set ''type'' (YStr ''vless'') config));
          config = (if q ''security'' \<noteq> [] then gm_set ''tls'' (YBool (q ''security'' = ''tls'')) config else config);
          config = opt_entry ''flow'' (q ''flow'') (opt_entry ''client-fingerprint'' (q ''fp'') (opt_entry ''servername'' (q ''sni'') config));
          config = flag_entry (q ''insecure'' = ''1'' \<or> ascii_lower (q ''allowInsecure'') = ''true'') ''skip-cert-verify'' config;
          config = (if q ''pbk'' \<noteq> []
                    then gm_set ''reality-opts'' (YMap [(''public-key'', YStr (q ''pbk'')), (''short-id'', YStr (q ''sid''))]) config
                    else config)
      in if q ''type'' = ''ws'' then
           gm_set ''ws-opts'' (YMap ((if q ''path'' \<noteq> [] then [(''path'', YStr (q ''path''))] else []) @
             (if q ''host'' \<noteq> [] then [(''headers'', YMap [(''Host'', YStr (q ''host''))])] else []))) config
         else if q ''type'' = ''grpc'' \<and> q ''serviceName'' \<noteq> [] then
           gm_set ''grpc-opts'' (YMap [(''grpc-service-name'', YStr (q ''serviceName''))]) config
         else config)"

definition hysteria2_config :: "url \<Rightarrow> node_config \<Rightarrow> node_config" where
  "hysteria2_config u config =
     (let q = url_query u;
          password = (case url_user u of Some (_, Some p) \<Rightarrow> p | _ \<Rightarrow> url_username u);
          config = gm_set ''password'' (YStr password) (gm_set ''type'' (YStr ''hysteria2'') config);
          config = flag_entry (q ''insecure'' = ''1'' \<or> ascii_lower (q ''insecure'') = ''true'') ''skip-cert-verify''
                     (opt_entry ''sni'' (q ''sni'') config)
      in opt_entry ''ports'' (q ''mport'') (opt_entry ''fingerprint'' (q ''pinSHA256'') config))"

definition trojan_config :: "url \<Rightarrow> node_config \<Rightarrow> node_config" where
  "trojan_config u config =
     (let q = url_query u;
          config = gm_set ''password'' (YStr (url_username u)) (gm_set ''type'' (YStr ''trojan'') config);
          config = opt_entry ''sni'' (if q ''sni'' \<noteq> [] then q ''sni'' else q ''peer'') config;
          config = flag_entry (q ''allowInsecure'' = ''1'' \<or> ascii_lower (q ''allowInsecure'') = ''true'') ''skip-cert-verify'' config
      in if q ''alpn'' \<noteq> [] then gm_set ''alpn'' (YList (map YStr (split_on (CHR '','') (q ''alpn'')))) config else config)"

text \<open>\<open>None\<close> is a link that only carries account information and is left out.\<close>

definition parseProxyURI :: "(string \<Rightarrow> url option) \<Rightarrow> string \<Rightarrow> parse_error + node_config option" where
  "parseProxyURI ParseURL raw =
     (case ParseURL raw of None \<Rightarrow> Inl BadLink
      | Some u \<Rightarrow>
          if url_hostname u = [] then Inl BadLink
          else let name = (if trim_space (url_fragment u) = [] then url_hostname u else trim_space (url_fragment u))
          in if isSubscriptionMetadata name then Inr None
             else case parse_int64 (url_port u) of None \<Rightarrow> Inl BadLinkPort
                  | Some port \<Rightarrow>
                      if port < 1 \<or> port > 65535 then Inl BadLinkPort
                      else let config = [(''name'', YStr name), (''server'', YStr (url_hostname u)), (''port'', YInt port)];
                               scheme = ascii_lower (url_scheme u);
                               with_user = (\<lambda>f. if url_username u = [] then Inl MissingUser else Inr (Some (f u config)))
                      in if scheme = ''vless'' then with_user vless_config
                         else if scheme = ''hysteria2'' \<or> scheme = ''hy2'' then with_user hysteria2_config
                         else if scheme = ''trojan'' then with_user trojan_config
                         else Inl UnknownScheme)"

fun parse_links :: "(string \<Rightarrow> url option) \<Rightarrow> string list \<Rightarrow> parse_error + node_config list" where
  "parse_links ParseURL [] = Inr []"
| "parse_links ParseURL (line # lines) =
     (if trim_space line = [] then parse_links ParseURL lines
      else case parseProxyURI ParseURL (trim_space line) of
             Inl e \<Rightarrow> Inl e
           | Inr found \<Rightarrow>
               (case parse_links ParseURL lines of
                  Inl e \<Rightarrow> Inl e
                | Inr configs \<Rightarrow> Inr (case found of None \<Rightarrow> configs | Some c \<Rightarrow> c # configs)))"

definition maxBody :: nat where "maxBody = 8 * 1024 * 1024"

definition parseSubscription ::
    "(string \<Rightarrow> node_config list option) \<Rightarrow> (string \<Rightarrow> url option) \<Rightarrow> string \<Rightarrow> parse_error + clash_node list" where
  "parseSubscription decode_yaml ParseURL body =
     (if length body > maxBody then Inl BodyTooLarge
      else case decode_yaml body of
             Some (cfg # cfgs) \<Rightarrow> normalizeProxyConfigs (cfg # cfgs)
           | _ \<Rightarrow>
               (case decodeBase64Subscription body of
                  None \<Rightarrow> Inl NotBase64
                | Some decoded \<Rightarrow>
                    (case parse_links ParseURL (split_on (char_of (10 :: nat)) decoded) of
                       Inl e \<Rightarrow> Inl e
                     | Inr configs \<Rightarrow> if configs = [] then Inl NoNodes else normalizeProxyConfigs configs)))"

section \<open>What an accepted node satisfies\<close>

text \<open>The values a configuration contains, at any depth, with the keys they stand under.\<close>

inductive part_of :: "yaml \<Rightarrow> yaml \<Rightarrow> bool" where
  whole: "part_of v v"
| entry: "(key, item) \<in> set kvs \<Longrightarrow> part_of w item \<Longrightarrow> part_of w (YMap kvs)"
| item: "v \<in> set vs \<Longrightarrow> part_of w v \<Longrightarrow> part_of w (YList vs)"

text \<open>No entry names a file: certificates are given inline.\<close>

definition entry_inline :: "string \<Rightarrow> yaml \<Rightarrow> bool" where
  "entry_inline key v \<longleftrightarrow>
     key \<notin> {''ca'', ''ca-file'', ''certificate-file'', ''private-key-file''} \<and>
     (key \<in> {''certificate'', ''private-key''} \<longrightarrow> (\<exists>s. v = YStr s \<and> contains_text s ''-----BEGIN ''))"

definition inline_only :: "yaml \<Rightarrow> bool" where
  "inline_only v \<longleftrightarrow>
     (\<forall>kvs key w. part_of (YMap kvs) v \<longrightarrow> (key, w) \<in> set kvs \<longrightarrow> entry_inline key w)"

inductive_simps part_of_YMap: "part_of w (YMap kvs)"
inductive_simps part_of_YList: "part_of w (YList vs)"
inductive_cases part_of_leaf: "part_of w YNull" "part_of w (YBool b)" "part_of w (YInt i)" "part_of w (YStr s)" "part_of w (YOther s)"

lemma certificate_text: "contains_text (case v of YStr s \<Rightarrow> s | _ \<Rightarrow> []) ''-----BEGIN '' \<longleftrightarrow>
    (\<exists>s. v = YStr s \<and> contains_text s ''-----BEGIN '')"
  by (cases v) simp_all

lemma unsafe_entries_Cons:
  "unsafe_entries ((key, v) # kvs) \<longleftrightarrow> \<not> entry_inline key v \<or> unsafeFileReference v \<or> unsafe_entries kvs"
  by (simp only: unsafe_entries.simps certificate_text entry_inline_def de_Morgan_conj not_not not_imp disj_assoc)

lemma unsafe_entries_iff:
  "unsafe_entries kvs \<longleftrightarrow> (\<exists>e \<in> set kvs. \<not> entry_inline (fst e) (snd e) \<or> unsafeFileReference (snd e))"
proof (induction kvs)
  case (Cons e kvs)
  then show ?case by (cases e) (simp only: unsafe_entries_Cons list.set bex_simps fst_conv snd_conv disj_assoc)
qed simp

lemma unsafe_items_iff: "unsafe_items vs \<longleftrightarrow> (\<exists>v \<in> set vs. unsafeFileReference v)"
  by (induction vs) auto

lemma inline_only_YMap:
  "inline_only (YMap kvs) \<longleftrightarrow> (\<forall>e \<in> set kvs. entry_inline (fst e) (snd e) \<and> inline_only (snd e))" (is "_ = ?all")
proof
  assume io: "inline_only (YMap kvs)"
  show ?all
  proof
    fix e assume e: "e \<in> set kvs"
    then have "entry_inline (fst e) (snd e)"
      using io [unfolded inline_only_def, rule_format, OF part_of.whole, of "fst e" "snd e"] by simp
    moreover have "inline_only (snd e)"
      using io e part_of.entry [of "fst e" "snd e" kvs] unfolding inline_only_def by (cases e) auto
    ultimately show "entry_inline (fst e) (snd e) \<and> inline_only (snd e)" ..
  qed
next
  assume all: ?all
  show "inline_only (YMap kvs)"
    unfolding inline_only_def
  proof (intro allI impI)
    fix kvs' key w
    assume part: "part_of (YMap kvs') (YMap kvs)" and mem: "(key, w) \<in> set kvs'"
    from part consider "kvs' = kvs" | k x where "(k, x) \<in> set kvs" "part_of (YMap kvs') x"
      unfolding part_of_YMap by auto
    then show "entry_inline key w"
    proof cases
      case 1
      with all mem show ?thesis by force
    next
      case 2
      with all have "inline_only x" by force
      with 2(2) mem show ?thesis by (simp add: inline_only_def)
    qed
  qed
qed

lemma inline_only_YList: "inline_only (YList vs) \<longleftrightarrow> (\<forall>v \<in> set vs. inline_only v)"
  unfolding inline_only_def part_of_YList by blast

lemma inline_only_leaf [simp]:
  "inline_only YNull" "inline_only (YBool b)" "inline_only (YInt i)" "inline_only (YStr s)" "inline_only (YOther s)"
  by (auto simp: inline_only_def elim: part_of_leaf)

lemma safe_reference_iff: "\<not> unsafeFileReference v \<longleftrightarrow> inline_only v"
proof (induction v rule: yaml.induct)
  case (YMap kvs)
  have "\<not> unsafeFileReference (snd e) \<longleftrightarrow> inline_only (snd e)" if "e \<in> set kvs" for e
    using YMap [OF that, of "snd e"] by (cases e) simp
  then show ?case by (simp add: unsafe_entries_iff inline_only_YMap cong: ball_cong bex_cong)
next
  case (YList vs)
  then show ?case by (auto simp: unsafe_items_iff inline_only_YList)
qed simp_all

text \<open>A checked node.\<close>

definition node_ok :: "clash_node \<Rightarrow> bool" where
  "node_ok n \<longleftrightarrow>
     nd_name n \<noteq> [] \<and> length (runes (nd_name n)) \<le> 90 \<and> \<not> isSubscriptionMetadata (nd_name n) \<and>
     nd_type n \<in> set supported_types \<and> gm_get (nd_config n) ''type'' = Some (YStr (nd_type n)) \<and>
     gm_get (nd_config n) ''name'' = Some (YStr (nd_name n)) \<and>
     (\<exists>host. gm_get (nd_config n) ''server'' = Some (YStr host) \<and> host \<noteq> []) \<and>
     (\<exists>port. gm_get (nd_config n) ''port'' = Some (YInt port) \<and> 1 \<le> port \<and> port \<le> 65535) \<and>
     (\<forall>key \<in> {''dialer-proxy'', ''interface-name'', ''routing-mark''}. gm_get (nd_config n) key = None) \<and>
     inline_only (YMap (nd_config n))"

lemma config_string_Some: "config_string cfg key \<noteq> [] \<Longrightarrow> gm_get cfg key = Some (YStr (config_string cfg key))"
  by (auto simp: config_string_def split: option.splits yaml.splits)

lemma inline_only_set:
  assumes "inline_only (YMap cfg)" "inline_only v" "entry_inline key v"
  shows "inline_only (YMap (gm_set key v cfg))"
proof -
  have "set (gm_set key v cfg) \<subseteq> insert (key, v) (set cfg)" by (induction cfg) auto
  with assms show ?thesis unfolding inline_only_YMap by auto
qed


lemma Let_sum_cases:
  "(case r of Inl e \<Rightarrow> Inl e | Inr x \<Rightarrow> Inr (f x)) = Inr y \<longleftrightarrow> (\<exists>x. r = Inr x \<and> y = f x)"
  by (cases r) auto

text \<open>One accepted configuration: what was checked, and the node it becomes.\<close>

lemma normalize_configs_Cons:
  assumes "normalize_configs i seen (cfg # cfgs) = Inr nodes"
    and "\<not> isSubscriptionMetadata (trim_space (config_string cfg ''name''))"
  obtains n rest where "nodes = n # rest" "normalize_configs (Suc i) (nd_name n # seen) cfgs = Inr rest"
    "nd_name n \<notin> set seen" "node_ok n"
proof -
  define name where "name = trim_space (config_string cfg ''name'')"
  define kind where "kind = config_string cfg ''type''"
  from assms obtain port rest where
    c: "name \<noteq> []" "length (runes name) \<le> 90" "name \<notin> set seen" "kind \<in> set supported_types"
      "config_port cfg = Some port" "config_string cfg ''server'' \<noteq> []" "1 \<le> port" "port \<le> 65535"
      "List.find (\<lambda>key. gm_get cfg key \<noteq> None) [''dialer-proxy'', ''interface-name'', ''routing-mark''] = None"
      "\<not> unsafeFileReference (YMap cfg)"
      "normalize_configs (Suc i) (name # seen) cfgs = Inr rest"
    and nodes: "nodes = \<lparr>nd_source_id = [], nd_proxy_id = 0, nd_enabled = False, nd_original_name = [],
        nd_name = name, nd_type = kind, nd_config = gm_set ''port'' (YInt port) (gm_set ''name'' (YStr name) cfg),
        nd_port = 0, nd_password = []\<rparr> # rest" (is "_ = ?n # rest")
    by (simp add: name_def kind_def Let_def Let_sum_cases not_less split: if_splits option.splits) blast
  have "kind \<noteq> []" using c(4) by (auto simp: supported_types_def)
  then have kind: "gm_get cfg ''type'' = Some (YStr kind)" by (auto simp: kind_def dest: config_string_Some)
  have "inline_only (YMap (nd_config ?n))"
    using c(10) [unfolded safe_reference_iff] by (simp add: inline_only_set entry_inline_def)
  moreover have "gm_get cfg key = None" if "key \<in> {''dialer-proxy'', ''interface-name'', ''routing-mark''}" for key
  proof -
    from that have "key \<in> set [''dialer-proxy'', ''interface-name'', ''routing-mark'']" by simp
    with c(9) [unfolded find_None_iff] show ?thesis by blast
  qed
  ultimately have "node_ok ?n"
    using c(1,2,4,6,7,8) kind assms(2) config_string_Some [OF c(6)]
    by (simp add: node_ok_def gm_get_set name_def)
  with c(3,11) show thesis by (intro that [of ?n rest]) (auto simp: nodes)
qed

lemma normalize_configs_sound:
  "normalize_configs i seen cfgs = Inr nodes \<Longrightarrow>
   distinct (map nd_name nodes) \<and> set (map nd_name nodes) \<inter> set seen = {} \<and> (\<forall>n \<in> set nodes. node_ok n)"
proof (induction cfgs arbitrary: i seen nodes)
  case (Cons cfg cfgs)
  show ?case
  proof (cases "isSubscriptionMetadata (trim_space (config_string cfg ''name''))")
    case True
    with Cons.prems have "normalize_configs (Suc i) seen cfgs = Inr nodes" by (simp add: Let_def)
    then show ?thesis by (rule Cons.IH)
  next
    case False
    from Cons.prems this obtain n rest where n: "nodes = n # rest" "nd_name n \<notin> set seen" "node_ok n"
      and rest: "normalize_configs (Suc i) (nd_name n # seen) cfgs = Inr rest"
      by (rule normalize_configs_Cons)
    from Cons.IH [OF rest] n show ?thesis by auto
  qed
qed simp

lemma normalized_nodes:
  assumes "normalizeProxyConfigs cfgs = Inr nodes"
  shows "nodes \<noteq> []" "distinct (map nd_name nodes)" "n \<in> set nodes \<Longrightarrow> node_ok n"
  using assms normalize_configs_sound [of 0 "[]" cfgs]
  by (auto simp: normalizeProxyConfigs_def split: sum.splits if_splits)


definition demo_config :: node_config where
  "demo_config = [(''name'', YStr '' A ''), (''type'', YStr ''trojan''), (''server'', YStr ''host''), (''port'', YStr ''443''),
     (''certificate'', YStr ''-----BEGIN X'')]"


end
