(* ===== verification/ClashDocument.thy ===== *)
theory ClashDocument
  imports ClashNodes
begin

text \<open>
  The stored subscription document (\<open>State\<close> of \<open>internal/clash/manager.go\<close>), its normalization (\<open>source_health.go\<close>), what a fetch of
  all feeds yields (\<open>fetchFeed\<close>, \<open>fetchSubscriptionDetails\<close>), and how fetched nodes meet the stored ones
  (\<open>preserveFailedSources\<close>, \<open>feed_batch.go\<close>). The identity of a node is its source and the name its provider gave it; the
  display name is made unique.
\<close>

section \<open>The document\<close>

record clash_state =
  cs_sources :: "source list"
  cs_url :: string
  cs_revision :: int
  cs_updated_at :: gotime
  cs_nodes :: "clash_node list"

text \<open>\<open>strings.Fields\<close>: the maximal runs of bytes that are no white space.\<close>

function take_word :: "string \<Rightarrow> string \<times> string" where
  "take_word s =
     (case s of [] \<Rightarrow> ([], [])
      | c # cs \<Rightarrow> if space_len multibyte_spaces s = 0
                  then (let (w, rest) = take_word cs in (c # w, rest)) else ([], s))"
  by pat_completeness auto
termination by (relation "measure length") auto

declare take_word.simps [simp del]

lemma take_word_length: "length (snd (take_word s)) \<le> length s"
  by (induction s rule: take_word.induct) (subst take_word.simps, force split: list.split prod.split)

lemma take_word_shrinks:
  assumes "space_len multibyte_spaces s = 0" "s \<noteq> []"
  shows "length (snd (take_word s)) < length s"
proof (cases s)
  case (Cons c cs)
  with assms take_word_length [of cs] show ?thesis
    by (cases "take_word cs") (simp add: take_word.simps [of "c # cs"])
qed (use assms in simp)

lemma drop_spaces_length: "length (drop_spaces pats s) \<le> length s"
proof (induction pats s rule: drop_spaces.induct)
  case (1 pats s)
  then show ?case by (cases "space_len pats s = 0") (auto simp: drop_spaces.simps [of pats s] Let_def)
qed

function text_fields :: "string \<Rightarrow> string list" where
  "text_fields s =
     (let t = drop_spaces multibyte_spaces s
      in if t = [] then [] else (let (w, rest) = take_word t in w # text_fields rest))"
  by pat_completeness auto
termination
proof (relation "measure length")
  fix s :: string and t z w rest
  assume t: "t = drop_spaces multibyte_spaces s" "t \<noteq> []" and z: "z = take_word t" "(w, rest) = z"
  have "length rest < length t"
    using take_word_shrinks [of t] t space_len_drop z by (metis snd_conv)
  with t drop_spaces_length [of multibyte_spaces s] show "(rest, s) \<in> measure length" by simp
qed simp

declare text_fields.simps [simp del]

text \<open>The first occurrence of each, in order.\<close>

fun first_seen :: "string list \<Rightarrow> string list \<Rightarrow> string list" where
  "first_seen seen [] = []"
| "first_seen seen (u # us) = (if u \<in> set seen then first_seen seen us else u # first_seen (u # seen) us)"

datatype url_error = UrlsTooLong | NoUrl

definition subscriptionURLs :: "string \<Rightarrow> url_error + string list" where
  "subscriptionURLs raw =
     (if length raw > 65536 then Inl UrlsTooLong
      else let urls = first_seen [] (text_fields raw) in if urls = [] then Inl NoUrl else Inr urls)"

section \<open>Normalization\<close>

definition feed_word :: string where "feed_word = bytes [232, 174, 162, 233, 152, 133]"
definition middle_dot :: string where "middle_dot = bytes [32, 194, 183, 32]"

text \<open>\<open>strings.Cut\<close>: the text after the first occurrence of the separator.\<close>

fun cut_after :: "string \<Rightarrow> string \<Rightarrow> string option" where
  "cut_after [] sep = (if sep = [] then Some [] else None)"
| "cut_after (c # cs) sep = (if has_prefix (c # cs) sep then Some (drop (length sep) (c # cs)) else cut_after cs sep)"

text \<open>What \<open>Sscanf\<close> reads for the number of the pattern: after the word, white space (but no line break), a sign, digits; 0 when
  the scan fails.\<close>

definition scan_index :: "string \<Rightarrow> int" where
  "scan_index name =
     (if \<not> has_prefix name feed_word then 0
      else let s = drop (length feed_word) name; t = drop_spaces multibyte_spaces s
      in if char_of (10 :: nat) \<in> set (take (length s - length t) s) then 0
         else let (sign, ds) = (case t of [] \<Rightarrow> ([], []) | c # cs \<Rightarrow> if c = CHR ''+'' \<or> c = CHR ''-'' then ([c], cs) else ([], t))
         in (case parse_int64 (sign @ takeWhile (\<lambda>c. digit_val c \<noteq> None) ds) of None \<Rightarrow> 0 | Some i \<Rightarrow> i))"

definition normalize_node :: "string list \<Rightarrow> source list \<Rightarrow> clash_node \<Rightarrow> clash_node" where
  "normalize_node urls sources n =
     (let n = (if nd_original_name n \<noteq> [] then n
               else n\<lparr>nd_original_name :=
                 (if length urls > 1 \<and> has_prefix (nd_name n) feed_word
                  then (case cut_after (nd_name n) middle_dot of None \<Rightarrow> nd_name n | Some name \<Rightarrow> name)
                  else nd_name n)\<rparr>)
      in if nd_source_id n \<noteq> [] then n
         else let index = (if length urls > 1 then scan_index (nd_name n) else if length urls = 1 then 1 else 0)
         in if index > 0 \<and> index \<le> int (length sources)
            then n\<lparr>nd_source_id := src_id (sources ! nat (index - 1))\<rparr> else n)"

definition normalize_state :: "(string \<Rightarrow> string) \<Rightarrow> (string \<Rightarrow> string) \<Rightarrow> clash_state \<Rightarrow> clash_state" where
  "normalize_state sid hint s =
     (let urls = text_fields (cs_url s); sources = normalizeSources sid hint urls (cs_sources s)
      in s\<lparr>cs_sources := sources, cs_nodes := map (normalize_node urls sources) (cs_nodes s)\<rparr>)"

section \<open>Fetching\<close>

text \<open>What the request of one feed meets: no valid request, no answer, or a status with the traffic header and the body, if it
  can be read.\<close>

datatype feed_response = NotSent | NoAnswer | Answer int string "string option"

definition validateURL :: "(string \<Rightarrow> url option) \<Rightarrow> string \<Rightarrow> bool" where
  "validateURL ParseURL raw =
     (case ParseURL raw of None \<Rightarrow> False
      | Some u \<Rightarrow> url_hostname u \<noteq> [] \<and> url_user u = None \<and> url_fragment u = [] \<and>
          url_scheme u \<in> {''https'', ''http''} \<and> length raw \<le> 4096)"

text \<open>The third-party and hashing parts of a fetch.\<close>

record fetch_env =
  fe_lower :: "string \<Rightarrow> string"
  fe_sid :: "string \<Rightarrow> string"
  fe_hint :: "string \<Rightarrow> string"
  fe_yaml :: "string \<Rightarrow> node_config list option"
  fe_url :: "string \<Rightarrow> url option"

definition fetchFeed ::
    "fetch_env \<Rightarrow> gotime \<Rightarrow> string \<Rightarrow> nat \<Rightarrow> feed_response \<Rightarrow> clash_node list \<times> source" where
  "fetchFeed env now raw index response =
     (let src = zero_source\<lparr>src_id := fe_sid env raw, src_index := int index, src_url_hint := fe_hint env raw,
                 src_checked_at := now\<rparr>;
          fail = (\<lambda>src code. ([], src\<lparr>src_fetch_error := code\<rparr>))
      in if \<not> validateURL (fe_url env) raw then fail src ''invalid_url''
         else case response of
                NotSent \<Rightarrow> fail src ''invalid_url''
              | NoAnswer \<Rightarrow> fail src ''connection_failed''
              | Answer status header body \<Rightarrow>
                  let src = src\<lparr>src_http_status := status\<rparr>
                  in if status \<noteq> 200 then fail src ''http_error''
                     else let src = src\<lparr>src_traffic := parseSourceTraffic (fe_lower env) header now\<rparr>
                     in case body of None \<Rightarrow> fail src ''read_failed''
                        | Some b \<Rightarrow>
                            (case parseSubscription (fe_yaml env) (fe_url env) (take (maxBody + 1) b) of
                               Inl _ \<Rightarrow> fail src ''invalid_subscription''
                             | Inr nodes \<Rightarrow>
                                 (map (\<lambda>n. n\<lparr>nd_source_id := src_id src, nd_original_name := nd_name n\<rparr>) nodes,
                                  src\<lparr>src_node_count := int (length nodes), src_last_success_at := now\<rparr>)))"

text \<open>The display name of a node of one of several feeds, cut at 90 runes.\<close>

definition feed_name :: "nat \<Rightarrow> string \<Rightarrow> string" where
  "feed_name index name = concat (take 90 (runes (feed_word @ decimal index @ middle_dot @ name)))"

definition rename :: "string \<Rightarrow> clash_node \<Rightarrow> clash_node" where
  "rename name n = n\<lparr>nd_name := name, nd_config := gm_set ''name'' (YStr name) (nd_config n)\<rparr>"

text \<open>
  \<open>fetchSubscriptionDetails\<close>: \<open>answers i\<close> is the answer of feed number \<open>i\<close> with the time of its request, \<open>None\<close> when the batch
  ended before it was complete. Results are stored by index, so the order in which the workers deliver them is irrelevant.
\<close>

definition fetch_one :: "fetch_env \<Rightarrow> (nat \<Rightarrow> (gotime \<times> feed_response) option) \<Rightarrow> bool \<Rightarrow> nat \<times> string \<Rightarrow> clash_node list \<times> source" where
  "fetch_one env answers several = (\<lambda>(i, u).
     case answers i of
       None \<Rightarrow> ([], zero_source\<lparr>src_id := fe_sid env u, src_index := int i, src_url_hint := fe_hint env u,
                       src_fetch_error := ''not_checked''\<rparr>)
     | Some (now, response) \<Rightarrow>
         (let (nodes, src) = fetchFeed env now u i response
          in (if several then map (\<lambda>n. rename (feed_name i (nd_name n)) n) nodes else nodes, src)))"

definition fetchSubscriptionDetails ::
    "fetch_env \<Rightarrow> (nat \<Rightarrow> (gotime \<times> feed_response) option) \<Rightarrow> string \<Rightarrow> url_error + clash_node list \<times> source list" where
  "fetchSubscriptionDetails env answers raw =
     (case subscriptionURLs raw of Inl e \<Rightarrow> Inl e
      | Inr urls \<Rightarrow>
          (let results = map (fetch_one env answers (length urls > 1)) (enumerate 1 urls)
           in Inr (concat (map fst results), map snd results)))"

section \<open>Stored nodes and fetched nodes\<close>

definition nodeKey :: "clash_node \<Rightarrow> string" where
  "nodeKey n = nd_source_id n @ [char_of (0 :: nat)] @ nd_original_name n"

text \<open>A Go map filled in order: the last entry of a key stays.\<close>

definition last_by :: "('a \<Rightarrow> 'k) \<Rightarrow> 'a list \<Rightarrow> 'k \<rightharpoonup> 'a" where
  "last_by key xs = foldl (\<lambda>m x. m(key x \<mapsto> x)) Map.empty xs"

text \<open>The name a new node gets on attempt \<open>k\<close>: its own, then a cut of it with the start of its source id (24 hexadecimal
  digits) and a number.\<close>

definition name_attempt :: "clash_node \<Rightarrow> nat \<Rightarrow> string" where
  "name_attempt n k =
     (if k = 0 then nd_name n
      else let tag = middle_dot @ take 6 (nd_source_id n) @ ''-'' @ decimal k
      in concat (take (90 - length (runes tag)) (runes (nd_name n))) @ tag)"

lemma name_attempt_inject:
  assumes "name_attempt n i = name_attempt n j" "0 < i" "0 < j"
  shows "i = j"
proof -
  have nodash: "CHR ''-'' \<notin> set (decimal k)" for k
  proof
    assume "CHR ''-'' \<in> set (decimal k)"
    then obtain d where d: "d < 10" "CHR ''-'' = char_of (48 + (d :: nat))" by (blast dest: decimal_digits)
    from arg_cong [OF d(2), of "of_char :: char \<Rightarrow> nat"] d(1) show False by simp
  qed
  have "\<exists>a. name_attempt n k = a @ ''-'' @ decimal k" if "0 < k" for k
    using that by (simp add: name_attempt_def Let_def)
  with assms obtain a b where "a @ ''-'' @ decimal i = b @ ''-'' @ decimal j" by metis
  then have "rev (decimal i) @ CHR ''-'' # rev a = rev (decimal j) @ CHR ''-'' # rev b"
    by (metis append.assoc append_Cons append_Nil rev_append rev_singleton_conv rev.simps(2))
  then have "takeWhile (\<lambda>c. c \<noteq> CHR ''-'') (rev (decimal i) @ CHR ''-'' # rev a) =
      takeWhile (\<lambda>c. c \<noteq> CHR ''-'') (rev (decimal j) @ CHR ''-'' # rev b)" by simp
  moreover have "takeWhile (\<lambda>c. c \<noteq> CHR ''-'') (rev (decimal k) @ CHR ''-'' # x) = rev (decimal k)" for k x
    using nodash [of k] by (subst takeWhile_append2) auto
  ultimately show ?thesis by simp
qed

lemma finite_attempts: "finite {j. name_attempt n j \<in> set used}"
proof -
  have "inj_on (name_attempt n) {j. 0 < j \<and> name_attempt n j \<in> set used}"
    by (rule inj_onI) (auto dest: name_attempt_inject)
  moreover have "finite (name_attempt n ` {j. 0 < j \<and> name_attempt n j \<in> set used})"
    by (rule finite_subset [of _ "set used"]) auto
  ultimately have "finite {j. 0 < j \<and> name_attempt n j \<in> set used}" by (rule finite_imageD [rotated])
  then show ?thesis by (rule finite_subset [rotated, OF finite_insert [of 0, THEN iffD2]]) auto
qed

function free_name :: "string list \<Rightarrow> clash_node \<Rightarrow> nat \<Rightarrow> string" where
  "free_name used n k = (if name_attempt n k \<in> set used then free_name used n (Suc k) else name_attempt n k)"
  by pat_completeness auto
termination
proof (relation "measure (\<lambda>(used, n, k). card {j. k \<le> j \<and> name_attempt n j \<in> set used})")
  fix used n k
  assume used: "name_attempt n k \<in> set used"
  let ?left = "\<lambda>k. {j. k \<le> j \<and> name_attempt n j \<in> set used}"
  have "k \<in> ?left k" "k \<notin> ?left (Suc k)" using used by auto
  moreover have "?left (Suc k) \<subseteq> ?left k" by auto
  ultimately have "?left (Suc k) \<subset> ?left k" by (metis psubsetI)
  moreover have "finite (?left k)" by (rule finite_subset [OF _ finite_attempts]) auto
  ultimately have "card (?left (Suc k)) < card (?left k)" by (rule psubset_card_mono [rotated])
  then show "((used, n, Suc k), (used, n, k)) \<in> measure (\<lambda>(used, n, k). card {j. k \<le> j \<and> name_attempt n j \<in> set used})"
    by simp
qed simp

declare free_name.simps [simp del]

text \<open>The second loop: names for the nodes that are not stored yet, and the display name in every configuration.\<close>

fun assign_names :: "(string \<Rightarrow> bool) \<Rightarrow> string list \<Rightarrow> clash_node list \<Rightarrow> clash_node list" where
  "assign_names known used [] = []"
| "assign_names known used (n # ns) =
     (if known (nodeKey n) then rename (nd_name n) n # assign_names known used ns
      else let name = free_name used n 0 in rename name n # assign_names known (name # used) ns)"

text \<open>The first loop: a stored node keeps its display name.\<close>

definition stored_name :: "(string \<rightharpoonup> clash_node) \<Rightarrow> clash_node \<Rightarrow> clash_node" where
  "stored_name existing n = (case existing (nodeKey n) of None \<Rightarrow> n | Some old \<Rightarrow> n\<lparr>nd_name := nd_name old\<rparr>)"

definition preserveFailedSources ::
    "fetch_env \<Rightarrow> clash_state \<Rightarrow> clash_node list \<Rightarrow> source list \<Rightarrow> clash_node list \<times> string list" where
  "preserveFailedSources env previous nodes sources =
     (let previous = normalize_state (fe_sid env) (fe_hint env) previous;
          existing = last_by nodeKey (cs_nodes previous);
          failed = set (map src_id (filter (\<lambda>s. src_fetch_error s \<noteq> []) sources));
          kept = filter (\<lambda>n. nd_source_id n \<in> failed \<and> nd_enabled n) (cs_nodes previous);
          retained = map nd_name kept;
          named = map (stored_name existing) (nodes @ kept);
          used = List.map_filter (\<lambda>n. map_option nd_name (existing (nodeKey n))) (nodes @ kept)
      in (assign_names (\<lambda>key. existing key \<noteq> None) used named, retained))"

end
