(* ===== verification/ProxyHealth.thy ===== *)
theory ProxyHealth
  imports ClashSources
begin

text \<open>
  Health of the outgoing proxies (\<open>internal/proxyfailover\<close>: the types of \<open>manager.go\<close>, \<open>probe.go\<close>,
  \<open>quality.go\<close>, the route guards of \<open>generation_health.go\<close> and the merge of probe results of
  \<open>refreshHealth\<close>). The digest of a proxy's JSON form is the parameter \<open>fp\<close> of the exported fields,
  the only ones \<open>json.Marshal\<close> sees; the HTTP exchange of a probe is the parameter \<open>resp\<close>.
\<close>

section \<open>Types\<close>

text \<open>The exported fields of \<open>type proxy\<close>, extended by the unexported ones. A nullable time is an
  option; an unexported time is zero when it is absent.\<close>

record proxy_def =
  px_id :: int
  px_protocol :: string
  px_host :: string
  px_username :: string
  px_password :: string
  px_status :: string
  px_port :: int
  px_expires_at :: "gotime option"
  px_updated_at :: gotime
  px_deleted :: bool

record proxy = proxy_def +
  px_source_traffic_available :: bool
  px_source_id :: string
  px_source_blocked :: bool
  px_generation_blocked :: bool
  px_generation_proven :: bool
  px_excluded :: bool
  px_retry_after :: gotime

record health =
  h_latency_ewma :: int
  h_slow_checks :: int
  h_success_permille :: int
  h_proxy_id :: int
  h_status :: string
  h_failures :: int
  h_latency_ms :: int
  h_checked_at :: gotime
  h_message :: string
  h_fingerprint :: string

definition zero_health :: health where
  "zero_health = \<lparr>h_latency_ewma = 0, h_slow_checks = 0, h_success_permille = 0, h_proxy_id = 0,
     h_status = [], h_failures = 0, h_latency_ms = 0, h_checked_at = 0, h_message = [], h_fingerprint = []\<rparr>"

definition zero_proxy :: proxy where
  "zero_proxy = \<lparr>px_id = 0, px_protocol = [], px_host = [], px_username = [], px_password = [],
     px_status = [], px_port = 0, px_expires_at = None, px_updated_at = 0, px_deleted = False,
     px_source_traffic_available = False, px_source_id = [], px_source_blocked = False,
     px_generation_blocked = False, px_generation_proven = False, px_excluded = False, px_retry_after = 0\<rparr>"

text \<open>Reading a Go map that lacks the key yields the zero value.\<close>

definition proxy_at :: "(int \<rightharpoonup> proxy) \<Rightarrow> int \<Rightarrow> proxy" where
  "proxy_at ps i = (case ps i of None \<Rightarrow> zero_proxy | Some p \<Rightarrow> p)"

definition health_at :: "(int \<rightharpoonup> health) \<Rightarrow> int \<Rightarrow> health" where
  "health_at hs i = (case hs i of None \<Rightarrow> zero_health | Some h \<Rightarrow> h)"

definition networkAvailable :: "proxy \<Rightarrow> gotime \<Rightarrow> bool" where
  "networkAvailable p now \<longleftrightarrow>
     \<not> px_source_blocked p \<and> \<not> px_deleted p \<and> px_status p = ''active''
     \<and> (case px_expires_at p of None \<Rightarrow> True | Some e \<Rightarrow> e > now)"

definition available :: "proxy \<Rightarrow> gotime \<Rightarrow> bool" where
  "available p now \<longleftrightarrow> \<not> px_retry_after p > now \<and> \<not> px_excluded p \<and> networkAvailable p now"

definition fingerprint :: "(proxy_def \<Rightarrow> string) \<Rightarrow> proxy \<Rightarrow> string" where
  "fingerprint fp p = fp (proxy_def.truncate p)"

definition freshness :: duration where
  "freshness = 45 * sec"

section \<open>Probes\<close>

definition classifyStatus :: "int \<Rightarrow> string \<times> string" where
  "classifyStatus code =
     (if 200 \<le> code \<and> code < 300 \<or> code = 401 \<or> code = 404 \<or> code = 405 then (''healthy'', ''adobe_reachable'')
      else if code = 403 \<or> code = 407 then (''unhealthy'', ''access_denied'')
      else (''unknown'', ''upstream_unavailable''))"

text \<open>\<open>resp\<close> is the outcome of building the client and sending the HEAD request: the latency in
  milliseconds and the status code, or \<open>None\<close> for any transport error.\<close>

definition probeAdobe :: "gotime \<Rightarrow> (int \<times> int) option \<Rightarrow> proxy \<Rightarrow> health" where
  "probeAdobe now resp p =
     (let result = zero_health\<lparr>h_status := ''unhealthy'', h_message := ''connection_failed''\<rparr> in
      if \<not> networkAvailable p now then result\<lparr>h_message := ''proxy_unavailable''\<rparr>
      else if px_host p = [] \<or> px_port p \<le> 0 then result
      else (case resp of
              None \<Rightarrow> result
            | Some (latency, code) \<Rightarrow>
                result\<lparr>h_latency_ms := latency, h_status := fst (classifyStatus code),
                       h_message := snd (classifyStatus code)\<rparr>))"

section \<open>Quality\<close>

definition slowLatencyMS :: int where "slowLatencyMS = 2000"

definition softSwitchCooldown :: duration where "softSwitchCooldown = 5 * minute"

definition qualityObservation :: "health \<Rightarrow> health \<Rightarrow> health" where
  "qualityObservation old h =
     (let old = (if h_fingerprint old \<noteq> h_fingerprint h
                    \<or> time_sub (h_checked_at h) (h_checked_at old) > 2 * ProbeFreshness 512
                 then zero_health else old);
          h = h\<lparr>h_slow_checks := 0, h_latency_ewma := h_latency_ewma old,
                h_success_permille := h_success_permille old\<rparr>
      in if h_status h = ''healthy'' then
           h\<lparr>h_success_permille :=
                 (if h_success_permille old = 0 \<and> h_status old \<noteq> ''unhealthy'' then 1000
                  else godiv (i64 (i64 (3 * h_success_permille old) + 1000)) 4),
             h_latency_ewma :=
                 (if h_latency_ewma old \<le> 0 then h_latency_ms h
                  else godiv (i64 (i64 (3 * h_latency_ewma old) + h_latency_ms h)) 4),
             h_slow_checks :=
                 (if h_latency_ms h > slowLatencyMS then min 100 (i64 (h_slow_checks old + 1)) else 0)\<rparr>
         else if h_status h = ''unhealthy'' then
           h\<lparr>h_success_permille := godiv (i64 (3 * h_success_permille old)) 4\<rparr>
         else h)"

definition routeLatency :: "health \<Rightarrow> int" where
  "routeLatency h = (if h_latency_ewma h > 0 then h_latency_ewma h else max 1 (h_latency_ms h))"

definition routeScore :: "health \<Rightarrow> int \<Rightarrow> int" where
  "routeScore h used =
     (let rate = (if h_success_permille h \<le> 0 then 1000 else h_success_permille h)
      in godiv (i64 (i64 (routeLatency h * i64 (100 + i64 (15 * used))) * 1000))
               (i64 (100 * max rate 100)))"

definition betterLatencyRoute :: "health \<Rightarrow> health \<Rightarrow> bool" where
  "betterLatencyRoute current candidate =
     (let before = routeLatency current; after = routeLatency candidate
      in h_slow_checks current \<ge> 3 \<and> i64 (after * 10) \<le> i64 (before * 7) \<and> i64 (before - after) \<ge> 500)"

definition generationRouteScore :: "proxy \<Rightarrow> health \<Rightarrow> int \<Rightarrow> int" where
  "generationRouteScore p h used =
     (let score = routeScore h used
      in if px_generation_proven p then max 1 (godiv score 2) else score)"

section \<open>Route guards\<close>

text \<open>\<open>show\<close> renders the proxy id in decimal (\<open>fmt.Sprintf("proxy:%d", id)\<close>).\<close>

definition routeSource :: "(int \<Rightarrow> string) \<Rightarrow> proxy \<Rightarrow> string" where
  "routeSource show p = (if px_source_id p \<noteq> [] then px_source_id p else ''proxy:'' @ show (px_id p))"

definition testRouteAvailable :: "(int \<Rightarrow> string) \<Rightarrow> proxy \<Rightarrow> string list \<Rightarrow> bool \<Rightarrow> gotime \<Rightarrow> bool" where
  "testRouteAvailable show p excludeSources requireClash now \<longleftrightarrow>
     networkAvailable p now \<and> \<not> px_excluded p \<and> \<not> px_retry_after p > now
     \<and> (\<not> requireClash \<or> px_source_id p \<noteq> []) \<and> routeSource show p \<notin> set excludeSources"

definition allocationRouteAvailable :: "proxy \<Rightarrow> gotime \<Rightarrow> bool \<Rightarrow> bool" where
  "allocationRouteAvailable p now adobe = (if adobe then available p now else networkAvailable p now)"

definition freshHealthy :: "(proxy_def \<Rightarrow> string) \<Rightarrow> proxy \<Rightarrow> health \<Rightarrow> gotime \<Rightarrow> bool" where
  "freshHealthy fp p h now \<longleftrightarrow>
     available p now \<and> h_status h = ''healthy'' \<and> h_fingerprint h = fingerprint fp p
     \<and> time_sub now (h_checked_at h) \<le> freshness"

section \<open>Refreshing health\<close>

text \<open>Which proxies a round probes.\<close>

definition probe_due :: "(proxy_def \<Rightarrow> string) \<Rightarrow> (int \<rightharpoonup> health) \<Rightarrow> gotime \<Rightarrow> int \<Rightarrow> proxy \<Rightarrow> bool" where
  "probe_due fp hs now i p \<longleftrightarrow>
     h_fingerprint (health_at hs i) \<noteq> fingerprint fp p
     \<or> time_sub now (h_checked_at (health_at hs i)) \<ge> 20 * sec"

text \<open>A worker stamps a probe result with the proxy's identity.\<close>

definition stamp_probe :: "(proxy_def \<Rightarrow> string) \<Rightarrow> gotime \<Rightarrow> proxy \<Rightarrow> health \<Rightarrow> health" where
  "stamp_probe fp now p h = h\<lparr>h_proxy_id := px_id p, h_fingerprint := fingerprint fp p, h_checked_at := now\<rparr>"

text \<open>The loop over the results: consecutive failures of the same endpoint are counted. \<open>nps\<close> is
  the number of known proxies.\<close>

definition merge_result :: "int \<Rightarrow> (int \<rightharpoonup> health) \<Rightarrow> health \<Rightarrow> (int \<rightharpoonup> health)" where
  "merge_result nps hs h =
     (let old = health_at hs (h_proxy_id h);
          h = (if h_status h = ''unhealthy'' then
                 h\<lparr>h_failures :=
                     (if h_status old = ''unhealthy'' \<and> h_fingerprint old = h_fingerprint h
                         \<and> time_sub (h_checked_at h) (h_checked_at old) < max (3 * minute) (2 * ProbeFreshness nps)
                      then min (i64 (h_failures old + 1)) 100 else 1)\<rparr>
               else h)
      in hs(h_proxy_id h \<mapsto> qualityObservation old h))"

definition refresh_results :: "int \<Rightarrow> (int \<rightharpoonup> health) \<Rightarrow> health list \<Rightarrow> (int \<rightharpoonup> health)" where
  "refresh_results nps hs results = foldl (merge_result nps) hs results"

text \<open>\<open>persistHealth\<close> upserts the rows whose fingerprint still matches the proxy's definition.\<close>

definition persistHealth ::
    "(proxy_def \<Rightarrow> string) \<Rightarrow> (int \<rightharpoonup> proxy) \<Rightarrow> (int \<rightharpoonup> health) \<Rightarrow> (int \<rightharpoonup> health) \<Rightarrow> (int \<rightharpoonup> health)" where
  "persistHealth fp ps hs table =
     (\<lambda>i. case (hs i, ps i) of
            (Some h, Some p) \<Rightarrow> if h_fingerprint h = fingerprint fp p then Some h else table i
          | _ \<Rightarrow> table i)"

section \<open>Lemmas\<close>

lemma available_zero [simp]: "\<not> available zero_proxy now"
  by (simp add: available_def networkAvailable_def zero_proxy_def)

lemma networkAvailable_zero [simp]: "\<not> networkAvailable zero_proxy now"
  by (simp add: networkAvailable_def zero_proxy_def)

lemma available_network: "available p now \<Longrightarrow> networkAvailable p now"
  by (simp add: available_def)

lemma allocationRoute_network: "allocationRouteAvailable p now adobe \<Longrightarrow> networkAvailable p now"
  by (auto simp: allocationRouteAvailable_def available_def split: if_splits)

text \<open>Only the exported definition enters the fingerprint.\<close>

lemma fingerprint_flags [simp]:
  "fingerprint fp (p\<lparr>px_source_blocked := b1, px_generation_blocked := b2, px_generation_proven := b3,
     px_excluded := b4, px_retry_after := t\<rparr>) = fingerprint fp p"
  by (simp add: fingerprint_def proxy_def.truncate_def)

lemma fst_classify: "fst (classifyStatus c) \<in> {''healthy'', ''unhealthy'', ''unknown''}"
  by (simp add: classifyStatus_def)

text \<open>What a stored health record satisfies.\<close>

definition health_ok :: "int \<Rightarrow> health \<Rightarrow> bool" where
  "health_ok lat h \<longleftrightarrow>
     0 \<le> h_success_permille h \<and> h_success_permille h \<le> 1000
     \<and> 0 \<le> h_slow_checks h \<and> h_slow_checks h \<le> 100
     \<and> 0 \<le> h_failures h \<and> h_failures h \<le> 100
     \<and> 0 \<le> h_latency_ms h \<and> h_latency_ms h \<le> lat \<and> 0 \<le> h_latency_ewma h \<and> h_latency_ewma h \<le> lat"

lemma zero_health_ok: "0 \<le> lat \<Longrightarrow> health_ok lat zero_health"
  by (simp add: health_ok_def zero_health_def)

lemma health_at_ok:
  "0 \<le> lat \<Longrightarrow> (\<And>i h. hs i = Some h \<Longrightarrow> health_ok lat h) \<Longrightarrow> health_ok lat (health_at hs i)"
  by (auto simp: health_at_def zero_health_ok split: option.split)

lemma mean3: "0 \<le> a \<Longrightarrow> 0 \<le> b \<Longrightarrow> a \<le> m \<Longrightarrow> b \<le> m \<Longrightarrow> m < 2 ^ 60 \<Longrightarrow>
    godiv (i64 (i64 (3 * a) + b)) 4 = (3 * a + b) div 4"
  by (subst (1 2) i64_small) (auto simp: i64_small godiv_nonneg)

text \<open>The two cases of \<open>qualityObservation\<close> by whether the old record is still comparable.\<close>

definition comparable :: "health \<Rightarrow> health \<Rightarrow> health" where
  "comparable old h = (if h_fingerprint old \<noteq> h_fingerprint h
       \<or> time_sub (h_checked_at h) (h_checked_at old) > 2 * ProbeFreshness 512 then zero_health else old)"

lemma qualityObservation_healthy:
  "h_status h = ''healthy'' \<Longrightarrow> qualityObservation old h = h\<lparr>
     h_success_permille := (if h_success_permille (comparable old h) = 0 \<and> h_status (comparable old h) \<noteq> ''unhealthy''
        then 1000 else godiv (i64 (i64 (3 * h_success_permille (comparable old h)) + 1000)) 4),
     h_latency_ewma := (if h_latency_ewma (comparable old h) \<le> 0 then h_latency_ms h
        else godiv (i64 (i64 (3 * h_latency_ewma (comparable old h)) + h_latency_ms h)) 4),
     h_slow_checks := (if h_latency_ms h > slowLatencyMS then min 100 (i64 (h_slow_checks (comparable old h) + 1)) else 0)\<rparr>"
  by (simp add: qualityObservation_def comparable_def Let_def)

lemma qualityObservation_other:
  "h_status h \<noteq> ''healthy'' \<Longrightarrow> qualityObservation old h = h\<lparr>
     h_slow_checks := 0, h_latency_ewma := h_latency_ewma (comparable old h),
     h_success_permille := (if h_status h = ''unhealthy'' then godiv (i64 (3 * h_success_permille (comparable old h))) 4
        else h_success_permille (comparable old h))\<rparr>"
  by (simp add: qualityObservation_def comparable_def Let_def)

lemma comparable_ok: "0 \<le> lat \<Longrightarrow> health_ok lat old \<Longrightarrow> health_ok lat (comparable old h)"
  by (simp add: comparable_def zero_health_ok)

lemma qualityObservation_ok:
  assumes lat: "0 \<le> lat" "lat < 2 ^ 60" and old: "health_ok lat old" and h: "health_ok lat h"
  shows "health_ok lat (qualityObservation old h)"
proof -
  let ?o = "comparable old h"
  from comparable_ok [OF lat(1) old] have o: "health_ok lat ?o" .
  have slow: "i64 (h_slow_checks ?o + 1) = h_slow_checks ?o + 1"
    using o by (intro i64_small) (auto simp: health_ok_def)
  have p1: "godiv (i64 (i64 (3 * h_success_permille ?o) + 1000)) 4 = (3 * h_success_permille ?o + 1000) div 4"
    using o by (intro mean3 [where m = 1000]) (auto simp: health_ok_def)
  have p2: "godiv (i64 (3 * h_success_permille ?o)) 4 = 3 * h_success_permille ?o div 4"
    using o by (subst i64_small) (auto simp: health_ok_def godiv_nonneg)
  have e: "godiv (i64 (i64 (3 * h_latency_ewma ?o) + h_latency_ms h)) 4 = (3 * h_latency_ewma ?o + h_latency_ms h) div 4"
    using o h lat by (intro mean3 [where m = lat]) (auto simp: health_ok_def)
  show ?thesis
  proof (cases "h_status h = ''healthy''")
    case True
    show ?thesis using o h unfolding qualityObservation_healthy [OF True] slow p1 e health_ok_def by auto
  next
    case False
    show ?thesis using o h unfolding qualityObservation_other [OF False] p2 health_ok_def by auto
  qed
qed

lemma merge_result_ok:
  assumes lat: "0 \<le> lat" "lat < 2 ^ 60" and hs: "\<And>i h. hs i = Some h \<Longrightarrow> health_ok lat h"
    and h: "health_ok lat h" and res: "merge_result nps hs h i = Some h'"
  shows "health_ok lat h'"
proof -
  let ?old = "health_at hs (h_proxy_id h)"
  have old: "health_ok lat ?old" by (rule health_at_ok [OF lat(1) hs])
  then have "i64 (h_failures ?old + 1) = h_failures ?old + 1"
    by (intro i64_small) (auto simp: health_ok_def)
  with old h have new: "health_ok lat (h\<lparr>h_failures := min (i64 (h_failures ?old + 1)) 100\<rparr>)"
    "health_ok lat (h\<lparr>h_failures := 1\<rparr>)"
    by (auto simp: health_ok_def)
  show ?thesis using res hs qualityObservation_ok [OF lat old] new h
    by (auto simp: merge_result_def Let_def split: if_splits)
qed

lemma refresh_results_ok:
  assumes lat: "0 \<le> lat" "lat < 2 ^ 60"
  shows "(\<And>i h. hs i = Some h \<Longrightarrow> health_ok lat h) \<Longrightarrow> (\<And>h. h \<in> set rs \<Longrightarrow> health_ok lat h) \<Longrightarrow>
    refresh_results nps hs rs i = Some h \<Longrightarrow> health_ok lat h"
proof (induction rs arbitrary: hs i h)
  case Nil
  then show ?case by (simp add: refresh_results_def)
next
  case (Cons r rs)
  have r: "health_ok lat r" and rs: "\<And>h. h \<in> set rs \<Longrightarrow> health_ok lat h"
    using Cons.prems(2) by simp_all
  have step: "\<And>i' h'. merge_result nps hs r i' = Some h' \<Longrightarrow> health_ok lat h'"
    by (rule merge_result_ok [OF lat Cons.prems(1) r])
  have res: "refresh_results nps (merge_result nps hs r) rs i = Some h"
    using Cons.prems(3) by (simp only: refresh_results_def foldl_Cons)
  show ?case by (rule Cons.IH [OF step rs res])
qed

text \<open>Scores of plausible records do not overflow and are positive.\<close>

lemma routeLatency_pos: "health_ok lat h \<Longrightarrow> 0 < routeLatency h"
  by (simp add: routeLatency_def max_def)

lemma routeLatency_le: "health_ok lat h \<Longrightarrow> 1 \<le> lat \<Longrightarrow> routeLatency h \<le> lat"
  by (auto simp: routeLatency_def health_ok_def)

lemma routeScore_exact:
  assumes h: "health_ok lat h" and lat: "1 \<le> lat" "lat \<le> 10 ^ 9" and used: "0 \<le> used" "used \<le> 1000"
  shows "routeScore h used =
    routeLatency h * (100 + 15 * used) * 1000 div (100 * max (if h_success_permille h = 0 then 1000 else h_success_permille h) 100)"
proof -
  let ?l = "routeLatency h" and ?r = "if h_success_permille h \<le> 0 then 1000 else h_success_permille h"
  have l: "0 < ?l" "?l \<le> 10 ^ 9" using routeLatency_pos [OF h] routeLatency_le [OF h lat(1)] lat(2) by auto
  have m: "?l * (100 + 15 * used) \<le> 10 ^ 9 * 15100"
    by (rule mult_mono) (use l used in auto)
  have p: "0 \<le> ?l * (100 + 15 * used)" using l used by simp
  have u: "i64 (100 + i64 (15 * used)) = 100 + 15 * used"
    using used by (simp add: i64_small)
  have a: "i64 (?l * (100 + 15 * used)) = ?l * (100 + 15 * used)" using m p by (intro i64_small) auto
  have b: "i64 (?l * (100 + 15 * used) * 1000) = ?l * (100 + 15 * used) * 1000" using m p by (intro i64_small) auto
  have r: "?r \<le> 1000" "0 < ?r" using h by (auto simp: health_ok_def)
  then have c: "i64 (100 * max ?r 100) = 100 * max ?r 100" by (intro i64_small) auto
  have "routeScore h used = godiv (?l * (100 + 15 * used) * 1000) (100 * max ?r 100)"
    unfolding routeScore_def Let_def u a b c by (rule refl)
  also have "\<dots> = ?l * (100 + 15 * used) * 1000 div (100 * max ?r 100)"
    using p r by (intro godiv_nonneg) auto
  finally show ?thesis using h by (simp add: health_ok_def)
qed


lemma merge_result_other: "i \<noteq> h_proxy_id h \<Longrightarrow> merge_result nps hs h i = hs i"
  by (simp add: merge_result_def Let_def)

lemma qualityObservation_frame [simp]:
  "h_status (qualityObservation old h) = h_status h" "h_failures (qualityObservation old h) = h_failures h"
  "h_fingerprint (qualityObservation old h) = h_fingerprint h" "h_checked_at (qualityObservation old h) = h_checked_at h"
  "h_proxy_id (qualityObservation old h) = h_proxy_id h" "h_latency_ms (qualityObservation old h) = h_latency_ms h"
  by (simp_all add: qualityObservation_def Let_def)

lemma probe_failures [simp]: "h_failures (probeAdobe now resp p) = 0"
  by (simp add: probeAdobe_def zero_health_def Let_def split: option.split)

text \<open>The previous failure continues a streak of the same endpoint.\<close>

definition streak_continues :: "int \<Rightarrow> health \<Rightarrow> health \<Rightarrow> bool" where
  "streak_continues nps old h \<longleftrightarrow> h_status old = ''unhealthy'' \<and> h_fingerprint old = h_fingerprint h
     \<and> time_sub (h_checked_at h) (h_checked_at old) < max (3 * minute) (2 * ProbeFreshness nps)"

lemma merge_result_failures:
  "merge_result nps hs h (h_proxy_id h) = Some h' \<Longrightarrow> h_failures h' =
     (if h_status h \<noteq> ''unhealthy'' then h_failures h
      else if streak_continues nps (health_at hs (h_proxy_id h)) h
      then min (i64 (h_failures (health_at hs (h_proxy_id h)) + 1)) 100 else 1)"
  by (auto simp: merge_result_def Let_def streak_continues_def)

lemma routeScore_mono:
  assumes h: "health_ok lat h" and h': "health_ok lat h'" and lat: "1 \<le> lat" "lat \<le> 10 ^ 9"
    and used: "0 \<le> u" "u \<le> u'" "u' \<le> 1000"
    and le: "routeLatency h \<le> routeLatency h'" and rate: "h_success_permille h = h_success_permille h'"
  shows "routeScore h u \<le> routeScore h' u'"
proof -
  have "routeLatency h * (100 + 15 * u) \<le> routeLatency h' * (100 + 15 * u')"
    using le used routeLatency_pos [OF h'] by (intro mult_mono) auto
  then show ?thesis
    using used unfolding routeScore_exact [OF h lat used(1) order.trans [OF used(2,3)]]
      routeScore_exact [OF h' lat order.trans [OF used(1,2)] used(3)] rate
    by (intro zdiv_mono1) auto
qed

section \<open>Properties\<close>

text \<open>Merging a round of probe results keeps every health record plausible: the success rate stays
  between 0 and 1000 permille, the streaks between 0 and 100, and the smoothed latency never exceeds the
  largest latency ever measured, with none of the 64-bit operations wrapping.\<close>

theorem health_records_bounded:
  assumes "0 \<le> lat" "lat < 2 ^ 60" "\<forall>i h. hs i = Some h \<longrightarrow> health_ok lat h" "\<forall>h \<in> set results. health_ok lat h"
    and "refresh_results nps hs results i = Some h"
  shows "health_ok lat h"
  by (rule refresh_results_ok [of lat hs results nps i h]) (use assms in auto)

definition demo_health :: health where
  "demo_health = zero_health\<lparr>h_proxy_id := 7, h_status := ''healthy'', h_latency_ms := 900, h_fingerprint := ''f'',
     h_checked_at := 10 ^ 12\<rparr>"

theorem health_records_bounded_witness:
  "health_ok 900 (qualityObservation zero_health demo_health)"
proof (rule health_records_bounded [of 900 Map.empty "[demo_health]" 1 7])
  show "refresh_results 1 Map.empty [demo_health] 7 = Some (qualityObservation zero_health demo_health)"
    by (simp add: refresh_results_def merge_result_def health_at_def demo_health_def zero_health_def)
qed (simp_all add: health_ok_def demo_health_def zero_health_def)

text \<open>A probe answer that proves nothing (neither reachable nor refused) clears the failure streak, and a
  streak of two or more is only ever recorded when the previous record of the same endpoint, recent enough
  for the size of the pool, was already unhealthy; so two consecutive failed probes are needed.\<close>

theorem failure_streak:
  assumes "h = stamp_probe fp now p (probeAdobe now resp p)" and "merge_result nps hs h (px_id p) = Some h'"
  shows "(h_status h = ''unknown'' \<longrightarrow> h_failures h' = 0)
    \<and> (h_failures h' \<ge> 2 \<longrightarrow> h_status h = ''unhealthy'' \<and> streak_continues nps (health_at hs (px_id p)) h
         \<and> h_failures h' \<le> 100)"
proof -
  have i: "h_proxy_id h = px_id p" and f: "h_failures h = 0" by (simp_all add: assms(1) stamp_probe_def)
  show ?thesis using merge_result_failures [of nps hs h h'] assms(2) by (auto simp: i f split: if_splits)
qed

definition demo_proxy :: proxy where
  "demo_proxy = zero_proxy\<lparr>px_id := 7, px_host := ''h'', px_port := 80, px_status := ''active''\<rparr>"

definition demo_failed :: health where
  "demo_failed = stamp_probe (\<lambda>d. ''f'') (10 ^ 12) demo_proxy (probeAdobe (10 ^ 12) (Some (5, 403)) demo_proxy)"

definition demo_streak :: "int \<rightharpoonup> health" where
  "demo_streak = [7 \<mapsto> demo_failed\<lparr>h_failures := 1, h_checked_at := 10 ^ 12 - 30 * sec\<rparr>]"

theorem failure_streak_witness:
  "\<exists>h'. merge_result 1 demo_streak demo_failed 7 = Some h' \<and> h_failures h' = 2
     \<and> h_status demo_failed = ''unhealthy'' \<and> streak_continues 1 (health_at demo_streak 7) demo_failed"
proof -
  have i: "px_id demo_proxy = 7" by (simp add: demo_proxy_def)
  have two: "map_option h_failures (merge_result 1 demo_streak demo_failed 7) = Some 2"
    by code_simp
  then obtain h' where h': "merge_result 1 demo_streak demo_failed (px_id demo_proxy) = Some h'" "h_failures h' = 2"
    by (auto simp: i)
  from failure_streak [OF demo_failed_def h'(1)] h' show ?thesis by (auto simp: i)
qed

text \<open>The route score (lower is better) is monotone: at the same success rate, neither a slower endpoint
  nor a higher load can lower it, for all plausible records (no wrapping for latencies up to \<open>10 ^ 9\<close>
  milliseconds and loads up to 1000).\<close>

theorem route_score_monotone:
  assumes "health_ok lat h" "health_ok lat h'" "1 \<le> lat" "lat \<le> 10 ^ 9" "0 \<le> u" "u \<le> u'" "u' \<le> 1000"
    and "routeLatency h \<le> routeLatency h'" "h_success_permille h = h_success_permille h'"
  shows "routeScore h u \<le> routeScore h' u'"
  by (rule routeScore_mono [OF assms])

theorem route_score_monotone_witness:
  "routeScore demo_health 1 \<le> routeScore (demo_health\<lparr>h_latency_ms := 1200\<rparr>) 3"
  by (rule route_score_monotone [of 1200])
    (simp_all add: health_ok_def demo_health_def zero_health_def routeLatency_def)

end
