(* ===== verification/ProxyFailover.thy ===== *)
theory ProxyFailover
  imports ProxyHealth
begin

text \<open>
  Per-account failover (\<open>internal/proxyfailover/manager.go\<close>, \<open>recovery.go\<close>): the choice of a backup
  proxy, the locked switch of an account, the periodic round over the stored policies, the guarded save
  of a policy and the operator's view. The SQL tables the code reads and writes inside one transaction are
  a record of maps; a failed statement is the transaction's error value and changes nothing.
\<close>

section \<open>State\<close>

record policy =
  pol_enabled :: bool
  pol_primary :: int
  pol_backups :: "int list"
  pol_revision :: int
  pol_current :: int

text \<open>The columns of \<open>accounts\<close> the failover uses. \<open>ac_adobe_oauth\<close> is \<open>platform='adobe' AND
  type='oauth'\<close>, \<open>ac_active\<close> is \<open>status='active'\<close>.\<close>

record acct_row =
  ac_proxy_id :: "int option"
  ac_fallback_origin :: "int option"
  ac_manual :: bool
  ac_deleted :: bool
  ac_adobe_oauth :: bool
  ac_active :: bool
  ac_schedulable :: bool
  ac_expires_at :: "gotime option"

text \<open>A row of \<open>account_proxy_failover\<close>.\<close>

record fo_row =
  fo_enabled :: bool
  fo_primary :: int
  fo_backups :: "int list"
  fo_revision :: int

record fo_db =
  db_accounts :: "int \<rightharpoonup> acct_row"
  db_policies :: "(int \<times> fo_row) list"
  db_proxies :: "int \<rightharpoonup> proxy_def"
  db_auto_enabled :: bool
  db_events :: "(int \<times> int \<times> int) list"
  db_outbox :: "int list list"

datatype fo_error = NoRows | ErrManualProxy | ErrAutoManaged | ErrConflict | ErrInvalid

definition coalesce0 :: "int option \<Rightarrow> int" where
  "coalesce0 v = (case v of None \<Rightarrow> 0 | Some i \<Rightarrow> i)"

definition unexpired :: "gotime option \<Rightarrow> gotime \<Rightarrow> bool" where
  "unexpired e now = (case e of None \<Rightarrow> True | Some t \<Rightarrow> t > now)"

text \<open>The account filter of \<open>check\<close> and \<open>switchProxy\<close>.\<close>

definition usable :: "acct_row \<Rightarrow> gotime \<Rightarrow> bool" where
  "usable a now \<longleftrightarrow> \<not> ac_manual a \<and> \<not> ac_deleted a \<and> ac_adobe_oauth a \<and> ac_active a
     \<and> ac_schedulable a \<and> unexpired (ac_expires_at a) now"

definition proxy_row_valid :: "proxy_def \<Rightarrow> gotime \<Rightarrow> bool" where
  "proxy_row_valid p now \<longleftrightarrow> \<not> px_deleted p \<and> px_status p = ''active'' \<and> unexpired (px_expires_at p) now"

definition pool :: "policy \<Rightarrow> int list" where
  "pool p = pol_primary p # pol_backups p"

section \<open>Choosing a route\<close>

definition choose_proxy ::
    "(proxy_def \<Rightarrow> string) \<Rightarrow> policy \<Rightarrow> (int \<rightharpoonup> proxy) \<Rightarrow> (int \<rightharpoonup> health) \<Rightarrow> gotime \<Rightarrow> int" where
  "choose_proxy fp p ps hs now =
     (let current = health_at hs (pol_current p); cp = proxy_at ps (pol_current p) in
      if available cp now
         \<and> (h_status current \<noteq> ''unhealthy'' \<or> h_failures current < 2
            \<or> time_sub now (h_checked_at current) > freshness
            \<or> h_fingerprint current \<noteq> fingerprint fp cp)
      then 0
      else (case List.find (\<lambda>i. i \<noteq> pol_current p \<and>
                  (case ps i of None \<Rightarrow> False
                   | Some c \<Rightarrow> available c now \<and> h_status (health_at hs i) = ''healthy''
                       \<and> h_fingerprint (health_at hs i) = fingerprint fp c
                       \<and> time_sub now (h_checked_at (health_at hs i)) \<le> freshness)) (pool p)
            of None \<Rightarrow> 0 | Some i \<Rightarrow> i))"

section \<open>Switching under locks\<close>

text \<open>The recheck of both definitions, lower id first; \<open>False\<close> is the early \<open>return nil\<close>.\<close>

definition defs_unchanged ::
    "(int \<rightharpoonup> proxy_def) \<Rightarrow> (int \<rightharpoonup> proxy) \<Rightarrow> gotime \<Rightarrow> int \<Rightarrow> int list \<Rightarrow> bool" where
  "defs_unchanged table ps now nxt ids =
     list_all (\<lambda>i. case table i of None \<Rightarrow> False
                 | Some row \<Rightarrow> px_updated_at row = px_updated_at (proxy_at ps i)
                               \<and> (i = nxt \<longrightarrow> proxy_row_valid row now)) ids"

definition switchProxy ::
    "gotime \<Rightarrow> int \<Rightarrow> policy \<Rightarrow> int \<Rightarrow> (int \<rightharpoonup> proxy) \<Rightarrow> (int \<rightharpoonup> health) \<Rightarrow> fo_db \<Rightarrow> fo_error + fo_db" where
  "switchProxy now aid a nxt ps hs db =
     (case db_accounts db aid of None \<Rightarrow> Inr db
      | Some row \<Rightarrow>
          (let current = coalesce0 (ac_proxy_id row) in
           if current \<noteq> pol_current a \<or> \<not> usable row now then Inr db
           else (case map_of (db_policies db) aid of None \<Rightarrow> Inl NoRows
                 | Some f \<Rightarrow>
                     if \<not> fo_enabled f \<or> fo_revision f \<noteq> pol_revision a then Inr db
                     else if \<not> defs_unchanged (db_proxies db) ps now nxt (sort [current, nxt]) then Inr db
                     else if time_sub now (h_checked_at (health_at hs nxt)) > freshness then Inr db
                     else Inr (db\<lparr>
                       db_accounts := (db_accounts db)(aid \<mapsto> row\<lparr>ac_proxy_id := Some nxt,
                          ac_fallback_origin := (case ac_fallback_origin row of None \<Rightarrow> Some (pol_primary a)
                                                 | Some o' \<Rightarrow> Some o')\<rparr>),
                       db_events := db_events db @ [(aid, current, nxt)],
                       db_outbox := db_outbox db @ [[aid]]\<rparr>))))"

section \<open>A round over the stored policies\<close>

text \<open>The query of \<open>check\<close>: enabled policies of usable accounts by account id, without those whose
  current proxy is outside the pool.\<close>

definition account_policy :: "fo_row \<Rightarrow> acct_row \<Rightarrow> policy" where
  "account_policy f a = \<lparr>pol_enabled = False, pol_primary = fo_primary f, pol_backups = fo_backups f,
     pol_revision = fo_revision f, pol_current = coalesce0 (ac_proxy_id a)\<rparr>"

definition round_policies :: "gotime \<Rightarrow> fo_db \<Rightarrow> (int \<times> policy) list" where
  "round_policies now db =
     filter (\<lambda>(i, p). pol_current p \<in> set (pool p))
       (List.map_filter (\<lambda>(i, f). case db_accounts db i of None \<Rightarrow> None
            | Some a \<Rightarrow> if fo_enabled f \<and> usable a now then Some (i, account_policy f a) else None)
          (sort_key fst (db_policies db)))"

fun switch_all ::
    "(proxy_def \<Rightarrow> string) \<Rightarrow> gotime \<Rightarrow> (int \<rightharpoonup> proxy) \<Rightarrow> (int \<rightharpoonup> health) \<Rightarrow> (int \<times> policy) list \<Rightarrow> fo_db \<Rightarrow> fo_error + fo_db" where
  "switch_all fp now ps hs [] db = Inr db"
| "switch_all fp now ps hs ((i, p) # rest) db =
     (let nxt = choose_proxy fp p ps hs now in
      if nxt = 0 then switch_all fp now ps hs rest db
      else (case switchProxy now i p nxt ps hs db of
              Inl e \<Rightarrow> Inl e
            | Inr db' \<Rightarrow> switch_all fp now ps hs rest db'))"

text \<open>The round without automatic allocation: \<open>ps\<close> and \<open>hs\<close> are what \<open>loadProxies\<close> and \<open>loadHealth\<close>
  return, \<open>results\<close> the stamped probes of this round.\<close>

definition check_round ::
    "(proxy_def \<Rightarrow> string) \<Rightarrow> gotime \<Rightarrow> int \<Rightarrow> (int \<rightharpoonup> proxy) \<Rightarrow> (int \<rightharpoonup> health) \<Rightarrow> health list \<Rightarrow> fo_db \<Rightarrow> fo_error + fo_db" where
  "check_round fp now nps ps hs results db =
     (let policies = round_policies now db in
      if policies = [] then Inr db
      else switch_all fp now ps (refresh_results nps hs results) policies db)"

section \<open>Saving a policy\<close>

text \<open>The loop over the pool: positive, no repetition, an existing valid proxy row.\<close>

fun pool_ids_ok :: "(int \<rightharpoonup> proxy_def) \<Rightarrow> gotime \<Rightarrow> int list \<Rightarrow> int list \<Rightarrow> bool" where
  "pool_ids_ok table now seen [] = True"
| "pool_ids_ok table now seen (i # rest) =
     (if i \<le> 0 \<or> i \<in> set seen then False
      else (case table i of
              None \<Rightarrow> False
            | Some row \<Rightarrow>
                if px_deleted row then False
                else if \<not> (px_status row = ''active'' \<and> unexpired (px_expires_at row) now) then False
                else pool_ids_ok table now (i # seen) rest))"

definition Save :: "gotime \<Rightarrow> int \<Rightarrow> policy \<Rightarrow> fo_db \<Rightarrow> fo_error + fo_db" where
  "Save now aid p db =
     (case db_accounts db aid of None \<Rightarrow> Inl NoRows
      | Some row \<Rightarrow>
          if ac_deleted row \<or> \<not> ac_adobe_oauth row then Inl NoRows
          else if ac_manual row then Inl ErrManualProxy
          else if db_auto_enabled db then Inl ErrAutoManaged
          else if coalesce0 (ac_proxy_id row) \<noteq> pol_current p then Inl ErrConflict
          else
            let current = coalesce0 (ac_proxy_id row);
                rev = (case map_of (db_policies db) aid of None \<Rightarrow> 0 | Some f \<Rightarrow> fo_revision f)
            in if rev \<noteq> pol_revision p then Inl ErrConflict
               else if pol_enabled p \<and>
                    (length (pol_backups p) < 1 \<or> length (pol_backups p) > 8 \<or> current \<notin> set (pool p)
                     \<or> (rev = 0 \<and> pol_primary p \<noteq> current)) then Inl ErrInvalid
               else if pol_enabled p \<and> \<not> pool_ids_ok (db_proxies db) now [] (pool p) then Inl ErrInvalid
               else Inr (db\<lparr>db_policies := AList.update aid
                      \<lparr>fo_enabled = pol_enabled p, fo_primary = pol_primary p, fo_backups = pol_backups p,
                       fo_revision = (case map_of (db_policies db) aid of None \<Rightarrow> 1
                                      | Some f \<Rightarrow> fo_revision f + 1)\<rparr> (db_policies db)\<rparr>))"

section \<open>The operator's view\<close>

definition view_health ::
    "(proxy_def \<Rightarrow> string) \<Rightarrow> (int \<rightharpoonup> proxy) \<Rightarrow> (int \<rightharpoonup> health) \<Rightarrow> gotime \<Rightarrow> int list \<Rightarrow> health list" where
  "view_health fp ps hs now pids =
     List.map_filter (\<lambda>pid.
       let h = (case (hs pid, ps pid) of
                  (Some h, Some p) \<Rightarrow>
                    if h_fingerprint h \<noteq> fingerprint fp p \<or> time_sub now (h_checked_at h) > freshness
                    then zero_health\<lparr>h_proxy_id := pid, h_status := ''unknown'', h_message := ''awaiting_check''\<rparr>
                    else h
                | _ \<Rightarrow> zero_health\<lparr>h_proxy_id := pid, h_status := ''unknown'', h_message := ''awaiting_check''\<rparr>)
       in if pid > 0 then Some h else None) pids"

definition view_state :: "bool \<Rightarrow> bool \<Rightarrow> bool \<Rightarrow> bool \<Rightarrow> policy \<Rightarrow> health list \<Rightarrow> string" where
  "view_state enabled active autoManaged manualProxy p hs =
     (if manualProxy then ''manual''
      else if autoManaged then ''auto_managed''
      else if \<not> enabled then ''disabled''
      else if \<not> active \<or> pol_current p \<notin> set (pool p) then ''paused''
      else fold (\<lambda>h st. if h_proxy_id h = pol_current p then
                          (if h_status h = ''healthy'' then ''healthy''
                           else if h_failures h \<ge> 2 then ''no_backup'' else st)
                        else st) hs ''checking'')"

section \<open>Recovery on demand\<close>

text \<open>The gate of \<open>Recover\<close>: at most one attempt every two seconds; \<open>prior\<close> is \<open>demandAt\<close>.\<close>

definition recover_gate :: "int \<Rightarrow> int \<Rightarrow> bool \<times> int" where
  "recover_gate prior now = (if i64 (now - prior) < 2 * sec then (False, prior) else (True, now))"

text \<open>Concurrent requests share \<open>demandAt\<close>: a request reads the clock and the variable (\<open>load\<close>), and later
  either gives up or tries to replace the value it read (\<open>CompareAndSwap\<close>). The log holds the clock values
  of the admitted requests, newest first.\<close>

record gate_state =
  g_demand_at :: int
  g_pending :: "nat \<rightharpoonup> int \<times> int"
  g_log :: "int list"

definition gate_init :: gate_state where
  "gate_init = \<lparr>g_demand_at = 0, g_pending = Map.empty, g_log = []\<rparr>"

inductive gate_step :: "gate_state \<Rightarrow> gate_state \<Rightarrow> bool" where
  load: "0 \<le> now \<Longrightarrow> now < 2 ^ 63 \<Longrightarrow> g_pending s t = None \<Longrightarrow>
     gate_step s (s\<lparr>g_pending := (g_pending s)(t \<mapsto> (now, g_demand_at s))\<rparr>)"
| give_up: "g_pending s t = Some (now, prior) \<Longrightarrow> \<not> fst (recover_gate prior now) \<Longrightarrow>
     gate_step s (s\<lparr>g_pending := (g_pending s)(t := None)\<rparr>)"
| cas_lost: "g_pending s t = Some (now, prior) \<Longrightarrow> fst (recover_gate prior now) \<Longrightarrow> g_demand_at s \<noteq> prior \<Longrightarrow>
     gate_step s (s\<lparr>g_pending := (g_pending s)(t := None)\<rparr>)"
| cas_won: "g_pending s t = Some (now, prior) \<Longrightarrow> fst (recover_gate prior now) \<Longrightarrow> g_demand_at s = prior \<Longrightarrow>
     gate_step s (s\<lparr>g_demand_at := snd (recover_gate prior now), g_pending := (g_pending s)(t := None),
                   g_log := now # g_log s\<rparr>)"

inductive gate_reach :: "gate_state \<Rightarrow> bool" where
  start: "gate_reach gate_init"
| step: "gate_reach s \<Longrightarrow> gate_step s s' \<Longrightarrow> gate_reach s'"

record pool_failure =
  pf_reason :: string
  pf_retry_after :: int

definition DiagnosePool :: "int \<Rightarrow> int \<Rightarrow> int \<Rightarrow> int \<Rightarrow> pool_failure" where
  "DiagnosePool total' enabled waiting credentials =
     (if total' = 0 then \<lparr>pf_reason = ''empty_account_pool'', pf_retry_after = 60\<rparr>
      else if waiting > 0 then \<lparr>pf_reason = ''proxy_unavailable'', pf_retry_after = 30\<rparr>
      else if enabled = 0 then \<lparr>pf_reason = ''no_enabled_accounts'', pf_retry_after = 60\<rparr>
      else if credentials = enabled then \<lparr>pf_reason = ''account_authorization_required'', pf_retry_after = 60\<rparr>
      else \<lparr>pf_reason = ''accounts_temporarily_unavailable'', pf_retry_after = 30\<rparr>)"


section \<open>Lemmas\<close>

text \<open>A backup the code may switch to, and a current proxy it must leave.\<close>

definition candidate :: "(proxy_def \<Rightarrow> string) \<Rightarrow> (int \<rightharpoonup> proxy) \<Rightarrow> (int \<rightharpoonup> health) \<Rightarrow> gotime \<Rightarrow> int \<Rightarrow> bool" where
  "candidate fp ps hs now i \<longleftrightarrow>
     (case ps i of None \<Rightarrow> False
      | Some c \<Rightarrow> available c now \<and> h_status (health_at hs i) = ''healthy''
          \<and> h_fingerprint (health_at hs i) = fingerprint fp c
          \<and> time_sub now (h_checked_at (health_at hs i)) \<le> freshness)"

definition current_failed :: "(proxy_def \<Rightarrow> string) \<Rightarrow> (int \<rightharpoonup> proxy) \<Rightarrow> (int \<rightharpoonup> health) \<Rightarrow> gotime \<Rightarrow> int \<Rightarrow> bool" where
  "current_failed fp ps hs now i \<longleftrightarrow>
     \<not> available (proxy_at ps i) now
     \<or> h_status (health_at hs i) = ''unhealthy'' \<and> h_failures (health_at hs i) \<ge> 2
       \<and> time_sub now (h_checked_at (health_at hs i)) \<le> freshness
       \<and> h_fingerprint (health_at hs i) = fingerprint fp (proxy_at ps i)"

lemma choose_proxy_eq:
  "choose_proxy fp p ps hs now =
     (if current_failed fp ps hs now (pol_current p)
      then (case List.find (\<lambda>i. i \<noteq> pol_current p \<and> candidate fp ps hs now i) (pool p) of None \<Rightarrow> 0 | Some i \<Rightarrow> i)
      else 0)"
  by (auto simp: choose_proxy_def Let_def current_failed_def candidate_def)

lemma choose_proxy_nonzero:
  "choose_proxy fp p ps hs now \<noteq> 0 \<Longrightarrow> current_failed fp ps hs now (pol_current p)
     \<and> choose_proxy fp p ps hs now \<in> set (pool p) \<and> choose_proxy fp p ps hs now \<noteq> pol_current p
     \<and> candidate fp ps hs now (choose_proxy fp p ps hs now)"
proof (cases "List.find (\<lambda>i. i \<noteq> pol_current p \<and> candidate fp ps hs now i) (pool p)")
  case (Some i)
  then have "i \<in> set (pool p)" "i \<noteq> pol_current p" "candidate fp ps hs now i"
    by (auto simp: find_Some_iff)
  with Some show "choose_proxy fp p ps hs now \<noteq> 0 \<Longrightarrow> ?thesis" by (auto simp: choose_proxy_eq split: if_splits)
qed (auto simp: choose_proxy_eq split: if_splits)

text \<open>What a switch of account \<open>i\<close> to \<open>nxt\<close> has checked.\<close>

definition switch_ok :: "(proxy_def \<Rightarrow> string) \<Rightarrow> gotime \<Rightarrow> (int \<rightharpoonup> proxy) \<Rightarrow> (int \<rightharpoonup> health) \<Rightarrow> fo_db \<Rightarrow> int \<Rightarrow> int \<Rightarrow> bool" where
  "switch_ok fp now ps hs db i nxt \<longleftrightarrow>
     (\<exists>row f. db_accounts db i = Some row \<and> usable row now
        \<and> map_of (db_policies db) i = Some f \<and> fo_enabled f
        \<and> nxt \<in> set (fo_primary f # fo_backups f) \<and> coalesce0 (ac_proxy_id row) \<in> set (fo_primary f # fo_backups f)
        \<and> nxt \<noteq> coalesce0 (ac_proxy_id row)
        \<and> current_failed fp ps hs now (coalesce0 (ac_proxy_id row)) \<and> candidate fp ps hs now nxt
        \<and> (\<exists>d. db_proxies db nxt = Some d \<and> proxy_row_valid d now
             \<and> px_updated_at d = px_updated_at (proxy_at ps nxt)))"

text \<open>How an account row and the two logs relate before and after.\<close>

definition row_switched :: "fo_db \<Rightarrow> fo_db \<Rightarrow> int \<Rightarrow> int \<Rightarrow> bool" where
  "row_switched db db' i nxt \<longleftrightarrow>
     (\<exists>row f. db_accounts db i = Some row \<and> map_of (db_policies db) i = Some f
        \<and> db_accounts db' i = Some (row\<lparr>ac_proxy_id := Some nxt,
            ac_fallback_origin := (case ac_fallback_origin row of None \<Rightarrow> Some (fo_primary f) | Some o' \<Rightarrow> Some o')\<rparr>)
        \<and> (i, coalesce0 (ac_proxy_id row), nxt) \<in> set (db_events db') \<and> [i] \<in> set (db_outbox db'))"

definition round_frame :: "fo_db \<Rightarrow> fo_db \<Rightarrow> bool" where
  "round_frame db db' \<longleftrightarrow> db_policies db' = db_policies db \<and> db_proxies db' = db_proxies db
     \<and> db_auto_enabled db' = db_auto_enabled db
     \<and> set (db_events db) \<subseteq> set (db_events db') \<and> set (db_outbox db) \<subseteq> set (db_outbox db')"

lemma round_frame_refl [simp]: "round_frame db db"
  by (simp add: round_frame_def)

lemma round_frame_trans: "round_frame a b \<Longrightarrow> round_frame b c \<Longrightarrow> round_frame a c"
  by (auto simp: round_frame_def)

lemma account_policy_sel [simp]:
  "pol_current (account_policy f a) = coalesce0 (ac_proxy_id a)" "pol_primary (account_policy f a) = fo_primary f"
  "pol_backups (account_policy f a) = fo_backups f" "pol_revision (account_policy f a) = fo_revision f"
  "pool (account_policy f a) = fo_primary f # fo_backups f"
  by (simp_all add: account_policy_def pool_def)

text \<open>An entry of the round is the stored policy of a usable account.\<close>

definition round_entry :: "gotime \<Rightarrow> fo_db \<Rightarrow> int \<Rightarrow> policy \<Rightarrow> bool" where
  "round_entry now db i p \<longleftrightarrow> (\<exists>f row. db_accounts db i = Some row \<and> usable row now
     \<and> map_of (db_policies db) i = Some f \<and> fo_enabled f \<and> p = account_policy f row \<and> pol_current p \<in> set (pool p))"

lemma map_filter_eq: "List.map_filter f xs = map (the \<circ> f) (filter (\<lambda>x. f x \<noteq> None) xs)"
  by (induction xs) (auto simp: List.map_filter_def)

lemma round_policies_entry:
  assumes d: "distinct (map fst (db_policies db))" and m: "(i, p) \<in> set (round_policies now db)"
  shows "round_entry now db i p"
proof -
  from m obtain f row where "(i, f) \<in> set (db_policies db)" "db_accounts db i = Some row"
    "fo_enabled f" "usable row now" "p = account_policy f row" "pol_current p \<in> set (pool p)"
    by (auto simp: round_policies_def map_filter_eq split: option.splits if_splits)
  with d show ?thesis by (auto simp: round_entry_def)
qed

lemma map_filter_keys:
  assumes "\<And>x y. f x = Some y \<Longrightarrow> fst y = fst x" and "distinct (map fst xs)"
  shows "distinct (map fst (List.map_filter f xs))"
proof -
  have "map fst (List.map_filter f xs) = map fst (filter (\<lambda>x. f x \<noteq> None) xs)"
    using assms(1) by (induction xs) (auto simp: List.map_filter_def split: option.splits)
  then show ?thesis using assms(2) by (simp add: distinct_map_filter)
qed

lemma round_policies_distinct:
  assumes "distinct (map fst (db_policies db))"
  shows "distinct (map fst (round_policies now db))"
proof -
  have "mset (map fst (sort_key fst (db_policies db))) = mset (map fst (db_policies db))" by simp
  then have "distinct (map fst (sort_key fst (db_policies db)))" using assms mset_eq_imp_distinct_iff by blast
  then show ?thesis unfolding round_policies_def
    by (intro gm_ok_filter map_filter_keys) (auto split: option.splits if_splits)
qed

lemma defs_unchanged_in:
  "defs_unchanged table ps now nxt ids \<Longrightarrow> nxt \<in> set ids \<Longrightarrow>
     \<exists>d. table nxt = Some d \<and> proxy_row_valid d now \<and> px_updated_at d = px_updated_at (proxy_at ps nxt)"
  by (auto simp: defs_unchanged_def list_all_iff split: option.splits)

lemma switchProxy_spec:
  assumes e: "round_entry now db i p" and nxt: "nxt = choose_proxy fp p ps hs now" "nxt \<noteq> 0"
  shows "\<exists>db'. switchProxy now i p nxt ps hs db = Inr db' \<and> round_frame db db'
    \<and> (\<forall>j. j \<noteq> i \<longrightarrow> db_accounts db' j = db_accounts db j)
    \<and> (db_accounts db' i = db_accounts db i \<or> switch_ok fp now ps hs db i nxt \<and> row_switched db db' i nxt)"
proof -
  from e obtain f row where r: "db_accounts db i = Some row" "usable row now"
    "map_of (db_policies db) i = Some f" "fo_enabled f" "p = account_policy f row" "pol_current p \<in> set (pool p)"
    by (auto simp: round_entry_def)
  have c: "current_failed fp ps hs now (pol_current p)" "nxt \<in> set (pool p)" "nxt \<noteq> pol_current p" "candidate fp ps hs now nxt"
    using choose_proxy_nonzero [of fp p ps hs now] nxt by auto
  show ?thesis
  proof (cases "defs_unchanged (db_proxies db) ps now nxt (sort [coalesce0 (ac_proxy_id row), nxt])
      \<and> \<not> time_sub now (h_checked_at (health_at hs nxt)) > freshness")
    case False
    with r show ?thesis by (auto simp: switchProxy_def Let_def)
  next
    case True
    then have d: "\<exists>d. db_proxies db nxt = Some d \<and> proxy_row_valid d now \<and> px_updated_at d = px_updated_at (proxy_at ps nxt)"
      by (intro defs_unchanged_in) auto
    have "switch_ok fp now ps hs db i nxt" using r c d unfolding switch_ok_def by auto
    with True r show ?thesis
      by (auto simp: switchProxy_def Let_def round_frame_def row_switched_def cong: option.case_cong)
  qed
qed

lemma switch_ok_frame:
  "round_frame db db' \<Longrightarrow> db_accounts db' i = db_accounts db i \<Longrightarrow> switch_ok fp now ps hs db' i n = switch_ok fp now ps hs db i n"
  by (simp add: switch_ok_def round_frame_def)

lemma row_switched_before:
  "round_frame db db1 \<Longrightarrow> db_accounts db1 i = db_accounts db i \<Longrightarrow> row_switched db1 db' i n \<Longrightarrow> row_switched db db' i n"
  by (simp add: row_switched_def round_frame_def)

lemma row_switched_after:
  "round_frame db1 db' \<Longrightarrow> db_accounts db' i = db_accounts db1 i \<Longrightarrow> row_switched db db1 i n \<Longrightarrow> row_switched db db' i n"
  by (auto simp: row_switched_def round_frame_def)

lemma switch_all_spec:
  "distinct (map fst entries) \<Longrightarrow> (\<And>i p. (i, p) \<in> set entries \<Longrightarrow> round_entry now db i p) \<Longrightarrow>
   \<exists>db'. switch_all fp now ps hs entries db = Inr db' \<and> round_frame db db'
     \<and> (\<forall>i. db_accounts db' i = db_accounts db i
          \<or> i \<in> set (map fst entries) \<and> (\<exists>n. switch_ok fp now ps hs db i n \<and> row_switched db db' i n))"
proof (induction entries arbitrary: db)
  case Nil
  then show ?case by simp
next
  case (Cons e entries)
  obtain i p where e: "e = (i, p)" by (cases e)
  let ?n = "choose_proxy fp p ps hs now"
  have i: "round_entry now db i p" using Cons.prems(2) e by simp
  have fresh: "i \<notin> set (map fst entries)" and d: "distinct (map fst entries)" using Cons.prems(1) e by auto
  obtain db1 where s: "(if ?n = 0 then Inr db else switchProxy now i p ?n ps hs db) = Inr db1" "round_frame db db1"
    "\<forall>j. j \<noteq> i \<longrightarrow> db_accounts db1 j = db_accounts db j"
    "db_accounts db1 i = db_accounts db i \<or> (\<exists>n. switch_ok fp now ps hs db i n \<and> row_switched db db1 i n)"
    using switchProxy_spec [OF i refl, of fp ps hs] by (cases "?n = 0") auto
  have keep: "round_entry now db1 j q" if "(j, q) \<in> set entries" for j q
  proof -
    have "j \<noteq> i" using fresh that by force
    with s(3) have same: "db_accounts db1 j = db_accounts db j" by blast
    have "round_entry now db j q" using Cons.prems(2) that by simp
    with same s(2) show ?thesis unfolding round_entry_def round_frame_def by simp
  qed
  obtain db' where t: "switch_all fp now ps hs entries db1 = Inr db'" "round_frame db1 db'"
    "\<And>j. db_accounts db' j = db_accounts db1 j
        \<or> j \<in> set (map fst entries) \<and> (\<exists>n. switch_ok fp now ps hs db1 j n \<and> row_switched db1 db' j n)"
    using Cons.IH [OF d keep] by blast
  have "switch_all fp now ps hs (e # entries) db = Inr db'"
    using s(1) t(1) by (auto simp: e Let_def split: if_splits)
  moreover have "db_accounts db' j = db_accounts db j
      \<or> j \<in> set (map fst (e # entries)) \<and> (\<exists>n. switch_ok fp now ps hs db j n \<and> row_switched db db' j n)" for j
  proof (cases "j = i")
    case True
    with t(3) [of i] fresh have "db_accounts db' i = db_accounts db1 i" by blast
    with s(4) True show ?thesis by (auto simp: e dest: row_switched_after [OF t(2)])
  next
    case False
    then have same: "db_accounts db1 j = db_accounts db j" using s(3) by blast
    from t(3) [of j] show ?thesis
      unfolding same switch_ok_frame [OF s(2) same] using row_switched_before [OF s(2) same] by auto
  qed
  ultimately show ?case using round_frame_trans [OF s(2) t(2)] by blast
qed


lemma pool_ids_ok_iff:
  "pool_ids_ok table now seen ids \<longleftrightarrow> distinct ids \<and> set ids \<inter> set seen = {}
     \<and> (\<forall>i \<in> set ids. 0 < i \<and> (\<exists>d. table i = Some d \<and> proxy_row_valid d now))"
  by (induction ids arbitrary: seen) (auto simp: proxy_row_valid_def split: option.splits)

text \<open>The invariant of the stored policies.\<close>

definition fo_row_ok :: "fo_row \<Rightarrow> bool" where
  "fo_row_ok f \<longleftrightarrow> 1 \<le> fo_revision f
     \<and> (fo_enabled f \<longrightarrow> 1 \<le> length (fo_backups f) \<and> length (fo_backups f) \<le> 8
          \<and> distinct (fo_primary f # fo_backups f) \<and> (\<forall>j \<in> set (fo_primary f # fo_backups f). 0 < j))"

definition policies_ok :: "fo_db \<Rightarrow> bool" where
  "policies_ok db \<longleftrightarrow> distinct (map fst (db_policies db)) \<and> (\<forall>f \<in> snd ` set (db_policies db). fo_row_ok f)"

lemma policies_ok_get:
  "policies_ok db \<Longrightarrow> map_of (db_policies db) i = Some f \<Longrightarrow> fo_row_ok f"
  by (auto simp: policies_ok_def dest: map_of_SomeD)

text \<open>The row \<open>Save\<close> writes.\<close>

definition saved_row :: "policy \<Rightarrow> fo_row" where
  "saved_row p = \<lparr>fo_enabled = pol_enabled p, fo_primary = pol_primary p, fo_backups = pol_backups p,
     fo_revision = pol_revision p + 1\<rparr>"

lemma Save_Inr:
  assumes "Save now aid p db = Inr db'"
  shows "db' = db\<lparr>db_policies := AList.update aid (saved_row p) (db_policies db)\<rparr>"
    and "pol_revision p = (case map_of (db_policies db) aid of None \<Rightarrow> 0 | Some f \<Rightarrow> fo_revision f)"
    and "pol_enabled p \<Longrightarrow> 1 \<le> length (pol_backups p) \<and> length (pol_backups p) \<le> 8
           \<and> pool_ids_ok (db_proxies db) now [] (pool p)"
  using assms by (auto simp: Save_def Let_def saved_row_def Suc_le_eq split: option.splits if_splits)

lemma policies_ok_update:
  "policies_ok db \<Longrightarrow> fo_row_ok f \<Longrightarrow> policies_ok (db\<lparr>db_policies := AList.update i f (db_policies db)\<rparr>)"
  unfolding policies_ok_def by (auto simp: distinct_update dest: gm_set_entries)

lemma Save_policies_ok:
  assumes ok: "policies_ok db" and s: "Save now aid p db = Inr db'"
  shows "policies_ok db'"
proof -
  have r: "0 \<le> pol_revision p"
    using policies_ok_get [OF ok, of aid] Save_Inr(2) [OF s] by (auto simp: fo_row_ok_def split: option.splits)
  show ?thesis unfolding Save_Inr(1) [OF s]
    using r Save_Inr(3) [OF s]
    by (intro policies_ok_update [OF ok]) (auto simp: fo_row_ok_def saved_row_def pool_ids_ok_iff pool_def)
qed

text \<open>The gate: the variable is the newest admitted clock value, and a pending request read an older or equal one.\<close>

definition gate_inv :: "gate_state \<Rightarrow> bool" where
  "gate_inv s \<longleftrightarrow> 0 \<le> g_demand_at s \<and> g_demand_at s < 2 ^ 63
     \<and> g_demand_at s = (case g_log s of [] \<Rightarrow> 0 | x # _ \<Rightarrow> x)
     \<and> sorted_wrt (\<lambda>a b. b + 2 * sec \<le> a) (g_log s)
     \<and> (\<forall>t now prior. g_pending s t = Some (now, prior) \<longrightarrow> 0 \<le> now \<and> now < 2 ^ 63 \<and> 0 \<le> prior \<and> prior < 2 ^ 63)"

lemma recover_gate_true:
  "0 \<le> now \<Longrightarrow> now < 2 ^ 63 \<Longrightarrow> 0 \<le> prior \<Longrightarrow> prior < 2 ^ 63 \<Longrightarrow>
     fst (recover_gate prior now) \<longleftrightarrow> prior + 2 * sec \<le> now"
  by (auto simp: recover_gate_def i64_id in_i64_def)

lemma gate_step_inv: "gate_step s s' \<Longrightarrow> gate_inv s \<Longrightarrow> gate_inv s'"
proof (induction rule: gate_step.induct)
  case (cas_won s t now prior)
  then have b: "0 \<le> now" "now < 2 ^ 63" "0 \<le> prior" "prior < 2 ^ 63" by (auto simp: gate_inv_def)
  have adm: "prior + 2 * sec \<le> now" using recover_gate_true [OF b] cas_won.hyps(2) by blast
  have new: "snd (recover_gate prior now) = now" using cas_won.hyps(2) by (auto simp: recover_gate_def)
  have "x + 2 * sec \<le> now" if "x \<in> set (g_log s)" for x
    using that cas_won.prems cas_won.hyps(3) adm
    by (cases "g_log s") (auto simp: gate_inv_def sec_def)
  then show ?case using cas_won.prems b by (auto simp: gate_inv_def new)
qed (auto simp: gate_inv_def)

lemma gate_reach_inv: "gate_reach s \<Longrightarrow> gate_inv s"
proof (induction rule: gate_reach.induct)
  case start
  then show ?case by (simp add: gate_inv_def gate_init_def)
qed (rule gate_step_inv)


section \<open>Properties\<close>

text \<open>The choice of a backup is sound and complete: a proxy is chosen only when the current one is
  unavailable or has failed twice in a row on fresh evidence for the same endpoint, the chosen one is a
  different, available and freshly healthy member of the pool with an unedited definition, it is the first
  such member, and when the current one failed and the pool (of positive ids) has such a member, one is chosen.\<close>

theorem choose_proxy_sound_complete:
  assumes "\<forall>i \<in> set (pool p). 0 < i"
  shows "(choose_proxy fp p ps hs now = 0 \<longleftrightarrow> \<not> current_failed fp ps hs now (pol_current p)
            \<or> (\<forall>i \<in> set (pool p). i = pol_current p \<or> \<not> candidate fp ps hs now i))
    \<and> (choose_proxy fp p ps hs now \<noteq> 0 \<longrightarrow> (\<exists>pre post. pool p = pre @ choose_proxy fp p ps hs now # post
          \<and> candidate fp ps hs now (choose_proxy fp p ps hs now) \<and> choose_proxy fp p ps hs now \<noteq> pol_current p
          \<and> (\<forall>i \<in> set pre. i = pol_current p \<or> \<not> candidate fp ps hs now i)))"
proof (cases "List.find (\<lambda>i. i \<noteq> pol_current p \<and> candidate fp ps hs now i) (pool p)")
  case None
  then have "choose_proxy fp p ps hs now = 0" by (simp add: choose_proxy_eq)
  with None show ?thesis by (auto simp: find_None_iff)
next
  case (Some i)
  then obtain n where n: "n < length (pool p)" "pool p ! n = i" "i \<noteq> pol_current p" "candidate fp ps hs now i"
    "\<forall>j<n. pool p ! j = pol_current p \<or> \<not> candidate fp ps hs now (pool p ! j)"
    by (auto simp: find_Some_iff)
  have split: "pool p = take n (pool p) @ i # drop (Suc n) (pool p)" using n by (auto simp: id_take_nth_drop)
  have pre: "\<forall>j \<in> set (take n (pool p)). j = pol_current p \<or> \<not> candidate fp ps hs now j"
    using n(5) by (metis in_set_conv_nth length_take min_less_iff_conj nth_take)
  have i: "i \<in> set (pool p)" "0 < i" using n assms by auto
  show ?thesis
  proof (cases "current_failed fp ps hs now (pol_current p)")
    case True
    then have "choose_proxy fp p ps hs now = i" by (simp add: choose_proxy_eq Some)
    with split pre n i True show ?thesis by auto
  qed (simp add: choose_proxy_eq)
qed

definition demo_pool :: policy where
  "demo_pool = \<lparr>pol_enabled = True, pol_primary = 7, pol_backups = [8], pol_revision = 1, pol_current = 7\<rparr>"

theorem choose_proxy_sound_complete_witness:
  "choose_proxy (\<lambda>d. ''f'') demo_pool [7 \<mapsto> demo_proxy\<lparr>px_deleted := True\<rparr>, 8 \<mapsto> demo_proxy]
     [8 \<mapsto> demo_health] (10 ^ 12) \<noteq> 0"
proof -
  have c: "current_failed (\<lambda>d. ''f'') [7 \<mapsto> demo_proxy\<lparr>px_deleted := True\<rparr>, 8 \<mapsto> demo_proxy] [8 \<mapsto> demo_health] (10 ^ 12) (pol_current demo_pool)"
    "candidate (\<lambda>d. ''f'') [7 \<mapsto> demo_proxy\<lparr>px_deleted := True\<rparr>, 8 \<mapsto> demo_proxy] [8 \<mapsto> demo_health] (10 ^ 12) 8"
    by (simp_all add: current_failed_def candidate_def proxy_at_def demo_pool_def demo_proxy_def zero_proxy_def available_def
      networkAvailable_def health_at_def demo_health_def zero_health_def fingerprint_def freshness_def sec_def)
  show ?thesis
    using choose_proxy_sound_complete [of demo_pool "\<lambda>d. ''f''" "[7 \<mapsto> demo_proxy\<lparr>px_deleted := True\<rparr>, 8 \<mapsto> demo_proxy]"
        "[8 \<mapsto> demo_health]" "10 ^ 12"] c by (simp add: demo_pool_def pool_def)
qed


definition demo_db :: fo_db where
  "demo_db = \<lparr>db_accounts = [1 \<mapsto> \<lparr>ac_proxy_id = Some 7, ac_fallback_origin = None, ac_manual = False,
       ac_deleted = False, ac_adobe_oauth = True, ac_active = True, ac_schedulable = True, ac_expires_at = None\<rparr>],
     db_policies = [(1, \<lparr>fo_enabled = True, fo_primary = 7, fo_backups = [8], fo_revision = 1\<rparr>)],
     db_proxies = [7 \<mapsto> proxy_def.truncate demo_proxy, 8 \<mapsto> proxy_def.truncate demo_proxy],
     db_auto_enabled = False, db_events = [], db_outbox = []\<rparr>"


text \<open>Saving a policy keeps the table of policies well formed (one row per account, positive revisions, an
  enabled policy has 1 to 8 backups and a pool of distinct positive ids), touches no other table or account,
  and stores exactly the submitted policy under the revision that follows the one the client had read; a second
  save from the same revision is refused, so no update is lost.\<close>

theorem save_policy_versioned:
  assumes "policies_ok db" and "Save now aid p db = Inr db'"
  shows "policies_ok db' \<and> db' = db\<lparr>db_policies := AList.update aid (saved_row p) (db_policies db)\<rparr>
    \<and> (\<forall>q now2. pol_revision q = pol_revision p \<longrightarrow> (\<exists>e. Save now2 aid q db' = Inl e))"
proof (intro conjI allI impI)
  show "policies_ok db'" by (rule Save_policies_ok [OF assms])
  show db': "db' = db\<lparr>db_policies := AList.update aid (saved_row p) (db_policies db)\<rparr>" by (rule Save_Inr(1) [OF assms(2)])
  fix q :: policy and now2
  assume q: "pol_revision q = pol_revision p"
  show "\<exists>e. Save now2 aid q db' = Inl e"
  proof (cases "Save now2 aid q db'")
    case (Inr d)
    from Save_Inr(2) [OF Inr] q show ?thesis by (simp add: db' saved_row_def update_conv')
  qed simp
qed

theorem save_policy_versioned_witness:
  "policies_ok (demo_db\<lparr>db_policies := AList.update 1 (saved_row demo_pool) (db_policies demo_db)\<rparr>)"
proof -
  have "policies_ok demo_db" by (simp add: policies_ok_def demo_db_def fo_row_ok_def)
  moreover have "Save 5 1 demo_pool demo_db = Inr (demo_db\<lparr>db_policies := AList.update 1 (saved_row demo_pool) (db_policies demo_db)\<rparr>)"
    by (simp add: Save_def demo_db_def demo_pool_def saved_row_def coalesce0_def pool_def unexpired_def
        proxy_def.truncate_def demo_proxy_def zero_proxy_def)
  ultimately show ?thesis using save_policy_versioned by blast
qed

text \<open>Whatever the interleaving of concurrent requests (each reads the clock, then the shared variable, and
  only later swaps it), two admitted on-demand recoveries are at least two seconds apart by the clock values
  they were admitted with.\<close>

theorem recover_admissions_spaced:
  assumes "gate_reach s"
  shows "sorted_wrt (\<lambda>newer older. older + 2 * sec \<le> newer) (g_log s)"
  using gate_reach_inv [OF assms] by (simp add: gate_inv_def)

definition demo_gate :: gate_state where
  "demo_gate = gate_init\<lparr>g_demand_at := 3 * sec, g_pending := (Map.empty(0 \<mapsto> (3 * sec, 0)))(0 := None), g_log := [3 * sec]\<rparr>"

theorem recover_admissions_spaced_witness:
  "sorted_wrt (\<lambda>newer older. older + 2 * sec \<le> newer) (g_log demo_gate)"
proof (rule recover_admissions_spaced)
  let ?s = "gate_init\<lparr>g_pending := Map.empty(0 \<mapsto> (3 * sec, 0))\<rparr>"
  have "gate_step gate_init (gate_init\<lparr>g_pending := (g_pending gate_init)(0 \<mapsto> (3 * sec, g_demand_at gate_init))\<rparr>)"
    by (rule gate_step.load) (simp_all add: sec_def gate_init_def)
  then have s: "gate_reach ?s" using gate_reach.intros by (simp add: gate_init_def)
  have "gate_step ?s (?s\<lparr>g_demand_at := snd (recover_gate 0 (3 * sec)), g_pending := (g_pending ?s)(0 := None),
          g_log := 3 * sec # g_log ?s\<rparr>)"
    by (rule gate_step.cas_won) (simp_all add: gate_init_def recover_gate_def sec_def i64_def)
  moreover have "?s\<lparr>g_demand_at := snd (recover_gate 0 (3 * sec)), g_pending := (g_pending ?s)(0 := None),
          g_log := 3 * sec # g_log ?s\<rparr> = demo_gate"
    by (simp add: demo_gate_def gate_init_def recover_gate_def sec_def i64_def)
  ultimately show "gate_reach demo_gate" using s gate_reach.step by metis
qed

end
