(* ===== verification/ProxyAllocation.thy ===== *)
theory ProxyAllocation
  imports ProxyFailover "HOL-Library.Product_Lexorder"
begin

text \<open>
  The planner of the automatic proxy allocation (\<open>planAllocation\<close> of
  \<open>internal/proxyfailover/allocation.go\<close>): which proxy each account gets, in three passes by priority,
  never more than three accounts on a proxy. \<open>ps\<close> is the Go map of proxies as an association list, so its
  order is the iteration order of the runtime.
\<close>

section \<open>Accounts\<close>

record alloc_account =
  aa_id :: int
  aa_current :: int
  aa_eligible :: bool
  aa_waiting :: bool
  aa_adobe :: bool
  aa_last_switch :: gotime
  aa_binding_only :: bool
  aa_verification_priority :: bool
  aa_manual_proxy :: bool
  aa_test_lease :: bool

definition accountsPerProxy :: int where "accountsPerProxy = 3"

definition priority :: "alloc_account \<Rightarrow> nat" where
  "priority a = (if \<not> aa_binding_only a then 0 else if aa_verification_priority a then 1 else 2)"

text \<open>An account the passes assign.\<close>

definition managed :: "alloc_account \<Rightarrow> bool" where
  "managed a \<longleftrightarrow> \<not> (aa_manual_proxy a \<or> \<not> aa_eligible a \<or> aa_test_lease a)"

section \<open>Plans\<close>

text \<open>\<open>used\<close> (zero where absent) and \<open>next\<close> (\<open>None\<close> where absent, 0 for "no proxy").\<close>

record plan =
  pl_used :: "int \<Rightarrow> int"
  pl_next :: "int \<rightharpoonup> int"

definition next_of :: "plan \<Rightarrow> int \<Rightarrow> int" where
  "next_of pl i = (case pl_next pl i of None \<Rightarrow> 0 | Some p \<Rightarrow> p)"

definition bump :: "int \<Rightarrow> int \<Rightarrow> (int \<Rightarrow> int) \<Rightarrow> int \<Rightarrow> int" where
  "bump i d used = used(i := used i + d)"

text \<open>What is occupied before planning: manual accounts, and ineligible or leased ones.\<close>

definition occupied_step :: "alloc_account \<Rightarrow> (int \<Rightarrow> int) \<Rightarrow> int \<Rightarrow> int" where
  "occupied_step a used =
     (if aa_manual_proxy a then (if aa_current a \<noteq> 0 then bump (aa_current a) 1 used else used)
      else if (\<not> aa_eligible a \<or> aa_test_lease a) \<and> aa_current a \<noteq> 0 then bump (aa_current a) 1 used
      else used)"

definition occupied :: "alloc_account list \<Rightarrow> int \<Rightarrow> int" where
  "occupied accounts = fold occupied_step accounts (\<lambda>_. 0)"

definition ordered :: "alloc_account list \<Rightarrow> alloc_account list" where
  "ordered accounts = sort_key (\<lambda>a. (aa_waiting a, aa_id a)) accounts"

definition alloc_fresh ::
    "(proxy_def \<Rightarrow> string) \<Rightarrow> (int, proxy) gomap \<Rightarrow> (int \<rightharpoonup> health) \<Rightarrow> gotime \<Rightarrow> int \<Rightarrow> bool \<Rightarrow> bool" where
  "alloc_fresh fp ps hs now i adobe \<longleftrightarrow>
     (case gm_get ps i of None \<Rightarrow> False
      | Some p \<Rightarrow> allocationRouteAvailable p now adobe \<and> h_status (health_at hs i) = ''healthy''
          \<and> h_fingerprint (health_at hs i) = fingerprint fp p
          \<and> time_sub now (h_checked_at (health_at hs i)) \<le> ProbeFreshness (int (length ps)))"

definition route_score :: "(int, proxy) gomap \<Rightarrow> (int \<rightharpoonup> health) \<Rightarrow> (int \<Rightarrow> int) \<Rightarrow> int \<Rightarrow> int" where
  "route_score ps hs used i = generationRouteScore (proxy_at (gm_get ps) i) (health_at hs i) (used i)"

definition traffic_at :: "(int, proxy) gomap \<Rightarrow> int \<Rightarrow> bool" where
  "traffic_at ps i = px_source_traffic_available (proxy_at (gm_get ps) i)"

text \<open>One iteration of the loop of \<open>best\<close>; \<open>chosen = 0\<close> is "none yet".\<close>

definition best_step ::
    "(proxy_def \<Rightarrow> string) \<Rightarrow> (int, proxy) gomap \<Rightarrow> (int \<rightharpoonup> health) \<Rightarrow> gotime \<Rightarrow> (int \<Rightarrow> int) \<Rightarrow> int \<Rightarrow> bool \<Rightarrow> int \<Rightarrow> int \<Rightarrow> int" where
  "best_step fp ps hs now used exc adobe i chosen =
     (if i = exc \<or> used i \<ge> accountsPerProxy \<or> \<not> alloc_fresh fp ps hs now i adobe then chosen
      else if chosen \<noteq> 0 \<and> traffic_at ps i \<noteq> traffic_at ps chosen
      then (if traffic_at ps i then i else chosen)
      else if chosen = 0 \<or> route_score ps hs used i < route_score ps hs used chosen
              \<or> (route_score ps hs used i = route_score ps hs used chosen \<and> i < chosen)
      then i else chosen)"

definition best ::
    "(proxy_def \<Rightarrow> string) \<Rightarrow> (int, proxy) gomap \<Rightarrow> (int \<rightharpoonup> health) \<Rightarrow> gotime \<Rightarrow> (int \<Rightarrow> int) \<Rightarrow> int \<Rightarrow> bool \<Rightarrow> int" where
  "best fp ps hs now used exc adobe = fold (best_step fp ps hs now used exc adobe) (map fst ps) 0"

section \<open>The three passes\<close>

definition skipped :: "nat \<Rightarrow> alloc_account \<Rightarrow> bool" where
  "skipped pr a \<longleftrightarrow> aa_manual_proxy a \<or> \<not> aa_eligible a \<or> aa_test_lease a \<or> priority a \<noteq> pr"

text \<open>Whether an account may keep its current proxy.\<close>

definition keeps ::
    "(proxy_def \<Rightarrow> string) \<Rightarrow> (int, proxy) gomap \<Rightarrow> (int \<rightharpoonup> health) \<Rightarrow> gotime \<Rightarrow> alloc_account \<Rightarrow> bool" where
  "keeps fp ps hs now a \<longleftrightarrow>
     alloc_fresh fp ps hs now (aa_current a) (aa_adobe a)
     \<or> (\<not> aa_waiting a \<or> aa_binding_only a)
       \<and> (case gm_get ps (aa_current a) of None \<Rightarrow> False
          | Some p \<Rightarrow> allocationRouteAvailable p now (aa_adobe a)
              \<and> h_fingerprint (health_at hs (aa_current a)) = fingerprint fp p
              \<and> \<not> (h_status (health_at hs (aa_current a)) = ''unhealthy''
                  \<and> h_failures (health_at hs (aa_current a)) \<ge> 2))"

definition keep_step ::
    "(proxy_def \<Rightarrow> string) \<Rightarrow> (int, proxy) gomap \<Rightarrow> (int \<rightharpoonup> health) \<Rightarrow> gotime \<Rightarrow> nat \<Rightarrow> alloc_account \<Rightarrow> plan \<Rightarrow> plan" where
  "keep_step fp ps hs now pr a pl =
     (if skipped pr a then pl
      else if keeps fp ps hs now a \<and> pl_used pl (aa_current a) < accountsPerProxy
      then \<lparr>pl_used = bump (aa_current a) 1 (pl_used pl), pl_next = (pl_next pl)(aa_id a \<mapsto> aa_current a)\<rparr>
      else pl)"

definition assign_step ::
    "(proxy_def \<Rightarrow> string) \<Rightarrow> (int, proxy) gomap \<Rightarrow> (int \<rightharpoonup> health) \<Rightarrow> gotime \<Rightarrow> nat \<Rightarrow> alloc_account \<Rightarrow> plan \<Rightarrow> plan" where
  "assign_step fp ps hs now pr a pl =
     (if skipped pr a \<or> next_of pl (aa_id a) \<noteq> 0 then pl
      else (let i = best fp ps hs now (pl_used pl) 0 (aa_adobe a) in
            \<lparr>pl_used = (if i \<noteq> 0 then bump i 1 (pl_used pl) else pl_used pl),
             pl_next = (pl_next pl)(aa_id a \<mapsto> i)\<rparr>))"

definition soft_step ::
    "(proxy_def \<Rightarrow> string) \<Rightarrow> (int, proxy) gomap \<Rightarrow> (int \<rightharpoonup> health) \<Rightarrow> gotime \<Rightarrow> alloc_account \<Rightarrow> plan \<Rightarrow> plan" where
  "soft_step fp ps hs now a pl =
     (let current = next_of pl (aa_id a) in
      if aa_manual_proxy a \<or> aa_binding_only a \<or> aa_test_lease a \<or> current = 0 \<or> current \<noteq> aa_current a
         \<or> \<not> alloc_fresh fp ps hs now current (aa_adobe a)
         \<or> time_sub now (aa_last_switch a) < softSwitchCooldown
      then pl
      else (let cand = best fp ps hs now (pl_used pl) current (aa_adobe a) in
            if cand \<noteq> 0 \<and> (\<not> traffic_at ps current \<or> traffic_at ps cand)
               \<and> betterLatencyRoute (health_at hs current) (health_at hs cand)
            then \<lparr>pl_used = bump cand 1 (bump current (- 1) (pl_used pl)),
                  pl_next = (pl_next pl)(aa_id a \<mapsto> cand)\<rparr>
            else pl))"

definition plan_pass ::
    "(proxy_def \<Rightarrow> string) \<Rightarrow> (int, proxy) gomap \<Rightarrow> (int \<rightharpoonup> health) \<Rightarrow> gotime \<Rightarrow> alloc_account list \<Rightarrow> nat \<Rightarrow> plan \<Rightarrow> plan" where
  "plan_pass fp ps hs now ord pr pl =
     (let pl = fold (assign_step fp ps hs now pr) ord (fold (keep_step fp ps hs now pr) ord pl)
      in if pr = 0 then fold (soft_step fp ps hs now) ord pl else pl)"

definition planAllocation ::
    "(proxy_def \<Rightarrow> string) \<Rightarrow> alloc_account list \<Rightarrow> (int, proxy) gomap \<Rightarrow> (int \<rightharpoonup> health) \<Rightarrow> gotime \<Rightarrow> plan" where
  "planAllocation fp accounts ps hs now =
     fold (plan_pass fp ps hs now (ordered accounts)) [0, 1, 2]
       \<lparr>pl_used = occupied accounts, pl_next = Map.empty\<rparr>"


section \<open>The choice of the best route\<close>

definition better :: "(int, proxy) gomap \<Rightarrow> (int \<rightharpoonup> health) \<Rightarrow> (int \<Rightarrow> int) \<Rightarrow> int \<Rightarrow> int \<Rightarrow> bool" where
  "better ps hs used i j \<longleftrightarrow>
     (if traffic_at ps i \<noteq> traffic_at ps j then traffic_at ps i
      else route_score ps hs used i < route_score ps hs used j
           \<or> (route_score ps hs used i = route_score ps hs used j \<and> i < j))"

text \<open>The comparison is the lexicographic order of (no traffic information, score, id).\<close>

definition route_key :: "(int, proxy) gomap \<Rightarrow> (int \<rightharpoonup> health) \<Rightarrow> (int \<Rightarrow> int) \<Rightarrow> int \<Rightarrow> bool \<times> int \<times> int" where
  "route_key ps hs used i = (\<not> traffic_at ps i, route_score ps hs used i, i)"

lemma better_key: "better ps hs used i j \<longleftrightarrow> route_key ps hs used i < route_key ps hs used j"
  by (auto simp: better_def route_key_def)

interpretation route_order: strict_order "better ps hs used" for ps hs used
proof
  fix i j k
  show "\<not> better ps hs used i i" by (simp add: better_key)
  show "better ps hs used i j \<Longrightarrow> better ps hs used j k \<Longrightarrow> better ps hs used i k" unfolding better_key by (rule less_trans)
  show "\<not> better ps hs used i j \<Longrightarrow> \<not> better ps hs used j k \<Longrightarrow> \<not> better ps hs used i k" unfolding better_key by simp
  show "i \<noteq> j \<Longrightarrow> better ps hs used i j \<or> better ps hs used j i"
    by (auto simp: better_key route_key_def)
qed

definition open_route ::
    "(proxy_def \<Rightarrow> string) \<Rightarrow> (int, proxy) gomap \<Rightarrow> (int \<rightharpoonup> health) \<Rightarrow> gotime \<Rightarrow> (int \<Rightarrow> int) \<Rightarrow> int \<Rightarrow> bool \<Rightarrow> int \<Rightarrow> bool" where
  "open_route fp ps hs now used exc adobe i \<longleftrightarrow>
     i \<noteq> exc \<and> used i < accountsPerProxy \<and> alloc_fresh fp ps hs now i adobe"

text \<open>Proxy ids are the keys of the map and never 0.\<close>

definition ids_ok :: "(int, proxy) gomap \<Rightarrow> bool" where
  "ids_ok ps \<longleftrightarrow> gm_ok ps \<and> 0 \<notin> fst ` set ps"

lemma best_fold:
  "0 \<notin> set xs \<Longrightarrow> fold (best_step fp ps hs now used exc adobe) xs 0 =
     (case pick (better ps hs used) (filter (open_route fp ps hs now used exc adobe) xs) of None \<Rightarrow> 0 | Some i \<Rightarrow> i)"
proof (induction xs rule: rev_induct)
  case Nil
  then show ?case by simp
next
  case (snoc x xs)
  let ?ys = "filter (open_route fp ps hs now used exc adobe) xs"
  have nz: "y \<noteq> 0" if "pick (better ps hs used) ?ys = Some y" for y
    using pick_in_set [OF that] snoc.prems by auto
  have IH: "fold (best_step fp ps hs now used exc adobe) xs 0 =
      (case pick (better ps hs used) ?ys of None \<Rightarrow> 0 | Some i \<Rightarrow> i)"
    using snoc by simp
  show ?case
  proof (cases "open_route fp ps hs now used exc adobe x")
    case False
    then have "best_step fp ps hs now used exc adobe x c = c" for c
      by (auto simp: best_step_def open_route_def)
    with False IH show ?thesis by simp
  next
    case True
    then have "best_step fp ps hs now used exc adobe x c = (if c = 0 \<or> better ps hs used x c then x else c)" for c
      by (simp add: best_step_def open_route_def better_def)
    with True IH nz show ?thesis by (cases "pick (better ps hs used) ?ys") (simp_all add: pick_snoc pick_step_def)
  qed
qed

lemma best_eq_pick:
  "ids_ok ps \<Longrightarrow> best fp ps hs now used exc adobe =
     (case pick (better ps hs used) (filter (open_route fp ps hs now used exc adobe) (map fst ps)) of None \<Rightarrow> 0 | Some i \<Rightarrow> i)"
  unfolding best_def by (rule best_fold) (auto simp: ids_ok_def)

lemma best_open:
  assumes "ids_ok ps" and "best fp ps hs now used exc adobe \<noteq> 0"
  shows "open_route fp ps hs now used exc adobe (best fp ps hs now used exc adobe)"
  using assms(2) unfolding best_eq_pick [OF assms(1)]
  by (auto split: option.splits dest: pick_in_set)

lemma best_zero:
  assumes "ids_ok ps" and "best fp ps hs now used exc adobe = 0" and "i \<in> fst ` set ps"
  shows "\<not> open_route fp ps hs now used exc adobe i"
proof
  let ?xs = "filter (open_route fp ps hs now used exc adobe) (map fst ps)"
  assume "open_route fp ps hs now used exc adobe i"
  with assms(3) have "i \<in> set ?xs" by auto
  then have "?xs \<noteq> []" by (metis empty_iff empty_set)
  then obtain j where j: "pick (better ps hs used) ?xs = Some j" by (metis not_None_eq pick_None_iff)
  with assms(2) have "j = 0" unfolding best_eq_pick [OF assms(1)] by simp
  with pick_in_set [OF j] assms(1) show False by (auto simp: ids_ok_def)
qed

text \<open>Two iteration orders of the same map.\<close>

lemma same_map:
  assumes "gm_ok ps" "gm_ok qs" "set ps = set qs"
  shows "gm_get ps = gm_get qs" and "length ps = length qs"
proof -
  show "gm_get ps = gm_get qs"
  proof
    fix k
    have "gm_get ps k = Some v \<longleftrightarrow> gm_get qs k = Some v" for v
      using gm_in_set [OF assms(1)] gm_in_set [OF assms(2)] assms(3) by metis
    then show "gm_get ps k = gm_get qs k" by (metis not_None_eq)
  qed
  show "length ps = length qs"
    using assms distinct_card [of ps] distinct_card [of qs] by (simp add: distinct_map)
qed

lemma order_independent_parts:
  assumes "ids_ok ps" "ids_ok qs" "set ps = set qs"
  shows "alloc_fresh fp ps = alloc_fresh fp qs" "traffic_at ps = traffic_at qs" "route_score ps = route_score qs"
    and "keeps fp ps = keeps fp qs" "best fp ps = best fp qs"
proof -
  have m: "gm_get ps = gm_get qs" "length ps = length qs"
    using same_map assms by (auto simp: ids_ok_def)
  show f: "alloc_fresh fp ps = alloc_fresh fp qs" unfolding fun_eq_iff alloc_fresh_def m by simp
  show t: "traffic_at ps = traffic_at qs" unfolding fun_eq_iff traffic_at_def m by simp
  show s: "route_score ps = route_score qs" unfolding fun_eq_iff route_score_def m by simp
  show "keeps fp ps = keeps fp qs" unfolding fun_eq_iff keeps_def f m by simp
  have o': "open_route fp ps = open_route fp qs" unfolding fun_eq_iff open_route_def f by simp
  have b: "better ps = better qs" unfolding fun_eq_iff better_def t s by simp
  show "best fp ps = best fp qs"
  proof (intro ext)
    fix hs now used exc adobe
    have "set (filter (open_route fp qs hs now used exc adobe) (map fst ps))
        = set (filter (open_route fp qs hs now used exc adobe) (map fst qs))"
      using assms(3) by auto
    from route_order.pick_order_independent [OF this]
    show "best fp ps hs now used exc adobe = best fp qs hs now used exc adobe"
      unfolding best_eq_pick [OF assms(1)] best_eq_pick [OF assms(2)] o' b by simp
  qed
qed

lemma plan_order_independent:
  assumes "ids_ok ps" "ids_ok qs" "set ps = set qs"
  shows "planAllocation fp accounts ps hs now = planAllocation fp accounts qs hs now"
proof -
  note p = order_independent_parts [OF assms]
  have "keep_step fp ps hs now = keep_step fp qs hs now"
    by (intro ext) (simp only: keep_step_def p)
  moreover have "assign_step fp ps hs now = assign_step fp qs hs now"
    by (intro ext) (simp only: assign_step_def p)
  moreover have "soft_step fp ps hs now = soft_step fp qs hs now"
    by (intro ext) (simp only: soft_step_def p)
  ultimately have "plan_pass fp ps hs now = plan_pass fp qs hs now"
    by (intro ext) (simp only: plan_pass_def)
  then show ?thesis by (simp only: planAllocation_def)
qed

section \<open>Capacity\<close>

text \<open>The accounts a plan put on a proxy.\<close>

definition on_proxy :: "plan \<Rightarrow> int \<Rightarrow> int set" where
  "on_proxy pl i = {a. pl_next pl a = Some i}"

text \<open>\<open>pre\<close> is what was occupied before; the counters are exact and only usable proxies are assigned.\<close>

definition plan_ok :: "(int, proxy) gomap \<Rightarrow> gotime \<Rightarrow> (int \<Rightarrow> int) \<Rightarrow> plan \<Rightarrow> bool" where
  "plan_ok ps now pre pl \<longleftrightarrow> finite (dom (pl_next pl))
     \<and> (\<forall>i. i \<noteq> 0 \<longrightarrow> pl_used pl i = pre i + int (card (on_proxy pl i)))
     \<and> (\<forall>i. i \<noteq> 0 \<longrightarrow> pl_used pl i \<le> max accountsPerProxy (pre i))
     \<and> (\<forall>a i. pl_next pl a = Some i \<longrightarrow> i \<noteq> 0 \<longrightarrow>
          (\<exists>p. gm_get ps i = Some p \<and> networkAvailable p now))"

lemma finite_on_proxy: "finite (dom (pl_next pl)) \<Longrightarrow> finite (on_proxy pl i)"
  by (rule finite_subset [of _ "dom (pl_next pl)"]) (auto simp: on_proxy_def)

lemma on_proxy_upd:
  "on_proxy (pl\<lparr>pl_next := (pl_next pl)(a \<mapsto> i)\<rparr>) j = (if j = i then insert a (on_proxy pl j) else on_proxy pl j - {a})"
  by (auto simp: on_proxy_def)

text \<open>Assigning a free account.\<close>

lemma plan_ok_assign:
  assumes ok: "plan_ok ps now pre pl" and free: "next_of pl a = 0" and i: "i \<noteq> 0" "pl_used pl i < accountsPerProxy"
    and p: "gm_get ps i = Some p" "networkAvailable p now"
  shows "plan_ok ps now pre \<lparr>pl_used = bump i 1 (pl_used pl), pl_next = (pl_next pl)(a \<mapsto> i)\<rparr>"
proof -
  let ?pl = "\<lparr>pl_used = bump i 1 (pl_used pl), pl_next = (pl_next pl)(a \<mapsto> i)\<rparr>"
  have new: "on_proxy ?pl j = (if j = i then insert a (on_proxy pl j) else on_proxy pl j - {a})" for j
    by (auto simp: on_proxy_def)
  have a: "a \<notin> on_proxy pl j" if "j \<noteq> 0" for j
    using free that by (auto simp: next_of_def on_proxy_def)
  have fin: "finite (on_proxy pl j)" for j using ok by (simp add: plan_ok_def finite_on_proxy)
  have card: "card (on_proxy ?pl j) = card (on_proxy pl j) + (if j = i then 1 else 0)" if "j \<noteq> 0" for j
    using a [OF that] fin [of j] by (cases "j = i") (simp_all add: new)
  show ?thesis unfolding plan_ok_def
  proof (intro conjI allI impI)
    show "finite (dom (pl_next ?pl))" using ok by (simp add: plan_ok_def)
    fix j :: int
    assume j: "j \<noteq> 0"
    have old: "pl_used pl j = pre j + int (card (on_proxy pl j))" "pl_used pl j \<le> max accountsPerProxy (pre j)"
      using ok j by (auto simp: plan_ok_def)
    show "pl_used ?pl j = pre j + int (card (on_proxy ?pl j))"
      unfolding card [OF j] using old(1) by (cases "j = i") (simp_all add: bump_def)
    show "pl_used ?pl j \<le> max accountsPerProxy (pre j)"
      using old(2) i by (auto simp: bump_def)
  next
    fix b j
    assume "pl_next ?pl b = Some j" "j \<noteq> 0"
    then show "\<exists>p. gm_get ps j = Some p \<and> networkAvailable p now"
      using ok p by (auto simp: plan_ok_def split: if_splits)
  qed
qed

lemma plan_ok_none:
  assumes ok: "plan_ok ps now pre pl" and free: "next_of pl a = 0"
  shows "plan_ok ps now pre \<lparr>pl_used = pl_used pl, pl_next = (pl_next pl)(a \<mapsto> 0)\<rparr>"
proof -
  have "on_proxy \<lparr>pl_used = pl_used pl, pl_next = (pl_next pl)(a \<mapsto> 0)\<rparr> j = on_proxy pl j" if "j \<noteq> 0" for j
    using free that by (auto simp: next_of_def on_proxy_def)
  with ok show ?thesis by (auto simp: plan_ok_def split: if_splits)
qed

lemma plan_ok_unassign:
  assumes ok: "plan_ok ps now pre pl" and i: "next_of pl a = i" "i \<noteq> 0"
  shows "plan_ok ps now pre \<lparr>pl_used = bump i (- 1) (pl_used pl), pl_next = (pl_next pl)(a \<mapsto> 0)\<rparr>"
proof -
  let ?pl = "\<lparr>pl_used = bump i (- 1) (pl_used pl), pl_next = (pl_next pl)(a \<mapsto> 0)\<rparr>"
  have a: "a \<in> on_proxy pl i" "\<And>j. j \<noteq> i \<Longrightarrow> a \<notin> on_proxy pl j"
    using i by (auto simp: next_of_def on_proxy_def split: option.splits)
  have fin: "finite (on_proxy pl j)" for j using ok by (simp add: plan_ok_def finite_on_proxy)
  have new: "on_proxy ?pl j = on_proxy pl j - {a}" if "j \<noteq> 0" for j using that by (auto simp: on_proxy_def)
  have c: "0 < card (on_proxy pl i)" using a(1) fin card_gt_0_iff by blast
  show ?thesis unfolding plan_ok_def
  proof (intro conjI allI impI)
    show "finite (dom (pl_next ?pl))" using ok by (simp add: plan_ok_def)
    fix j :: int
    assume j: "j \<noteq> 0"
    have old: "pl_used pl j = pre j + int (card (on_proxy pl j))" "pl_used pl j \<le> max accountsPerProxy (pre j)"
      using ok j by (auto simp: plan_ok_def)
    show "pl_used ?pl j = pre j + int (card (on_proxy ?pl j))"
      unfolding new [OF j] using old(1) a fin c by (cases "j = i") (auto simp: bump_def)
    show "pl_used ?pl j \<le> max accountsPerProxy (pre j)"
      using old(2) by (auto simp: bump_def)
  next
    fix b j
    assume "pl_next ?pl b = Some j" "j \<noteq> 0"
    then show "\<exists>p. gm_get ps j = Some p \<and> networkAvailable p now"
      using ok by (auto simp: plan_ok_def split: if_splits)
  qed
qed


lemma plan_ok_move:
  assumes ok: "plan_ok ps now pre pl" and i: "next_of pl a = i" "i \<noteq> 0"
    and j: "j \<noteq> 0" "j \<noteq> i" "pl_used pl j < accountsPerProxy"
    and p: "gm_get ps j = Some p" "networkAvailable p now"
  shows "plan_ok ps now pre \<lparr>pl_used = bump j 1 (bump i (- 1) (pl_used pl)), pl_next = (pl_next pl)(a \<mapsto> j)\<rparr>"
proof -
  let ?mid = "\<lparr>pl_used = bump i (- 1) (pl_used pl), pl_next = (pl_next pl)(a \<mapsto> 0)\<rparr>"
  have mid: "plan_ok ps now pre ?mid" by (rule plan_ok_unassign [OF ok i])
  have "plan_ok ps now pre \<lparr>pl_used = bump j 1 (pl_used ?mid), pl_next = (pl_next ?mid)(a \<mapsto> j)\<rparr>"
    by (rule plan_ok_assign [OF mid _ j(1) _ p]) (use j in \<open>simp_all add: next_of_def bump_def\<close>)
  then show ?thesis by simp
qed

lemma fresh_route:
  assumes "alloc_fresh fp ps hs now i adobe"
  shows "\<exists>p. gm_get ps i = Some p \<and> networkAvailable p now"
  using assms by (auto simp: alloc_fresh_def dest: allocationRoute_network split: option.splits)

lemma keeps_route:
  assumes "keeps fp ps hs now a"
  shows "\<exists>p. gm_get ps (aa_current a) = Some p \<and> networkAvailable p now"
  using assms by (auto simp: keeps_def dest: fresh_route allocationRoute_network split: option.splits)

lemma ids_ok_nonzero: "ids_ok ps \<Longrightarrow> gm_get ps i = Some p \<Longrightarrow> i \<noteq> 0"
  by (force simp: ids_ok_def dest: map_of_SomeD)

lemma keep_step_ok:
  assumes ids: "ids_ok ps" and ok: "plan_ok ps now pre pl" and free: "\<not> skipped pr a \<Longrightarrow> next_of pl (aa_id a) = 0"
  shows "plan_ok ps now pre (keep_step fp ps hs now pr a pl)"
proof (cases "\<not> skipped pr a \<and> keeps fp ps hs now a \<and> pl_used pl (aa_current a) < accountsPerProxy")
  case True
  then obtain p where p: "gm_get ps (aa_current a) = Some p" "networkAvailable p now"
    using keeps_route by blast
  have "aa_current a \<noteq> 0" by (rule ids_ok_nonzero [OF ids p(1)])
  with plan_ok_assign [OF ok, of "aa_id a" "aa_current a" p] True p free show ?thesis
    by (simp add: keep_step_def)
next
  case False
  then have "keep_step fp ps hs now pr a pl = pl" by (auto simp: keep_step_def)
  with ok show ?thesis by simp
qed

lemma assign_step_ok:
  assumes ids: "ids_ok ps" and ok: "plan_ok ps now pre pl"
  shows "plan_ok ps now pre (assign_step fp ps hs now pr a pl)"
proof (cases "skipped pr a \<or> next_of pl (aa_id a) \<noteq> 0")
  case True
  with ok show ?thesis by (simp add: assign_step_def)
next
  case False
  let ?i = "best fp ps hs now (pl_used pl) 0 (aa_adobe a)"
  show ?thesis
  proof (cases "?i = 0")
    case True
    with False plan_ok_none [OF ok] show ?thesis by (simp add: assign_step_def)
  next
    case nz: False
    from best_open [OF ids nz] have o': "pl_used pl ?i < accountsPerProxy" "alloc_fresh fp ps hs now ?i (aa_adobe a)"
      by (auto simp: open_route_def)
    from fresh_route [OF o'(2)] obtain p where "gm_get ps ?i = Some p" "networkAvailable p now" by blast
    with plan_ok_assign [OF ok _ nz o'(1)] False nz show ?thesis by (simp add: assign_step_def Let_def)
  qed
qed

lemma soft_step_ok:
  assumes ids: "ids_ok ps" and ok: "plan_ok ps now pre pl"
  shows "plan_ok ps now pre (soft_step fp ps hs now a pl)"
proof -
  let ?c = "next_of pl (aa_id a)" and ?j = "best fp ps hs now (pl_used pl) (next_of pl (aa_id a)) (aa_adobe a)"
  show ?thesis
  proof (cases "?c \<noteq> 0 \<and> ?j \<noteq> 0")
    case True
    then have nz: "?j \<noteq> 0" by simp
    from best_open [OF ids nz] have o': "?j \<noteq> ?c" "pl_used pl ?j < accountsPerProxy" "alloc_fresh fp ps hs now ?j (aa_adobe a)"
      by (auto simp: open_route_def)
    from fresh_route [OF o'(3)] obtain p where "gm_get ps ?j = Some p" "networkAvailable p now" by blast
    with plan_ok_move [OF ok refl _ nz o'(1,2)] True
    have m: "plan_ok ps now pre \<lparr>pl_used = bump ?j 1 (bump ?c (- 1) (pl_used pl)), pl_next = (pl_next pl)(aa_id a \<mapsto> ?j)\<rparr>"
      by blast
    show ?thesis unfolding soft_step_def Let_def by (simp only: m ok simp_thms split: if_split)
  next
    case False
    with ok show ?thesis by (auto simp: soft_step_def Let_def)
  qed
qed

text \<open>Which entries a step may touch.\<close>

lemma keep_step_next: "pl_next (keep_step fp ps hs now pr a pl) b \<noteq> pl_next pl b \<Longrightarrow> b = aa_id a \<and> \<not> skipped pr a"
  by (auto simp: keep_step_def split: if_splits)

lemma assign_step_next: "pl_next (assign_step fp ps hs now pr a pl) b \<noteq> pl_next pl b \<Longrightarrow> b = aa_id a \<and> \<not> skipped pr a"
  by (auto simp: assign_step_def Let_def split: if_splits)

lemma soft_step_next: "pl_next (soft_step fp ps hs now a pl) b \<noteq> pl_next pl b \<Longrightarrow> b = aa_id a \<and> pl_next pl b \<noteq> None"
proof -
  assume d: "pl_next (soft_step fp ps hs now a pl) b \<noteq> pl_next pl b"
  then have "next_of pl (aa_id a) \<noteq> 0" by (auto simp: soft_step_def Let_def)
  then have "pl_next pl (aa_id a) \<noteq> None" by (auto simp: next_of_def split: option.splits)
  moreover have "b = aa_id a"
  proof (rule ccontr)
    assume "b \<noteq> aa_id a"
    then have "pl_next (soft_step fp ps hs now a pl) b = pl_next pl b"
      unfolding soft_step_def Let_def by (simp split: if_split)
    with d show False by simp
  qed
  ultimately show ?thesis by simp
qed

lemma fold_next:
  assumes "\<And>a pl b. pl_next (f a pl) b \<noteq> pl_next pl b \<Longrightarrow> b = aa_id a \<and> P a"
  shows "pl_next (fold f xs pl) b \<noteq> pl_next pl b \<Longrightarrow> b \<in> aa_id ` {a \<in> set xs. P a}"
proof (induction xs arbitrary: pl)
  case Nil
  then show ?case by simp
next
  case (Cons x xs)
  show ?case
  proof (cases "pl_next (fold f xs (f x pl)) b = pl_next (f x pl) b")
    case True
    with Cons.prems assms [of x pl b] show ?thesis by auto
  next
    case False
    from Cons.IH [OF False] show ?thesis by auto
  qed
qed

lemma keep_fold_ok:
  assumes ids: "ids_ok ps"
  shows "plan_ok ps now pre pl \<Longrightarrow> distinct (map aa_id xs) \<Longrightarrow>
    (\<And>a. a \<in> set xs \<Longrightarrow> \<not> skipped pr a \<Longrightarrow> next_of pl (aa_id a) = 0) \<Longrightarrow>
    plan_ok ps now pre (fold (keep_step fp ps hs now pr) xs pl)"
proof (induction xs arbitrary: pl)
  case Nil
  then show ?case by simp
next
  case (Cons x xs)
  let ?pl = "keep_step fp ps hs now pr x pl"
  have "plan_ok ps now pre ?pl"
    by (rule keep_step_ok [OF ids Cons.prems(1)]) (rule Cons.prems(3), simp)
  moreover have "next_of ?pl (aa_id a) = 0" if "a \<in> set xs" "\<not> skipped pr a" for a
  proof -
    from that(1) have "aa_id a \<in> aa_id ` set xs" by (rule imageI)
    with Cons.prems(2) have "aa_id a \<noteq> aa_id x" by auto
    then have "pl_next ?pl (aa_id a) = pl_next pl (aa_id a)" using keep_step_next by blast
    with Cons.prems(3) [of a] that show ?thesis by (simp add: next_of_def)
  qed
  ultimately show ?case using Cons.IH [of ?pl] Cons.prems(2) by simp
qed

lemma assign_fold_ok: "ids_ok ps \<Longrightarrow> plan_ok ps now pre pl \<Longrightarrow> plan_ok ps now pre (fold (assign_step fp ps hs now pr) xs pl)"
  by (induction xs arbitrary: pl) (auto intro: assign_step_ok)

lemma soft_fold_ok: "ids_ok ps \<Longrightarrow> plan_ok ps now pre pl \<Longrightarrow> plan_ok ps now pre (fold (soft_step fp ps hs now) xs pl)"
  by (induction xs arbitrary: pl) (auto intro: soft_step_ok)

lemma soft_fold_next: "pl_next (fold (soft_step fp ps hs now) xs pl) b \<noteq> pl_next pl b \<Longrightarrow> pl_next pl b \<noteq> None"
proof (induction xs arbitrary: pl)
  case (Cons x xs)
  then show ?case using soft_step_next [of fp ps hs now x pl b] by (metis fold_simps(2))
qed simp

text \<open>The entries a pass writes belong to managed accounts of its priority.\<close>

lemma plan_pass_next:
  assumes "pl_next (plan_pass fp ps hs now xs pr pl) b \<noteq> pl_next pl b"
  shows "b \<in> aa_id ` {a \<in> set xs. \<not> skipped pr a} \<or> pr = 0 \<and> pl_next pl b \<noteq> None"
proof -
  let ?k = "fold (keep_step fp ps hs now pr) xs pl"
  let ?a = "fold (assign_step fp ps hs now pr) xs ?k"
  have k: "b \<in> aa_id ` {a \<in> set xs. \<not> skipped pr a}" if "pl_next ?k b \<noteq> pl_next pl b"
    by (rule fold_next [OF _ that]) (rule keep_step_next)
  have a: "b \<in> aa_id ` {a \<in> set xs. \<not> skipped pr a}" if "pl_next ?a b \<noteq> pl_next ?k b"
    by (rule fold_next [OF _ that]) (rule assign_step_next)
  note s = soft_fold_next [of fp ps hs now xs ?a b]
  show ?thesis
  proof (cases "pl_next ?k b = pl_next pl b")
    case False
    with k show ?thesis by blast
  next
    case k': True
    show ?thesis
    proof (cases "pl_next ?a b = pl_next ?k b")
      case False
      with a show ?thesis by blast
    next
      case True
      have e: "pl_next ?a b = pl_next pl b" using True k' by (rule trans)
      have p: "pr = 0 \<and> pl_next (fold (soft_step fp ps hs now) xs ?a) b \<noteq> pl_next ?a b"
        using assms e unfolding plan_pass_def Let_def by (simp only: split: if_splits) blast+
      then have "pl_next ?a b \<noteq> None" using s by blast
      with e p show ?thesis by simp
    qed
  qed
qed


lemma plan_pass_ok:
  assumes ids: "ids_ok ps" and d: "distinct (map aa_id xs)" and ok: "plan_ok ps now pre pl"
    and free: "\<And>a. a \<in> set xs \<Longrightarrow> \<not> skipped pr a \<Longrightarrow> next_of pl (aa_id a) = 0"
  shows "plan_ok ps now pre (plan_pass fp ps hs now xs pr pl)"
proof -
  have a: "plan_ok ps now pre (fold (assign_step fp ps hs now pr) xs (fold (keep_step fp ps hs now pr) xs pl))"
    by (intro assign_fold_ok keep_fold_ok ids ok d) (rule free)
  show ?thesis unfolding plan_pass_def Let_def
    by (simp only: a soft_fold_ok [OF ids a] simp_thms split: if_split)
qed

lemma same_id:
  "distinct (map aa_id xs) \<Longrightarrow> a \<in> set xs \<Longrightarrow> b \<in> set xs \<Longrightarrow> aa_id a = aa_id b \<Longrightarrow> a = b"
  by (meson distinct_map inj_onD)

lemma plan_pass_other:
  assumes d: "distinct (map aa_id xs)" and a: "a \<in> set xs" "priority a \<noteq> pr" and pr: "pr \<noteq> 0 \<or> pl_next pl (aa_id a) = None"
  shows "pl_next (plan_pass fp ps hs now xs pr pl) (aa_id a) = pl_next pl (aa_id a)"
proof (rule ccontr)
  assume "\<not> ?thesis"
  from plan_pass_next [OF this] pr obtain b where "b \<in> set xs" "\<not> skipped pr b" "aa_id a = aa_id b" by auto
  with same_id [OF d a(1)] a(2) show False by (auto simp: skipped_def)
qed

lemma set_ordered [simp]: "set (ordered accounts) = set accounts"
  by (simp add: ordered_def)

lemma ordered_distinct:
  assumes "distinct (map aa_id accounts)"
  shows "distinct (map aa_id (ordered accounts))"
proof -
  have "mset (map aa_id (ordered accounts)) = mset (map aa_id accounts)" by (simp add: ordered_def)
  with assms show ?thesis by (metis mset_eq_imp_distinct_iff)
qed

lemma plan_three:
  "planAllocation fp accounts ps hs now =
     (let xs = ordered accounts; p0 = \<lparr>pl_used = occupied accounts, pl_next = Map.empty\<rparr>;
          p1 = plan_pass fp ps hs now xs 0 p0; p2 = plan_pass fp ps hs now xs 1 p1
      in plan_pass fp ps hs now xs 2 p2)"
  by (simp add: planAllocation_def Let_def)

lemma plan_alloc_ok:
  assumes ids: "ids_ok ps" and d: "distinct (map aa_id accounts)"
  shows "plan_ok ps now (occupied accounts) (planAllocation fp accounts ps hs now)"
proof -
  let ?xs = "ordered accounts" and ?p0 = "\<lparr>pl_used = occupied accounts, pl_next = Map.empty\<rparr>"
  let ?p1 = "plan_pass fp ps hs now ?xs 0 ?p0"
  let ?p2 = "plan_pass fp ps hs now ?xs 1 ?p1"
  note dx = ordered_distinct [OF d]
  have p0: "plan_ok ps now (occupied accounts) ?p0" by (auto simp: plan_ok_def on_proxy_def)
  have p1: "plan_ok ps now (occupied accounts) ?p1"
    by (rule plan_pass_ok [OF ids dx p0]) (simp add: next_of_def)
  have n1: "pl_next ?p1 (aa_id a) = None" if "a \<in> set ?xs" "priority a \<noteq> 0" for a
    using plan_pass_other [OF dx that, of ?p0] by simp
  have p2: "plan_ok ps now (occupied accounts) ?p2"
    by (rule plan_pass_ok [OF ids dx p1]) (simp add: next_of_def n1 skipped_def)
  have n2: "pl_next ?p2 (aa_id a) = None" if "a \<in> set ?xs" "priority a = 2" for a
    using plan_pass_other [OF dx that(1), of 1 ?p1] n1 [OF that(1)] that(2) by simp
  have "plan_ok ps now (occupied accounts) (plan_pass fp ps hs now ?xs 2 ?p2)"
    by (rule plan_pass_ok [OF ids dx p2]) (simp add: next_of_def n2 skipped_def del: One_nat_def)
  then show ?thesis by (simp add: plan_three Let_def)
qed

text \<open>Entries are never removed, and every account of the pass gets one.\<close>

lemma step_dom:
  "dom (pl_next pl) \<subseteq> dom (pl_next (keep_step fp ps hs now pr a pl))"
  "dom (pl_next pl) \<subseteq> dom (pl_next (assign_step fp ps hs now pr a pl))"
  "dom (pl_next pl) \<subseteq> dom (pl_next (soft_step fp ps hs now a pl))"
  by (auto simp: keep_step_def assign_step_def soft_step_def Let_def)

lemma fold_dom:
  assumes "\<And>a pl. dom (pl_next pl) \<subseteq> dom (pl_next (f a pl))"
  shows "dom (pl_next pl) \<subseteq> dom (pl_next (fold f xs pl))"
  by (induction xs arbitrary: pl) (use assms in fastforce)+

lemma assign_fold_dom:
  "a \<in> set xs \<Longrightarrow> \<not> skipped pr a \<Longrightarrow> aa_id a \<in> dom (pl_next (fold (assign_step fp ps hs now pr) xs pl))"
proof (induction xs arbitrary: pl)
  case Nil
  then show ?case by simp
next
  case (Cons x xs)
  show ?case
  proof (cases "a = x")
    case True
    with Cons.prems have "aa_id a \<in> dom (pl_next (assign_step fp ps hs now pr x pl))"
      by (auto simp: assign_step_def Let_def next_of_def split: option.splits)
    moreover have "dom (pl_next (assign_step fp ps hs now pr x pl))
        \<subseteq> dom (pl_next (fold (assign_step fp ps hs now pr) xs (assign_step fp ps hs now pr x pl)))"
      by (rule fold_dom [OF step_dom(2)])
    ultimately show ?thesis by auto
  next
    case False
    with Cons show ?thesis by simp
  qed
qed

lemma pass_dom: "dom (pl_next pl) \<subseteq> dom (pl_next (plan_pass fp ps hs now xs pr pl))"
proof -
  let ?k = "fold (keep_step fp ps hs now pr) xs pl"
  let ?a = "fold (assign_step fp ps hs now pr) xs ?k"
  have "dom (pl_next pl) \<subseteq> dom (pl_next ?k)" by (rule fold_dom [OF step_dom(1)])
  moreover have "dom (pl_next ?k) \<subseteq> dom (pl_next ?a)" by (rule fold_dom [OF step_dom(2)])
  moreover have "dom (pl_next ?a) \<subseteq> dom (pl_next (fold (soft_step fp ps hs now) xs ?a))" by (rule fold_dom [OF step_dom(3)])
  ultimately show ?thesis unfolding plan_pass_def Let_def by (cases "pr = 0") auto
qed

lemma pass_assigns:
  assumes "a \<in> set xs" "\<not> skipped pr a"
  shows "aa_id a \<in> dom (pl_next (plan_pass fp ps hs now xs pr pl))"
proof -
  let ?a = "fold (assign_step fp ps hs now pr) xs (fold (keep_step fp ps hs now pr) xs pl)"
  have "aa_id a \<in> dom (pl_next ?a)" by (rule assign_fold_dom [OF assms])
  moreover have "dom (pl_next ?a) \<subseteq> dom (pl_next (fold (soft_step fp ps hs now) xs ?a))" by (rule fold_dom [OF step_dom(3)])
  ultimately have "aa_id a \<in> dom (pl_next (fold (soft_step fp ps hs now) xs ?a))" by blast
  with \<open>aa_id a \<in> dom (pl_next ?a)\<close> show ?thesis unfolding plan_pass_def Let_def by (simp only: simp_thms split: if_split)
qed

lemma priority_cases: "priority a = 0 \<or> priority a = 1 \<or> priority a = 2"
  by (simp add: priority_def)

lemma plan_covers:
  assumes "a \<in> set accounts" "managed a"
  shows "aa_id a \<in> dom (pl_next (planAllocation fp accounts ps hs now))"
proof -
  let ?xs = "ordered accounts"
  have pr: "\<not> skipped (priority a) a" "a \<in> set ?xs" using assms by (auto simp: skipped_def managed_def)
  note h = pass_assigns [OF pr(2,1), of fp ps hs now] and d = pass_dom [of _ fp ps hs now ?xs, THEN subsetD]
  show ?thesis using priority_cases [of a] unfolding plan_three Let_def
    by (elim disjE) (use h d in metis)+
qed

lemma plan_only_managed:
  assumes "b \<in> dom (pl_next (planAllocation fp accounts ps hs now))"
  shows "b \<in> aa_id ` {a \<in> set accounts. managed a}"
proof -
  let ?xs = "ordered accounts" and ?p0 = "\<lparr>pl_used = occupied accounts, pl_next = Map.empty\<rparr>"
  let ?M = "aa_id ` {a \<in> set accounts. managed a}"
  have step: "dom (pl_next (plan_pass fp ps hs now ?xs pr pl)) \<subseteq> ?M" if "dom (pl_next pl) \<subseteq> ?M" for pr pl
  proof
    fix c
    assume c: "c \<in> dom (pl_next (plan_pass fp ps hs now ?xs pr pl))"
    have sub: "aa_id ` {a \<in> set ?xs. \<not> skipped pr a} \<subseteq> ?M" by (auto simp: skipped_def managed_def)
    show "c \<in> ?M"
    proof (cases "c \<in> dom (pl_next pl)")
      case True
      with that show ?thesis by blast
    next
      case False
      with c have "pl_next (plan_pass fp ps hs now ?xs pr pl) c \<noteq> pl_next pl c" by auto
      from plan_pass_next [OF this] False sub show ?thesis by blast
    qed
  qed
  have "dom (pl_next ?p0) \<subseteq> ?M" by simp
  from step [OF step [OF step [OF this, of 0], of 1], of 2] assms show ?thesis unfolding plan_three Let_def by blast
qed


section \<open>Business accounts come first\<close>

text \<open>Steps that leave some elements alone.\<close>

lemma fold_filter_skip: "(\<And>x s. x \<in> set xs \<Longrightarrow> \<not> P x \<Longrightarrow> f x s = s) \<Longrightarrow> fold f (filter P xs) s = fold f xs s"
  by (induction xs arbitrary: s) auto

definition stopped :: "alloc_account \<Rightarrow> bool" where
  "stopped a \<longleftrightarrow> managed a \<and> aa_binding_only a"

lemma stopped_skipped: "stopped a \<Longrightarrow> skipped 0 a"
  by (simp add: stopped_def skipped_def priority_def)

lemma business_pass:
  "plan_pass fp ps hs now (ordered (filter (\<lambda>a. \<not> stopped a) accounts)) 0 pl = plan_pass fp ps hs now (ordered accounts) 0 pl"
proof -
  let ?P = "\<lambda>a. \<not> stopped a" and ?xs = "ordered accounts"
  have o': "ordered (filter ?P accounts) = filter ?P ?xs" by (simp add: ordered_def filter_sort)
  have k: "fold (keep_step fp ps hs now 0) (filter ?P ?xs) s = fold (keep_step fp ps hs now 0) ?xs s" for s
    by (rule fold_filter_skip) (simp add: keep_step_def stopped_skipped)
  have a: "fold (assign_step fp ps hs now 0) (filter ?P ?xs) s = fold (assign_step fp ps hs now 0) ?xs s" for s
    by (rule fold_filter_skip) (simp add: assign_step_def stopped_skipped)
  have s: "fold (soft_step fp ps hs now) (filter ?P ?xs) s = fold (soft_step fp ps hs now) ?xs s" for s
    by (rule fold_filter_skip) (simp add: soft_step_def Let_def stopped_def)
  show ?thesis by (simp add: plan_pass_def o' k a s)
qed

lemma occupied_business: "occupied (filter (\<lambda>a. \<not> stopped a) accounts) = occupied accounts"
  unfolding occupied_def by (rule fold_filter_skip) (auto simp: occupied_step_def stopped_def managed_def)

lemma plan_business:
  assumes d: "distinct (map aa_id accounts)" and a: "a \<in> set accounts" "priority a = 0"
  shows "pl_next (planAllocation fp accounts ps hs now) (aa_id a) =
    pl_next (plan_pass fp ps hs now (ordered accounts) 0 \<lparr>pl_used = occupied accounts, pl_next = Map.empty\<rparr>) (aa_id a)"
proof -
  note dx = ordered_distinct [OF d]
  have a': "a \<in> set (ordered accounts)" using a(1) by simp
  have "priority a \<noteq> 1" "priority a \<noteq> 2" using a(2) by simp_all
  from plan_pass_other [OF dx a' this(1)] plan_pass_other [OF dx a' this(2)] show ?thesis
    unfolding plan_three Let_def by simp
qed

section \<open>Properties\<close>

text \<open>C12: The allocation respects the shared capacity: for distinct accounts and a map of proxies with positive
  keys, what a proxy carried before planning plus the accounts the plan puts on it is at most three (or what it
  carried before, when that was already more), every assigned proxy exists and is usable, and the plan covers
  exactly the managed accounts (neither manual, ineligible nor leased to a test).\<close>

theorem plan_capacity:
  assumes "ids_ok ps" and "distinct (map aa_id accounts)" and "pl = planAllocation fp accounts ps hs now"
  shows "(\<forall>i. i \<noteq> 0 \<longrightarrow> occupied accounts i + int (card {a. pl_next pl a = Some i}) \<le> max accountsPerProxy (occupied accounts i))
    \<and> (\<forall>a i. pl_next pl a = Some i \<longrightarrow> i \<noteq> 0 \<longrightarrow> (\<exists>p. gm_get ps i = Some p \<and> networkAvailable p now))
    \<and> dom (pl_next pl) = aa_id ` {a \<in> set accounts. managed a}"
proof -
  have ok: "plan_ok ps now (occupied accounts) pl" using plan_alloc_ok [OF assms(1,2)] assms(3) by simp
  have "dom (pl_next pl) = aa_id ` {a \<in> set accounts. managed a}"
    using plan_covers plan_only_managed unfolding assms(3) by blast
  moreover have "occupied accounts i + int (card {a. pl_next pl a = Some i}) \<le> max accountsPerProxy (occupied accounts i)"
    if "i \<noteq> 0" for i
  proof -
    have "pl_used pl i = occupied accounts i + int (card (on_proxy pl i))"
      "pl_used pl i \<le> max accountsPerProxy (occupied accounts i)" using ok that by (auto simp: plan_ok_def)
    then show ?thesis by (simp add: on_proxy_def)
  qed
  ultimately show ?thesis using ok unfolding plan_ok_def by blast
qed

definition demo_account :: alloc_account where
  "demo_account = \<lparr>aa_id = 1, aa_current = 0, aa_eligible = True, aa_waiting = True, aa_adobe = True, aa_last_switch = 0,
     aa_binding_only = False, aa_verification_priority = False, aa_manual_proxy = False, aa_test_lease = False\<rparr>"

theorem plan_capacity_witness:
  "dom (pl_next (planAllocation (\<lambda>d. ''f'') [demo_account] [(7, demo_proxy)] [7 \<mapsto> demo_health] 5)) = {1}"
  using plan_capacity [of "[(7, demo_proxy)]" "[demo_account]" _ "\<lambda>d. ''f''" "[7 \<mapsto> demo_health]" 5, OF _ _ refl]
  by (simp add: ids_ok_def managed_def demo_account_def Collect_conv_if cong: conj_cong)

text \<open>C28: The plan does not depend on the order in which the runtime iterates over the map of proxies, although the
  search for the best route is a scan over that map.\<close>

theorem plan_iteration_order:
  assumes "ids_ok ps" "ids_ok qs" "set ps = set qs"
  shows "planAllocation fp accounts ps hs now = planAllocation fp accounts qs hs now"
  by (rule plan_order_independent [OF assms])

theorem plan_iteration_order_witness:
  "planAllocation (\<lambda>d. ''f'') [demo_account] [(7, demo_proxy), (8, demo_proxy)] [7 \<mapsto> demo_health] 5 =
   planAllocation (\<lambda>d. ''f'') [demo_account] [(8, demo_proxy), (7, demo_proxy)] [7 \<mapsto> demo_health] 5"
  by (rule plan_iteration_order) (auto simp: ids_ok_def)

text \<open>Stopped accounts (those that only hold a binding) never cost a business account its route: a business
  account gets the same proxy as if no stopped account took part.\<close>

theorem business_accounts_first:
  assumes "distinct (map aa_id accounts)" and "a \<in> set accounts" and "\<not> aa_binding_only a"
  shows "pl_next (planAllocation fp accounts ps hs now) (aa_id a)
       = pl_next (planAllocation fp (filter (\<lambda>b. \<not> (managed b \<and> aa_binding_only b)) accounts) ps hs now) (aa_id a)"
proof -
  let ?fs = "filter (\<lambda>b. \<not> stopped b) accounts"
  have d: "distinct (map aa_id ?fs)" using assms(1) by (simp add: distinct_map_filter)
  have a: "a \<in> set ?fs" "priority a = 0" using assms(2,3) by (simp_all add: stopped_def priority_def)
  have "pl_next (planAllocation fp accounts ps hs now) (aa_id a) = pl_next (planAllocation fp ?fs ps hs now) (aa_id a)"
    unfolding plan_business [OF assms(1,2) a(2)] plan_business [OF d a] business_pass occupied_business by (rule refl)
  then show ?thesis by (simp add: stopped_def)
qed

theorem business_accounts_first_witness:
  "pl_next (planAllocation (\<lambda>d. ''f'') [demo_account\<lparr>aa_id := 2, aa_binding_only := True\<rparr>, demo_account]
     [(7, demo_proxy)] [7 \<mapsto> demo_health] 5) 1
   = pl_next (planAllocation (\<lambda>d. ''f'') [demo_account] [(7, demo_proxy)] [7 \<mapsto> demo_health] 5) 1"
  using business_accounts_first [of "[demo_account\<lparr>aa_id := 2, aa_binding_only := True\<rparr>, demo_account]" demo_account
      "\<lambda>d. ''f''" "[(7, demo_proxy)]" "[7 \<mapsto> demo_health]" 5]
  by (simp add: demo_account_def managed_def)

end
