(* ===== verification/GenerationHealth.thy ===== *)
theory GenerationHealth
  imports ProxyHealth
begin

text \<open>
  Evidence from real generations (\<open>internal/proxyfailover/generation_health.go\<close>): the tables
  \<open>adobe_route_health\<close>, \<open>adobe_route_observations\<close> and \<open>adobe_route_exclusions\<close>, what
  \<open>RecordGeneration\<close> writes to them, the flags \<open>loadGenerationHealth\<close> reads from them, and the
  guard \<open>RouteReady\<close> before a submission. \<open>NOW()\<close> is the argument \<open>now\<close>; the credential digest is an argument.
\<close>

section \<open>Tables\<close>

text \<open>A row of \<open>adobe_route_health\<close>, whose key is (proxy, scope).\<close>

record route_row =
  rr_proxy_id :: int
  rr_scope :: string
  rr_updated_at :: gotime
  rr_success_started :: "gotime option"
  rr_failed_at :: "gotime option"
  rr_retry_after :: "gotime option"

record observation =
  ob_proxy_id :: int
  ob_updated_at :: gotime
  ob_source :: string
  ob_account_id :: int
  ob_credential_hash :: string
  ob_scope :: string
  ob_success :: bool
  ob_code :: int
  ob_stage :: string
  ob_rejected :: bool
  ob_started :: gotime
  ob_checked :: gotime

record route_tables =
  rt_health :: "route_row list"
  rt_observations :: "observation list"
  rt_exclusions :: "int list"

text \<open>SQL comparisons with a nullable left side: null makes them unknown, which no \<open>WHERE\<close> accepts.\<close>

definition after :: "gotime option \<Rightarrow> gotime \<Rightarrow> bool" where
  "after t u = (case t of None \<Rightarrow> False | Some x \<Rightarrow> x > u)"

definition before :: "gotime option \<Rightarrow> gotime \<Rightarrow> bool" where
  "before t u = (case t of None \<Rightarrow> False | Some x \<Rightarrow> x < u)"

section \<open>Loading the flags\<close>

definition rows_of :: "route_tables \<Rightarrow> int \<Rightarrow> gotime \<Rightarrow> route_row list" where
  "rows_of t i updated = filter (\<lambda>r. rr_proxy_id r = i \<and> rr_updated_at r = updated) (rt_health t)"

definition max_retry :: "route_row list \<Rightarrow> gotime" where
  "max_retry rs = foldl (\<lambda>m r. case rr_retry_after r of None \<Rightarrow> m | Some t \<Rightarrow> max m t) 0 rs"

definition loadGenerationHealth :: "gotime \<Rightarrow> route_tables \<Rightarrow> proxy \<Rightarrow> proxy" where
  "loadGenerationHealth now t p =
     (let rs = rows_of t (px_id p) (px_updated_at p) in
      p\<lparr>px_excluded := (px_id p \<in> set (rt_exclusions t)),
        px_generation_blocked := list_ex (\<lambda>r. after (rr_retry_after r) now) rs,
        px_retry_after := max_retry rs,
        px_generation_proven := list_ex (\<lambda>r. after (rr_success_started r) (now - 30 * minute)
            \<and> (case rr_failed_at r of None \<Rightarrow> True | Some f \<Rightarrow> after (rr_success_started r) f)) rs\<rparr>)"

text \<open>\<open>loadProxies\<close>: the rows, the admission of their sources, the generation flags.\<close>

definition with_source :: "(int \<rightharpoonup> proxy_source) \<Rightarrow> proxy \<Rightarrow> proxy" where
  "with_source sources p =
     (case sources (px_id p) of None \<Rightarrow> p
      | Some s \<Rightarrow> p\<lparr>px_source_id := ps_id s, px_source_blocked := ps_blocked s,
                    px_source_traffic_available := ps_traffic_available s\<rparr>)"

definition bare_proxy :: "proxy_def \<Rightarrow> proxy" where
  "bare_proxy d = proxy_def.extend d \<lparr>px_source_traffic_available = False, px_source_id = [],
     px_source_blocked = False, px_generation_blocked = False, px_generation_proven = False, px_excluded = False,
     px_retry_after = 0\<rparr>"

definition loadProxies :: "gotime \<Rightarrow> proxy_def list \<Rightarrow> (int \<rightharpoonup> proxy_source) \<Rightarrow> route_tables \<Rightarrow> (int, proxy) gomap" where
  "loadProxies now rows sources t =
     map (\<lambda>d. (px_id d, loadGenerationHealth now t (with_source sources (bare_proxy d)))) rows"

text \<open>\<open>RouteReady\<close>: \<open>expected\<close> is the revision the caller saw, if any.\<close>

definition RouteReady ::
    "(int \<Rightarrow> string) \<Rightarrow> gotime \<Rightarrow> proxy_def list \<Rightarrow> (int \<rightharpoonup> proxy_source) \<Rightarrow> route_tables \<Rightarrow> int \<Rightarrow> gotime option \<Rightarrow> string \<times> bool" where
  "RouteReady show now rows sources t i expected =
     (case List.find (\<lambda>d. px_id d = i) rows of
        None \<Rightarrow> ([], False)
      | Some d \<Rightarrow>
          let ready = \<not> px_deleted d \<and> px_status d = ''active''
                \<and> (case px_expires_at d of None \<Rightarrow> True | Some e \<Rightarrow> e > now)
                \<and> (case expected of None \<Rightarrow> True | Some u \<Rightarrow> px_updated_at d = u)
                \<and> i \<notin> set (rt_exclusions t)
                \<and> \<not> list_ex (\<lambda>r. after (rr_retry_after r) now) (rows_of t i (px_updated_at d));
              src = (case sources i of None \<Rightarrow> \<lparr>ps_traffic_available = False, ps_id = [], ps_blocked = False, ps_reason = []\<rparr>
                     | Some s \<Rightarrow> s)
          in ((if ps_id src = [] then ''proxy:'' @ show i else ps_id src), ready \<and> \<not> ps_blocked src))"

section \<open>Recording a generation\<close>

definition ensure_row :: "int \<Rightarrow> gotime \<Rightarrow> string \<Rightarrow> route_row list \<Rightarrow> route_row list" where
  "ensure_row i revision scope rows =
     (if list_ex (\<lambda>r. rr_proxy_id r = i \<and> rr_scope r = scope) rows then rows
      else rows @ [\<lparr>rr_proxy_id = i, rr_scope = scope, rr_updated_at = revision, rr_success_started = None,
                    rr_failed_at = None, rr_retry_after = None\<rparr>])"

text \<open>\<open>UPDATE adobe_route_health ... WHERE proxy_id AND scope\<close>.\<close>

definition update_row :: "int \<Rightarrow> string \<Rightarrow> (route_row \<Rightarrow> route_row) \<Rightarrow> route_row list \<Rightarrow> route_row list" where
  "update_row i scope f = map (\<lambda>r. if rr_proxy_id r = i \<and> rr_scope r = scope then f r else r)"

definition success_update :: "gotime \<Rightarrow> gotime \<Rightarrow> route_row \<Rightarrow> route_row" where
  "success_update revision started r =
     (if rr_updated_at r \<noteq> revision \<or> rr_success_started r = None \<or> before (rr_success_started r) started
      then r\<lparr>rr_updated_at := revision, rr_success_started := Some started,
             rr_retry_after := (if rr_updated_at r \<noteq> revision \<or> before (rr_failed_at r) started
                                then None else rr_retry_after r)\<rparr>
      else r)"

definition timeout_stage :: "string \<Rightarrow> bool" where
  "timeout_stage s \<longleftrightarrow> s = ''submit'' \<or> s = ''poll'' \<or> s = ''download''"

text \<open>The distinct accounts that timed out in the five minutes up to \<open>checked\<close>, since the last success.\<close>

definition timeout_accounts :: "observation list \<Rightarrow> int \<Rightarrow> gotime \<Rightarrow> string \<Rightarrow> gotime \<Rightarrow> gotime option \<Rightarrow> int list" where
  "timeout_accounts obs i revision scope checked since =
     remdups (map ob_account_id (filter (\<lambda>o'. ob_proxy_id o' = i \<and> ob_updated_at o' = revision \<and> ob_scope o' = scope
        \<and> \<not> ob_success o' \<and> ob_code o' = 408 \<and> timeout_stage (ob_stage o')
        \<and> ob_checked o' \<ge> checked - 5 * minute \<and> ob_checked o' \<le> checked
        \<and> (case since of None \<Rightarrow> True | Some s \<Rightarrow> ob_started o' \<ge> s)) obs))"

definition failure_update :: "observation list \<Rightarrow> int \<Rightarrow> gotime \<Rightarrow> string \<Rightarrow> gotime \<Rightarrow> gotime \<Rightarrow> route_row \<Rightarrow> route_row" where
  "failure_update obs i revision scope started checked r =
     (if rr_updated_at r \<noteq> revision \<or> rr_failed_at r = None \<or> before (rr_failed_at r) checked
      then r\<lparr>rr_updated_at := revision, rr_failed_at := Some checked,
             rr_success_started := (if rr_updated_at r = revision then rr_success_started r else None),
             rr_retry_after :=
               (if (rr_updated_at r \<noteq> revision \<or> (case rr_success_started r of None \<Rightarrow> True | Some s \<Rightarrow> s \<le> started))
                   \<and> length (timeout_accounts obs i revision scope checked (rr_success_started r)) \<ge> 3
                then Some (checked + 5 * minute)
                else if rr_updated_at r = revision then rr_retry_after r else None)\<rparr>
      else r)"

definition RecordGeneration ::
    "int \<Rightarrow> gotime \<Rightarrow> string \<Rightarrow> int \<Rightarrow> string \<Rightarrow> string \<Rightarrow> bool \<Rightarrow> int \<Rightarrow> string \<Rightarrow> bool \<Rightarrow> gotime \<Rightarrow> gotime \<Rightarrow> route_tables \<Rightarrow> route_tables" where
  "RecordGeneration i revision src acct hash scope success code stage rejected started checked t =
     (let rows = ensure_row i revision scope (rt_health t);
          obs = rt_observations t @ [\<lparr>ob_proxy_id = i, ob_updated_at = revision, ob_source = src, ob_account_id = acct,
             ob_credential_hash = hash, ob_scope = scope, ob_success = success, ob_code = code, ob_stage = stage,
             ob_rejected = rejected, ob_started = started, ob_checked = checked\<rparr>];
          t = t\<lparr>rt_observations := obs\<rparr>
      in if success then t\<lparr>rt_health := update_row i scope (success_update revision started) rows\<rparr>
         else if code = 408 \<and> timeout_stage stage
         then t\<lparr>rt_health := update_row i scope (failure_update obs i revision scope started checked) rows\<rparr>
         else t\<lparr>rt_health := rows\<rparr>)"

section \<open>Lemmas\<close>

text \<open>(proxy, scope) is a key.\<close>

definition keys_ok :: "route_tables \<Rightarrow> bool" where
  "keys_ok t \<longleftrightarrow> distinct (map (\<lambda>r. (rr_proxy_id r, rr_scope r)) (rt_health t))"

definition row_at :: "route_tables \<Rightarrow> int \<Rightarrow> string \<Rightarrow> route_row option" where
  "row_at t i scope = List.find (\<lambda>r. rr_proxy_id r = i \<and> rr_scope r = scope) (rt_health t)"

lemma update_row_keys:
  "(\<And>r. rr_proxy_id (f r) = rr_proxy_id r \<and> rr_scope (f r) = rr_scope r) \<Longrightarrow>
   map (\<lambda>r. (rr_proxy_id r, rr_scope r)) (update_row i scope f rows) = map (\<lambda>r. (rr_proxy_id r, rr_scope r)) rows"
  by (simp add: update_row_def)

lemma success_update_key [simp]:
  "rr_proxy_id (success_update rv st r) = rr_proxy_id r" "rr_scope (success_update rv st r) = rr_scope r"
  by (simp_all add: success_update_def)

lemma failure_update_key [simp]:
  "rr_proxy_id (failure_update obs i rv sc st ch r) = rr_proxy_id r" "rr_scope (failure_update obs i rv sc st ch r) = rr_scope r"
  by (simp_all add: failure_update_def)

lemma ensure_row_keys:
  "distinct (map (\<lambda>r. (rr_proxy_id r, rr_scope r)) rows) \<Longrightarrow>
   distinct (map (\<lambda>r. (rr_proxy_id r, rr_scope r)) (ensure_row i rv scope rows))"
  by (auto simp: ensure_row_def list_ex_iff)

lemma record_keys: "keys_ok t \<Longrightarrow> keys_ok (RecordGeneration i rv src acct hash scope ok code stage rej st ch t)"
  unfolding keys_ok_def RecordGeneration_def Let_def
  by (simp add: ensure_row_keys update_row_keys)

definition the_row :: "int \<Rightarrow> gotime \<Rightarrow> string \<Rightarrow> route_row option \<Rightarrow> route_row" where
  "the_row i rv scope r = (case r of Some r \<Rightarrow> r
     | None \<Rightarrow> \<lparr>rr_proxy_id = i, rr_scope = scope, rr_updated_at = rv, rr_success_started = None,
         rr_failed_at = None, rr_retry_after = None\<rparr>)"

lemma find_append: "List.find P (xs @ ys) = (case List.find P xs of None \<Rightarrow> List.find P ys | Some x \<Rightarrow> Some x)"
  by (induction xs) auto

lemma find_ensure:
  "List.find (\<lambda>r. rr_proxy_id r = i \<and> rr_scope r = scope) (ensure_row i rv scope rows) =
     Some (the_row i rv scope (List.find (\<lambda>r. rr_proxy_id r = i \<and> rr_scope r = scope) rows))"
proof (cases "List.find (\<lambda>r. rr_proxy_id r = i \<and> rr_scope r = scope) rows")
  case None
  then have "\<not> list_ex (\<lambda>r. rr_proxy_id r = i \<and> rr_scope r = scope) rows"
    by (auto simp: find_None_iff list_ex_iff)
  with None show ?thesis by (simp add: ensure_row_def the_row_def find_append)
next
  case (Some r)
  then have "list_ex (\<lambda>r. rr_proxy_id r = i \<and> rr_scope r = scope) rows"
    by (metis find_None_iff list_ex_iff option.distinct(1))
  with Some show ?thesis by (simp add: ensure_row_def the_row_def)
qed

lemma find_update_row:
  "(\<And>r. rr_proxy_id (f r) = rr_proxy_id r \<and> rr_scope (f r) = rr_scope r) \<Longrightarrow>
   List.find (\<lambda>r. rr_proxy_id r = i \<and> rr_scope r = scope) (update_row i scope f rows) =
     map_option f (List.find (\<lambda>r. rr_proxy_id r = i \<and> rr_scope r = scope) rows)"
  by (induction rows) (auto simp: update_row_def)

text \<open>The row after recording, on each branch.\<close>

lemma record_row:
  "row_at (RecordGeneration i rv src acct hash scope ok code stage rej st ch t) i scope =
     Some ((if ok then success_update rv st
            else if code = 408 \<and> timeout_stage stage
            then failure_update (rt_observations (RecordGeneration i rv src acct hash scope ok code stage rej st ch t)) i rv scope st ch
            else id) (the_row i rv scope (row_at t i scope)))"
  by (simp add: RecordGeneration_def Let_def row_at_def find_ensure find_update_row)


lemma max_retry_gt: "0 \<le> now \<Longrightarrow> max_retry rs > now \<longleftrightarrow> list_ex (\<lambda>r. after (rr_retry_after r) now) rs"
proof -
  assume n: "0 \<le> now"
  have "foldl (\<lambda>m r. case rr_retry_after r of None \<Rightarrow> m | Some t \<Rightarrow> max m t) m rs > now
      \<longleftrightarrow> m > now \<or> list_ex (\<lambda>r. after (rr_retry_after r) now) rs" for m
    by (induction rs arbitrary: m) (auto simp: after_def split: option.split)
  then show ?thesis using n by (simp add: max_retry_def)
qed

lemma with_source_def_part [simp]:
  "px_id (with_source s p) = px_id p" "px_updated_at (with_source s p) = px_updated_at p"
  "px_deleted (with_source s p) = px_deleted p" "px_status (with_source s p) = px_status p"
  "px_expires_at (with_source s p) = px_expires_at p"
  by (simp_all add: with_source_def split: option.split)

lemma bare_proxy_sel [simp]:
  "px_id (bare_proxy d) = px_id d" "px_updated_at (bare_proxy d) = px_updated_at d"
  "px_deleted (bare_proxy d) = px_deleted d" "px_status (bare_proxy d) = px_status d"
  "px_expires_at (bare_proxy d) = px_expires_at d" "px_source_id (bare_proxy d) = []"
  "\<not> px_source_blocked (bare_proxy d)"
  by (simp_all add: bare_proxy_def proxy_def.extend_def)

lemma loadProxies_get:
  "gm_get (loadProxies now rows sources t) i =
     map_option (\<lambda>d. loadGenerationHealth now t (with_source sources (bare_proxy d))) (List.find (\<lambda>d. px_id d = i) rows)"
  by (induction rows) (auto simp: loadProxies_def)

lemma loaded_available:
  "0 \<le> now \<Longrightarrow> available (loadGenerationHealth now t p) now \<longleftrightarrow>
     networkAvailable p now \<and> px_id p \<notin> set (rt_exclusions t)
     \<and> \<not> list_ex (\<lambda>r. after (rr_retry_after r) now) (rows_of t (px_id p) (px_updated_at p))"
  by (auto simp: available_def networkAvailable_def loadGenerationHealth_def Let_def max_retry_gt)

section \<open>Properties\<close>

text \<open>The guard before a submission agrees with the allocator: a proxy passes \<open>RouteReady\<close> (with no expected
  revision) exactly when \<open>loadProxies\<close> yields an available proxy for its id, and its key is the route source.\<close>

theorem route_ready_iff_available:
  assumes "0 \<le> now"
  shows "snd (RouteReady show now rows sources t i None)
       = (case gm_get (loadProxies now rows sources t) i of None \<Rightarrow> False | Some p \<Rightarrow> available p now)
    \<and> (\<forall>p. gm_get (loadProxies now rows sources t) i = Some p \<longrightarrow> (\<forall>src. sources i = Some src \<longrightarrow> ps_id src \<noteq> [])
         \<longrightarrow> fst (RouteReady show now rows sources t i None) = routeSource show p)"
proof (cases "List.find (\<lambda>d. px_id d = i) rows")
  case None
  then show ?thesis by (simp add: RouteReady_def loadProxies_get)
next
  case (Some d)
  then have i: "px_id d = i" by (auto simp: find_Some_iff)
  have a: "available (loadGenerationHealth now t (with_source sources (bare_proxy d))) now
      \<longleftrightarrow> networkAvailable (with_source sources (bare_proxy d)) now \<and> i \<notin> set (rt_exclusions t)
        \<and> \<not> list_ex (\<lambda>r. after (rr_retry_after r) now) (rows_of t i (px_updated_at d))"
    using loaded_available [OF assms] by (simp add: i)
  have n: "networkAvailable (with_source sources (bare_proxy d)) now \<longleftrightarrow>
      \<not> (case sources i of None \<Rightarrow> False | Some s \<Rightarrow> ps_blocked s) \<and> \<not> px_deleted d \<and> px_status d = ''active''
      \<and> (case px_expires_at d of None \<Rightarrow> True | Some e \<Rightarrow> e > now)"
    by (auto simp: networkAvailable_def with_source_def i split: option.splits)
  have s: "routeSource show (loadGenerationHealth now t (with_source sources (bare_proxy d))) =
      (case sources i of None \<Rightarrow> ''proxy:'' @ show i | Some s \<Rightarrow> if ps_id s \<noteq> [] then ps_id s else ''proxy:'' @ show i)"
    by (simp add: routeSource_def loadGenerationHealth_def Let_def with_source_def i split: option.splits)
  have r: "snd (RouteReady show now rows sources t i None) \<longleftrightarrow>
      available (loadGenerationHealth now t (with_source sources (bare_proxy d))) now"
    unfolding a n by (cases "sources i") (auto simp: RouteReady_def Some Let_def)
  have f: "fst (RouteReady show now rows sources t i None) =
      routeSource show (loadGenerationHealth now t (with_source sources (bare_proxy d)))"
    unfolding s by (cases "sources i") (simp_all add: RouteReady_def Some Let_def)
  show ?thesis by (simp add: loadProxies_get Some r f)
qed

definition demo_def :: proxy_def where
  "demo_def = proxy_def.truncate demo_proxy"

theorem route_ready_iff_available_witness:
  "snd (RouteReady (\<lambda>i. ''7'') 5 [demo_def] Map.empty \<lparr>rt_health = [], rt_observations = [], rt_exclusions = []\<rparr> 7 None)"
proof -
  have "available (loadGenerationHealth 5 \<lparr>rt_health = [], rt_observations = [], rt_exclusions = []\<rparr>
      (with_source Map.empty (bare_proxy demo_def))) 5"
    unfolding loaded_available [OF zero_le_numeral]
    by (simp add: networkAvailable_def rows_of_def with_source_def demo_def_def proxy_def.truncate_def demo_proxy_def zero_proxy_def)
  moreover have "px_id demo_def = 7" by (simp add: demo_def_def proxy_def.truncate_def demo_proxy_def)
  ultimately show ?thesis
    using route_ready_iff_available [of 5 "\<lambda>i. ''7''" "[demo_def]" Map.empty _ 7] by (simp add: loadProxies_get)
qed


definition demo_timeout :: "int \<Rightarrow> observation" where
  "demo_timeout k = \<lparr>ob_proxy_id = 7, ob_updated_at = 1, ob_source = ''s'', ob_account_id = k, ob_credential_hash = ''h'',
     ob_scope = ''m'', ob_success = False, ob_code = 408, ob_stage = ''poll'', ob_rejected = False, ob_started = 10,
     ob_checked = 20 + k\<rparr>"

definition demo_row :: route_row where
  "demo_row = \<lparr>rr_proxy_id = 7, rr_scope = ''m'', rr_updated_at = 1, rr_success_started = None,
     rr_failed_at = Some 21, rr_retry_after = None\<rparr>"

definition demo_tables :: route_tables where
  "demo_tables = \<lparr>rt_health = [demo_row], rt_observations = [demo_timeout 0, demo_timeout 1], rt_exclusions = []\<rparr>"

definition demo_cooled :: route_row where
  "demo_cooled = demo_row\<lparr>rr_failed_at := Some 22, rr_retry_after := Some (22 + 5 * minute)\<rparr>"

lemma demo_record:
  "RecordGeneration 7 1 ''s'' 2 ''h'' ''m'' False 408 ''poll'' False 10 22 demo_tables =
     \<lparr>rt_health = [demo_cooled], rt_observations = [demo_timeout 0, demo_timeout 1, demo_timeout 2], rt_exclusions = []\<rparr>"
proof -
  have n: "length (timeout_accounts [demo_timeout 0, demo_timeout 1, demo_timeout 2] 7 1 ''m'' 22 None) = 3"
    by (simp add: timeout_accounts_def timeout_stage_def demo_timeout_def minute_def)
  then show ?thesis
    by (simp add: RecordGeneration_def demo_tables_def demo_row_def demo_cooled_def ensure_row_def update_row_def
        failure_update_def before_def timeout_stage_def demo_timeout_def [of 2, symmetric, simplified])
qed


text \<open>Evidence of the same proxy revision never moves back: recording an observation that arrives late does not
  lower the start of the latest success nor the time of the latest failure, and a success that started after the
  latest failure and the latest success ends the cooldown.\<close>

theorem generation_evidence_monotone:
  assumes "row_at t i scope = Some r" and "rr_updated_at r = rv"
    and "row_at (RecordGeneration i rv src acct hash scope ok code stage rejected st ch t) i scope = Some r'"
  shows "(\<forall>s. rr_success_started r = Some s \<longrightarrow> (\<exists>s'. rr_success_started r' = Some s' \<and> s \<le> s'))
    \<and> (\<forall>f. rr_failed_at r = Some f \<longrightarrow> (\<exists>f'. rr_failed_at r' = Some f' \<and> f \<le> f'))
    \<and> (ok \<and> before (rr_failed_at r) st \<and> \<not> after (rr_success_started r) (st - 1) \<longrightarrow> rr_retry_after r' = None)"
proof -
  have "r' = (if ok then success_update rv st
      else if code = 408 \<and> timeout_stage stage
      then failure_update (rt_observations (RecordGeneration i rv src acct hash scope ok code stage rejected st ch t)) i rv scope st ch
      else id) r"
    using record_row [of i rv src acct hash scope ok code stage rejected st ch t] assms(1,3) by (simp add: the_row_def)
  then show ?thesis using assms(2)
    by (auto simp: success_update_def failure_update_def before_def after_def split: if_splits option.splits)
qed

theorem generation_evidence_monotone_witness:
  "rr_retry_after (success_update 1 30 demo_cooled) = None"
proof -
  let ?t = "\<lparr>rt_health = [demo_cooled], rt_observations = [], rt_exclusions = []\<rparr>"
  have r: "row_at ?t 7 ''m'' = Some demo_cooled" by (simp add: row_at_def demo_cooled_def demo_row_def)
  have r': "row_at (RecordGeneration 7 1 ''s'' 9 ''h'' ''m'' True 200 ''done'' False 30 40 ?t) 7 ''m'' = Some (success_update 1 30 demo_cooled)"
    using record_row [of 7 1 "''s''" 9 "''h''" "''m''" True 200 "''done''" False 30 40 ?t] r by (simp add: the_row_def)
  show ?thesis using generation_evidence_monotone [OF r _ r']
    by (simp add: demo_cooled_def demo_row_def before_def after_def)
qed

end
