(* ===== verification/AllocationStore.thy ===== *)
theory AllocationStore
  imports ProxyAllocation GenerationHealth
begin

text \<open>
  The stateful side of the automatic allocation (\<open>internal/proxyfailover/allocation.go\<close>,
  \<open>test_lease.go\<close>): the rows of \<open>accounts\<close>, the lease table, the policy row, and the transactions that
  plan and apply an allocation, save the policy, lend a route to a connection test and take it back. Every
  operation is one transaction: an error value leaves the database as it was. \<open>NOW()\<close> and the process clock
  are the argument \<open>now\<close>. Digests and the random owner are arguments.
\<close>

section \<open>Tables\<close>

text \<open>The JSON paths the queries read are columns: \<open>ar_gated_json\<close> is \<open>extra->'okad_connection_test'->'gated'='true'\<close>,
  \<open>ar_gated_text\<close> is \<open>->>'gated'\<close>, and so on.\<close>

record account_row =
  ar_id :: int
  ar_proxy_id :: "int option"
  ar_fallback_origin :: "int option"
  ar_deleted :: bool
  ar_platform :: string
  ar_type :: string
  ar_status :: string
  ar_schedulable :: bool
  ar_auto_paused :: bool
  ar_error_message :: "string option"
  ar_pause_on_expired :: bool
  ar_expires_at :: "gotime option"
  ar_manual :: bool
  ar_okad_resume :: bool
  ar_manual_pause :: bool
  ar_verification :: "string option"
  ar_has_cookie :: bool
  ar_gated_json :: bool
  ar_gated_text :: "string option"
  ar_test_resume :: bool
  ar_test_state :: "string option"
  ar_require_verification :: "string option"
  ar_credential_hash :: string
  ar_retired_408 :: bool

record lease_row =
  ls_account :: int
  ls_owner :: string
  ls_proxy :: int
  ls_proxy_updated :: gotime
  ls_credential_hash :: string
  ls_scope :: string
  ls_acquired :: gotime
  ls_expires :: gotime
  ls_return :: "bool option"

record switch_event =
  ev_account :: int
  ev_from :: int
  ev_to :: int
  ev_created :: gotime

text \<open>A row of \<open>adobe_account_health\<close>.\<close>

record acct_health =
  ah_account :: int
  ah_scope :: string
  ah_success_started :: "gotime option"
  ah_failed_at :: "gotime option"

record store =
  st_enabled :: bool
  st_revision :: int
  st_checked_at :: "gotime option"
  st_accounts :: "account_row list"
  st_proxies :: "proxy_def list"
  st_sources :: "int \<rightharpoonup> proxy_source"
  st_routes :: route_tables
  st_health :: "int \<rightharpoonup> health"
  st_leases :: "lease_row list"
  st_events :: "switch_event list"
  st_outbox :: "int list list"
  st_acct_health :: "acct_health list"
  st_failover :: "(int \<times> fo_row) list"

datatype store_error = StoreNoRows | StoreConflict | ErrTestBusy | ErrNoTestProxy

text \<open>The UTF-8 bytes of the message that marks a waiting account.\<close>

definition allocationWaitingMessage :: string where
  "allocationWaitingMessage = map char_of ([232, 135, 170, 229, 138, 168, 228, 187, 163, 231, 144, 134, 229, 136, 134,
     233, 133, 141, 239, 188, 154, 231, 173, 137, 229, 190, 133, 229, 143, 175, 231, 148, 168, 232, 138, 130, 231, 130,
     185, 239, 188, 136, 230, 175, 143, 228, 184, 170, 232, 138, 130, 231, 130, 185, 230, 156, 128, 229, 164, 154, 32,
     51, 32, 228, 184, 170, 232, 180, 166, 229, 143, 183, 239, 188, 137] :: nat list)"

definition update_account :: "int \<Rightarrow> (account_row \<Rightarrow> account_row) \<Rightarrow> store \<Rightarrow> store" where
  "update_account i f st = st\<lparr>st_accounts := map (\<lambda>a. if ar_id a = i then f a else a) (st_accounts st)\<rparr>"

definition find_account :: "store \<Rightarrow> int \<Rightarrow> account_row option" where
  "find_account st i = List.find (\<lambda>a. ar_id a = i) (st_accounts st)"

definition add_event :: "int \<Rightarrow> int \<Rightarrow> int \<Rightarrow> gotime \<Rightarrow> store \<Rightarrow> store" where
  "add_event i f t now st = st\<lparr>st_events := st_events st @ [\<lparr>ev_account = i, ev_from = f, ev_to = t, ev_created = now\<rparr>]\<rparr>"

section \<open>Reading accounts\<close>

definition row_waiting :: "account_row \<Rightarrow> bool" where
  "row_waiting a \<longleftrightarrow>
     (ar_auto_paused a \<and> ar_status a = ''error'' \<and> \<not> ar_schedulable a \<and> ar_error_message a = Some allocationWaitingMessage)
     \<or> (ar_status a = ''error'' \<and> ar_schedulable a \<and> \<not> ar_auto_paused a \<and> ar_error_message a = Some allocationWaitingMessage)"

definition row_binding_only :: "gotime \<Rightarrow> account_row \<Rightarrow> bool" where
  "row_binding_only now a \<longleftrightarrow>
     \<not> ((\<not> ar_pause_on_expired a \<or> unexpired (ar_expires_at a) now)
         \<and> ((ar_status a = ''active'' \<and> ar_schedulable a) \<or> row_waiting a))"

definition row_verification_priority :: "gotime \<Rightarrow> account_row \<Rightarrow> bool" where
  "row_verification_priority now a \<longleftrightarrow>
     ar_platform a = ''adobe'' \<and> ar_type a = ''oauth'' \<and> ar_status a = ''error'' \<and> unexpired (ar_expires_at a) now
     \<and> ar_okad_resume a \<and> \<not> ar_manual_pause a
     \<and> ar_verification a \<in> {Some ''pending'', Some ''proxy_pending'', Some ''verification_retry''}
     \<and> ar_error_message a \<in> {Some ''Okad credentials pending verification'', Some ''Okad credentials pending connection test''}
     \<and> ar_has_cookie a"

definition last_switch :: "switch_event list \<Rightarrow> int \<Rightarrow> gotime" where
  "last_switch evs i = foldl (\<lambda>t e. if ev_account e = i then ev_created e else t) (unix_time 0) evs"

definition row_leased :: "gotime \<Rightarrow> lease_row list \<Rightarrow> int \<Rightarrow> bool" where
  "row_leased now leases i \<longleftrightarrow> list_ex (\<lambda>l. ls_account l = i \<and> ls_expires l > now) leases"

definition account_of_row :: "gotime \<Rightarrow> store \<Rightarrow> account_row \<Rightarrow> alloc_account" where
  "account_of_row now st a = \<lparr>aa_id = ar_id a, aa_current = coalesce0 (ar_proxy_id a), aa_eligible = True,
     aa_waiting = row_waiting a, aa_adobe = (ar_platform a = ''adobe''), aa_last_switch = last_switch (st_events st) (ar_id a),
     aa_binding_only = row_binding_only now a, aa_verification_priority = row_verification_priority now a,
     aa_manual_proxy = ar_manual a, aa_test_lease = row_leased now (st_leases st) (ar_id a)\<rparr>"

definition loadAllocationAccounts :: "gotime \<Rightarrow> store \<Rightarrow> alloc_account list" where
  "loadAllocationAccounts now st =
     map (account_of_row now st) (sort_key ar_id (filter (\<lambda>a. \<not> ar_deleted a) (st_accounts st)))"

definition store_proxies :: "gotime \<Rightarrow> store \<Rightarrow> (int, proxy) gomap" where
  "store_proxies now st = loadProxies now (st_proxies st) (st_sources st) (st_routes st)"

section \<open>The outbox\<close>

function allocationOutbox :: "int list \<Rightarrow> int list list" where
  "allocationOutbox ids = (if ids = [] then [] else take 500 ids # allocationOutbox (drop 500 ids))"
  by pat_completeness auto
termination by (relation "measure length") auto

declare allocationOutbox.simps [simp del]

definition publish :: "int list \<Rightarrow> store \<Rightarrow> store" where
  "publish ids st = st\<lparr>st_outbox := st_outbox st @ allocationOutbox ids\<rparr>"

section \<open>Planning and applying\<close>

text \<open>The body of the loop of \<open>allocate\<close>; the list is \<open>changed\<close>.\<close>

definition apply_row :: "int \<Rightarrow> bool \<Rightarrow> account_row \<Rightarrow> account_row" where
  "apply_row pid binding_only a =
     (if binding_only then a\<lparr>ar_proxy_id := (if pid = 0 then None else Some pid), ar_fallback_origin := None\<rparr>
      else if pid = 0 then a\<lparr>ar_proxy_id := None, ar_fallback_origin := None, ar_auto_paused := True,
        ar_status := ''error'', ar_schedulable := False, ar_error_message := Some allocationWaitingMessage\<rparr>
      else a\<lparr>ar_proxy_id := Some pid, ar_fallback_origin := None, ar_auto_paused := False,
        ar_status := ''active'', ar_schedulable := True, ar_error_message := None\<rparr>)"

definition needs_change :: "alloc_account \<Rightarrow> int option \<Rightarrow> bool" where
  "needs_change a pid \<longleftrightarrow> \<not> aa_manual_proxy a \<and> \<not> aa_test_lease a
     \<and> (case pid of None \<Rightarrow> False
        | Some p \<Rightarrow> \<not> (p = aa_current a \<and> (aa_binding_only a \<or> aa_waiting a = (p = 0))))"

definition apply_account :: "gotime \<Rightarrow> (int \<rightharpoonup> int) \<Rightarrow> store \<times> int list \<Rightarrow> alloc_account \<Rightarrow> store \<times> int list" where
  "apply_account now nxt s a =
     (case s of (st, changed) \<Rightarrow>
        if \<not> needs_change a (nxt (aa_id a)) then (st, changed)
        else (let pid = the (nxt (aa_id a)); st = update_account (aa_id a) (apply_row pid (aa_binding_only a)) st
              in ((if aa_current a \<noteq> pid then add_event (aa_id a) (aa_current a) pid now st else st), changed @ [aa_id a])))"

text \<open>\<open>hs\<close> is the loaded health, refreshed when the caller probes.\<close>

definition allocate :: "(proxy_def \<Rightarrow> string) \<Rightarrow> gotime \<Rightarrow> bool \<times> int \<Rightarrow> (int \<rightharpoonup> health) \<Rightarrow> store \<Rightarrow> store" where
  "allocate fp now policy hs st =
     (if (st_enabled st, st_revision st) \<noteq> policy then st
      else (let ps = store_proxies now st;
                st = st\<lparr>st_health := persistHealth fp (gm_get ps) hs (st_health st)\<rparr>;
                accounts = loadAllocationAccounts now st;
                nxt = pl_next (planAllocation fp accounts ps hs now);
                r = foldl (apply_account now nxt) (st, []) accounts;
                st = publish (snd r) (fst r)
            in st\<lparr>st_events := filter (\<lambda>e. \<not> ev_created e < now - 30 * (24 * hour)) (st_events st),
                  st_checked_at := Some now\<rparr>))"

section \<open>Saving the policy\<close>

definition clean_408 :: "int \<Rightarrow> account_row \<Rightarrow> account_row" where
  "clean_408 i a = (if (i = 0 \<or> ar_id a = i) \<and> ar_retired_408 a then a\<lparr>ar_retired_408 := False\<rparr> else a)"

definition refresh_408 :: "int \<Rightarrow> store \<Rightarrow> store" where
  "refresh_408 i st = st\<lparr>st_accounts := map (clean_408 i) (st_accounts st)\<rparr>"

definition to_pause :: "gotime \<Rightarrow> account_row \<Rightarrow> bool" where
  "to_pause now a \<longleftrightarrow> \<not> ar_deleted a \<and> \<not> ar_manual a \<and> ar_status a = ''active'' \<and> ar_schedulable a
     \<and> (\<not> ar_pause_on_expired a \<or> unexpired (ar_expires_at a) now)"

definition pause_row :: "account_row \<Rightarrow> account_row" where
  "pause_row a = a\<lparr>ar_auto_paused := True, ar_status := ''error'', ar_schedulable := False,
     ar_error_message := Some allocationWaitingMessage\<rparr>"

definition pause_all :: "gotime \<Rightarrow> store \<Rightarrow> store" where
  "pause_all now st =
     (let ids = map ar_id (filter (to_pause now) (st_accounts st));
          st' = publish ids (st\<lparr>st_accounts := map (\<lambda>a. if to_pause now a then pause_row a else a) (st_accounts st)\<rparr>)
      in st'\<lparr>st_failover := map (\<lambda>(i, f).
           if fo_enabled f \<and> \<not> list_ex (\<lambda>a. ar_id a = i \<and> ar_manual a) (st_accounts st)
           then (i, f\<lparr>fo_enabled := False, fo_revision := fo_revision f + 1\<rparr>) else (i, f)) (st_failover st)\<rparr>)"

definition SaveAllocation :: "gotime \<Rightarrow> bool \<Rightarrow> int \<Rightarrow> store \<Rightarrow> store_error + store" where
  "SaveAllocation now enabled revision st =
     (if st_revision st \<noteq> revision then Inl StoreConflict
      else (let before = st_enabled st; st = st\<lparr>st_enabled := enabled, st_revision := st_revision st + 1\<rparr>
            in Inr (refresh_408 0 (if enabled \<and> \<not> before then pause_all now st else st))))"


section \<open>The operator's view\<close>

record alloc_view =
  v_accounts :: int
  v_assigned :: int
  v_waiting :: int
  v_binding_only :: int
  v_test_bindings :: int
  v_verification_priority :: int
  v_verification_waiting :: int
  v_business_waiting :: int
  v_counts :: "int \<Rightarrow> int"
  v_inactive :: "int \<Rightarrow> int"

definition empty_counts :: alloc_view where
  "empty_counts = \<lparr>v_accounts = 0, v_assigned = 0, v_waiting = 0, v_binding_only = 0, v_test_bindings = 0,
     v_verification_priority = 0, v_verification_waiting = 0, v_business_waiting = 0, v_counts = (\<lambda>_. 0), v_inactive = (\<lambda>_. 0)\<rparr>"

text \<open>The two halves of the loop over the accounts: up to and after the check for a test lease.\<close>

definition count_roles :: "alloc_account \<Rightarrow> alloc_view \<Rightarrow> alloc_view" where
  "count_roles a v =
     (let v = (if aa_binding_only a \<and> \<not> aa_verification_priority a then v\<lparr>v_inactive := bump (aa_current a) 1 (v_inactive v)\<rparr> else v);
          v = (if aa_verification_priority a
               then v\<lparr>v_verification_priority := v_verification_priority v + 1,
                      v_verification_waiting := v_verification_waiting v + (if aa_current a = 0 then 1 else 0)\<rparr> else v);
          v = (if \<not> aa_binding_only a \<and> (aa_current a = 0 \<or> aa_waiting a)
               then v\<lparr>v_business_waiting := v_business_waiting v + 1\<rparr> else v)
      in if \<not> aa_eligible a then v
         else let v = (if aa_binding_only a then v\<lparr>v_binding_only := v_binding_only v + 1\<rparr> else v)
              in if aa_current a = 0 \<or> (aa_waiting a \<and> \<not> aa_binding_only a)
                 then v\<lparr>v_waiting := v_waiting v + 1\<rparr> else v\<lparr>v_assigned := v_assigned v + 1\<rparr>)"

definition count_account :: "alloc_account \<Rightarrow> alloc_view \<Rightarrow> alloc_view" where
  "count_account a v =
     (let v = v\<lparr>v_counts := bump (aa_current a) 1 (v_counts v)\<rparr> in
      if aa_manual_proxy a then v
      else let v = v\<lparr>v_accounts := v_accounts v + 1\<rparr> in
           if aa_test_lease a then v\<lparr>v_test_bindings := v_test_bindings v + 1\<rparr> else count_roles a v)"

definition allocation_counts :: "alloc_account list \<Rightarrow> alloc_view" where
  "allocation_counts accounts = fold count_account accounts empty_counts"

text \<open>One row of the node list: (id, accounts, status, latency).\<close>

definition node_status ::
    "(proxy_def \<Rightarrow> string) \<Rightarrow> gotime \<Rightarrow> (int, proxy) gomap \<Rightarrow> (int \<rightharpoonup> health) \<Rightarrow> int \<Rightarrow> string \<times> int" where
  "node_status fp now ps hs i =
     (case gm_get ps i of
        None \<Rightarrow> (''unavailable'', 0)
      | Some p \<Rightarrow>
          if \<not> available p now then (''unavailable'', 0)
          else if h_fingerprint (health_at hs i) = fingerprint fp p
                  \<and> time_sub now (h_checked_at (health_at hs i)) \<le> ProbeFreshness (int (length ps))
          then (h_status (health_at hs i), h_latency_ms (health_at hs i))
          else (''unknown'', 0))"

definition slots :: "(int \<Rightarrow> string) \<Rightarrow> alloc_view \<Rightarrow> int list \<Rightarrow> int \<times> int \<times> int" where
  "slots status v ids =
     foldl (\<lambda>(healthy, avail, reclaim) i.
        if status i = ''healthy''
        then (healthy + 1, avail + max 0 (accountsPerProxy - v_counts v i), reclaim + min accountsPerProxy (v_inactive v i))
        else (healthy, avail, reclaim)) (0, 0, 0) ids"

definition GetAllocation ::
    "(proxy_def \<Rightarrow> string) \<Rightarrow> gotime \<Rightarrow> store \<Rightarrow> alloc_view \<times> (int \<times> int \<times> string \<times> int) list \<times> int \<times> int \<times> int" where
  "GetAllocation fp now st =
     (let v = allocation_counts (loadAllocationAccounts now st);
          ids = sort (map px_id (filter (\<lambda>d. \<not> px_deleted d) (st_proxies st)));
          node = node_status fp now (store_proxies now st) (st_health st)
      in (v, map (\<lambda>i. (i, v_counts v i, node i)) ids, slots (fst \<circ> node) v ids))"

section \<open>Lemmas\<close>

lemma outbox_concat: "concat (allocationOutbox ids) = ids"
proof (induction ids rule: allocationOutbox.induct)
  case (1 ids)
  then show ?case by (cases "ids = []") (simp_all add: allocationOutbox.simps [of ids] allocationOutbox.simps [of "[]"])
qed

lemma outbox_sizes: "c \<in> set (allocationOutbox ids) \<Longrightarrow> c \<noteq> [] \<and> length c \<le> 500"
proof (induction ids rule: allocationOutbox.induct)
  case (1 ids)
  then show ?case
    by (cases "ids = []") (auto simp: allocationOutbox.simps [of ids] allocationOutbox.simps [of "[]"])
qed

lemma allocation_counts_sum:
  assumes "\<forall>a \<in> set accounts. aa_eligible a"
  shows "v_accounts (allocation_counts accounts) = v_assigned (allocation_counts accounts)
     + v_waiting (allocation_counts accounts) + v_test_bindings (allocation_counts accounts)"
proof -
  have step: "v_accounts (count_account a v) - (v_assigned (count_account a v) + v_waiting (count_account a v) + v_test_bindings (count_account a v))
      = v_accounts v - (v_assigned v + v_waiting v + v_test_bindings v)" if "aa_eligible a" for a v
    using that by (simp add: count_account_def count_roles_def Let_def)
  have "v_accounts (fold count_account accounts v) - (v_assigned (fold count_account accounts v)
        + v_waiting (fold count_account accounts v) + v_test_bindings (fold count_account accounts v))
      = v_accounts v - (v_assigned v + v_waiting v + v_test_bindings v)" for v
    using assms
  proof (induction accounts arbitrary: v)
    case (Cons a accounts)
    then show ?case using step [of a v] by simp
  qed simp
  from this [of empty_counts] show ?thesis by (simp add: allocation_counts_def empty_counts_def)
qed

lemma counts_per_proxy:
  "v_counts (allocation_counts accounts) i = int (length (filter (\<lambda>a. aa_current a = i) accounts))"
proof -
  have c: "v_counts (count_account a v) = bump (aa_current a) 1 (v_counts v)" for a v
    by (simp add: count_account_def count_roles_def Let_def)
  have "v_counts (fold count_account accounts v) i = v_counts v i + int (length (filter (\<lambda>a. aa_current a = i) accounts))" for v
    by (induction accounts arbitrary: v) (auto simp: c bump_def)
  then show ?thesis by (simp add: allocation_counts_def empty_counts_def)
qed

text \<open>The scheduling state of a row: everything the allocator may only change for business accounts.\<close>

definition scheduling :: "account_row \<Rightarrow> string \<times> bool \<times> bool \<times> string option \<times> gotime option" where
  "scheduling a = (ar_status a, ar_schedulable a, ar_auto_paused a, ar_error_message a, ar_expires_at a)"

definition ids_distinct :: "store \<Rightarrow> bool" where
  "ids_distinct st \<longleftrightarrow> distinct (map ar_id (st_accounts st))"

lemma find_account_iff:
  "ids_distinct st \<Longrightarrow> find_account st i = Some a \<longleftrightarrow> a \<in> set (st_accounts st) \<and> ar_id a = i"
proof -
  have "distinct (map ar_id rows) \<Longrightarrow> List.find (\<lambda>a. ar_id a = i) rows = Some a \<longleftrightarrow> a \<in> set rows \<and> ar_id a = i" for rows
    by (induction rows) (auto simp: image_iff)
  then show "ids_distinct st \<Longrightarrow> ?thesis" by (simp add: ids_distinct_def find_account_def)
qed

lemma find_map:
  "(\<And>a. ar_id (g a) = ar_id a) \<Longrightarrow>
   List.find (\<lambda>a. ar_id a = i) (map g rows) = map_option g (List.find (\<lambda>a. ar_id a = i) rows)"
  by (induction rows) auto

lemma apply_row_id [simp]: "ar_id (apply_row pid b a) = ar_id a"
  by (simp add: apply_row_def)

lemma find_update_account:
  "(\<And>a. ar_id (f a) = ar_id a) \<Longrightarrow>
   find_account (update_account j f st) i = (if i = j then map_option f (find_account st i) else find_account st i)"
proof -
  assume id: "\<And>a. ar_id (f a) = ar_id a"
  have "List.find (\<lambda>a. ar_id a = i) (map (\<lambda>a. if ar_id a = j then f a else a) rows) =
      (if i = j then map_option f (List.find (\<lambda>a. ar_id a = i) rows) else List.find (\<lambda>a. ar_id a = i) rows)" for rows
    by (induction rows) (auto simp: id)
  then show ?thesis by (simp add: find_account_def update_account_def)
qed

lemma find_account_other [simp]:
  "find_account (add_event i f t now st) j = find_account st j"
  "find_account (publish ids st) j = find_account st j"
  "find_account (st\<lparr>st_health := h\<rparr>) j = find_account st j"
  "find_account (st\<lparr>st_events := e, st_checked_at := c\<rparr>) j = find_account st j"
  by (simp_all add: find_account_def add_event_def publish_def)

lemma update_account_other [simp]:
  "st_leases (update_account i f st) = st_leases st" "st_proxies (update_account i f st) = st_proxies st"
  "st_leases (add_event i f' t now st) = st_leases st"
  by (simp_all add: update_account_def add_event_def)

lemma apply_account_find:
  "find_account (fst (apply_account now nxt (st, ch) a)) i =
     (if i = aa_id a \<and> needs_change a (nxt i)
      then map_option (apply_row (the (nxt i)) (aa_binding_only a)) (find_account st i) else find_account st i)"
  by (auto simp: apply_account_def Let_def find_update_account)

lemma apply_fold_find:
  "distinct (map aa_id accounts) \<Longrightarrow>
   find_account (fst (foldl (apply_account now nxt) (st, ch) accounts)) i =
     (case List.find (\<lambda>a. aa_id a = i) accounts of None \<Rightarrow> find_account st i
      | Some a \<Rightarrow> if needs_change a (nxt i)
          then map_option (apply_row (the (nxt i)) (aa_binding_only a)) (find_account st i) else find_account st i)"
proof (induction accounts arbitrary: st ch)
  case Nil
  then show ?case by simp
next
  case (Cons a accounts)
  obtain st1 ch1 where s: "apply_account now nxt (st, ch) a = (st1, ch1)" by fastforce
  have f: "find_account st1 i = (if i = aa_id a \<and> needs_change a (nxt i)
      then map_option (apply_row (the (nxt i)) (aa_binding_only a)) (find_account st i) else find_account st i)"
    using apply_account_find [of now nxt st ch a i] s by simp
  show ?case
  proof (cases "aa_id a = i")
    case True
    then have "List.find (\<lambda>a. aa_id a = i) accounts = None"
      using Cons.prems unfolding find_None_iff by (metis distinct.simps(2) image_eqI list.map(2) list.set_map)
    with Cons.IH [of st1 ch1] Cons.prems f True s show ?thesis by simp
  next
    case False
    with f have same: "find_account st1 i = find_account st i" by simp
    have "distinct (map aa_id accounts)" using Cons.prems by simp
    from Cons.IH [OF this, of st1 ch1, unfolded same] False s show ?thesis by simp
  qed
qed


lemma loaded_ids:
  "map aa_id (loadAllocationAccounts now st) = map ar_id (sort_key ar_id (filter (\<lambda>a. \<not> ar_deleted a) (st_accounts st)))"
  by (simp add: loadAllocationAccounts_def account_of_row_def comp_def)

lemma loaded_distinct:
  assumes "ids_distinct st"
  shows "distinct (map aa_id (loadAllocationAccounts now st))"
proof -
  have d: "distinct (map ar_id (filter (\<lambda>a. \<not> ar_deleted a) (st_accounts st)))"
    using assms by (simp add: ids_distinct_def distinct_map_filter)
  have "mset (map ar_id (sort_key ar_id rows)) = mset (map ar_id rows)" for rows by simp
  with d show ?thesis unfolding loaded_ids by (metis mset_eq_imp_distinct_iff)
qed

lemma loaded_find:
  assumes d: "ids_distinct st" and r: "find_account st i = Some row" "\<not> ar_deleted row"
  shows "List.find (\<lambda>a. aa_id a = i) (loadAllocationAccounts now st) = Some (account_of_row now st row)"
proof -
  have uniq: "distinct (map aa_id as) \<Longrightarrow> a \<in> set as \<Longrightarrow> aa_id a = i \<Longrightarrow> List.find (\<lambda>a. aa_id a = i) as = Some a" for as a
    by (induction as) auto
  have "row \<in> set (st_accounts st)" and i: "ar_id row = i" using r(1) find_account_iff [OF d] by auto
  with r(2) have "account_of_row now st row \<in> set (loadAllocationAccounts now st)"
    by (simp add: loadAllocationAccounts_def)
  from uniq [OF loaded_distinct [OF d] this] i show ?thesis by (simp add: account_of_row_def)
qed

lemma loaded_find_none:
  assumes d: "ids_distinct st" and r: "\<And>row. find_account st i = Some row \<Longrightarrow> ar_deleted row"
  shows "List.find (\<lambda>a. aa_id a = i) (loadAllocationAccounts now st) = None"
  using r unfolding find_None_iff
  by (auto simp: loadAllocationAccounts_def account_of_row_def find_account_iff [OF d])

lemma loaded_health [simp]:
  "loadAllocationAccounts now (st\<lparr>st_health := h\<rparr>) = loadAllocationAccounts now st"
  "ids_distinct (st\<lparr>st_health := h\<rparr>) = ids_distinct st"
  by (simp_all add: loadAllocationAccounts_def account_of_row_def ids_distinct_def)

text \<open>What \<open>allocate\<close> does to one row.\<close>

definition plan_of :: "(proxy_def \<Rightarrow> string) \<Rightarrow> gotime \<Rightarrow> (int \<rightharpoonup> health) \<Rightarrow> store \<Rightarrow> int \<rightharpoonup> int" where
  "plan_of fp now hs st = pl_next (planAllocation fp (loadAllocationAccounts now st) (store_proxies now st) hs now)"

lemma allocate_find:
  assumes d: "ids_distinct st" and pol: "(st_enabled st, st_revision st) = policy"
    and r: "find_account st i = Some row" "\<not> ar_deleted row"
  shows "find_account (allocate fp now policy hs st) i =
     Some (if needs_change (account_of_row now st row) (plan_of fp now hs st i)
           then apply_row (the (plan_of fp now hs st i)) (row_binding_only now row) row else row)"
  using pol r loaded_find [OF d r]
  by (simp add: allocate_def Let_def apply_fold_find [OF loaded_distinct [OF d]] plan_of_def account_of_row_def)

lemma allocate_find_deleted:
  assumes d: "ids_distinct st" and r: "find_account st i = Some row" "ar_deleted row"
  shows "find_account (allocate fp now policy hs st) i = Some row"
proof -
  have "List.find (\<lambda>a. aa_id a = i) (loadAllocationAccounts now st) = None"
    by (rule loaded_find_none [OF d]) (use r in auto)
  with r show ?thesis by (simp add: allocate_def Let_def apply_fold_find [OF loaded_distinct [OF d]])
qed

text \<open>What \<open>allocate\<close> leaves alone.\<close>

lemma apply_fold_frame:
  "map ar_id (st_accounts (fst (foldl (apply_account now nxt) s accounts))) = map ar_id (st_accounts (fst s))
   \<and> st_leases (fst (foldl (apply_account now nxt) s accounts)) = st_leases (fst s)
   \<and> st_proxies (fst (foldl (apply_account now nxt) s accounts)) = st_proxies (fst s)
   \<and> st_sources (fst (foldl (apply_account now nxt) s accounts)) = st_sources (fst s)
   \<and> st_routes (fst (foldl (apply_account now nxt) s accounts)) = st_routes (fst s)
   \<and> st_health (fst (foldl (apply_account now nxt) s accounts)) = st_health (fst s)"
proof (induction accounts arbitrary: s)
  case (Cons a accounts)
  have "map ar_id (st_accounts (fst (apply_account now nxt s a))) = map ar_id (st_accounts (fst s))
      \<and> st_leases (fst (apply_account now nxt s a)) = st_leases (fst s)
      \<and> st_proxies (fst (apply_account now nxt s a)) = st_proxies (fst s)
      \<and> st_sources (fst (apply_account now nxt s a)) = st_sources (fst s)
      \<and> st_routes (fst (apply_account now nxt s a)) = st_routes (fst s)
      \<and> st_health (fst (apply_account now nxt s a)) = st_health (fst s)"
    by (cases s) (simp add: apply_account_def Let_def add_event_def update_account_def comp_def if_distrib [of ar_id] cong: if_cong)
  with Cons.IH [of "apply_account now nxt s a"] show ?case by simp
qed simp

lemma allocate_frame:
  "ids_distinct (allocate fp now policy hs st) = ids_distinct st"
  "map ar_id (st_accounts (allocate fp now policy hs st)) = map ar_id (st_accounts st)"
  "st_leases (allocate fp now policy hs st) = st_leases st"
  "st_proxies (allocate fp now policy hs st) = st_proxies st"
  "store_proxies now' (allocate fp now policy hs st) = store_proxies now' st"
  "policy = (st_enabled st, st_revision st) \<Longrightarrow>
     st_health (allocate fp now policy hs st) = persistHealth fp (gm_get (store_proxies now st)) hs (st_health st)"
  by (simp_all add: allocate_def Let_def ids_distinct_def store_proxies_def publish_def apply_fold_frame)

section \<open>Properties\<close>


definition demo_row_acct :: account_row where
  "demo_row_acct = \<lparr>ar_id = 1, ar_proxy_id = None, ar_fallback_origin = None, ar_deleted = False, ar_platform = ''adobe'',
     ar_type = ''oauth'', ar_status = ''active'', ar_schedulable = True, ar_auto_paused = False, ar_error_message = None,
     ar_pause_on_expired = True, ar_expires_at = None, ar_manual = False, ar_okad_resume = False, ar_manual_pause = False,
     ar_verification = None, ar_has_cookie = True, ar_gated_json = False, ar_gated_text = None, ar_test_resume = False,
     ar_test_state = None, ar_require_verification = None, ar_credential_hash = ''c'', ar_retired_408 = False\<rparr>"

definition demo_store :: store where
  "demo_store = \<lparr>st_enabled = True, st_revision = 1, st_checked_at = None, st_accounts = [demo_row_acct],
     st_proxies = [demo_def], st_sources = Map.empty, st_routes = \<lparr>rt_health = [], rt_observations = [], rt_exclusions = []\<rparr>,
     st_health = [7 \<mapsto> demo_health], st_leases = [], st_events = [], st_outbox = [], st_acct_health = [], st_failover = []\<rparr>"


text \<open>The operator's counters are consistent: on the accounts the loader returns, every account that is not manual is
  counted exactly once as assigned, waiting or borrowed by a test, and the load shown for a proxy is the number of
  loaded accounts bound to it.\<close>

theorem allocation_view_consistent:
  shows "v_accounts (fst (GetAllocation fp now st)) = v_assigned (fst (GetAllocation fp now st))
      + v_waiting (fst (GetAllocation fp now st)) + v_test_bindings (fst (GetAllocation fp now st))
    \<and> v_counts (fst (GetAllocation fp now st)) i
      = int (length (filter (\<lambda>a. aa_current a = i) (loadAllocationAccounts now st)))"
proof -
  have "\<forall>a \<in> set (loadAllocationAccounts now st). aa_eligible a"
    by (auto simp: loadAllocationAccounts_def account_of_row_def)
  from allocation_counts_sum [OF this] counts_per_proxy show ?thesis by (simp add: GetAllocation_def Let_def)
qed

end
