(* ===== verification/ClashImport.thy ===== *)
theory ClashImport
  imports ClashDocument AllocationStore
begin

text \<open>
  The import of a subscription (\<open>internal/clash/manager.go\<close>, \<open>cleanup.go\<close>): the selection of nodes, the transaction that retires
  removed proxies, binds the nodes to proxy rows and ports and saves the document, the push of the new configuration to
  the Mihomo runtime with its compensation, the reconciliation after a restart, and the monitor of the feeds. The tables are the
  \<open>store\<close> of the allocation with the document beside them; a failing statement is the transaction's error and changes nothing.
\<close>

section \<open>State\<close>

text \<open>\<open>ck_backup\<close> is the pair of columns \<open>backup_proxy_id\<close> and \<open>fallback_mode\<close> of a proxy, \<open>ck_probed\<close> the accounts whose \<open>extra\<close> holds
  a billing probe or a usage snapshot, \<open>ck_next_proxy\<close> the sequence of proxy ids.\<close>

record clash_db =
  ck_store :: store
  ck_doc :: clash_state
  ck_next_proxy :: int
  ck_backup :: "int \<rightharpoonup> int option \<times> string"
  ck_probed :: "int list"

record clash_manager =
  mg_controller :: string
  mg_secret :: string
  mg_host :: string
  mg_port_start :: int

definition configured :: "(string \<Rightarrow> url option) \<Rightarrow> clash_manager \<Rightarrow> bool" where
  "configured ParseURL m =
     (case ParseURL (mg_controller m) of None \<Rightarrow> False
      | Some u \<Rightarrow> url_scheme u \<in> {''http'', ''https''} \<and> url_host u \<noteq> [] \<and> url_user u = None \<and> url_raw_query u = [] \<and>
          url_fragment u = [] \<and> mg_secret m \<noteq> [] \<and> mg_host m \<noteq> [] \<and> mg_port_start m > 0 \<and> mg_port_start m \<le> 60000)"

record import_request =
  iq_source_ids :: "(string, string) gomap"
  iq_url :: string
  iq_names :: "string list"
  iq_revision :: int

datatype import_error =
    NotConfigured | UrlsRefused url_error | AllFeedsFailed | DuplicateChoice | NodesChanged | Cancelled
  | StatementFailed | RevisionChanged | PortsExhausted | NoRandomness | ProxyDeleted | ApplyFailed | CommitFailed

section \<open>Retiring proxies\<close>

definition retired_message :: string where
  "retired_message = bytes [67, 108, 97, 115, 104, 32, 232, 174, 162, 233, 152, 133, 232, 138, 130, 231, 130, 185, 229, 183, 178, 231,
     167, 187, 233, 153, 164, 239, 188, 140, 232, 175, 183, 233, 135, 141, 230, 150, 176, 233, 128, 137, 230, 139, 169, 228,
     187, 163, 231, 144, 134, 229, 185, 182, 230, 129, 162, 229, 164, 141, 232, 180, 166, 229, 143, 183, 232, 176, 131, 229,
     186, 166]"

definition member_opt :: "int list \<Rightarrow> int option \<Rightarrow> bool" where
  "member_opt ids v = (case v of None \<Rightarrow> False | Some i \<Rightarrow> i \<in> set ids)"

definition detach_row :: "int list \<Rightarrow> account_row \<Rightarrow> account_row" where
  "detach_row ids a =
     (let a' = a\<lparr>ar_fallback_origin := (if member_opt ids (ar_fallback_origin a) then None else ar_fallback_origin a)\<rparr>
      in if member_opt ids (ar_proxy_id a)
         then a'\<lparr>ar_schedulable := False, ar_status := ''error'', ar_error_message := Some retired_message, ar_proxy_id := None\<rparr>
         else a')"

definition row_touched :: "int list \<Rightarrow> account_row \<Rightarrow> bool" where
  "row_touched ids a \<longleftrightarrow> member_opt ids (ar_proxy_id a) \<or> member_opt ids (ar_fallback_origin a)"

text \<open>The two statements on the failover policies.\<close>

definition retire_policies :: "int list \<Rightarrow> (int \<times> fo_row) list \<Rightarrow> (int \<times> fo_row) list" where
  "retire_policies ids rows =
     map (\<lambda>(i, f). (i, if list_ex (\<lambda>b. b \<in> set ids) (fo_backups f)
                       then f\<lparr>fo_backups := filter (\<lambda>b. b \<notin> set ids) (fo_backups f), fo_revision := fo_revision f + 1\<rparr> else f))
       (filter (\<lambda>(i, f). fo_primary f \<notin> set ids) rows)"

definition notifyAccounts :: "int list \<Rightarrow> store \<Rightarrow> store" where
  "notifyAccounts ids st = st\<lparr>st_outbox := st_outbox st @ allocationOutbox ids\<rparr>"

text \<open>Deleting a proxy row takes its health, exclusions and route evidence with it.\<close>

definition delete_proxies :: "int list \<Rightarrow> store \<Rightarrow> store" where
  "delete_proxies ids st =
     st\<lparr>st_proxies := filter (\<lambda>p. px_id p \<notin> set ids) (st_proxies st),
        st_health := (\<lambda>i. if i \<in> set ids then None else st_health st i),
        st_routes := (st_routes st)\<lparr>rt_health := filter (\<lambda>r. rr_proxy_id r \<notin> set ids) (rt_health (st_routes st)),
                                   rt_exclusions := filter (\<lambda>i. i \<notin> set ids) (rt_exclusions (st_routes st))\<rparr>\<rparr>"

definition retireProxies :: "int list \<Rightarrow> clash_db \<Rightarrow> clash_db" where
  "retireProxies ids db =
     (if ids = [] then db
      else let st = ck_store db;
               touched = map ar_id (filter (row_touched ids) (st_accounts st));
               st = st\<lparr>st_accounts := map (detach_row ids) (st_accounts st),
                       st_failover := retire_policies ids (st_failover st)\<rparr>
      in db\<lparr>ck_store := notifyAccounts touched (delete_proxies ids st),
            ck_probed := filter (\<lambda>i. i \<notin> set touched) (ck_probed db),
            ck_backup := (\<lambda>i. if i \<in> set ids then None
               else case ck_backup db i of
                 Some (Some b, mode) \<Rightarrow> Some (if b \<in> set ids then (None, ''none'') else (Some b, mode)) | v \<Rightarrow> v)\<rparr>)"

section \<open>The selection\<close>

record import_plan =
  ip_fetched :: "clash_node list"
  ip_sources :: "source list"
  ip_selected :: "string list"
  ip_raw :: string

text \<open>\<open>failedSourceIDs\<close>.\<close>

definition source_failed :: "source list \<Rightarrow> string \<Rightarrow> bool" where
  "source_failed sources i = (case last_by src_id sources i of None \<Rightarrow> False | Some s \<Rightarrow> src_fetch_error s \<noteq> [])"

text \<open>The loop over the map of selected names: a missing node is forgiven if the client names its source and that source failed.\<close>

definition missing_forgiven :: "(string, string) gomap \<Rightarrow> source list \<Rightarrow> string \<Rightarrow> bool" where
  "missing_forgiven ids sources n =
     (case gm_get ids n of None \<Rightarrow> False | Some i \<Rightarrow> i \<noteq> [] \<and> source_failed sources i)"

definition plan_import ::
    "fetch_env \<Rightarrow> (nat \<Rightarrow> (gotime \<times> feed_response) option) \<Rightarrow> clash_state \<Rightarrow> import_request \<Rightarrow> import_error + import_plan" where
  "plan_import env answers snapshot rq =
     (let raw = (if trim_space (iq_url rq) = [] then cs_url snapshot else trim_space (iq_url rq))
      in case fetchSubscriptionDetails env answers raw of Inl e \<Rightarrow> Inl (UrlsRefused e)
         | Inr (found, sources) \<Rightarrow>
             (let (fetched, retained) = preserveFailedSources env snapshot found sources
              in if \<not> list_ex (\<lambda>s. src_fetch_error s = []) sources then Inl AllFeedsFailed
                 else if \<not> distinct (iq_names rq) then Inl DuplicateChoice
                 else let selected = iq_names rq @ retained;
                          missing = (\<lambda>n. n \<notin> set (map nd_name fetched));
                          forgiven = missing_forgiven (iq_source_ids rq) sources
                 in if list_ex (\<lambda>n. missing n \<and> \<not> forgiven n) selected then Inl NodesChanged
                    else Inr \<lparr>ip_fetched = fetched, ip_sources = sources,
                              ip_selected = filter (\<lambda>n. \<not> missing n) selected, ip_raw = raw\<rparr>))"

section \<open>Ports and proxy rows\<close>

function free_port :: "int list \<Rightarrow> int \<Rightarrow> int" where
  "free_port used p = (if p \<in> set used then free_port used (p + 1) else p)"
  by pat_completeness auto
termination
proof (relation "measure (\<lambda>(used, p). card {q \<in> set used. p \<le> q})")
  fix used and p :: int
  assume "p \<in> set used"
  then have "p \<in> {q \<in> set used. p \<le> q}" "p \<notin> {q \<in> set used. p + 1 \<le> q}" by auto
  moreover have "{q \<in> set used. p + 1 \<le> q} \<subseteq> {q \<in> set used. p \<le> q}" by auto
  ultimately have "{q \<in> set used. p + 1 \<le> q} \<subset> {q \<in> set used. p \<le> q}" by (metis psubsetI)
  then show "((used, p + 1), (used, p)) \<in> measure (\<lambda>(used, p). card {q \<in> set used. p \<le> q})"
    by (simp add: psubset_card_mono)
qed simp

declare free_port.simps [simp del]

text \<open>The row of a new node; \<open>now\<close> is the time of the statement.\<close>

definition new_proxy :: "clash_manager \<Rightarrow> gotime \<Rightarrow> int \<Rightarrow> int \<Rightarrow> string \<Rightarrow> proxy_def" where
  "new_proxy m now i port password =
     \<lparr>px_id = i, px_protocol = ''http'', px_host = mg_host m, px_username = ''clash'', px_password = password,
      px_status = ''active'', px_port = port, px_expires_at = None, px_updated_at = now, px_deleted = False\<rparr>"

record bind_state =
  bs_port :: int
  bs_used :: "int list"
  bs_next_id :: int
  bs_rows :: "proxy_def list"

text \<open>\<open>old\<close> is \<open>oldByName\<close>, \<open>rand\<close> draws the secret of a new node. \<open>bs_rows\<close> are the rows inserted so far.\<close>

fun bind_nodes ::
    "clash_manager \<Rightarrow> gotime \<Rightarrow> (string \<Rightarrow> string option) \<Rightarrow> (string \<rightharpoonup> clash_node) \<Rightarrow> string list \<Rightarrow> bind_state \<Rightarrow>
     clash_node list \<Rightarrow> import_error + clash_node list \<times> bind_state" where
  "bind_nodes m now rand old selected b [] = Inr ([], b)"
| "bind_nodes m now rand old selected b (n # ns) =
     (if nd_name n \<notin> set selected then bind_nodes m now rand old selected b ns
      else case (case old (nd_name n) of
                   Some o' \<Rightarrow> Inr (n\<lparr>nd_proxy_id := nd_proxy_id o', nd_port := nd_port o', nd_password := nd_password o',
                                    nd_enabled := True\<rparr>, b)
                 | None \<Rightarrow>
                     (let port = free_port (bs_used b) (bs_port b)
                      in if port > min (mg_port_start m + 4095) 65535 then Inl PortsExhausted
                         else case rand (nd_name n) of None \<Rightarrow> Inl NoRandomness
                              | Some password \<Rightarrow>
                                  Inr (n\<lparr>nd_proxy_id := bs_next_id b, nd_port := port, nd_password := password, nd_enabled := True\<rparr>,
                                       \<lparr>bs_port = port, bs_used = port # bs_used b, bs_next_id = bs_next_id b + 1,
                                        bs_rows = bs_rows b @ [new_proxy m now (bs_next_id b) port password]\<rparr>)))
           of Inl e \<Rightarrow> Inl e
            | Inr (n', b') \<Rightarrow>
                (case bind_nodes m now rand old selected b' ns of Inl e \<Rightarrow> Inl e
                 | Inr (ns', b'') \<Rightarrow> Inr (n' # ns', b'')))"

text \<open>\<open>UPDATE proxies SET status='active' ... WHERE id=$1 AND deleted_at IS NULL\<close> for every enabled node; it must find its row.\<close>

definition activate :: "gotime \<Rightarrow> int \<Rightarrow> proxy_def list \<Rightarrow> proxy_def list option" where
  "activate now i rows =
     (if length (filter (\<lambda>p. px_id p = i \<and> \<not> px_deleted p) rows) = 1
      then Some (map (\<lambda>p. if px_id p = i \<and> \<not> px_deleted p then p\<lparr>px_status := ''active'', px_updated_at := now\<rparr> else p) rows)
      else None)"

fun activate_all :: "gotime \<Rightarrow> int list \<Rightarrow> proxy_def list \<Rightarrow> proxy_def list option" where
  "activate_all now [] rows = Some rows"
| "activate_all now (i # ids) rows = (case activate now i rows of None \<Rightarrow> None | Some rows' \<Rightarrow> activate_all now ids rows')"

text \<open>The probes of the accounts behind the nodes are stale; the accounts are announced.\<close>

definition forget_probes :: "int list \<Rightarrow> clash_db \<Rightarrow> clash_db" where
  "forget_probes ids db =
     (let hit = map ar_id (filter (\<lambda>a. \<not> ar_deleted a \<and> member_opt ids (ar_proxy_id a)) (st_accounts (ck_store db)))
      in db\<lparr>ck_probed := filter (\<lambda>i. i \<notin> set hit) (ck_probed db), ck_store := notifyAccounts hit (ck_store db)\<rparr>)"


section \<open>The transaction\<close>

text \<open>\<open>oldByName\<close>, and the proxies that are retired: a node of the stored document is carried over when it is enabled and selected;
  a disabled node of a failed source stays as it is.\<close>

definition parked :: "source list \<Rightarrow> clash_node \<Rightarrow> bool" where
  "parked sources n \<longleftrightarrow> source_failed sources (nd_source_id n) \<and> \<not> nd_enabled n"

definition carried :: "import_plan \<Rightarrow> clash_node list \<Rightarrow> string \<rightharpoonup> clash_node" where
  "carried plan nodes =
     last_by nd_name (filter (\<lambda>n. \<not> parked (ip_sources plan) n \<and> nd_enabled n \<and> nd_name n \<in> set (ip_selected plan)) nodes)"

definition retired_ids :: "import_plan \<Rightarrow> clash_node list \<Rightarrow> int list" where
  "retired_ids plan nodes =
     map nd_proxy_id (filter (\<lambda>n. \<not> parked (ip_sources plan) n \<and> \<not> (nd_enabled n \<and> nd_name n \<in> set (ip_selected plan))) nodes)"

definition merged_sources :: "gotime \<Rightarrow> source list \<Rightarrow> source list \<Rightarrow> source list" where
  "merged_sources now old observed =
     map (\<lambda>s. case last_by src_id old (src_id s) of None \<Rightarrow> s | Some o' \<Rightarrow> mergeSourceObservation now now o' s) observed"

fun join_lines :: "string list \<Rightarrow> string" where
  "join_lines [] = []"
| "join_lines [u] = u"
| "join_lines (u # us) = u @ [char_of (10 :: nat)] @ join_lines us"

definition import_tx ::
    "fetch_env \<Rightarrow> clash_manager \<Rightarrow> gotime \<Rightarrow> (string \<Rightarrow> string option) \<Rightarrow> int \<Rightarrow> import_plan \<Rightarrow> clash_db \<Rightarrow> import_error + clash_db" where
  "import_tx env m now rand revision plan db =
     (let previous = normalize_state (fe_sid env) (fe_hint env) (ck_doc db); nodes = cs_nodes previous;
          urls = (case subscriptionURLs (ip_raw plan) of Inr us \<Rightarrow> us | Inl _ \<Rightarrow> []);
          db1 = retireProxies (retired_ids plan nodes) db
      in if cs_revision previous \<noteq> revision then Inl RevisionChanged
         else case bind_nodes m now rand (carried plan nodes) (ip_selected plan)
                     \<lparr>bs_port = mg_port_start m, bs_used = map nd_port nodes, bs_next_id = ck_next_proxy db1, bs_rows = []\<rparr>
                     (ip_fetched plan) of
                Inl e \<Rightarrow> Inl e
              | Inr (bound, b) \<Rightarrow>
                  (let next_nodes = filter (parked (ip_sources plan)) nodes @ bound;
                       ids = map nd_proxy_id (filter nd_enabled next_nodes)
                   in case activate_all now ids (st_proxies (ck_store db1) @ bs_rows b) of
                        None \<Rightarrow> Inl ProxyDeleted
                      | Some rows \<Rightarrow>
                          (let db2 = db1\<lparr>ck_store := (ck_store db1)\<lparr>st_proxies := rows\<rparr>, ck_next_proxy := bs_next_id b\<rparr>;
                               db3 = (if next_nodes = [] then db2 else forget_probes ids db2)
                           in Inr (db3\<lparr>ck_doc := \<lparr>cs_sources = merged_sources now (cs_sources previous) (ip_sources plan),
                                       cs_url = join_lines urls, cs_revision = cs_revision previous + 1, cs_updated_at = now,
                                       cs_nodes = next_nodes\<rparr>\<rparr>))))"

section \<open>The runtime\<close>

record listener =
  ln_name :: string
  ln_port :: int
  ln_target :: string
  ln_password :: string

record runtime_config =
  rc_marker :: string
  rc_proxies :: "(string \<times> node_config) list"
  rc_listeners :: "listener list"

text \<open>\<open>marker\<close>: a digest of the document without sources and provider names; \<open>digest\<close> is the hash of its JSON text.\<close>

definition marker :: "(clash_state \<Rightarrow> string) \<Rightarrow> clash_state \<Rightarrow> string" where
  "marker digest s =
     ''sub2api-revision-'' @ digest (s\<lparr>cs_sources := [], cs_nodes := map (\<lambda>n. n\<lparr>nd_source_id := [], nd_original_name := []\<rparr>) (cs_nodes s)\<rparr>)"

definition id_text :: "int \<Rightarrow> string" where
  "id_text i = (if i < 0 then ''-'' @ decimal (nat (- i)) else decimal (nat i))"

definition node_target :: "clash_node \<Rightarrow> string" where
  "node_target n = (if nd_enabled n then ''sub2api-node-'' @ id_text (nd_proxy_id n) else ''REJECT'')"

text \<open>\<open>runtimeConfig\<close>, as far as it depends on the document: the other entries are constants, with the rule to reject whatever
  reaches no listener.\<close>

definition runtimeConfig :: "(clash_state \<Rightarrow> string) \<Rightarrow> clash_state \<Rightarrow> runtime_config" where
  "runtimeConfig digest s =
     \<lparr>rc_marker = marker digest s,
      rc_proxies = map (\<lambda>n. (node_target n, gm_set ''name'' (YStr (node_target n)) (nd_config n))) (filter nd_enabled (cs_nodes s)),
      rc_listeners = map (\<lambda>n. \<lparr>ln_name = ''sub2api-in-'' @ id_text (nd_proxy_id n), ln_port = nd_port n,
                                ln_target = node_target n, ln_password = nd_password n\<rparr>) (cs_nodes s)\<rparr>"

text \<open>
  What the outside does to one call of \<open>apply\<close>: whether the runtime took the configuration, and whether the call reported success
  (which it does only after the runtime took it and every listener answered). Likewise for a commit: whether it happened,
  and whether it was reported.
\<close>

record call_fate =
  cf_done :: bool
  cf_reported :: bool

definition fate_ok :: "call_fate \<Rightarrow> bool" where
  "fate_ok f \<longleftrightarrow> (cf_reported f \<longrightarrow> cf_done f)"

record clash_world =
  cw_db :: clash_db
  cw_runtime :: "runtime_config option"

definition apply_config :: "(clash_state \<Rightarrow> string) \<Rightarrow> call_fate \<Rightarrow> clash_state \<Rightarrow> clash_world \<Rightarrow> clash_world" where
  "apply_config digest f s w = (if cf_done f then w\<lparr>cw_runtime := Some (runtimeConfig digest s)\<rparr> else w)"

text \<open>The fates of one attempt: a statement of the transaction, the push, the commit, the push that restores (\<open>None\<close> when the
  stored document could not be read again).\<close>

record attempt =
  at_statements :: bool
  at_apply :: call_fate
  at_commit :: call_fate
  at_restore :: "call_fate option"

definition attempt_ok :: "attempt \<Rightarrow> bool" where
  "attempt_ok a \<longleftrightarrow> fate_ok (at_apply a) \<and> fate_ok (at_commit a) \<and>
     (case at_restore a of None \<Rightarrow> True | Some f \<Rightarrow> fate_ok f)"

definition restorePersisted :: "(clash_state \<Rightarrow> string) \<Rightarrow> call_fate option \<Rightarrow> clash_world \<Rightarrow> clash_world" where
  "restorePersisted digest f w =
     (case f of None \<Rightarrow> w | Some fate \<Rightarrow> apply_config digest fate (ck_doc (cw_db w)) w)"

text \<open>\<open>commitState\<close>, with the tables as the transaction leaves them.\<close>

definition commitState ::
    "(clash_state \<Rightarrow> string) \<Rightarrow> attempt \<Rightarrow> clash_db \<Rightarrow> clash_world \<Rightarrow> import_error option \<times> clash_world" where
  "commitState digest a db' w =
     (let w1 = apply_config digest (at_apply a) (ck_doc db') w
      in if \<not> cf_reported (at_apply a) then (Some ApplyFailed, restorePersisted digest (at_restore a) w1)
         else let w2 = (if cf_done (at_commit a) then w1\<lparr>cw_db := db'\<rparr> else w1)
         in if cf_reported (at_commit a) then (None, w2)
            else (Some CommitFailed, restorePersisted digest (at_restore a) w2))"

text \<open>\<open>Import\<close> in two halves: everything before the transaction, on the snapshot it read, and the transaction.\<close>

definition import_prepare ::
    "fetch_env \<Rightarrow> clash_manager \<Rightarrow> (nat \<Rightarrow> (gotime \<times> feed_response) option) \<Rightarrow> bool \<Rightarrow> clash_state \<Rightarrow> import_request \<Rightarrow>
     import_error + import_plan" where
  "import_prepare env m answers cancelled snapshot rq =
     (if \<not> configured (fe_url env) m then Inl NotConfigured
      else case plan_import env answers snapshot rq of
             Inl e \<Rightarrow> Inl e
           | Inr plan \<Rightarrow> if cancelled then Inl Cancelled else Inr plan)"

definition import_finish ::
    "(clash_state \<Rightarrow> string) \<Rightarrow> fetch_env \<Rightarrow> clash_manager \<Rightarrow> gotime \<Rightarrow> (string \<Rightarrow> string option) \<Rightarrow> attempt \<Rightarrow> int \<Rightarrow> import_plan \<Rightarrow>
     clash_world \<Rightarrow> import_error option \<times> clash_world" where
  "import_finish digest env m now rand a revision plan w =
     (if \<not> at_statements a then (Some StatementFailed, w)
      else case import_tx env m now rand revision plan (cw_db w) of
             Inl e \<Rightarrow> (Some e, w)
           | Inr db' \<Rightarrow> commitState digest a db' w)"

text \<open>\<open>matches\<close>: the runtime shows the marker of the document; \<open>ready\<close> is the answer of the listeners.\<close>

definition runtime_matches :: "(clash_state \<Rightarrow> string) \<Rightarrow> bool \<Rightarrow> clash_state \<Rightarrow> clash_world \<Rightarrow> bool" where
  "runtime_matches digest ready s w \<longleftrightarrow>
     (case cw_runtime w of None \<Rightarrow> False | Some c \<Rightarrow> rc_marker c = marker digest s \<and> ready)"

definition reconcile ::
    "(clash_state \<Rightarrow> string) \<Rightarrow> gotime \<Rightarrow> bool \<Rightarrow> attempt \<Rightarrow> clash_world \<Rightarrow> import_error option \<times> clash_world" where
  "reconcile digest now ready a w =
     (let s = ck_doc (cw_db w); retired = map nd_proxy_id (filter (\<lambda>n. \<not> nd_enabled n) (cs_nodes s))
      in if cs_revision s = 0 then (None, w)
         else if retired \<noteq> [] then
           (if \<not> at_statements a then (Some StatementFailed, w)
            else commitState digest a
              ((retireProxies retired (cw_db w))\<lparr>ck_doc := s\<lparr>cs_nodes := filter nd_enabled (cs_nodes s),
                 cs_revision := cs_revision s + 1, cs_updated_at := now\<rparr>\<rparr>) w)
         else if runtime_matches digest ready s w then (None, w)
         else (if cf_reported (at_apply a) then None else Some ApplyFailed, apply_config digest (at_apply a) s w))"

section \<open>The monitor of the feeds\<close>

text \<open>The feeds that are due, oldest observation first.\<close>

definition due_feeds :: "fetch_env \<Rightarrow> gotime \<Rightarrow> clash_state \<Rightarrow> (nat \<times> string) list" where
  "due_feeds env now s =
     (let sources = cs_sources (normalize_state (fe_sid env) (fe_hint env) s); urls = text_fields (cs_url s)
      in sort_key (\<lambda>(i, u). src_checked_at (sources ! (i - 1)))
           (filter (\<lambda>(i, u). sourceRefreshDue (sources ! (i - 1)) now) (enumerate 1 urls)))"

text \<open>The merged observation of every completed feed, by source id.\<close>

definition observations ::
    "fetch_env \<Rightarrow> gotime \<Rightarrow> (nat \<Rightarrow> (gotime \<times> feed_response) option) \<Rightarrow> clash_state \<Rightarrow> source list" where
  "observations env now answers s =
     (let sources = cs_sources (normalize_state (fe_sid env) (fe_hint env) s)
      in List.map_filter (\<lambda>(i, u). map_option (\<lambda>(t, response).
           mergeSourceObservation now now (sources ! (i - 1)) (snd (fetchFeed env t u i response))) (answers i))
           (due_feeds env now s))"

definition refresh_finish :: "fetch_env \<Rightarrow> clash_state \<Rightarrow> source list \<Rightarrow> bool \<Rightarrow> clash_world \<Rightarrow> clash_world" where
  "refresh_finish env s obs committed w =
     (let current = ck_doc (cw_db w)
      in if obs = [] \<or> \<not> committed \<or> cs_url current \<noteq> cs_url s \<or> cs_revision current \<noteq> cs_revision s then w
         else let current = normalize_state (fe_sid env) (fe_hint env) current;
                  sources = map (\<lambda>x. case last_by src_id obs (src_id x) of None \<Rightarrow> x | Some v \<Rightarrow> v) (cs_sources current)
         in w\<lparr>cw_db := (cw_db w)\<lparr>ck_doc := current\<lparr>cs_sources := sources\<rparr>\<rparr>\<rparr>)"

end
