(* ===== verification/ClashPool.thy ===== *)
theory ClashPool
  imports ClashImport
begin

text \<open>
  The pool of proxy nodes under imports: the invariant of the document (distinct names, identities, ports and proxies), what a fetch
  and \<open>preserveFailedSources\<close> guarantee, and that an import keeps the invariant, the binding of every node it carries over, and
  the nodes of sources that could not be fetched.
\<close>

section \<open>Maps by key\<close>

lemma last_by_snoc: "last_by key (xs @ [x]) = (last_by key xs)(key x \<mapsto> x)"
  by (simp add: last_by_def)

lemma last_by_Some: "last_by key xs k = Some x \<Longrightarrow> x \<in> set xs \<and> key x = k"
proof (induction xs rule: rev_induct)
  case (snoc y ys)
  then show ?case by (auto simp: last_by_snoc split: if_splits)
qed (simp add: last_by_def)

lemma last_by_None: "last_by key xs k = None \<longleftrightarrow> k \<notin> key ` set xs"
proof (induction xs rule: rev_induct)
  case (snoc y ys)
  then show ?case by (auto simp: last_by_snoc)
qed (simp add: last_by_def)

lemma last_by_distinct:
  assumes "distinct (map key xs)" "x \<in> set xs"
  shows "last_by key xs (key x) = Some x"
proof (cases "last_by key xs (key x)")
  case None
  with assms(2) show ?thesis by (simp add: last_by_None)
next
  case (Some y)
  from last_by_Some [OF this] assms show ?thesis using Some by (metis distinct_map inj_onD)
qed

section \<open>Identities\<close>

definition nul :: char where "nul = char_of (0 :: nat)"

lemma key_source:
  assumes "nodeKey m = nodeKey n" "nul \<notin> set (nd_source_id m)" "nul \<notin> set (nd_source_id n)"
  shows "nd_source_id m = nd_source_id n \<and> nd_original_name m = nd_original_name n"
proof -
  have "takeWhile (\<lambda>c. c \<noteq> nul) (nodeKey x) = nd_source_id x" if "nul \<notin> set (nd_source_id x)" for x :: clash_node
    using that unfolding nodeKey_def by (subst takeWhile_append2) (auto simp: nul_def)
  with assms have "nd_source_id m = nd_source_id n" by metis
  with assms(1) show ?thesis by (simp add: nodeKey_def)
qed

text \<open>The stored pool: every node enabled and identified, and no two share a name, an identity, a port or a proxy.\<close>

definition pool_ok :: "clash_node list \<Rightarrow> bool" where
  "pool_ok ns \<longleftrightarrow>
     distinct (map nd_name ns) \<and> distinct (map nodeKey ns) \<and> distinct (map nd_port ns) \<and> distinct (map nd_proxy_id ns) \<and>
     (\<forall>n \<in> set ns. nd_enabled n \<and> nd_source_id n \<noteq> [] \<and> nul \<notin> set (nd_source_id n) \<and> nd_original_name n \<noteq> [])"

text \<open>Source ids are the hexadecimal digest of the URL: not empty, without a null byte, and here without collisions.\<close>

definition digests_ok :: "fetch_env \<Rightarrow> string list \<Rightarrow> bool" where
  "digests_ok env urls \<longleftrightarrow>
     inj_on (fe_sid env) (set urls) \<and> (\<forall>u \<in> set urls. fe_sid env u \<noteq> [] \<and> nul \<notin> set (fe_sid env u))"

lemma normalize_node_identified:
  "nd_source_id n \<noteq> [] \<Longrightarrow> nd_original_name n \<noteq> [] \<Longrightarrow> normalize_node urls srcs n = n"
  by (simp add: normalize_node_def)

lemma normalize_node_fields [simp]:
  "nd_name (normalize_node urls srcs n) = nd_name n" "nd_proxy_id (normalize_node urls srcs n) = nd_proxy_id n"
  "nd_port (normalize_node urls srcs n) = nd_port n" "nd_password (normalize_node urls srcs n) = nd_password n"
  "nd_enabled (normalize_node urls srcs n) = nd_enabled n"
  by (simp_all add: normalize_node_def Let_def)

lemma normalize_pool: "pool_ok ns \<Longrightarrow> map (normalize_node urls srcs) ns = ns"
  by (rule map_idI) (auto simp: pool_ok_def normalize_node_identified)

lemma normalize_state_pool:
  "pool_ok (cs_nodes s) \<Longrightarrow> cs_nodes (normalize_state sid hint s) = cs_nodes s"
  by (simp add: normalize_state_def Let_def normalize_pool)

lemma normalize_state_fields [simp]:
  "cs_revision (normalize_state sid hint s) = cs_revision s" "cs_url (normalize_state sid hint s) = cs_url s"
  by (simp_all add: normalize_state_def Let_def)

section \<open>What a fetch yields\<close>

lemma node_name_nonempty: "node_ok n \<Longrightarrow> nd_name n \<noteq> []"
  by (simp add: node_ok_def)

lemma fetchFeed_result:
  assumes "fetchFeed env now raw i response = (nodes, src)"
  shows "src_id src = fe_sid env raw"
    and "nodes \<noteq> [] \<Longrightarrow> src_fetch_error src = []"
    and "distinct (map nd_original_name nodes)"
    and "n \<in> set nodes \<Longrightarrow> nd_source_id n = fe_sid env raw \<and> nd_original_name n \<noteq> []"
proof -
  have "src_id src = fe_sid env raw \<and> (nodes \<noteq> [] \<longrightarrow> src_fetch_error src = []) \<and>
     (nodes = [] \<or> (\<exists>parsed. distinct (map nd_name parsed) \<and> (\<forall>n \<in> set parsed. nd_name n \<noteq> []) \<and>
        nodes = map (\<lambda>n. n\<lparr>nd_source_id := fe_sid env raw, nd_original_name := nd_name n\<rparr>) parsed))"
  proof (cases response)
    case (Answer status header body)
    show ?thesis
    proof (cases "\<exists>b parsed. body = Some b \<and> parseSubscription (fe_yaml env) (fe_url env) (take (Suc maxBody) b) = Inr parsed")
      case True
      then obtain b parsed where b: "body = Some b"
        and parsed: "parseSubscription (fe_yaml env) (fe_url env) (take (Suc maxBody) b) = Inr parsed" by blast
      obtain cfgs where "normalizeProxyConfigs cfgs = Inr parsed"
        using parsed by (auto simp: parseSubscription_def split: if_splits option.splits list.splits sum.splits)
      from normalized_nodes(2,3) [OF this]
      have ok: "distinct (map nd_name parsed)" "\<forall>n \<in> set parsed. nd_name n \<noteq> []" by (blast dest: node_name_nonempty)+
      show ?thesis using assms ok
        by (auto simp: fetchFeed_def Answer b parsed Let_def zero_source_def split: if_splits)
    next
      case False
      with assms show ?thesis
        by (auto simp: fetchFeed_def Answer Let_def split: if_splits option.splits sum.splits)
    qed
  qed (use assms in \<open>auto simp: fetchFeed_def Let_def split: if_splits\<close>)
  then show "src_id src = fe_sid env raw" "nodes \<noteq> [] \<Longrightarrow> src_fetch_error src = []"
    "distinct (map nd_original_name nodes)"
    "n \<in> set nodes \<Longrightarrow> nd_source_id n = fe_sid env raw \<and> nd_original_name n \<noteq> []"
    by (auto simp: comp_def)
qed

lemma rename_fields [simp]:
  "nd_name (rename name n) = name" "nd_source_id (rename name n) = nd_source_id n"
  "nd_original_name (rename name n) = nd_original_name n" "nodeKey (rename name n) = nodeKey n"
  "nd_proxy_id (rename name n) = nd_proxy_id n" "nd_port (rename name n) = nd_port n"
  "nd_password (rename name n) = nd_password n" "nd_enabled (rename name n) = nd_enabled n"
  by (simp_all add: rename_def nodeKey_def)

text \<open>One feed of a batch.\<close>

lemma fetch_one_result:
  assumes "fetch_one env answers several (i, u) = (nodes, src)"
  shows "src_id src = fe_sid env u"
    and "nodes \<noteq> [] \<Longrightarrow> src_fetch_error src = []"
    and "distinct (map nd_original_name nodes)"
    and "n \<in> set nodes \<Longrightarrow> nd_source_id n = fe_sid env u \<and> nd_original_name n \<noteq> []"
proof -
  have "src_id src = fe_sid env u \<and> (nodes \<noteq> [] \<longrightarrow> src_fetch_error src = []) \<and>
     distinct (map nd_original_name nodes) \<and> (\<forall>n \<in> set nodes. nd_source_id n = fe_sid env u \<and> nd_original_name n \<noteq> [])"
  proof (cases "answers i")
    case None
    with assms show ?thesis by (auto simp: fetch_one_def)
  next
    case (Some answer)
    obtain now response where answer: "answer = (now, response)" by (cases answer)
    obtain found s where f: "fetchFeed env now u i response = (found, s)" by (cases "fetchFeed env now u i response")
    have "src = s \<and> (nodes = found \<or> nodes = map (\<lambda>n. rename (feed_name i (nd_name n)) n) found)"
      using assms by (auto simp: fetch_one_def Some answer f split: if_splits)
    with fetchFeed_result [OF f] show ?thesis by (auto simp: comp_def)
  qed
  then show "src_id src = fe_sid env u" "nodes \<noteq> [] \<Longrightarrow> src_fetch_error src = []"
    "distinct (map nd_original_name nodes)" "n \<in> set nodes \<Longrightarrow> nd_source_id n = fe_sid env u \<and> nd_original_name n \<noteq> []"
    by auto
qed


definition failed_ids :: "source list \<Rightarrow> string set" where
  "failed_ids sources = set (map src_id (filter (\<lambda>s. src_fetch_error s \<noteq> []) sources))"

text \<open>The nodes of a batch: identified, told apart by their identity, and from feeds that did not fail.\<close>

definition found_ok :: "clash_node list \<Rightarrow> source list \<Rightarrow> bool" where
  "found_ok found sources \<longleftrightarrow>
     distinct (map nodeKey found) \<and> distinct (map src_id sources) \<and>
     (\<forall>n \<in> set found. nd_source_id n \<noteq> [] \<and> nul \<notin> set (nd_source_id n) \<and> nd_original_name n \<noteq> [] \<and>
        nd_source_id n \<in> src_id ` set sources \<and> nd_source_id n \<notin> failed_ids sources)"

lemma distinct_keys:
  assumes "distinct (map nd_original_name nodes)" "\<And>n. n \<in> set nodes \<Longrightarrow> nd_source_id n = i"
  shows "distinct (map nodeKey nodes)"
proof -
  have "inj_on nodeKey (set nodes)"
    using assms by (auto simp: inj_on_def nodeKey_def distinct_map)
  moreover have "distinct nodes" using assms(1) by (simp add: distinct_map)
  ultimately show ?thesis by (simp add: distinct_map)
qed

lemma first_seen_distinct: "distinct (first_seen seen us) \<and> set (first_seen seen us) \<inter> set seen = {}"
  by (induction seen us rule: first_seen.induct) auto

lemma subscriptionURLs_distinct: "subscriptionURLs raw = Inr urls \<Longrightarrow> distinct urls"
  using first_seen_distinct by (auto simp: subscriptionURLs_def Let_def split: if_splits)

lemma found_ok_add:
  assumes IH: "found_ok found sources"
    and one: "distinct (map nd_original_name nodes)" "\<And>n. n \<in> set nodes \<Longrightarrow> nd_source_id n = src_id src \<and> nd_original_name n \<noteq> []"
      "nodes \<noteq> [] \<Longrightarrow> src_fetch_error src = []"
    and new: "src_id src \<notin> src_id ` set sources" "src_id src \<noteq> []" "nul \<notin> set (src_id src)"
  shows "found_ok (nodes @ found) (src # sources)"
proof -
  have known: "nd_source_id n \<in> src_id ` set sources" "nul \<notin> set (nd_source_id n)" if "n \<in> set found" for n
    using IH that unfolding found_ok_def by blast+
  have "nodeKey m \<noteq> nodeKey n" if "m \<in> set nodes" "n \<in> set found" for m n
    using key_source [of m n] one(2) [OF that(1)] known [OF that(2)] new by auto
  moreover have "distinct (map nodeKey nodes)" by (rule distinct_keys [OF one(1)]) (use one(2) in auto)
  moreover have "nd_source_id n \<noteq> src_id src" if "n \<in> set found" for n using known(1) [OF that] new(1) by auto
  moreover have "src_id src \<notin> failed_ids (src # sources)" if "n \<in> set nodes" for n
  proof -
    from that have "src_fetch_error src = []" by (intro one(3)) auto
    with new(1) show ?thesis by (auto simp: failed_ids_def)
  qed
  moreover have "failed_ids (src # sources) \<subseteq> insert (src_id src) (failed_ids sources)" by (auto simp: failed_ids_def)
  ultimately show ?thesis
    using IH one(2) new unfolding found_ok_def by (auto simp: image_iff)
qed

lemma batch_ok:
  assumes "digests_ok env (map snd jobs)" "distinct (map snd jobs)"
  shows "found_ok (concat (map (\<lambda>j. fst (fetch_one env answers several j)) jobs))
           (map (\<lambda>j. snd (fetch_one env answers several j)) jobs)"
  using assms
proof (induction jobs)
  case (Cons job jobs)
  obtain i u where job: "job = (i, u)" by (cases job)
  obtain nodes src where f: "fetch_one env answers several (i, u) = (nodes, src)" by fastforce
  note one = fetch_one_result [OF f]
  have digests: "digests_ok env (map snd jobs)" and new: "fe_sid env u \<notin> fe_sid env ` set (map snd jobs)"
    and u: "fe_sid env u \<noteq> []" "nul \<notin> set (fe_sid env u)"
    using Cons.prems by (auto simp: digests_ok_def job inj_on_def)
  have "src_id (snd (fetch_one env answers several j)) = fe_sid env (snd j)" for j
    by (metis fetch_one_result(1) surjective_pairing)
  with new have "src_id src \<notin> src_id ` set (map (\<lambda>j. snd (fetch_one env answers several j)) jobs)"
    by (simp add: one(1) image_image)
  moreover have "found_ok (concat (map (\<lambda>j. fst (fetch_one env answers several j)) jobs))
      (map (\<lambda>j. snd (fetch_one env answers several j)) jobs)"
    using Cons.IH [OF digests] Cons.prems by simp
  ultimately have "found_ok (nodes @ concat (map (\<lambda>j. fst (fetch_one env answers several j)) jobs))
      (src # map (\<lambda>j. snd (fetch_one env answers several j)) jobs)"
    using one u by (intro found_ok_add) auto
  then show ?case by (simp add: job f)
qed (simp add: found_ok_def)

lemma fetched_ok:
  assumes "fetchSubscriptionDetails env answers raw = Inr (found, sources)"
    and "\<And>urls. subscriptionURLs raw = Inr urls \<Longrightarrow> digests_ok env urls"
  shows "found_ok found sources"
proof -
  from assms(1) obtain urls where urls: "subscriptionURLs raw = Inr urls"
    and r: "found = concat (map (\<lambda>j. fst (fetch_one env answers (length urls > 1) j)) (enumerate 1 urls))"
      "sources = map (\<lambda>j. snd (fetch_one env answers (length urls > 1) j)) (enumerate 1 urls)"
    by (auto simp: fetchSubscriptionDetails_def Let_def comp_def split: sum.splits)
  have "map snd (enumerate 1 urls) = urls" by simp
  then show ?thesis
    using batch_ok [of env "enumerate 1 urls" answers "length urls > 1"] assms(2) [OF urls] subscriptionURLs_distinct [OF urls]
    unfolding r by simp
qed

section \<open>Names\<close>

lemma free_name_fresh: "free_name used n k \<notin> set used"
  by (induction used n k rule: free_name.induct) (simp add: free_name.simps)

lemma assign_names_keys [simp]:
  "map nodeKey (assign_names known used ns) = map nodeKey ns"
  "map nd_source_id (assign_names known used ns) = map nd_source_id ns"
  "map nd_original_name (assign_names known used ns) = map nd_original_name ns"
  by (induction known used ns rule: assign_names.induct) (simp_all add: Let_def)

lemma assign_names_known:
  "m \<in> set (assign_names known used ns) \<Longrightarrow> known (nodeKey m) \<Longrightarrow> \<exists>n \<in> set ns. m = rename (nd_name n) n"
proof (induction known used ns rule: assign_names.induct)
  case (2 known used n ns)
  then show ?case by (cases "known (nodeKey n)") (auto simp: Let_def)
qed simp

lemma assign_names_distinct:
  assumes "distinct (map nd_name (filter (\<lambda>n. known (nodeKey n)) ns))"
    and "\<forall>n \<in> set ns. known (nodeKey n) \<longrightarrow> nd_name n \<in> set used"
  shows "distinct (map nd_name (assign_names known used ns)) \<and>
     (\<forall>x \<in> set used. x \<in> nd_name ` set (assign_names known used ns) \<longrightarrow> x \<in> nd_name ` set (filter (\<lambda>n. known (nodeKey n)) ns))"
  using assms
proof (induction known used ns rule: assign_names.induct)
  case (2 known used n ns)
  show ?case
  proof (cases "known (nodeKey n)")
    case True
    with 2 show ?thesis by auto
  next
    case False
    let ?name = "free_name used n 0"
    have fresh: "?name \<notin> set used" by (rule free_name_fresh)
    have prems: "distinct (map nd_name (filter (\<lambda>n. known (nodeKey n)) ns))"
      "\<forall>m \<in> set ns. known (nodeKey m) \<longrightarrow> nd_name m \<in> set (?name # used)"
      using 2(3,4) False by auto
    note IH = 2(2) [OF False refl prems]
    from 2(4) fresh have "?name \<notin> nd_name ` set (filter (\<lambda>n. known (nodeKey n)) ns)" by auto
    with IH have "?name \<notin> nd_name ` set (assign_names known (?name # used) ns)" by auto
    with IH fresh False show ?thesis by (auto simp: Let_def)
  qed
qed simp


section \<open>Fetched nodes among the stored ones\<close>

text \<open>What \<open>preserveFailedSources\<close> makes of the nodes of a batch and a stored pool: the nodes of the batch and the enabled nodes of
  failed sources, each with its identity; different names; and for a stored identity the stored name.\<close>

lemma preserve_spec:
  assumes pool: "pool_ok (cs_nodes (normalize_state (fe_sid env) (fe_hint env) previous))"
    and found: "found_ok found sources"
    and r: "preserveFailedSources env previous found sources = (ns, retained)"
  defines "stored \<equiv> cs_nodes (normalize_state (fe_sid env) (fe_hint env) previous)"
  defines "kept \<equiv> filter (\<lambda>n. nd_source_id n \<in> failed_ids sources) stored"
  shows "map nodeKey ns = map nodeKey (found @ kept)" "distinct (map nodeKey ns)" "distinct (map nd_name ns)"
    and "map nd_source_id ns = map nd_source_id (found @ kept)" "map nd_original_name ns = map nd_original_name (found @ kept)"
    and "retained = map nd_name kept"
    and "m \<in> set ns \<Longrightarrow> o' \<in> set stored \<Longrightarrow> nodeKey m = nodeKey o' \<Longrightarrow> nd_name m = nd_name o'"
proof -
  define existing where "existing = last_by nodeKey stored"
  define known where "known = (\<lambda>key. existing key \<noteq> None)"
  define put where "put = stored_name existing"
  define named where "named = map put (found @ kept)"
  define used where "used = List.map_filter (\<lambda>n. map_option nd_name (existing (nodeKey n))) (found @ kept)"
  have kept_filter: "filter (\<lambda>n. nd_source_id n \<in> failed_ids sources \<and> nd_enabled n) stored = kept"
    using pool unfolding kept_def stored_def [symmetric] pool_ok_def by (intro filter_cong) auto
  from r have ns: "ns = assign_names known used named" and retained: "retained = map nd_name kept"
    unfolding preserveFailedSources_def Let_def stored_def [symmetric] failed_ids_def [symmetric] kept_filter prod.inject
      existing_def [symmetric] put_def [symmetric] named_def [symmetric] used_def [symmetric] known_def [symmetric]
    by simp_all
  have put [simp]: "nodeKey (put n) = nodeKey n" "nd_source_id (put n) = nd_source_id n"
    "nd_original_name (put n) = nd_original_name n" for n
    by (auto simp: put_def stored_name_def nodeKey_def split: option.split)
  have stored: "distinct (map nodeKey stored)" "distinct (map nd_name stored)" using pool by (simp_all add: pool_ok_def stored_def)
  have apart: "nodeKey m \<noteq> nodeKey n" if "m \<in> set found" "n \<in> set kept" for m n
    using key_source [of m n] found pool that unfolding found_ok_def pool_ok_def kept_def stored_def [symmetric] by auto
  have keys: "distinct (map nodeKey (found @ kept))"
    using found stored(1) apart unfolding found_ok_def kept_def by (auto simp: distinct_map_filter)
  show "retained = map nd_name kept" by (rule retained)
  show eq: "map nodeKey ns = map nodeKey (found @ kept)" by (simp add: ns named_def comp_def)
  with keys show "distinct (map nodeKey ns)" by simp
  show "map nd_source_id ns = map nd_source_id (found @ kept)" "map nd_original_name ns = map nd_original_name (found @ kept)"
    by (simp_all add: ns named_def comp_def)
  have name_known: "\<exists>old \<in> set stored. existing (nodeKey n) = Some old \<and> nodeKey n = nodeKey old \<and> nd_name (put n) = nd_name old"
    if "known (nodeKey n)" for n
    using that last_by_Some [of nodeKey stored "nodeKey n"] by (auto simp: known_def existing_def put_def stored_name_def)
  have origin: "\<exists>a. a \<in> set (found @ kept) \<and> z = put a \<and> known (nodeKey a)"
    if "z \<in> set (filter (\<lambda>n. known (nodeKey n)) named)" for z
    using that unfolding named_def by auto
  have "inj_on nd_name (set (filter (\<lambda>n. known (nodeKey n)) named))"
  proof (rule inj_onI)
    fix x y assume xy: "x \<in> set (filter (\<lambda>n. known (nodeKey n)) named)" "y \<in> set (filter (\<lambda>n. known (nodeKey n)) named)"
      and same: "nd_name x = nd_name y"
    obtain a b where ab: "a \<in> set (found @ kept)" "x = put a" "b \<in> set (found @ kept)" "y = put b"
      "known (nodeKey a)" "known (nodeKey b)" using origin [OF xy(1)] origin [OF xy(2)] by blast
    obtain p q where "p \<in> set stored" "q \<in> set stored" "nodeKey a = nodeKey p" "nodeKey b = nodeKey q"
      "nd_name x = nd_name p" "nd_name y = nd_name q"
      using name_known [OF ab(5)] name_known [OF ab(6)] ab by blast
    with same stored(2) have "nodeKey a = nodeKey b" by (metis distinct_map inj_onD)
    with keys ab have "a = b" by (metis distinct_map inj_onD)
    with ab show "x = y" by simp
  qed
  moreover have "map nodeKey named = map nodeKey (found @ kept)" by (simp add: named_def comp_def)
  then have "distinct named" using keys by (metis distinct_map)
  ultimately have dist: "distinct (map nd_name (filter (\<lambda>n. known (nodeKey n)) named))" by (simp add: distinct_map)
  have mem: "\<forall>n \<in> set named. known (nodeKey n) \<longrightarrow> nd_name n \<in> set used"
  proof (intro ballI impI)
    fix n assume "n \<in> set named" "known (nodeKey n)"
    then obtain a where a: "a \<in> set (found @ kept)" "n = put a" "known (nodeKey a)" using origin [of n] by auto
    from name_known [OF a(3)] a show "nd_name n \<in> set used" by (force simp: used_def map_filter_def)
  qed
  from assign_names_distinct [OF dist mem] show "distinct (map nd_name ns)" by (simp add: ns)
  show "nd_name m = nd_name o'" if m: "m \<in> set ns" "o' \<in> set stored" "nodeKey m = nodeKey o'"
  proof -
    have ex: "existing (nodeKey o') = Some o'" unfolding existing_def by (rule last_by_distinct) (use stored m in auto)
    with m have "known (nodeKey m)" by (simp add: known_def)
    from assign_names_known [OF m(1) [unfolded ns] this] obtain n where n: "n \<in> set named" "m = rename (nd_name n) n" by blast
    then obtain a where a: "n = put a" by (auto simp: named_def)
    have "nodeKey a = nodeKey o'" using m(3) unfolding n(2) rename_fields a put .
    with ex have "put a = a\<lparr>nd_name := nd_name o'\<rparr>" by (simp add: put_def stored_name_def)
    with n(2) a show ?thesis by simp
  qed
qed


section \<open>Binding\<close>

lemma free_port_free: "free_port used p \<notin> set used \<and> p \<le> free_port used p"
proof (induction used p rule: free_port.induct)
  case (1 used p)
  then show ?case by (cases "p \<in> set used") (auto simp: free_port.simps [of used p])
qed

text \<open>A bound node: the binding of the stored node of its name, or a port that no node had, in the range of the manager, a fresh
  proxy id, and a row for it.\<close>

definition same_binding :: "clash_node \<Rightarrow> clash_node \<Rightarrow> bool" where
  "same_binding n o' \<longleftrightarrow> nd_proxy_id n = nd_proxy_id o' \<and> nd_port n = nd_port o' \<and> nd_password n = nd_password o'"

definition placed ::
    "clash_manager \<Rightarrow> gotime \<Rightarrow> (string \<rightharpoonup> clash_node) \<Rightarrow> bind_state \<Rightarrow> bind_state \<Rightarrow> clash_node \<Rightarrow> bool" where
  "placed m now old b b' n \<longleftrightarrow>
     nd_enabled n \<and>
     (case old (nd_name n) of
        Some o' \<Rightarrow> same_binding n o'
      | None \<Rightarrow> nd_port n \<notin> set (bs_used b) \<and> bs_port b \<le> nd_port n \<and> nd_port n \<le> min (mg_port_start m + 4095) 65535 \<and>
          bs_next_id b \<le> nd_proxy_id n \<and> nd_proxy_id n < bs_next_id b' \<and>
          new_proxy m now (nd_proxy_id n) (nd_port n) (nd_password n) \<in> set (bs_rows b'))"

definition grows :: "bind_state \<Rightarrow> bind_state \<Rightarrow> bool" where
  "grows b b' \<longleftrightarrow> set (bs_used b) \<subseteq> set (bs_used b') \<and> bs_port b \<le> bs_port b' \<and> bs_next_id b \<le> bs_next_id b' \<and>
     (\<exists>rows. bs_rows b' = bs_rows b @ rows \<and> distinct (map px_id rows) \<and>
        (\<forall>r \<in> set rows. bs_next_id b \<le> px_id r \<and> px_id r < bs_next_id b' \<and> \<not> px_deleted r))"

lemma grows_refl [simp]: "grows b b"
  by (auto simp: grows_def)

lemma grows_trans:
  assumes "grows a b" "grows b c"
  shows "grows a c"
proof -
  from assms obtain r1 r2 where
    "bs_rows b = bs_rows a @ r1" "distinct (map px_id r1)" "\<forall>r \<in> set r1. bs_next_id a \<le> px_id r \<and> px_id r < bs_next_id b \<and> \<not> px_deleted r"
    "bs_rows c = bs_rows b @ r2" "distinct (map px_id r2)" "\<forall>r \<in> set r2. bs_next_id b \<le> px_id r \<and> px_id r < bs_next_id c \<and> \<not> px_deleted r"
    by (auto simp: grows_def)
  with assms show ?thesis
    unfolding grows_def by (auto intro!: exI [of _ "r1 @ r2"] simp: disjoint_iff image_iff) fastforce+
qed

lemma placed_earlier: "placed m now old b' b'' n \<Longrightarrow> grows b b' \<Longrightarrow> placed m now old b b'' n"
  by (auto simp: placed_def grows_def split: option.splits)

lemma placed_later: "placed m now old b b' n \<Longrightarrow> grows b' b'' \<Longrightarrow> placed m now old b b'' n"
  by (auto simp: placed_def grows_def split: option.splits)

text \<open>What binding leaves alone.\<close>

definition same_node :: "clash_node \<Rightarrow> clash_node \<Rightarrow> bool" where
  "same_node n n' \<longleftrightarrow> nd_name n' = nd_name n \<and> nd_source_id n' = nd_source_id n \<and> nd_original_name n' = nd_original_name n \<and>
     nd_type n' = nd_type n \<and> nd_config n' = nd_config n"

text \<open>One selected node.\<close>

lemma bind_nodes_selected:
  assumes "bind_nodes m now rand old selected b (n # ns) = Inr (bound, b'')" "nd_name n \<in> set selected"
  obtains n' b' rest where "bound = n' # rest" "bind_nodes m now rand old selected b' ns = Inr (rest, b'')"
    "same_node n n'" "placed m now old b b' n'" "grows b b'"
    "old (nd_name n) = None \<longrightarrow> nd_port n' \<in> set (bs_used b') \<and> nd_proxy_id n' < bs_next_id b'"
proof (cases "old (nd_name n)")
  case (Some o')
  let ?n = "n\<lparr>nd_proxy_id := nd_proxy_id o', nd_port := nd_port o', nd_password := nd_password o', nd_enabled := True\<rparr>"
  from assms Some obtain rest where "bound = ?n # rest" "bind_nodes m now rand old selected b ns = Inr (rest, b'')"
    by (auto split: sum.splits)
  then show thesis
    by (rule that) (auto simp: same_node_def placed_def same_binding_def Some)
next
  case None
  define port where "port = free_port (bs_used b) (bs_port b)"
  have port: "port \<notin> set (bs_used b)" "bs_port b \<le> port" using free_port_free port_def by blast+
  from assms None obtain password rest where limit: "port \<le> min (mg_port_start m + 4095) 65535" and
    r: "bound = n\<lparr>nd_proxy_id := bs_next_id b, nd_port := port, nd_password := password, nd_enabled := True\<rparr> # rest"
      "bind_nodes m now rand old selected \<lparr>bs_port = port, bs_used = port # bs_used b, bs_next_id = bs_next_id b + 1,
         bs_rows = bs_rows b @ [new_proxy m now (bs_next_id b) port password]\<rparr> ns = Inr (rest, b'')"
    unfolding bind_nodes.simps Let_def port_def [symmetric] by (auto simp: not_less split: sum.splits if_splits option.splits)
  show thesis
    by (rule that [OF r]) (use port limit in \<open>auto simp: same_node_def placed_def None grows_def new_proxy_def\<close>)
qed

lemma list_all2_mem: "list_all2 P xs ys \<Longrightarrow> y \<in> set ys \<Longrightarrow> \<exists>x \<in> set xs. P x y"
  by (induction rule: list_all2_induct) auto

lemma bind_nodes_spec:
  assumes "bind_nodes m now rand old selected b ns = Inr (bound, b')" "distinct (map nd_name ns)"
    and "\<And>k o'. old k = Some o' \<Longrightarrow> nd_port o' \<in> set (bs_used b) \<and> nd_proxy_id o' < bs_next_id b"
    and "\<And>k k' o' p. old k = Some o' \<Longrightarrow> old k' = Some p \<Longrightarrow> k \<noteq> k' \<Longrightarrow> nd_port o' \<noteq> nd_port p \<and> nd_proxy_id o' \<noteq> nd_proxy_id p"
  shows "list_all2 same_node (filter (\<lambda>n. nd_name n \<in> set selected) ns) bound \<and> grows b b' \<and>
    (\<forall>n \<in> set bound. placed m now old b b' n) \<and> distinct (map nd_port bound) \<and> distinct (map nd_proxy_id bound)"
  using assms(1-3)
proof (induction ns arbitrary: b bound)
  case (Cons n ns)
  show ?case
  proof (cases "nd_name n \<in> set selected")
    case False
    with Cons show ?thesis by simp
  next
    case True
    from Cons.prems(1) this obtain n' b1 rest where
      r: "bound = n' # rest" "bind_nodes m now rand old selected b1 ns = Inr (rest, b')"
      and n': "same_node n n'" "placed m now old b b1 n'" and g: "grows b b1"
      and new: "old (nd_name n) = None \<longrightarrow> nd_port n' \<in> set (bs_used b1) \<and> nd_proxy_id n' < bs_next_id b1"
      by (rule bind_nodes_selected)
    have olds: "nd_port o' \<in> set (bs_used b1) \<and> nd_proxy_id o' < bs_next_id b1" if "old k = Some o'" for k o'
      using Cons.prems(3) [OF that] g by (auto simp: grows_def)
    from Cons.IH [OF r(2) _ olds] Cons.prems(2) have
      IH: "list_all2 same_node (filter (\<lambda>n. nd_name n \<in> set selected) ns) rest" "grows b1 b'"
        "\<forall>n \<in> set rest. placed m now old b1 b' n" "distinct (map nd_port rest)" "distinct (map nd_proxy_id rest)"
      by simp_all
    have names: "nd_name x \<noteq> nd_name n" if "x \<in> set rest" for x
    proof -
      from list_all2_mem [OF IH(1) that] obtain y where "y \<in> set ns" "same_node y x" by auto
      with Cons.prems(2) show ?thesis by (force simp: same_node_def)
    qed
    have apart: "nd_port x \<noteq> nd_port n' \<and> nd_proxy_id x \<noteq> nd_proxy_id n'" if "x \<in> set rest" for x
    proof -
      have x: "placed m now old b1 b' x" using IH(3) that by blast
      have name: "nd_name n' = nd_name n" using n'(1) by (simp add: same_node_def)
      show ?thesis
      proof (cases "old (nd_name n)")
        case None
        then have own: "nd_port n' \<in> set (bs_used b1)" "nd_proxy_id n' < bs_next_id b1"
          "nd_port n' \<notin> set (bs_used b)" "bs_next_id b \<le> nd_proxy_id n'"
          using new n'(2) name by (auto simp: placed_def)
        show ?thesis
        proof (cases "old (nd_name x)")
          case None
          with x own show ?thesis by (auto simp: placed_def)
        next
          case (Some p)
          with x Cons.prems(3) [OF Some] own show ?thesis by (auto simp: placed_def same_binding_def)
        qed
      next
        case (Some o')
        then have own: "same_binding n' o'" using n'(2) name by (simp add: placed_def)
        show ?thesis
        proof (cases "old (nd_name x)")
          case None
          with x own olds [OF Some] show ?thesis by (auto simp: placed_def same_binding_def)
        next
          case (Some p)
          with x own assms(4) [OF Some \<open>old (nd_name n) = Some o'\<close> names [OF that]] show ?thesis
            by (auto simp: placed_def same_binding_def)
        qed
      qed
    qed
    have "\<forall>x \<in> set rest. placed m now old b b' x" using IH(3) placed_earlier [OF _ g] by blast
    moreover have "placed m now old b b' n'" by (rule placed_later [OF n'(2) IH(2)])
    moreover have "nd_port n' \<notin> nd_port ` set rest" "nd_proxy_id n' \<notin> nd_proxy_id ` set rest"
      using apart by force+
    ultimately show ?thesis
      using True IH n'(1) grows_trans [OF g IH(2)] by (simp add: r(1))
  qed
qed simp


section \<open>The tables after an import\<close>

definition proxy_row_of :: "clash_manager \<Rightarrow> clash_node \<Rightarrow> proxy_def \<Rightarrow> bool" where
  "proxy_row_of m n p \<longleftrightarrow> px_id p = nd_proxy_id n \<and> \<not> px_deleted p \<and> px_protocol p = ''http'' \<and> px_host p = mg_host m \<and>
     px_username p = ''clash'' \<and> px_port p = nd_port n \<and> px_password p = nd_password n"

text \<open>Every node has its row, ids are unique and below the sequence, and no account refers to a row that is not there.\<close>

definition tables_ok :: "clash_manager \<Rightarrow> clash_node list \<Rightarrow> clash_db \<Rightarrow> bool" where
  "tables_ok m ns db \<longleftrightarrow>
     distinct (map px_id (st_proxies (ck_store db))) \<and>
     (\<forall>p \<in> set (st_proxies (ck_store db)). px_id p < ck_next_proxy db) \<and>
     (\<forall>n \<in> set ns. \<exists>p \<in> set (st_proxies (ck_store db)). proxy_row_of m n p) \<and>
     (\<forall>a \<in> set (st_accounts (ck_store db)). \<forall>i. ar_proxy_id a = Some i \<longrightarrow> i \<in> px_id ` set (st_proxies (ck_store db)))"

lemma notifyAccounts_fields [simp]:
  "st_proxies (notifyAccounts ids st) = st_proxies st" "st_accounts (notifyAccounts ids st) = st_accounts st"
  "st_failover (notifyAccounts ids st) = st_failover st" "st_health (notifyAccounts ids st) = st_health st"
  "st_outbox (notifyAccounts ids st) = st_outbox st @ allocationOutbox ids"
  by (simp_all add: notifyAccounts_def)

lemma detach_nothing: "map (detach_row []) rows = rows"
  by (rule map_idI) (auto simp: detach_row_def member_opt_def Let_def split: option.splits)

lemma retire_nothing: "retire_policies [] rows = rows"
  unfolding retire_policies_def by (induction rows) (auto simp: list_ex_iff)

lemma retireProxies_fields:
  "ck_next_proxy (retireProxies ids db) = ck_next_proxy db" "ck_doc (retireProxies ids db) = ck_doc db"
  "st_proxies (ck_store (retireProxies ids db)) = filter (\<lambda>p. px_id p \<notin> set ids) (st_proxies (ck_store db))"
  "st_accounts (ck_store (retireProxies ids db)) = map (detach_row ids) (st_accounts (ck_store db))"
  "st_failover (ck_store (retireProxies ids db)) = retire_policies ids (st_failover (ck_store db))"
  by (simp_all add: retireProxies_def Let_def delete_proxies_def detach_nothing retire_nothing)

lemma forget_probes_fields [simp]:
  "st_proxies (ck_store (forget_probes ids db)) = st_proxies (ck_store db)"
  "st_accounts (ck_store (forget_probes ids db)) = st_accounts (ck_store db)"
  "st_failover (ck_store (forget_probes ids db)) = st_failover (ck_store db)"
  "ck_next_proxy (forget_probes ids db) = ck_next_proxy db" "ck_doc (forget_probes ids db) = ck_doc db"
  by (simp_all add: forget_probes_def Let_def)

lemma import_tx_result:
  assumes "import_tx env m now rand revision plan db = Inr db'"
  defines "nodes \<equiv> cs_nodes (normalize_state (fe_sid env) (fe_hint env) (ck_doc db))"
  obtains bound b rows where
    "bind_nodes m now rand (carried plan nodes) (ip_selected plan)
       \<lparr>bs_port = mg_port_start m, bs_used = map nd_port nodes, bs_next_id = ck_next_proxy db, bs_rows = []\<rparr> (ip_fetched plan) =
     Inr (bound, b)"
    "activate_all now (map nd_proxy_id (filter nd_enabled (filter (parked (ip_sources plan)) nodes @ bound)))
       (filter (\<lambda>p. px_id p \<notin> set (retired_ids plan nodes)) (st_proxies (ck_store db)) @ bs_rows b) = Some rows"
    "cs_nodes (ck_doc db') = filter (parked (ip_sources plan)) nodes @ bound" "cs_revision (ck_doc db) = revision"
    "cs_revision (ck_doc db') = revision + 1" "st_proxies (ck_store db') = rows"
    "st_accounts (ck_store db') = map (detach_row (retired_ids plan nodes)) (st_accounts (ck_store db))"
    "st_failover (ck_store db') = retire_policies (retired_ids plan nodes) (st_failover (ck_store db))"
    "ck_next_proxy db' = bs_next_id b"
proof -
  note tx = assms(1) [unfolded import_tx_def Let_def, folded nodes_def, unfolded retireProxies_fields normalize_state_fields]
  from tx have rev: "cs_revision (ck_doc db) = revision" by (simp split: if_splits)
  from tx rev obtain bound b where b: "bind_nodes m now rand (carried plan nodes) (ip_selected plan)
       \<lparr>bs_port = mg_port_start m, bs_used = map nd_port nodes, bs_next_id = ck_next_proxy db, bs_rows = []\<rparr> (ip_fetched plan) =
     Inr (bound, b)" by (auto split: sum.splits)
  from tx rev b obtain rows where rows:
    "activate_all now (map nd_proxy_id (filter nd_enabled (filter (parked (ip_sources plan)) nodes @ bound)))
       (filter (\<lambda>p. px_id p \<notin> set (retired_ids plan nodes)) (st_proxies (ck_store db)) @ bs_rows b) = Some rows"
    by (auto split: option.splits)
  show thesis
    by (rule that [OF b rows]) (use tx rev b rows in \<open>auto simp: retireProxies_fields split: if_splits\<close>)
qed

lemma activate_result:
  assumes "activate now i rows = Some rows'"
  shows "list_all2 (\<lambda>p p'. p' = p \<or> p' = p\<lparr>px_status := ''active'', px_updated_at := now\<rparr>) rows rows' \<and>
    (\<exists>p \<in> set rows'. px_id p = i \<and> \<not> px_deleted p \<and> px_status p = ''active'')"
proof -
  from assms have one: "length (filter (\<lambda>p. px_id p = i \<and> \<not> px_deleted p) rows) = 1"
    and r: "rows' = map (\<lambda>p. if px_id p = i \<and> \<not> px_deleted p then p\<lparr>px_status := ''active'', px_updated_at := now\<rparr> else p) rows"
    by (auto simp: activate_def split: if_splits)
  from one have "filter (\<lambda>p. px_id p = i \<and> \<not> px_deleted p) rows \<noteq> []" by auto
  then obtain p where "p \<in> set rows" "px_id p = i" "\<not> px_deleted p" by (auto simp: filter_empty_conv)
  then have "p\<lparr>px_status := ''active'', px_updated_at := now\<rparr> \<in> set rows'" "px_id p = i" "\<not> px_deleted p"
    by (auto simp: r intro!: image_eqI [of _ _ p])
  moreover have "list_all2 (\<lambda>p p'. p' = p \<or> p' = p\<lparr>px_status := ''active'', px_updated_at := now\<rparr>) rows rows'"
    by (auto simp: r list_all2_map2 list_all2_same)
  ultimately show ?thesis by (intro conjI bexI [of _ "p\<lparr>px_status := ''active'', px_updated_at := now\<rparr>"]) simp_all
qed

text \<open>Activation changes nothing but the status and the time of change, and leaves no listed row inactive.\<close>

definition same_row :: "proxy_def \<Rightarrow> proxy_def \<Rightarrow> bool" where
  "same_row p p' \<longleftrightarrow> px_id p' = px_id p \<and> px_deleted p' = px_deleted p \<and> px_protocol p' = px_protocol p \<and> px_host p' = px_host p \<and>
     px_username p' = px_username p \<and> px_port p' = px_port p \<and> px_password p' = px_password p \<and>
     px_expires_at p' = px_expires_at p \<and> (px_status p = ''active'' \<longrightarrow> px_status p' = ''active'')"

lemma same_row_refl [simp]: "same_row p p"
  by (simp add: same_row_def)

lemma same_row_trans: "same_row p q \<Longrightarrow> same_row q r \<Longrightarrow> same_row p r"
  by (simp add: same_row_def)

lemma list_all2_mem1: "list_all2 P xs ys \<Longrightarrow> x \<in> set xs \<Longrightarrow> \<exists>y \<in> set ys. P x y"
  by (induction rule: list_all2_induct) auto

lemma activate_all_result:
  assumes "activate_all now ids rows = Some rows'"
  shows "list_all2 same_row rows rows' \<and>
    (\<forall>i \<in> set ids. \<exists>p \<in> set rows'. px_id p = i \<and> \<not> px_deleted p \<and> px_status p = ''active'')"
  using assms
proof (induction ids arbitrary: rows)
  case Nil
  then show ?case by (simp add: list_all2_same)
next
  case (Cons i ids)
  from Cons.prems obtain mid where mid: "activate now i rows = Some mid" "activate_all now ids mid = Some rows'"
    by (auto split: option.splits)
  have one: "list_all2 same_row rows mid" "\<exists>p \<in> set mid. px_id p = i \<and> \<not> px_deleted p \<and> px_status p = ''active''"
    using activate_result [OF mid(1)] by (auto elim!: list_all2_mono simp: same_row_def)
  from Cons.IH [OF mid(2)] have rest: "list_all2 same_row mid rows'"
    "\<forall>i \<in> set ids. \<exists>p \<in> set rows'. px_id p = i \<and> \<not> px_deleted p \<and> px_status p = ''active''" by blast+
  from one(2) obtain p where p: "p \<in> set mid" "px_id p = i" "\<not> px_deleted p" "px_status p = ''active''" by blast
  from list_all2_mem1 [OF rest(1) p(1)] p(2-4)
  have "\<exists>p \<in> set rows'. px_id p = i \<and> \<not> px_deleted p \<and> px_status p = ''active''" by (auto simp: same_row_def)
  moreover have "list_all2 same_row rows rows'" by (rule list_all2_trans [OF _ one(1) rest(1)]) (rule same_row_trans)
  ultimately show ?case using rest(2) by simp
qed


section \<open>One import\<close>

abbreviation stored_nodes :: "fetch_env \<Rightarrow> clash_state \<Rightarrow> clash_node list" where
  "stored_nodes env s \<equiv> cs_nodes (normalize_state (fe_sid env) (fe_hint env) s)"

lemma source_failed_iff: "distinct (map src_id sources) \<Longrightarrow> source_failed sources i \<longleftrightarrow> i \<in> failed_ids sources"
proof (cases "last_by src_id sources i")
  case None
  then have "i \<notin> src_id ` set sources" by (simp add: last_by_None)
  then show ?thesis by (auto simp: source_failed_def failed_ids_def None)
next
  case (Some s)
  assume "distinct (map src_id sources)"
  from last_by_distinct [OF this] have "\<And>t. t \<in> set sources \<Longrightarrow> src_id t = i \<Longrightarrow> t = s" using Some by force
  with last_by_Some [OF Some] show ?thesis by (auto simp: source_failed_def failed_ids_def Some)
qed

lemma plan_import_result:
  assumes "plan_import env answers snapshot rq = Inr plan"
    and "\<And>urls. subscriptionURLs (ip_raw plan) = Inr urls \<Longrightarrow> digests_ok env urls"
  obtains found retained where "found_ok found (ip_sources plan)"
    "preserveFailedSources env snapshot found (ip_sources plan) = (ip_fetched plan, retained)"
    "ip_selected plan = filter (\<lambda>n. n \<in> nd_name ` set (ip_fetched plan)) (iq_names rq @ retained)"
proof -
  from assms(1) obtain found retained where
    f: "fetchSubscriptionDetails env answers (ip_raw plan) = Inr (found, ip_sources plan)"
    and p: "preserveFailedSources env snapshot found (ip_sources plan) = (ip_fetched plan, retained)"
      "ip_selected plan = filter (\<lambda>n. n \<in> nd_name ` set (ip_fetched plan)) (iq_names rq @ retained)"
    by (auto simp: plan_import_def Let_def split: sum.splits prod.splits if_splits)
  show thesis by (rule that [OF fetched_ok [OF f assms(2)] p])
qed

text \<open>Carried nodes of a well-formed pool.\<close>

lemma carried_spec:
  assumes "pool_ok nodes"
  shows "carried plan nodes k = Some o' \<longleftrightarrow> o' \<in> set nodes \<and> nd_name o' = k \<and> k \<in> set (ip_selected plan)"
proof -
  let ?f = "filter (\<lambda>n. \<not> parked (ip_sources plan) n \<and> nd_enabled n \<and> nd_name n \<in> set (ip_selected plan)) nodes"
  have set_f: "n \<in> set ?f \<longleftrightarrow> n \<in> set nodes \<and> nd_name n \<in> set (ip_selected plan)" for n
    using assms by (auto simp: pool_ok_def parked_def)
  have dist: "distinct (map nd_name ?f)" using assms by (simp add: pool_ok_def distinct_map_filter)
  show ?thesis
  proof
    assume "carried plan nodes k = Some o'"
    then show "o' \<in> set nodes \<and> nd_name o' = k \<and> k \<in> set (ip_selected plan)"
      using last_by_Some [of nd_name ?f k o'] set_f [of o'] unfolding carried_def by blast
  next
    assume "o' \<in> set nodes \<and> nd_name o' = k \<and> k \<in> set (ip_selected plan)"
    then show "carried plan nodes k = Some o'"
      using last_by_distinct [OF dist, of o'] set_f [of o'] unfolding carried_def by blast
  qed
qed

lemma retired_spec: "pool_ok nodes \<Longrightarrow> set (retired_ids plan nodes) = nd_proxy_id ` {n \<in> set nodes. nd_name n \<notin> set (ip_selected plan)}"
  by (auto simp: retired_ids_def pool_ok_def parked_def)

lemma nothing_parked: "pool_ok nodes \<Longrightarrow> filter (parked sources) nodes = []"
  by (auto simp: filter_empty_conv pool_ok_def parked_def)

lemma same_node_key: "same_node n n' \<Longrightarrow> nodeKey n' = nodeKey n"
  by (simp add: same_node_def nodeKey_def)

lemma list_all2_map_eq: "list_all2 P xs ys \<Longrightarrow> (\<And>x y. P x y \<Longrightarrow> f y = f x) \<Longrightarrow> map f ys = map f xs"
  by (induction rule: list_all2_induct) auto

text \<open>The nodes of the next document, with the facts about the plan and the transaction they come from.\<close>

lemma import_nodes:
  assumes plan: "plan_import env answers snapshot rq = Inr plan"
    and digests: "\<And>urls. subscriptionURLs (ip_raw plan) = Inr urls \<Longrightarrow> digests_ok env urls"
    and same: "stored_nodes env snapshot = stored_nodes env (ck_doc db)"
    and pool: "pool_ok (stored_nodes env (ck_doc db))"
    and tables: "tables_ok m (stored_nodes env (ck_doc db)) db"
    and tx: "import_tx env m now rand revision plan db = Inr db'"
  defines "stored \<equiv> stored_nodes env (ck_doc db)" and "fresh_pool \<equiv> cs_nodes (ck_doc db')"
  obtains b where
    "pool_ok fresh_pool" "grows \<lparr>bs_port = mg_port_start m, bs_used = map nd_port stored, bs_next_id = ck_next_proxy db, bs_rows = []\<rparr> b"
    "\<forall>n \<in> set fresh_pool. nd_name n \<in> set (ip_selected plan) \<and>
       placed m now (carried plan stored) \<lparr>bs_port = mg_port_start m, bs_used = map nd_port stored, bs_next_id = ck_next_proxy db, bs_rows = []\<rparr> b n"
    "\<forall>n \<in> set fresh_pool. \<forall>o' \<in> set stored. nodeKey n = nodeKey o' \<longrightarrow> nd_name n = nd_name o'"
    "\<forall>o' \<in> set stored. source_failed (ip_sources plan) (nd_source_id o') \<longrightarrow> (\<exists>n \<in> set fresh_pool. nodeKey n = nodeKey o')"
    "activate_all now (map nd_proxy_id fresh_pool)
       (filter (\<lambda>p. px_id p \<notin> set (retired_ids plan stored)) (st_proxies (ck_store db)) @ bs_rows b) = Some (st_proxies (ck_store db'))"
    "ck_next_proxy db' = bs_next_id b"
proof -
  let ?b = "\<lparr>bs_port = mg_port_start m, bs_used = map nd_port stored, bs_next_id = ck_next_proxy db, bs_rows = []\<rparr>"
  note pool = pool [folded stored_def] and same = same [folded stored_def] and tables = tables [folded stored_def]
  obtain found retained where found: "found_ok found (ip_sources plan)"
    and pres: "preserveFailedSources env snapshot found (ip_sources plan) = (ip_fetched plan, retained)"
    and sel: "ip_selected plan = filter (\<lambda>n. n \<in> nd_name ` set (ip_fetched plan)) (iq_names rq @ retained)"
    by (rule plan_import_result [OF plan digests])
  let ?kept = "filter (\<lambda>n. nd_source_id n \<in> failed_ids (ip_sources plan)) stored"
  note pr = preserve_spec [OF _ found pres, unfolded same, OF pool]
  obtain bound b rows where bind: "bind_nodes m now rand (carried plan stored) (ip_selected plan) ?b (ip_fetched plan) = Inr (bound, b)"
    and act: "activate_all now (map nd_proxy_id (filter nd_enabled (filter (parked (ip_sources plan)) stored @ bound)))
       (filter (\<lambda>p. px_id p \<notin> set (retired_ids plan stored)) (st_proxies (ck_store db)) @ bs_rows b) = Some rows"
    and doc: "cs_nodes (ck_doc db') = filter (parked (ip_sources plan)) stored @ bound"
    and out: "st_proxies (ck_store db') = rows" "ck_next_proxy db' = bs_next_id b"
    unfolding stored_def by (rule import_tx_result [OF tx])
  have after: "fresh_pool = bound" unfolding fresh_pool_def doc nothing_parked [OF pool] by simp
  have row: "nd_proxy_id n < ck_next_proxy db" if "n \<in> set stored" for n
    using tables that unfolding tables_ok_def proxy_row_of_def by metis
  have spec: "list_all2 same_node (filter (\<lambda>n. nd_name n \<in> set (ip_selected plan)) (ip_fetched plan)) bound" "grows ?b b"
    "\<forall>n \<in> set bound. placed m now (carried plan stored) ?b b n" "distinct (map nd_port bound)" "distinct (map nd_proxy_id bound)"
  proof -
    have inj: "nd_port o' \<noteq> nd_port p \<and> nd_proxy_id o' \<noteq> nd_proxy_id p"
      if "carried plan stored k = Some o'" "carried plan stored k' = Some p" "k \<noteq> k'" for k k' o' p
      using that pool unfolding carried_spec [OF pool] pool_ok_def distinct_map inj_on_def by metis
    have old: "nd_port o' \<in> set (bs_used ?b) \<and> nd_proxy_id o' < bs_next_id ?b" if "carried plan stored k = Some o'" for k o'
      using that row unfolding carried_spec [OF pool] by simp
    have "list_all2 same_node (filter (\<lambda>n. nd_name n \<in> set (ip_selected plan)) (ip_fetched plan)) bound \<and> grows ?b b \<and>
      (\<forall>n \<in> set bound. placed m now (carried plan stored) ?b b n) \<and> distinct (map nd_port bound) \<and> distinct (map nd_proxy_id bound)"
      by (rule bind_nodes_spec [OF bind pr(3)]) (erule old, erule (2) inj)
    then show "list_all2 same_node (filter (\<lambda>n. nd_name n \<in> set (ip_selected plan)) (ip_fetched plan)) bound" "grows ?b b"
      "\<forall>n \<in> set bound. placed m now (carried plan stored) ?b b n" "distinct (map nd_port bound)" "distinct (map nd_proxy_id bound)"
      by blast+
  qed
  let ?chosen = "filter (\<lambda>n. nd_name n \<in> set (ip_selected plan)) (ip_fetched plan)"
  have names: "map nd_name bound = map nd_name ?chosen" "map nodeKey bound = map nodeKey ?chosen"
    by (rule list_all2_map_eq [OF spec(1)]; simp add: same_node_def nodeKey_def)+
  have origin: "\<exists>f \<in> set ?chosen. same_node f n" if "n \<in> set bound" for n by (rule list_all2_mem [OF spec(1) that])
  have fetched_src: "nd_source_id f \<noteq> [] \<and> nul \<notin> set (nd_source_id f) \<and> nd_original_name f \<noteq> []" if "f \<in> set (ip_fetched plan)" for f
  proof -
    have ok: "nd_source_id x \<noteq> [] \<and> nul \<notin> set (nd_source_id x) \<and> nd_original_name x \<noteq> []" if "x \<in> set (found @ ?kept)" for x
      using that found pool unfolding found_ok_def pool_ok_def by auto
    have "nd_source_id f \<in> set (map nd_source_id (ip_fetched plan))" "nd_original_name f \<in> set (map nd_original_name (ip_fetched plan))"
      using that by simp_all
    then obtain x y where "x \<in> set (found @ ?kept)" "nd_source_id f = nd_source_id x"
      "y \<in> set (found @ ?kept)" "nd_original_name f = nd_original_name y"
      unfolding pr(4,5) set_map by blast
    with ok [of x] ok [of y] show ?thesis by simp
  qed
  have ok: "pool_ok fresh_pool"
    unfolding pool_ok_def after
  proof (intro conjI ballI)
    show "distinct (map nd_name bound)" "distinct (map nodeKey bound)"
      unfolding names using pr(2,3) by (simp_all add: distinct_map_filter)
    show "distinct (map nd_port bound)" "distinct (map nd_proxy_id bound)" by (fact spec)+
    fix n assume n: "n \<in> set bound"
    with origin obtain f where "f \<in> set (ip_fetched plan)" "same_node f n" by force
    with fetched_src [of f] show "nd_source_id n \<noteq> []" "nul \<notin> set (nd_source_id n)" "nd_original_name n \<noteq> []"
      by (simp_all add: same_node_def)
    show "nd_enabled n" using spec(3) n by (simp add: placed_def)
  qed
  have key_name: "nd_name n = nd_name o'" if "n \<in> set fresh_pool" "o' \<in> set stored" "nodeKey n = nodeKey o'" for n o'
  proof -
    from origin that(1) obtain f where f: "f \<in> set (ip_fetched plan)" "same_node f n" unfolding after by force
    with pr(7) [OF f(1) that(2)] that(3) show ?thesis by (simp add: same_node_key) (simp add: same_node_def)
  qed
  have failed: "\<exists>n \<in> set fresh_pool. nodeKey n = nodeKey o'"
    if o': "o' \<in> set stored" "source_failed (ip_sources plan) (nd_source_id o')" for o'
  proof -
    have "distinct (map src_id (ip_sources plan))" using found by (simp add: found_ok_def)
    with o' have kept: "o' \<in> set ?kept" by (simp add: source_failed_iff)
    then have "nodeKey o' \<in> set (map nodeKey (ip_fetched plan))" unfolding pr(1) by simp
    then obtain f where f: "f \<in> set (ip_fetched plan)" "nodeKey f = nodeKey o'" by auto
    then have "nd_name f = nd_name o'" using pr(7) o'(1) by blast
    moreover have "nd_name o' \<in> set retained" using kept unfolding pr(6) by simp
    moreover have "nd_name f \<in> nd_name ` set (ip_fetched plan)" using f(1) by (rule imageI)
    ultimately have "nd_name f \<in> set (ip_selected plan)" unfolding sel by simp
    with f have "nodeKey o' \<in> set (map nodeKey bound)" unfolding names by (auto intro: rev_image_eqI [of f])
    then show ?thesis unfolding after by auto
  qed
  have chosen: "nd_name n \<in> set (ip_selected plan)" if "n \<in> set bound" for n
    using origin [OF that] by (auto simp: same_node_def)
  have act': "activate_all now (map nd_proxy_id fresh_pool)
       (filter (\<lambda>p. px_id p \<notin> set (retired_ids plan stored)) (st_proxies (ck_store db)) @ bs_rows b) = Some (st_proxies (ck_store db'))"
  proof -
    have "filter nd_enabled bound = bound" using ok by (auto simp: after pool_ok_def)
    then show ?thesis using act by (simp add: nothing_parked [OF pool] after out(1))
  qed
  show thesis
  proof (rule that [OF ok spec(2) _ _ _ act' out(2)])
    show "\<forall>n \<in> set fresh_pool. nd_name n \<in> set (ip_selected plan) \<and> placed m now (carried plan stored) ?b b n"
      using spec(3) chosen unfolding after by blast
  qed (use key_name failed in blast)+
qed


text \<open>A transaction of a plan that was made on the same pool, on well-formed tables.\<close>

definition good_import ::
    "fetch_env \<Rightarrow> clash_manager \<Rightarrow> (nat \<Rightarrow> (gotime \<times> feed_response) option) \<Rightarrow> clash_state \<Rightarrow> import_request \<Rightarrow> import_plan \<Rightarrow>
     gotime \<Rightarrow> (string \<Rightarrow> string option) \<Rightarrow> clash_db \<Rightarrow> clash_db \<Rightarrow> bool" where
  "good_import env m answers snapshot rq plan now rand db db' \<longleftrightarrow>
     plan_import env answers snapshot rq = Inr plan \<and>
     (\<forall>urls. subscriptionURLs (ip_raw plan) = Inr urls \<longrightarrow> digests_ok env urls) \<and>
     stored_nodes env snapshot = stored_nodes env (ck_doc db) \<and>
     pool_ok (stored_nodes env (ck_doc db)) \<and> tables_ok m (stored_nodes env (ck_doc db)) db \<and>
     import_tx env m now rand (iq_revision rq) plan db = Inr db'"

abbreviation start_binding :: "clash_manager \<Rightarrow> clash_node list \<Rightarrow> clash_db \<Rightarrow> bind_state" where
  "start_binding m stored db \<equiv>
     \<lparr>bs_port = mg_port_start m, bs_used = map nd_port stored, bs_next_id = ck_next_proxy db, bs_rows = []\<rparr>"

lemma good_import_nodes:
  assumes "good_import env m answers snapshot rq plan now rand db db'"
  obtains b where
    "pool_ok (cs_nodes (ck_doc db'))" "grows (start_binding m (stored_nodes env (ck_doc db)) db) b"
    "\<forall>n \<in> set (cs_nodes (ck_doc db')). nd_name n \<in> set (ip_selected plan) \<and>
       placed m now (carried plan (stored_nodes env (ck_doc db))) (start_binding m (stored_nodes env (ck_doc db)) db) b n"
    "\<forall>n \<in> set (cs_nodes (ck_doc db')). \<forall>o' \<in> set (stored_nodes env (ck_doc db)). nodeKey n = nodeKey o' \<longrightarrow> nd_name n = nd_name o'"
    "\<forall>o' \<in> set (stored_nodes env (ck_doc db)). source_failed (ip_sources plan) (nd_source_id o') \<longrightarrow>
       (\<exists>n \<in> set (cs_nodes (ck_doc db')). nodeKey n = nodeKey o')"
    "activate_all now (map nd_proxy_id (cs_nodes (ck_doc db')))
       (filter (\<lambda>p. px_id p \<notin> set (retired_ids plan (stored_nodes env (ck_doc db)))) (st_proxies (ck_store db)) @ bs_rows b) =
     Some (st_proxies (ck_store db'))"
    "ck_next_proxy db' = bs_next_id b"
  using assms unfolding good_import_def by (elim conjE) (rule import_nodes [of env answers snapshot rq plan db m now rand _ db'], auto)

lemma good_import_bindings:
  assumes g: "good_import env m answers snapshot rq plan now rand db db'"
    and n: "n \<in> set (cs_nodes (ck_doc db'))" and o': "o' \<in> set (stored_nodes env (ck_doc db))" and key: "nodeKey n = nodeKey o'"
  shows "same_binding n o'"
proof -
  have pool: "pool_ok (stored_nodes env (ck_doc db))" using g by (simp add: good_import_def)
  from g obtain b where "nd_name n \<in> set (ip_selected plan)" "nd_name n = nd_name o'"
    "placed m now (carried plan (stored_nodes env (ck_doc db))) (start_binding m (stored_nodes env (ck_doc db)) db) b n"
    by (rule good_import_nodes) (use n o' key in blast)
  moreover from this have "carried plan (stored_nodes env (ck_doc db)) (nd_name n) = Some o'"
    using o' by (simp add: carried_spec [OF pool])
  ultimately show ?thesis by (simp add: placed_def)
qed

lemma detached_binding:
  "ar_proxy_id (detach_row ids a) = (if member_opt ids (ar_proxy_id a) then None else ar_proxy_id a)"
  by (simp add: detach_row_def Let_def)

lemma good_import_tables:
  assumes g: "good_import env m answers snapshot rq plan now rand db db'"
  shows "tables_ok m (cs_nodes (ck_doc db')) db'"
    and "n \<in> set (cs_nodes (ck_doc db')) \<Longrightarrow>
      \<exists>p \<in> set (st_proxies (ck_store db')). proxy_row_of m n p \<and> px_status p = ''active''"
proof -
  define stored where "stored = stored_nodes env (ck_doc db)"
  define gone where "gone = set (retired_ids plan stored)"
  have pool: "pool_ok stored" and tables: "tables_ok m stored db"
    and tx: "import_tx env m now rand (iq_revision rq) plan db = Inr db'"
    using g by (simp_all add: good_import_def stored_def)
  let ?next = "cs_nodes (ck_doc db')"
  obtain b where ok: "pool_ok ?next" and grow: "grows (start_binding m stored db) b"
    and placed: "\<forall>n \<in> set ?next. nd_name n \<in> set (ip_selected plan) \<and> placed m now (carried plan stored) (start_binding m stored db) b n"
    and act: "activate_all now (map nd_proxy_id ?next) (filter (\<lambda>p. px_id p \<notin> gone) (st_proxies (ck_store db)) @ bs_rows b) =
      Some (st_proxies (ck_store db'))" and seq: "ck_next_proxy db' = bs_next_id b"
    using good_import_nodes [OF g] unfolding stored_def gone_def by metis
  let ?base = "filter (\<lambda>p. px_id p \<notin> gone) (st_proxies (ck_store db)) @ bs_rows b"
  have new: "distinct (map px_id (bs_rows b))" "\<forall>r \<in> set (bs_rows b). ck_next_proxy db \<le> px_id r \<and> px_id r < bs_next_id b \<and> \<not> px_deleted r"
    "ck_next_proxy db \<le> bs_next_id b"
    using grow by (auto simp: grows_def)
  have old: "distinct (map px_id (st_proxies (ck_store db)))" "\<forall>p \<in> set (st_proxies (ck_store db)). px_id p < ck_next_proxy db"
    using tables by (simp_all add: tables_ok_def)
  have rows: "list_all2 same_row ?base (st_proxies (ck_store db'))"
    and active: "\<forall>i \<in> nd_proxy_id ` set ?next. \<exists>p \<in> set (st_proxies (ck_store db')). px_id p = i \<and> \<not> px_deleted p \<and> px_status p = ''active''"
    using activate_all_result [OF act] by auto
  have ids: "map px_id (st_proxies (ck_store db')) = map px_id ?base"
    by (rule list_all2_map_eq [OF rows]) (simp add: same_row_def)
  have base_ids: "distinct (map px_id ?base)" "\<forall>p \<in> set ?base. px_id p < bs_next_id b"
    using old new by (auto simp: distinct_map_filter) force+
  have dist: "distinct (map px_id (st_proxies (ck_store db')))" unfolding ids by (rule base_ids)
  have below: "\<forall>p \<in> set (st_proxies (ck_store db')). px_id p < bs_next_id b"
  proof
    fix p assume "p \<in> set (st_proxies (ck_store db'))"
    then have "px_id p \<in> set (map px_id ?base)" unfolding ids [symmetric] by simp
    with base_ids(2) show "px_id p < bs_next_id b" by auto
  qed
  have base_row: "\<exists>p \<in> set ?base. proxy_row_of m n p" if n: "n \<in> set ?next" for n
  proof (cases "carried plan stored (nd_name n)")
    case (Some o')
    then have o': "o' \<in> set stored" "nd_name o' \<in> set (ip_selected plan)" by (auto simp: carried_spec [OF pool])
    have bind: "same_binding n o'" using placed n by (auto simp: placed_def Some)
    from tables o' obtain p where p: "p \<in> set (st_proxies (ck_store db))" "proxy_row_of m o' p" by (auto simp: tables_ok_def)
    have "nd_proxy_id o' \<notin> gone"
    proof
      assume "nd_proxy_id o' \<in> gone"
      then obtain q where q: "q \<in> set stored" "nd_name q \<notin> set (ip_selected plan)" "nd_proxy_id q = nd_proxy_id o'"
        by (auto simp: gone_def retired_spec [OF pool])
      with pool o' have "q = o'" unfolding pool_ok_def distinct_map inj_on_def by blast
      with q o' show False by simp
    qed
    with p bind show ?thesis by (intro bexI [of _ p]) (auto simp: proxy_row_of_def same_binding_def)
  next
    case None
    with placed n have "new_proxy m now (nd_proxy_id n) (nd_port n) (nd_password n) \<in> set (bs_rows b)" by (auto simp: placed_def)
    then show ?thesis by (auto simp: proxy_row_of_def new_proxy_def intro!: bexI)
  qed
  have row: "\<exists>p \<in> set (st_proxies (ck_store db')). proxy_row_of m n p \<and> px_status p = ''active''" if n: "n \<in> set ?next" for n
  proof -
    from base_row [OF n] obtain p where p: "p \<in> set ?base" "proxy_row_of m n p" by blast
    from list_all2_mem1 [OF rows p(1)] obtain p' where p': "p' \<in> set (st_proxies (ck_store db'))" "same_row p p'" by blast
    from active n obtain q where q: "q \<in> set (st_proxies (ck_store db'))" "px_id q = nd_proxy_id n" "px_status q = ''active''" by blast
    have "px_id p' = nd_proxy_id n" using p(2) p'(2) by (simp add: proxy_row_of_def same_row_def)
    with dist p'(1) q have "p' = q" by (metis distinct_map inj_onD)
    with p p' q(3) show ?thesis by (intro bexI [of _ p']) (auto simp: proxy_row_of_def same_row_def)
  qed
  have accounts: "i \<in> px_id ` set (st_proxies (ck_store db'))"
    if a: "a \<in> set (st_accounts (ck_store db'))" "ar_proxy_id a = Some i" for a i
  proof -
    have "st_accounts (ck_store db') = map (detach_row (retired_ids plan stored)) (st_accounts (ck_store db))"
      unfolding stored_def by (rule import_tx_result [OF tx])
    with a obtain a0 where a0: "a0 \<in> set (st_accounts (ck_store db))" "ar_proxy_id a0 = Some i" "i \<notin> gone"
      by (auto simp: detached_binding member_opt_def gone_def split: if_splits option.splits)
    have "i \<in> px_id ` set (st_proxies (ck_store db))" using tables a0(1,2) unfolding tables_ok_def by blast
    with a0(3) have "i \<in> set (map px_id ?base)" by auto
    then show ?thesis unfolding ids [symmetric] by simp
  qed
  show "tables_ok m ?next db'"
    unfolding tables_ok_def seq using dist below row accounts by blast
  show "n \<in> set ?next \<Longrightarrow> \<exists>p \<in> set (st_proxies (ck_store db')). proxy_row_of m n p \<and> px_status p = ''active''" by (rule row)
qed

end
