(* ===== verification/ClashRuns.thy ===== *)
theory ClashRuns
  imports ClashPool
begin

text \<open>
  Imports, the monitor of the feeds, reconciliation and the rest of the gateway side by side. An import reads the document, fetches
  for a while without a lock, and then runs its transaction on whatever the document is by then; the revision and
  URL comparisons are what keeps the halves together.
\<close>

section \<open>Interleavings\<close>

text \<open>\<open>cr_pending\<close> are the imports between their halves, with the document they read; \<open>cr_refreshing\<close> likewise for the monitor.\<close>

record clash_run =
  cr_world :: clash_world
  cr_pending :: "(import_request \<times> clash_state) list"
  cr_refreshing :: "clash_state list"

abbreviation run_doc :: "clash_run \<Rightarrow> clash_state" where
  "run_doc r \<equiv> ck_doc (cw_db (cr_world r))"

text \<open>
  The steps: an import starts (a client can only name a revision it was shown), finishes, or gives up; the monitor starts and
  finishes; a reconciliation; the other components change the tables, though not the document, the rows of its nodes, or the
  references; the runtime loses its configuration.
\<close>

inductive clash_step :: "(clash_state \<Rightarrow> string) \<Rightarrow> fetch_env \<Rightarrow> clash_manager \<Rightarrow> clash_run \<Rightarrow> clash_run \<Rightarrow> bool"
  for digest env m where
  start: "iq_revision rq \<le> cs_revision (run_doc r) \<Longrightarrow>
    clash_step digest env m r (r\<lparr>cr_pending := (rq, run_doc r) # cr_pending r\<rparr>)"
| finish: "(rq, snapshot) \<in> set (cr_pending r) \<Longrightarrow> import_prepare env m answers cancelled snapshot rq = Inr plan \<Longrightarrow>
    (\<forall>urls. subscriptionURLs (ip_raw plan) = Inr urls \<longrightarrow> digests_ok env urls) \<Longrightarrow>
    import_finish digest env m now rand a (iq_revision rq) plan (cr_world r) = (e, w) \<Longrightarrow>
    clash_step digest env m r (r\<lparr>cr_world := w, cr_pending := remove1 (rq, snapshot) (cr_pending r)\<rparr>)"
| give_up: "p \<in> set (cr_pending r) \<Longrightarrow> clash_step digest env m r (r\<lparr>cr_pending := remove1 p (cr_pending r)\<rparr>)"
| refresh_start: "clash_step digest env m r (r\<lparr>cr_refreshing := run_doc r # cr_refreshing r\<rparr>)"
| refresh_end: "s \<in> set (cr_refreshing r) \<Longrightarrow>
    clash_step digest env m r (r\<lparr>cr_world := refresh_finish env s (observations env now answers s) committed (cr_world r),
                                 cr_refreshing := remove1 s (cr_refreshing r)\<rparr>)"
| reconciled: "reconcile digest now ready a (cr_world r) = (e, w) \<Longrightarrow> clash_step digest env m r (r\<lparr>cr_world := w\<rparr>)"
| others: "ck_doc db = run_doc r \<Longrightarrow> tables_ok m (stored_nodes env (ck_doc db)) db \<Longrightarrow>
    clash_step digest env m r (r\<lparr>cr_world := (cr_world r)\<lparr>cw_db := db\<rparr>\<rparr>)"
| runtime_lost: "clash_step digest env m r (r\<lparr>cr_world := (cr_world r)\<lparr>cw_runtime := None\<rparr>\<rparr>)"

inductive clash_reach :: "(clash_state \<Rightarrow> string) \<Rightarrow> fetch_env \<Rightarrow> clash_manager \<Rightarrow> clash_run \<Rightarrow> bool" for digest env m where
  initial: "cr_pending r = [] \<Longrightarrow> cr_refreshing r = [] \<Longrightarrow> pool_ok (stored_nodes env (run_doc r)) \<Longrightarrow>
    tables_ok m (stored_nodes env (run_doc r)) (cw_db (cr_world r)) \<Longrightarrow> clash_reach digest env m r"
| step: "clash_reach digest env m r \<Longrightarrow> clash_step digest env m r r' \<Longrightarrow> clash_reach digest env m r'"

section \<open>One step\<close>

text \<open>The two outcomes of an import and of a reconciliation for the tables: all of it, or nothing.\<close>

lemma restorePersisted_db [simp]: "cw_db (restorePersisted digest f w) = cw_db w"
  by (simp add: restorePersisted_def apply_config_def split: option.splits)

lemma commitState_db:
  "commitState digest a db' w = (e, w') \<Longrightarrow> cw_db w' \<in> {cw_db w, db'}"
  by (auto simp: commitState_def Let_def apply_config_def split: if_splits)

lemma import_finish_db:
  assumes "import_finish digest env m now rand a revision plan w = (e, w')"
  shows "cw_db w' = cw_db w \<or> import_tx env m now rand revision plan (cw_db w) = Inr (cw_db w')"
  using assms commitState_db by (auto simp: import_finish_def split: if_splits sum.splits) blast

lemma prepare_plan: "import_prepare env m answers cancelled snapshot rq = Inr plan \<Longrightarrow> plan_import env answers snapshot rq = Inr plan"
  by (auto simp: import_prepare_def split: if_splits sum.splits)

definition run_ok :: "fetch_env \<Rightarrow> clash_manager \<Rightarrow> clash_run \<Rightarrow> bool" where
  "run_ok env m r \<longleftrightarrow>
     pool_ok (stored_nodes env (run_doc r)) \<and> tables_ok m (stored_nodes env (run_doc r)) (cw_db (cr_world r)) \<and>
     (\<forall>(rq, s) \<in> set (cr_pending r). iq_revision rq \<le> cs_revision s \<and> cs_revision s \<le> cs_revision (run_doc r) \<and>
        (cs_revision s = cs_revision (run_doc r) \<longrightarrow> stored_nodes env s = stored_nodes env (run_doc r)))"

text \<open>An import that gets through its transaction planned on the pool it changes.\<close>

lemma finish_good:
  assumes ok: "run_ok env m r" and p: "(rq, snapshot) \<in> set (cr_pending r)"
    and plan: "import_prepare env m answers cancelled snapshot rq = Inr plan"
    and digests: "\<forall>urls. subscriptionURLs (ip_raw plan) = Inr urls \<longrightarrow> digests_ok env urls"
    and tx: "import_tx env m now rand (iq_revision rq) plan (cw_db (cr_world r)) = Inr db'"
  shows "good_import env m answers snapshot rq plan now rand (cw_db (cr_world r)) db'"
proof -
  have "cs_revision (run_doc r) = iq_revision rq" by (rule import_tx_result [OF tx])
  moreover have "iq_revision rq \<le> cs_revision snapshot" "cs_revision snapshot \<le> cs_revision (run_doc r)"
    "cs_revision snapshot = cs_revision (run_doc r) \<longrightarrow> stored_nodes env snapshot = stored_nodes env (run_doc r)"
    using ok p by (auto simp: run_ok_def)
  ultimately have "stored_nodes env snapshot = stored_nodes env (run_doc r)" by simp
  then show ?thesis using ok prepare_plan [OF plan] digests tx by (simp add: good_import_def run_ok_def)
qed

lemma good_import_doc:
  assumes "good_import env m answers snapshot rq plan now rand db db'"
  shows "stored_nodes env (ck_doc db') = cs_nodes (ck_doc db')" "cs_revision (ck_doc db') = cs_revision (ck_doc db) + 1"
    "pool_ok (cs_nodes (ck_doc db'))"
proof -
  show pool: "pool_ok (cs_nodes (ck_doc db'))" by (rule good_import_nodes [OF assms])
  then show "stored_nodes env (ck_doc db') = cs_nodes (ck_doc db')" by (rule normalize_state_pool)
  have tx: "import_tx env m now rand (iq_revision rq) plan db = Inr db'" using assms by (simp add: good_import_def)
  show "cs_revision (ck_doc db') = cs_revision (ck_doc db) + 1" by (rule import_tx_result [OF tx]) simp
qed

lemma finish_ok:
  assumes ok: "run_ok env m r" and p: "(rq, snapshot) \<in> set (cr_pending r)"
    and plan: "import_prepare env m answers cancelled snapshot rq = Inr plan"
    and digests: "\<forall>urls. subscriptionURLs (ip_raw plan) = Inr urls \<longrightarrow> digests_ok env urls"
    and fin: "import_finish digest env m now rand a (iq_revision rq) plan (cr_world r) = (e, w)"
  shows "run_ok env m (r\<lparr>cr_world := w, cr_pending := remove1 (rq, snapshot) (cr_pending r)\<rparr>)"
  using import_finish_db [OF fin]
proof
  assume "cw_db w = cw_db (cr_world r)"
  moreover have "set (remove1 (rq, snapshot) (cr_pending r)) \<subseteq> set (cr_pending r)" by (rule set_remove1_subset)
  ultimately show ?thesis using ok by (auto simp: run_ok_def)
next
  assume "import_tx env m now rand (iq_revision rq) plan (cw_db (cr_world r)) = Inr (cw_db w)"
  from finish_good [OF ok p plan digests this]
  have good: "good_import env m answers snapshot rq plan now rand (cw_db (cr_world r)) (cw_db w)" .
  have old: "cs_revision s \<le> cs_revision (run_doc r) \<and> iq_revision q \<le> cs_revision s" if "(q, s) \<in> set (cr_pending r)" for q s
    using ok that by (auto simp: run_ok_def)
  have sub: "set (remove1 (rq, snapshot) (cr_pending r)) \<subseteq> set (cr_pending r)" by (rule set_remove1_subset)
  show ?thesis
    using good_import_doc [OF good] good_import_tables(1) [OF good] old sub
    unfolding run_ok_def by fastforce
qed

text \<open>Refreshing keeps the nodes: it replaces observations, and what normalization adds was implied before.\<close>

lemma refresh_nodes:
  assumes "pool_ok (stored_nodes env (ck_doc (cw_db w)))"
  shows "stored_nodes env (ck_doc (cw_db (refresh_finish env s obs committed w))) = stored_nodes env (ck_doc (cw_db w))"
    and "cs_revision (ck_doc (cw_db (refresh_finish env s obs committed w))) = cs_revision (ck_doc (cw_db w))"
    and "tables_ok m ns (cw_db (refresh_finish env s obs committed w)) = tables_ok m ns (cw_db w)"
proof -
  have again: "stored_nodes env ((normalize_state (fe_sid env) (fe_hint env) (ck_doc (cw_db w)))\<lparr>cs_sources := x\<rparr>) =
      stored_nodes env (ck_doc (cw_db w))" for x
    using assms normalize_state_pool [of "(normalize_state (fe_sid env) (fe_hint env) (ck_doc (cw_db w)))\<lparr>cs_sources := x\<rparr>"]
    by simp
  show "stored_nodes env (ck_doc (cw_db (refresh_finish env s obs committed w))) = stored_nodes env (ck_doc (cw_db w))"
    by (simp add: refresh_finish_def Let_def again)
  show "cs_revision (ck_doc (cw_db (refresh_finish env s obs committed w))) = cs_revision (ck_doc (cw_db w))"
    by (simp add: refresh_finish_def Let_def)
  show "tables_ok m ns (cw_db (refresh_finish env s obs committed w)) = tables_ok m ns (cw_db w)"
    by (simp add: refresh_finish_def Let_def tables_ok_def)
qed

text \<open>A pool has no disabled node, so a reconciliation only pushes the document again.\<close>

lemma reconcile_db:
  assumes "pool_ok (stored_nodes env (ck_doc (cw_db w)))" "reconcile digest now ready a w = (e, w')"
  shows "cw_db w' = cw_db w"
proof -
  have "filter (\<lambda>n. \<not> nd_enabled n) (cs_nodes (ck_doc (cw_db w))) = []"
    using assms(1) by (auto simp: filter_empty_conv pool_ok_def normalize_state_def Let_def)
  with assms(2) show ?thesis by (auto simp: reconcile_def Let_def apply_config_def split: if_splits)
qed

lemma step_ok:
  assumes "clash_step digest env m r r'" "run_ok env m r"
  shows "run_ok env m r'"
  using assms
proof (induction rule: clash_step.induct)
  case (finish rq snapshot r answers cancelled plan now rand a e w)
  then show ?case by (intro finish_ok)
next
  case (give_up p r)
  have "set (remove1 p (cr_pending r)) \<subseteq> set (cr_pending r)" by (rule set_remove1_subset)
  with give_up show ?case by (auto simp: run_ok_def)
next
  case (refresh_end s r now answers committed)
  then have "pool_ok (stored_nodes env (run_doc r))" by (simp add: run_ok_def)
  from refresh_nodes [OF this] refresh_end show ?case by (simp add: run_ok_def)
next
  case (reconciled now ready a r e w)
  then have "cw_db w = cw_db (cr_world r)" by (intro reconcile_db) (auto simp: run_ok_def)
  with reconciled show ?case by (simp add: run_ok_def)
qed (auto simp: run_ok_def)

lemma reach_ok: "clash_reach digest env m r \<Longrightarrow> run_ok env m r"
proof (induction rule: clash_reach.induct)
  case (step r r')
  from step(2,3) show ?case by (rule step_ok)
qed (simp add: run_ok_def)


section \<open>Properties of every interleaving\<close>



text \<open>C25: A node whose name no stored node has gets a port of the manager's range of 4096 that no stored node used, retired ones
  included, and a proxy id that was never given out before.\<close>

theorem new_node_binding:
  assumes "clash_reach digest env m r" "(rq, snapshot) \<in> set (cr_pending r)"
    and "import_prepare env m answers cancelled snapshot rq = Inr plan"
    and "\<forall>urls. subscriptionURLs (ip_raw plan) = Inr urls \<longrightarrow> digests_ok env urls"
    and "import_finish digest env m now rand a (iq_revision rq) plan (cr_world r) = (e, w)"
    and "n \<in> set (stored_nodes env (ck_doc (cw_db w)))" "nd_name n \<notin> nd_name ` set (stored_nodes env (run_doc r))"
  shows "mg_port_start m \<le> nd_port n \<and> nd_port n \<le> min (mg_port_start m + 4095) 65535 \<and>
    nd_port n \<notin> nd_port ` set (stored_nodes env (run_doc r)) \<and>
    ck_next_proxy (cw_db (cr_world r)) \<le> nd_proxy_id n \<and> nd_proxy_id n < ck_next_proxy (cw_db w)"
  using import_finish_db [OF assms(5)]
proof
  assume "cw_db w = cw_db (cr_world r)"
  with assms(6,7) show ?thesis by auto
next
  assume "import_tx env m now rand (iq_revision rq) plan (cw_db (cr_world r)) = Inr (cw_db w)"
  from finish_good [OF reach_ok [OF assms(1)] assms(2-4) this]
  have good: "good_import env m answers snapshot rq plan now rand (cw_db (cr_world r)) (cw_db w)" .
  have pool: "pool_ok (stored_nodes env (run_doc r))" using reach_ok [OF assms(1)] by (simp add: run_ok_def)
  have n: "n \<in> set (cs_nodes (ck_doc (cw_db w)))" using assms(6) by (simp add: good_import_doc(1) [OF good])
  have none: "carried plan (stored_nodes env (run_doc r)) (nd_name n) = None"
  proof (cases "carried plan (stored_nodes env (run_doc r)) (nd_name n)")
    case (Some x)
    then have "x \<in> set (stored_nodes env (run_doc r))" "nd_name x = nd_name n" by (simp_all add: carried_spec [OF pool])
    with assms(7) have False by (metis imageI)
    then show ?thesis ..
  qed simp
  from good obtain b where seq: "ck_next_proxy (cw_db w) = bs_next_id b"
    and placed: "placed m now (carried plan (stored_nodes env (run_doc r))) (start_binding m (stored_nodes env (run_doc r)) (cw_db (cr_world r))) b n"
    by (rule good_import_nodes) (use n in blast)
  then show ?thesis by (simp add: placed_def none)
qed


section \<open>A sample\<close>

definition sample_url :: url where
  "sample_url = \<lparr>url_scheme = ''https'', url_host = ''h'', url_hostname = ''h'', url_port = [], url_user = None,
     url_query = (\<lambda>_. []), url_raw_query = [], url_fragment = []\<rparr>"

definition sample_env :: fetch_env where
  "sample_env = \<lparr>fe_lower = (\<lambda>s. s), fe_sid = (\<lambda>u. u), fe_hint = (\<lambda>u. u), fe_yaml = (\<lambda>_. Some [demo_config]),
     fe_url = (\<lambda>_. Some sample_url)\<rparr>"

definition sample_manager :: clash_manager where
  "sample_manager = \<lparr>mg_controller = ''c'', mg_secret = ''s'', mg_host = ''m'', mg_port_start = 20000\<rparr>"

definition sample_node :: clash_node where
  "sample_node = \<lparr>nd_source_id = ''a'', nd_proxy_id = 8, nd_enabled = True, nd_original_name = ''A'', nd_name = ''A'',
     nd_type = ''trojan'', nd_config = [], nd_port = 20000, nd_password = ''p''\<rparr>"

definition sample_doc :: "clash_node list \<Rightarrow> clash_state" where
  "sample_doc ns = \<lparr>cs_sources = [], cs_url = ''a'', cs_revision = 4, cs_updated_at = 0, cs_nodes = ns\<rparr>"

definition sample_clash_db :: "clash_node list \<Rightarrow> clash_db" where
  "sample_clash_db ns = \<lparr>ck_store = demo_store\<lparr>st_accounts := [demo_row_acct\<lparr>ar_proxy_id := Some 8\<rparr>],
       st_proxies := [new_proxy sample_manager 0 8 20000 ''p'']\<rparr>,
     ck_doc = sample_doc ns, ck_next_proxy = 9, ck_backup = Map.empty, ck_probed = []\<rparr>"

definition sample_run :: "clash_node list \<Rightarrow> clash_run" where
  "sample_run ns = \<lparr>cr_world = \<lparr>cw_db = sample_clash_db ns, cw_runtime = None\<rparr>, cr_pending = [], cr_refreshing = []\<rparr>"

definition sample_import :: "string \<Rightarrow> import_request" where
  "sample_import url = \<lparr>iq_source_ids = [], iq_url = url, iq_names = [''A''], iq_revision = 4\<rparr>"

definition sample_answers :: "nat \<Rightarrow> (gotime \<times> feed_response) option" where
  "sample_answers i = Some (7, Answer 200 [] (Some []))"

definition smooth :: attempt where
  "smooth = \<lparr>at_statements = True, at_apply = \<lparr>cf_done = True, cf_reported = True\<rparr>,
     at_commit = \<lparr>cf_done = True, cf_reported = True\<rparr>, at_restore = None\<rparr>"

lemma sample_digests: "digests_ok sample_env [''a'']" "digests_ok sample_env [''b'']"
  by code_simp+

definition sample_found :: "string \<Rightarrow> clash_node" where
  "sample_found url = \<lparr>nd_source_id = url, nd_proxy_id = 0, nd_enabled = False, nd_original_name = ''A'', nd_name = ''A'',
     nd_type = ''trojan'', nd_config = [(''name'', YStr ''A''), (''type'', YStr ''trojan''), (''server'', YStr ''host''),
       (''port'', YInt 443), (''certificate'', YStr ''-----BEGIN X'')], nd_port = 0, nd_password = []\<rparr>"

lemma sample_parse: "normalizeProxyConfigs [demo_config] = Inr [(sample_found [])\<lparr>nd_original_name := []\<rparr>]"
  by code_simp

lemma sample_feed:
  "\<exists>src. fetchFeed sample_env t url i (Answer 200 [] (Some [])) = ([sample_found url], src) \<and> src_id src = url \<and> src_fetch_error src = []"
  if "length url \<le> 4096"
  using that sample_parse
  by (simp add: fetchFeed_def sample_env_def validateURL_def sample_url_def parseSubscription_def zero_source_def Let_def
      sample_found_def)

lemma sample_urls: "subscriptionURLs ''a'' = Inr [''a'']" "subscriptionURLs ''b'' = Inr [''b'']"
proof -
  have "text_fields ''a'' = [''a'']" "text_fields ''b'' = [''b'']" by code_simp+
  then show "subscriptionURLs ''a'' = Inr [''a'']" "subscriptionURLs ''b'' = Inr [''b'']" by (simp_all add: subscriptionURLs_def)
qed

lemma sample_pool: "pool_ok [sample_node]" "pool_ok []"
  by code_simp+

lemma sample_stored: "pool_ok ns \<Longrightarrow> cs_nodes (normalize_state (fe_sid sample_env) (fe_hint sample_env) (sample_doc ns)) = ns"
  using normalize_state_pool [of "sample_doc ns"] by (simp add: sample_doc_def)

lemma sample_details:
  assumes "url \<in> {''a'', ''b''}"
  shows "\<exists>src. fetchSubscriptionDetails sample_env sample_answers url = Inr ([sample_found url], [src]) \<and>
    src_id src = url \<and> src_fetch_error src = []"
proof -
  have "length url \<le> 4096" using assms by auto
  from sample_feed [OF this, of 7 1] obtain src where
    "fetchFeed sample_env 7 url 1 (Answer 200 [] (Some [])) = ([sample_found url], src)" "src_id src = url" "src_fetch_error src = []"
    by blast
  with assms show ?thesis
    by (auto simp: fetchSubscriptionDetails_def sample_urls fetch_one_def sample_answers_def enumerate_eq_zip)
qed

lemma sample_preserved:
  assumes "url \<in> {''a'', ''b''}" "src_fetch_error src = []" "ns \<in> {[], [sample_node]}"
  shows "preserveFailedSources sample_env (sample_doc ns) [sample_found url] [src] = ([sample_found url], [])"
proof -
  have "nodeKey sample_node = ''a'' @ nul # ''A''" "nodeKey (sample_found url) = url @ nul # ''A''" "nd_name sample_node = ''A''"
    by (simp_all add: nodeKey_def sample_node_def sample_found_def nul_def)
  moreover have same: "rename ''A'' (sample_found u) = sample_found u" "(sample_found u)\<lparr>nd_name := ''A''\<rparr> = sample_found u"
    "nd_name (sample_found u) = ''A''" for u
    by (simp_all add: rename_def sample_found_def)
  moreover have "pool_ok ns" using assms(3) sample_pool by auto
  ultimately show ?thesis
    using assms
    by (auto simp: same preserveFailedSources_def sample_stored last_by_def stored_name_def map_filter_def Let_def
        free_name.simps [of "[]" _ 0] name_attempt_def)
qed

lemma sample_plan:
  assumes "url \<in> {''a'', ''b''}" "ns \<in> {[], [sample_node]}"
  shows "\<exists>plan. import_prepare sample_env sample_manager sample_answers False (sample_doc ns) (sample_import url) = Inr plan \<and>
    ip_fetched plan = [sample_found url] \<and> ip_selected plan = [''A''] \<and> ip_raw plan = url"
proof -
  from sample_details [OF assms(1)] obtain src where
    f: "fetchSubscriptionDetails sample_env sample_answers url = Inr ([sample_found url], [src])"
    "src_id src = url" "src_fetch_error src = []" by blast
  have "trim_space ''a'' = ''a''" "trim_space ''b'' = ''b''" by code_simp+
  then have url: "trim_space url = url" "url \<noteq> []" using assms by auto
  have conf: "configured (fe_url sample_env) sample_manager" by code_simp
  have name: "nd_name (sample_found url) = ''A''" by (simp add: sample_found_def)
  have rq: "iq_url (sample_import url) = url" "iq_names (sample_import url) = [''A'']" by (simp_all add: sample_import_def)
  have "plan_import sample_env sample_answers (sample_doc ns) (sample_import url) =
      Inr \<lparr>ip_fetched = [sample_found url], ip_sources = [src], ip_selected = [''A''], ip_raw = url\<rparr>"
    by (simp add: plan_import_def rq url f sample_preserved [OF assms(1) f(3) assms(2)] name Let_def)
  with conf show ?thesis by (simp add: import_prepare_def)
qed

text \<open>The binding the node gets: that of the stored node, or a new one.\<close>

definition sample_bound :: "clash_node list \<Rightarrow> string \<Rightarrow> clash_node" where
  "sample_bound ns url =
     (if ns = [] then (sample_found url)\<lparr>nd_proxy_id := 9, nd_port := 20000, nd_password := ''q'', nd_enabled := True\<rparr>
      else (sample_found url)\<lparr>nd_proxy_id := 8, nd_port := 20000, nd_password := ''p'', nd_enabled := True\<rparr>)"

lemma sample_tx:
  assumes "ip_fetched plan = [sample_found url]" "ip_selected plan = [''A'']" "ns \<in> {[], [sample_node]}"
  shows "\<exists>db'. import_tx sample_env sample_manager 9 (\<lambda>_. Some ''q'') 4 plan (sample_clash_db ns) = Inr db' \<and>
     cs_nodes (ck_doc db') = [sample_bound ns url]"
proof -
  have doc: "ck_doc (sample_clash_db ns) = sample_doc ns" "cs_revision (sample_doc ns) = 4" "ck_next_proxy (sample_clash_db ns) = 9"
    "st_proxies (ck_store (sample_clash_db ns)) = [new_proxy sample_manager 0 8 20000 ''p'']" "mg_port_start sample_manager = 20000" for ns
    by (simp_all add: sample_clash_db_def sample_doc_def sample_manager_def)
  have node: "nd_enabled sample_node" "nd_name sample_node = ''A''" "nd_proxy_id sample_node = 8" "nd_port sample_node = 20000"
    "nd_password sample_node = ''p''" "nd_name (sample_found url) = ''A''"
    by (simp_all add: sample_node_def sample_found_def)
  have "carried plan [sample_node] ''A'' = Some sample_node" "retired_ids plan [sample_node] = []"
    "carried plan [] ''A'' = None" "retired_ids plan [] = []"
    by (simp_all add: carried_def retired_ids_def last_by_def parked_def node assms)
  with assms(3) show ?thesis
    by (auto simp: import_tx_def doc sample_stored sample_pool assms node Let_def retireProxies_def parked_def activate_def new_proxy_def
        sample_bound_def free_port.simps [of "[]"])
qed

lemma sample_reach:
  assumes "ns \<in> {[], [sample_node]}"
  shows "clash_reach (\<lambda>_. []) sample_env sample_manager (sample_run ns)"
proof -
  have "pool_ok ns" using assms sample_pool by auto
  moreover have "tables_ok sample_manager ns (sample_clash_db ns)"
    using assms by (auto simp: tables_ok_def sample_clash_db_def proxy_row_of_def sample_node_def new_proxy_def sample_manager_def)
  ultimately show ?thesis
    using sample_stored by (intro clash_reach.initial) (simp_all add: sample_run_def sample_clash_db_def)
qed

lemma sample_pending:
  assumes "ns \<in> {[], [sample_node]}"
  shows "clash_reach (\<lambda>_. []) sample_env sample_manager ((sample_run ns)\<lparr>cr_pending := [(sample_import url, sample_doc ns)]\<rparr>)"
proof -
  have "clash_step (\<lambda>_. []) sample_env sample_manager (sample_run ns)
      ((sample_run ns)\<lparr>cr_pending := [(sample_import url, sample_doc ns)]\<rparr>)"
    using clash_step.start [of "sample_import url" "sample_run ns" "\<lambda>_. []" sample_env sample_manager]
    by (simp add: sample_import_def sample_run_def sample_clash_db_def sample_doc_def)
  with sample_reach [OF assms] show ?thesis by (rule clash_reach.step)
qed

lemma sample_finished:
  assumes "url \<in> {''a'', ''b''}" "ns \<in> {[], [sample_node]}"
  shows "\<exists>plan w. import_prepare sample_env sample_manager sample_answers False (sample_doc ns) (sample_import url) = Inr plan \<and>
    (\<forall>urls. subscriptionURLs (ip_raw plan) = Inr urls \<longrightarrow> digests_ok sample_env urls) \<and>
    import_finish (\<lambda>_. []) sample_env sample_manager 9 (\<lambda>_. Some ''q'') smooth (iq_revision (sample_import url)) plan
      (cr_world ((sample_run ns)\<lparr>cr_pending := [(sample_import url, sample_doc ns)]\<rparr>)) = (None, w) \<and>
    cs_nodes (normalize_state (fe_sid sample_env) (fe_hint sample_env) (ck_doc (cw_db w))) = [sample_bound ns url]"
proof -
  from sample_plan [OF assms] obtain plan where
    plan: "import_prepare sample_env sample_manager sample_answers False (sample_doc ns) (sample_import url) = Inr plan"
      "ip_fetched plan = [sample_found url]" "ip_selected plan = [''A'']" "ip_raw plan = url" by blast
  from sample_tx [OF plan(2,3) assms(2)] obtain db' where
    db': "import_tx sample_env sample_manager 9 (\<lambda>_. Some ''q'') 4 plan (sample_clash_db ns) = Inr db'"
      "cs_nodes (ck_doc db') = [sample_bound ns url]" by blast
  then obtain w where w: "import_finish (\<lambda>_. []) sample_env sample_manager 9 (\<lambda>_. Some ''q'') smooth (iq_revision (sample_import url)) plan
      (cr_world ((sample_run ns)\<lparr>cr_pending := [(sample_import url, sample_doc ns)]\<rparr>)) = (None, w)" "cw_db w = db'"
    by (simp add: import_finish_def commitState_def smooth_def apply_config_def sample_run_def sample_import_def)
  have digests: "\<forall>urls. subscriptionURLs url = Inr urls \<longrightarrow> digests_ok sample_env urls"
    using assms sample_urls sample_digests by auto
  have "pool_ok (cs_nodes (ck_doc db'))"
  proof -
    have "nul \<noteq> CHR ''a''" "nul \<noteq> CHR ''b''" by code_simp+
    then show ?thesis using assms by (auto simp: db'(2) pool_ok_def sample_found_def sample_bound_def)
  qed
  from normalize_state_pool [OF this] plan w db' digests show ?thesis by auto
qed

lemma sample_run_doc: "pool_ok ns \<Longrightarrow> stored_nodes sample_env (run_doc ((sample_run ns)\<lparr>cr_pending := p\<rparr>)) = ns"
  using sample_stored by (simp add: sample_run_def sample_clash_db_def)

section \<open>Witnesses\<close>



lemma new_node_binding_witness:
  "nd_port (sample_bound [] ''a'') = 20000 \<and> (9::int) \<le> nd_proxy_id (sample_bound [] ''a'')"
proof -
  obtain plan w where f:
    "import_prepare sample_env sample_manager sample_answers False (sample_doc []) (sample_import ''a'') = Inr plan"
    "\<forall>urls. subscriptionURLs (ip_raw plan) = Inr urls \<longrightarrow> digests_ok sample_env urls"
    "import_finish (\<lambda>_. []) sample_env sample_manager 9 (\<lambda>_. Some ''q'') smooth (iq_revision (sample_import ''a'')) plan
      (cr_world ((sample_run [])\<lparr>cr_pending := [(sample_import ''a'', sample_doc [])]\<rparr>)) = (None, w)"
    "stored_nodes sample_env (ck_doc (cw_db w)) = [sample_bound [] ''a'']"
    using sample_finished [of "''a''" "[]"] by auto
  from new_node_binding [OF sample_pending _ f(1-3), of "sample_bound [] ''a''"] sample_run_doc [OF sample_pool(2)] f(4)
  have "ck_next_proxy (cw_db (cr_world (sample_run []))) \<le> nd_proxy_id (sample_bound [] ''a'')" by simp
  then show ?thesis by (simp add: sample_run_def sample_clash_db_def sample_bound_def)
qed


end
