(* ===== verification/ClashRuntime.thy ===== *)
theory ClashRuntime
  imports ClashRuns
begin

text \<open>
  What an import leaves behind outside the document: the configuration of the runtime after each outcome, and the accounts, policies
  and proxies that referred to a removed node.
\<close>

section \<open>The runtime and the document\<close>

definition in_sync :: "(clash_state \<Rightarrow> string) \<Rightarrow> clash_world \<Rightarrow> bool" where
  "in_sync digest w \<longleftrightarrow> cw_runtime w = Some (runtimeConfig digest (ck_doc (cw_db w)))"

definition restored :: "attempt \<Rightarrow> bool" where
  "restored a \<longleftrightarrow> (case at_restore a of None \<Rightarrow> False | Some f \<Rightarrow> cf_done f)"

lemma restore_sync:
  "in_sync digest w \<or> restored a \<Longrightarrow> in_sync digest (restorePersisted digest (at_restore a) w)"
  by (auto simp: in_sync_def restored_def restorePersisted_def apply_config_def split: option.splits)

lemma commitState_sync:
  assumes "in_sync digest w" "attempt_ok a" "commitState digest a db' w = (e, w')"
  shows "e = None \<or> restored a \<or> \<not> cf_done (at_apply a) \<Longrightarrow> in_sync digest w'"
    and "e = None \<Longrightarrow> cw_db w' = db'" and "e = Some ApplyFailed \<Longrightarrow> cw_db w' = cw_db w"
    and "e \<in> {None, Some ApplyFailed, Some CommitFailed}"
proof -
  have ok: "cf_reported (at_apply a) \<Longrightarrow> cf_done (at_apply a)" "cf_reported (at_commit a) \<Longrightarrow> cf_done (at_commit a)"
    using assms(2) by (simp_all add: attempt_ok_def fate_ok_def)
  show "e = None \<or> restored a \<or> \<not> cf_done (at_apply a) \<Longrightarrow> in_sync digest w'"
    using assms(1,3) ok restore_sync [of digest _ a]
    by (auto simp: commitState_def Let_def apply_config_def in_sync_def split: if_splits)
  show "e = None \<Longrightarrow> cw_db w' = db'" "e = Some ApplyFailed \<Longrightarrow> cw_db w' = cw_db w"
    "e \<in> {None, Some ApplyFailed, Some CommitFailed}"
    using assms(3) ok by (auto simp: commitState_def Let_def apply_config_def split: if_splits)
qed

text \<open>A refresh of the observations does not reach the configuration, not even through the identities that normalization fills in.\<close>

lemma normalize_config:
  "runtimeConfig digest ((normalize_state sid hint s)\<lparr>cs_sources := x\<rparr>) = runtimeConfig digest s"
proof -
  have same: "(normalize_node urls srcs n)\<lparr>nd_source_id := [], nd_original_name := []\<rparr> = n\<lparr>nd_source_id := [], nd_original_name := []\<rparr>"
    and fields: "nd_config (normalize_node urls srcs n) = nd_config n" "node_target (normalize_node urls srcs n) = node_target n"
    for urls srcs n by (simp_all add: normalize_node_def node_target_def Let_def)
  have "marker digest ((normalize_state sid hint s)\<lparr>cs_sources := x\<rparr>) = marker digest s"
    by (simp add: marker_def normalize_state_def Let_def comp_def same)
  then show ?thesis
    by (simp add: runtimeConfig_def normalize_state_def Let_def filter_map comp_def fields)
qed

lemma refresh_sync: "in_sync digest w \<Longrightarrow> in_sync digest (refresh_finish env s obs committed w)"
  by (simp add: in_sync_def refresh_finish_def Let_def normalize_config)

text \<open>C18: If the runtime runs the stored document, it does so after an import as well: after a success it runs the new document, under
  the next revision; after a refusal nothing has changed; and when the push or the commit fails, even with an
  unknown outcome, it runs whichever document is stored, provided that the push that restores reaches it. A refresh
  of the feeds between imports never calls for a reload.\<close>

theorem runtime_follows_document:
  assumes "in_sync digest w" "attempt_ok a" "import_finish digest env m now rand a revision plan w = (e, w')"
  shows "((e \<in> {Some ApplyFailed, Some CommitFailed} \<longrightarrow> restored a \<or> \<not> cf_done (at_apply a)) \<longrightarrow> in_sync digest w') \<and>
    (e = None \<longrightarrow> cs_revision (ck_doc (cw_db w')) = cs_revision (ck_doc (cw_db w)) + 1) \<and>
    (e \<noteq> None \<longrightarrow> e \<noteq> Some CommitFailed \<longrightarrow> cw_db w' = cw_db w) \<and>
    (in_sync digest w' \<longrightarrow> in_sync digest (refresh_finish env s obs committed w'))"
proof (cases "\<exists>db'. at_statements a \<and> import_tx env m now rand revision plan (cw_db w) = Inr db'")
  case True
  then obtain db' where tx: "import_tx env m now rand revision plan (cw_db w) = Inr db'" and "at_statements a" by blast
  with assms(3) have c: "commitState digest a db' w = (e, w')" by (simp add: import_finish_def)
  have "cs_revision (ck_doc db') = cs_revision (ck_doc (cw_db w)) + 1" by (rule import_tx_result [OF tx]) simp
  with commitState_sync [OF assms(1,2) c] refresh_sync [of digest w' env s obs committed] show ?thesis by auto
next
  case False
  with assms(3) have "w' = w" "e \<noteq> None" by (auto simp: import_finish_def split: if_splits sum.splits)
  with assms(1) refresh_sync [of digest w' env s obs committed] show ?thesis by simp
qed

section \<open>Removed nodes\<close>

lemma member_opt_Some: "member_opt ids v \<longleftrightarrow> (\<exists>i. v = Some i \<and> i \<in> set ids)"
  by (auto simp: member_opt_def split: option.splits)

lemma detach_row_fields:
  "ar_id (detach_row ids a) = ar_id a"
  "\<not> member_opt ids (ar_proxy_id (detach_row ids a))" "\<not> member_opt ids (ar_fallback_origin (detach_row ids a))"
  "member_opt ids (ar_proxy_id a) \<Longrightarrow> \<not> ar_schedulable (detach_row ids a) \<and> ar_status (detach_row ids a) = ''error''"
  "\<not> row_touched ids a \<Longrightarrow> detach_row ids a = a"
  by (auto simp: detach_row_def row_touched_def member_opt_def Let_def)

lemma retire_policies_map_of:
  assumes "distinct (map fst rows)" "map_of rows aid = Some f"
  shows "map_of (retire_policies ids rows) aid =
    (if fo_primary f \<in> set ids then None
     else Some (if list_ex (\<lambda>b. b \<in> set ids) (fo_backups f)
                then f\<lparr>fo_backups := filter (\<lambda>b. b \<notin> set ids) (fo_backups f), fo_revision := fo_revision f + 1\<rparr> else f))"
  using assms
proof (induction rows)
  case (Cons r rows)
  obtain i g where r: "r = (i, g)" by (cases r)
  have "map_of (retire_policies ids rows) i = None" if "i \<notin> fst ` set rows" for i
    using that by (force simp: retire_policies_def map_of_eq_None_iff)
  with Cons show ?case by (auto simp: r retire_policies_def split: if_splits)
qed simp

lemma retire_policies_refs:
  "(i, f) \<in> set (retire_policies ids rows) \<Longrightarrow> fo_primary f \<notin> set ids \<and> set (fo_backups f) \<inter> set ids = {}"
  by (auto simp: retire_policies_def list_ex_iff split: if_splits)

lemma backup_kept: "ck_backup (retireProxies ids db) i = Some (Some b, mode) \<Longrightarrow> ids \<noteq> [] \<Longrightarrow> b \<notin> set ids"
  by (auto simp: retireProxies_def Let_def split: if_splits option.splits)

lemma retired_outbox:
  "\<exists>news. st_outbox (ck_store (retireProxies ids db)) = st_outbox (ck_store db) @ news \<and>
     concat news = map ar_id (filter (row_touched ids) (st_accounts (ck_store db))) \<and> (\<forall>ch \<in> set news. length ch \<le> 500)"
proof (cases "ids = []")
  case True
  moreover have "filter (row_touched []) rows = []" for rows
    by (auto simp: filter_empty_conv row_touched_def member_opt_Some)
  ultimately show ?thesis by (simp add: retireProxies_def)
next
  case False
  then have "st_outbox (ck_store (retireProxies ids db)) = st_outbox (ck_store db) @
      allocationOutbox (map ar_id (filter (row_touched ids) (st_accounts (ck_store db))))"
    by (simp add: retireProxies_def Let_def delete_proxies_def)
  with outbox_concat outbox_sizes show ?thesis by blast
qed

text \<open>What becomes of an account.\<close>

definition released :: "int list \<Rightarrow> account_row \<Rightarrow> account_row \<Rightarrow> bool" where
  "released ids a a' \<longleftrightarrow>
     ar_id a' = ar_id a \<and> \<not> member_opt ids (ar_proxy_id a') \<and> \<not> member_opt ids (ar_fallback_origin a') \<and>
     (if member_opt ids (ar_proxy_id a) then ar_proxy_id a' = None \<and> \<not> ar_schedulable a' \<and> ar_status a' = ''error''
      else ar_proxy_id a' = ar_proxy_id a \<and> ar_schedulable a' = ar_schedulable a \<and> ar_status a' = ar_status a) \<and>
     (\<not> row_touched ids a \<longrightarrow> a' = a)"

lemma detach_released: "released ids a (detach_row ids a)"
  using detach_row_fields [of ids a] by (auto simp: released_def detach_row_def Let_def)

text \<open>C17: Removing nodes fails closed: afterwards no proxy row, account, failover policy or backup setting refers to one of them; an
  account that used one, which without a proxy would go out directly, is in error, is not schedulable and is announced to the
  schedulers, in messages of at most 500 accounts; an account that did not refer to them is untouched.\<close>

theorem retired_proxies_released:
  assumes "ids \<noteq> []" "db' = retireProxies ids db"
  shows "px_id ` set (st_proxies (ck_store db')) \<inter> set ids = {} \<and>
    (\<forall>(i, f) \<in> set (st_failover (ck_store db')). set (fo_primary f # fo_backups f) \<inter> set ids = {}) \<and>
    (\<forall>i b mode. ck_backup db' i = Some (Some b, mode) \<longrightarrow> b \<notin> set ids) \<and>
    list_all2 (released ids) (st_accounts (ck_store db)) (st_accounts (ck_store db')) \<and>
    (\<exists>news. st_outbox (ck_store db') = st_outbox (ck_store db) @ news \<and>
      concat news = map ar_id (filter (row_touched ids) (st_accounts (ck_store db))) \<and> (\<forall>ch \<in> set news. length ch \<le> 500))"
proof (intro conjI)
  show "px_id ` set (st_proxies (ck_store db')) \<inter> set ids = {}" by (auto simp: assms(2) retireProxies_fields)
  show "\<forall>(i, f) \<in> set (st_failover (ck_store db')). set (fo_primary f # fo_backups f) \<inter> set ids = {}"
    using retire_policies_refs by (fastforce simp: assms(2) retireProxies_fields)
  show "\<forall>i b mode. ck_backup db' i = Some (Some b, mode) \<longrightarrow> b \<notin> set ids" using backup_kept assms by blast
  show "list_all2 (released ids) (st_accounts (ck_store db)) (st_accounts (ck_store db'))"
    by (simp add: assms(2) retireProxies_fields list.rel_map detach_released list.rel_refl)
qed (simp add: assms(2) retired_outbox)

text \<open>C27: A failover check that read an account's policy before an import removed a proxy of that policy, and comes to switch the account
  afterwards, changes nothing: the policy is gone or its revision has moved on.\<close>

theorem stale_failover_harmless:
  assumes "distinct (map fst rows)" "map_of rows aid = Some f" "pol_revision a = fo_revision f"
    and "set (fo_primary f # fo_backups f) \<inter> set ids \<noteq> {}" "db_policies fdb = retire_policies ids rows"
  shows "switchProxy now aid a nxt ps hs fdb \<in> {Inr fdb, Inl NoRows}"
proof (cases "fo_primary f \<in> set ids")
  case True
  then show ?thesis using retire_policies_map_of [OF assms(1,2), of ids] assms(5)
    by (simp add: switchProxy_def Let_def split: option.split)
next
  case False
  with assms(4) have "list_ex (\<lambda>b. b \<in> set ids) (fo_backups f)" by (auto simp: list_ex_iff)
  then show ?thesis using retire_policies_map_of [OF assms(1,2), of ids] assms(3,5) False
    by (simp add: switchProxy_def Let_def split: option.split)
qed

section \<open>Witnesses\<close>

definition sample_world :: clash_world where
  "sample_world = \<lparr>cw_db = sample_clash_db [sample_node],
     cw_runtime = Some (runtimeConfig (\<lambda>_. []) (sample_doc [sample_node]))\<rparr>"

text \<open>The push takes effect but is not confirmed; the push that restores succeeds.\<close>

definition shaky :: attempt where
  "shaky = \<lparr>at_statements = True, at_apply = \<lparr>cf_done = True, cf_reported = False\<rparr>,
     at_commit = \<lparr>cf_done = False, cf_reported = False\<rparr>, at_restore = Some \<lparr>cf_done = True, cf_reported = True\<rparr>\<rparr>"

lemma runtime_follows_document_witness:
  "\<exists>plan w'. import_finish (\<lambda>_. []) sample_env sample_manager 9 (\<lambda>_. Some ''q'') shaky 4 plan sample_world = (Some ApplyFailed, w') \<and>
     in_sync (\<lambda>_. []) w' \<and> cw_db w' = cw_db sample_world"
proof -
  obtain plan :: import_plan where plan: "ip_fetched plan = [sample_found ''a'']" "ip_selected plan = [''A'']"
    using sample_plan [of "''a''" "[sample_node]"] by auto
  obtain db' where "import_tx sample_env sample_manager 9 (\<lambda>_. Some ''q'') 4 plan (sample_clash_db [sample_node]) = Inr db'"
    using sample_tx [OF plan, of "[sample_node]"] by auto
  then obtain w' where w': "import_finish (\<lambda>_. []) sample_env sample_manager 9 (\<lambda>_. Some ''q'') shaky 4 plan sample_world =
      (Some ApplyFailed, w')"
    by (simp add: import_finish_def commitState_def shaky_def sample_world_def)
  have "in_sync (\<lambda>_. []) sample_world" by (simp add: in_sync_def sample_world_def sample_clash_db_def)
  moreover have "attempt_ok shaky" by (simp add: attempt_ok_def fate_ok_def shaky_def)
  moreover have "restored shaky" by (simp add: restored_def shaky_def)
  ultimately have "in_sync (\<lambda>_. []) w' \<and> cw_db w' = cw_db sample_world"
    using runtime_follows_document [OF _ _ w'] by simp
  with w' show ?thesis by blast
qed

lemma retired_proxies_released_witness:
  "list_all2 (released [8]) (st_accounts (ck_store (sample_clash_db [sample_node])))
     (st_accounts (ck_store (retireProxies [8] (sample_clash_db [sample_node]))))"
  using retired_proxies_released [of "[8]" "retireProxies [8] (sample_clash_db [sample_node])" "sample_clash_db [sample_node]"] by simp

definition stale_db :: fo_db where
  "stale_db = demo_db\<lparr>db_policies := retire_policies [8] (db_policies demo_db)\<rparr>"

lemma stale_failover_harmless_witness:
  "switchProxy 5 1 demo_pool 8 Map.empty Map.empty stale_db \<in> {Inr stale_db, Inl NoRows}"
  by (rule stale_failover_harmless [of "db_policies demo_db" _ "\<lparr>fo_enabled = True, fo_primary = 7, fo_backups = [8], fo_revision = 1\<rparr>"])
    (simp_all add: demo_db_def demo_pool_def stale_db_def)

end
