(* ===== verification/ClashSafety.thy ===== *)
theory ClashSafety
  imports ClashRuns
begin

text \<open>
  What the runtime is ever told to run. A node's configuration is checked when its feed is read (\<open>normalizeProxyConfigs\<close>); from there it
  goes through the fetch, the merge with the stored nodes, the document and the marker into the runtime, without another check.
\<close>

section \<open>Checked configurations\<close>

definition safe_config :: "node_config \<Rightarrow> bool" where
  "safe_config cfg \<longleftrightarrow>
     (\<exists>kind \<in> set supported_types. gm_get cfg ''type'' = Some (YStr kind)) \<and>
     (\<exists>host. gm_get cfg ''server'' = Some (YStr host) \<and> host \<noteq> []) \<and>
     (\<exists>port. gm_get cfg ''port'' = Some (YInt port) \<and> 1 \<le> port \<and> port \<le> 65535) \<and>
     (\<forall>key \<in> {''dialer-proxy'', ''interface-name'', ''routing-mark''}. gm_get cfg key = None) \<and>
     inline_only (YMap cfg)"

definition safe_nodes :: "clash_node list \<Rightarrow> bool" where
  "safe_nodes ns \<longleftrightarrow> (\<forall>n \<in> set ns. safe_config (nd_config n))"

lemma safe_nodes_simps [simp]:
  "safe_nodes []" "safe_nodes (n # ns) \<longleftrightarrow> safe_config (nd_config n) \<and> safe_nodes ns"
  "safe_nodes (ns1 @ ns) \<longleftrightarrow> safe_nodes ns1 \<and> safe_nodes ns"
  by (auto simp: safe_nodes_def)

lemma safe_nodes_map: "(\<And>n. nd_config (f n) = nd_config n) \<Longrightarrow> safe_nodes (map f ns) \<longleftrightarrow> safe_nodes ns"
  by (simp add: safe_nodes_def)

lemma safe_nodes_filter: "safe_nodes ns \<Longrightarrow> safe_nodes (filter P ns)"
  by (simp add: safe_nodes_def)

lemma node_ok_safe: "node_ok n \<Longrightarrow> safe_config (nd_config n)"
  by (auto simp: node_ok_def safe_config_def)

lemma safe_config_name: "safe_config cfg \<Longrightarrow> safe_config (gm_set ''name'' (YStr name) cfg)"
  by (simp add: safe_config_def gm_get_set inline_only_set entry_inline_def)

lemma safe_rename: "safe_config (nd_config n) \<Longrightarrow> safe_config (nd_config (rename name n))"
  by (simp add: rename_def safe_config_name)

lemma safe_normalized: "safe_nodes (cs_nodes (normalize_state sid hint s)) \<longleftrightarrow> safe_nodes (cs_nodes s)"
  by (simp add: normalize_state_def Let_def safe_nodes_map normalize_node_def)

section \<open>From the feed to the document\<close>

lemma fetchFeed_safe:
  assumes "fetchFeed env now raw i response = (nodes, src)"
  shows "safe_nodes nodes"
proof -
  have "nodes = [] \<or> (\<exists>b parsed. parseSubscription (fe_yaml env) (fe_url env) (take (maxBody + 1) b) = Inr parsed \<and>
      nodes = map (\<lambda>n. n\<lparr>nd_source_id := fe_sid env raw, nd_original_name := nd_name n\<rparr>) parsed)"
    using assms
    by (cases response) (auto simp: fetchFeed_def Let_def split: if_splits option.splits sum.splits)
  moreover have "safe_nodes parsed" if "parseSubscription dec ParseURL body = Inr parsed" for parsed dec ParseURL body
  proof -
    from that obtain cfgs where "normalizeProxyConfigs cfgs = Inr parsed"
      by (auto simp: parseSubscription_def split: if_splits option.splits list.splits sum.splits)
    from normalized_nodes(3) [OF this] node_ok_safe show ?thesis by (auto simp: safe_nodes_def)
  qed
  ultimately show ?thesis by (auto simp: safe_nodes_map)
qed

lemma fetch_safe:
  assumes "fetchSubscriptionDetails env answers raw = Inr (found, sources)"
  shows "safe_nodes found"
proof -
  have one: "safe_nodes (fst (fetch_one env answers several j))" for several j
  proof (cases j)
    case (Pair i u)
    show ?thesis
    proof (cases "answers i")
      case (Some x)
      obtain t response where x: "x = (t, response)" by (cases x)
      obtain nodes src where f: "fetchFeed env t u i response = (nodes, src)" by (cases "fetchFeed env t u i response")
      from fetchFeed_safe [OF f] safe_rename show ?thesis
        by (auto simp: fetch_one_def Pair Some x f safe_nodes_def)
    qed (simp add: fetch_one_def Pair)
  qed
  from assms obtain urls where "found = concat (map (\<lambda>j. fst (fetch_one env answers (length urls > 1) j)) (enumerate 1 urls))"
    by (auto simp: fetchSubscriptionDetails_def Let_def comp_def split: sum.splits)
  with one show ?thesis by (auto simp: safe_nodes_def)
qed

lemma assign_names_safe: "safe_nodes ns \<Longrightarrow> safe_nodes (assign_names known used ns)"
  by (induction known used ns rule: assign_names.induct) (auto simp: safe_rename Let_def)

lemma preserve_safe:
  assumes "safe_nodes found" "safe_nodes (cs_nodes s)" "preserveFailedSources env s found sources = (ns, retained)"
  shows "safe_nodes ns"
proof -
  have stored: "nd_config (stored_name existing n) = nd_config n" for existing and n :: clash_node
    by (simp add: stored_name_def split: option.split)
  from assms show ?thesis
    by (auto simp: preserveFailedSources_def Let_def stored safe_normalized
        intro!: assign_names_safe safe_nodes_map [THEN iffD2] safe_nodes_filter)
qed

lemma plan_safe:
  assumes "plan_import env answers s rq = Inr plan" "safe_nodes (cs_nodes s)"
  shows "safe_nodes (ip_fetched plan)"
proof -
  define raw where "raw = (if trim_space (iq_url rq) = [] then cs_url s else trim_space (iq_url rq))"
  obtain found sources where f: "fetchSubscriptionDetails env answers raw = Inr (found, sources)"
    using assms(1) by (cases "fetchSubscriptionDetails env answers raw") (auto simp: plan_import_def raw_def)
  obtain ns retained where p: "preserveFailedSources env s found sources = (ns, retained)"
    by (cases "preserveFailedSources env s found sources")
  have "ip_fetched plan = ns"
    using assms(1) f p by (simp only: plan_import_def raw_def [symmetric] Let_def sum.case prod.case) (auto split: if_splits)
  with preserve_safe [OF fetch_safe [OF f] assms(2) p] show ?thesis by simp
qed

lemma bind_safe: "bind_nodes m now rand old selected b ns = Inr (bound, b') \<Longrightarrow> safe_nodes ns \<Longrightarrow> safe_nodes bound"
proof (induction ns arbitrary: b bound)
  case (Cons n ns)
  then show ?case by (auto simp: Let_def split: if_splits option.splits sum.splits)
qed simp

lemma import_tx_safe:
  assumes "import_tx env m now rand revision plan db = Inr db'" "safe_nodes (ip_fetched plan)" "safe_nodes (cs_nodes (ck_doc db))"
  shows "safe_nodes (cs_nodes (ck_doc db'))"
proof -
  obtain bound b where "bind_nodes m now rand (carried plan (stored_nodes env (ck_doc db))) (ip_selected plan)
       \<lparr>bs_port = mg_port_start m, bs_used = map nd_port (stored_nodes env (ck_doc db)), bs_next_id = ck_next_proxy db, bs_rows = []\<rparr>
       (ip_fetched plan) = Inr (bound, b)"
    and nodes: "cs_nodes (ck_doc db') = filter (parked (ip_sources plan)) (stored_nodes env (ck_doc db)) @ bound"
    by (rule import_tx_result [OF assms(1)])
  from bind_safe [OF this(1) assms(2)] assms(3) show ?thesis
    by (simp add: nodes safe_nodes_filter safe_normalized)
qed

section \<open>The configuration of the runtime\<close>

text \<open>
  Every listener has a port of its own and leads to a node of its own: there is exactly one configuration under its target's name,
  it carries that name, and it is checked.
\<close>

definition config_ok :: "runtime_config \<Rightarrow> bool" where
  "config_ok c \<longleftrightarrow>
     distinct (map ln_port (rc_listeners c)) \<and> distinct (map fst (rc_proxies c)) \<and>
     map ln_target (rc_listeners c) = map fst (rc_proxies c) \<and>
     (\<forall>(target, cfg) \<in> set (rc_proxies c). safe_config cfg \<and> gm_get cfg ''name'' = Some (YStr target))"

lemma id_text_inject: "id_text i = id_text j \<longleftrightarrow> i = j"
proof
  have "CHR ''-'' \<notin> set (decimal n)" for n
  proof
    assume "CHR ''-'' \<in> set (decimal n)"
    then obtain d where d: "d < 10" "CHR ''-'' = char_of (48 + (d :: nat))" by (blast dest: decimal_digits)
    from arg_cong [OF d(2), of "of_char :: char \<Rightarrow> nat"] d(1) show False by simp
  qed
  then have "decimal n \<noteq> CHR ''-'' # x" for n x by (metis list.set_intros(1))
  note this [simp] this [symmetric, simp]
  assume "id_text i = id_text j"
  then show "i = j" by (auto simp: id_text_def split: if_splits)
qed simp

lemma runtimeConfig_ok:
  assumes "pool_ok ns" "safe_nodes ns" "map nd_port ns = map nd_port (cs_nodes s)" "map nd_proxy_id ns = map nd_proxy_id (cs_nodes s)"
    and "map nd_enabled ns = map nd_enabled (cs_nodes s)" "map nd_config ns = map nd_config (cs_nodes s)"
  shows "config_ok (runtimeConfig digest s)"
proof -
  let ?ns = "cs_nodes s"
  have enabled: "nd_enabled n" if "n \<in> set ?ns" for n
  proof -
    have "nd_enabled n \<in> set (map nd_enabled ns)" using that by (simp add: assms(5))
    with assms(1) show ?thesis by (auto simp: pool_ok_def)
  qed
  then have all: "filter nd_enabled ?ns = ?ns" by (simp add: filter_id_conv)
  have target: "map node_target ?ns = map (\<lambda>n. ''sub2api-node-'' @ id_text (nd_proxy_id n)) ?ns"
    using enabled by (simp add: node_target_def)
  have "distinct (map nd_proxy_id ?ns)" "distinct (map nd_port ?ns)"
    using assms(1) by (simp_all add: pool_ok_def flip: assms(3,4))
  moreover have "safe_config (nd_config n)" if "n \<in> set ?ns" for n
  proof -
    have "nd_config n \<in> set (map nd_config ns)" using that by (simp add: assms(6))
    with assms(2) show ?thesis by (auto simp: safe_nodes_def)
  qed
  moreover have "distinct (map node_target ?ns) = distinct (map nd_proxy_id ?ns)"
    unfolding target distinct_map by (simp add: inj_on_def id_text_inject)
  ultimately show ?thesis
    by (auto simp: config_ok_def runtimeConfig_def all comp_def gm_get_set safe_config_name)
qed

definition runtime_ok :: "clash_world \<Rightarrow> bool" where
  "runtime_ok w \<longleftrightarrow> (case cw_runtime w of None \<Rightarrow> True | Some c \<Rightarrow> config_ok c)"

lemma doc_config_ok:
  assumes "pool_ok (stored_nodes env s)" "safe_nodes (cs_nodes s)"
  shows "config_ok (runtimeConfig digest s)"
proof (rule runtimeConfig_ok [OF assms(1)])
  show "safe_nodes (stored_nodes env s)" using assms(2) by (simp add: safe_normalized)
  have "nd_config (normalize_node urls srcs n) = nd_config n" for urls srcs n by (simp add: normalize_node_def Let_def)
  then show "map nd_config (stored_nodes env s) = map nd_config (cs_nodes s)"
    by (simp add: normalize_state_def Let_def comp_def)
qed (simp_all add: normalize_state_def Let_def comp_def)

lemma apply_runtime_ok: "runtime_ok w \<Longrightarrow> config_ok (runtimeConfig digest s) \<Longrightarrow> runtime_ok (apply_config digest f s w)"
  by (simp add: runtime_ok_def apply_config_def)

lemma commitState_runtime_ok:
  assumes "runtime_ok w" "config_ok (runtimeConfig digest (ck_doc (cw_db w)))" "config_ok (runtimeConfig digest (ck_doc db'))"
    and "commitState digest a db' w = (e, w')"
  shows "runtime_ok w'"
proof -
  have restore: "runtime_ok (restorePersisted digest f v)" if "runtime_ok v" "ck_doc (cw_db v) \<in> {ck_doc (cw_db w), ck_doc db'}" for f v
    using that assms(2,3) by (auto simp: restorePersisted_def intro: apply_runtime_ok split: option.split)
  have "cw_db (apply_config digest f s w) = cw_db w" for f s by (simp add: apply_config_def)
  moreover have "runtime_ok (v\<lparr>cw_db := db\<rparr>) = runtime_ok v" for v db by (simp add: runtime_ok_def)
  moreover have "runtime_ok (apply_config digest (at_apply a) (ck_doc db') w)" by (rule apply_runtime_ok [OF assms(1,3)])
  ultimately show ?thesis
    using assms(4) restore by (auto simp: commitState_def Let_def split: if_splits)
qed

section \<open>Every interleaving\<close>

definition run_safe :: "clash_run \<Rightarrow> bool" where
  "run_safe r \<longleftrightarrow>
     safe_nodes (cs_nodes (run_doc r)) \<and> (\<forall>(rq, s) \<in> set (cr_pending r). safe_nodes (cs_nodes s)) \<and> runtime_ok (cr_world r)"

lemma finish_safe:
  assumes ok: "run_ok env m r" and safe: "run_safe r" and p: "(rq, snapshot) \<in> set (cr_pending r)"
    and plan: "import_prepare env m answers cancelled snapshot rq = Inr plan"
    and digests: "\<forall>urls. subscriptionURLs (ip_raw plan) = Inr urls \<longrightarrow> digests_ok env urls"
    and fin: "import_finish digest env m now rand a (iq_revision rq) plan (cr_world r) = (e, w)"
  shows "safe_nodes (cs_nodes (ck_doc (cw_db w))) \<and> runtime_ok w"
proof (cases "\<exists>db'. at_statements a \<and> import_tx env m now rand (iq_revision rq) plan (cw_db (cr_world r)) = Inr db'")
  case False
  with fin have "w = cr_world r" by (auto simp: import_finish_def split: if_splits sum.splits)
  with safe show ?thesis by (simp add: run_safe_def)
next
  case True
  then obtain db' where "at_statements a" and tx: "import_tx env m now rand (iq_revision rq) plan (cw_db (cr_world r)) = Inr db'" by blast
  with fin have c: "commitState digest a db' (cr_world r) = (e, w)" by (simp add: import_finish_def)
  have "safe_nodes (cs_nodes snapshot)" using safe p by (auto simp: run_safe_def)
  from plan_safe [OF prepare_plan [OF plan] this] have new: "safe_nodes (cs_nodes (ck_doc db'))"
    using import_tx_safe [OF tx] safe by (simp add: run_safe_def)
  have "pool_ok (stored_nodes env (ck_doc db'))"
    using good_import_doc(1,3) [OF finish_good [OF ok p plan digests tx]] by simp
  then have "runtime_ok w"
    using ok safe new by (intro commitState_runtime_ok [OF _ _ _ c] doc_config_ok) (auto simp: run_ok_def run_safe_def)
  with commitState_db [OF c] new safe show ?thesis by (auto simp: run_safe_def)
qed

lemma refresh_safe:
  "safe_nodes (cs_nodes (ck_doc (cw_db (refresh_finish env s obs committed w)))) = safe_nodes (cs_nodes (ck_doc (cw_db w)))"
  "runtime_ok (refresh_finish env s obs committed w) = runtime_ok w"
  by (simp_all add: refresh_finish_def Let_def safe_normalized runtime_ok_def)

lemma reconcile_runtime_ok:
  assumes "pool_ok (stored_nodes env (ck_doc (cw_db w)))" "safe_nodes (cs_nodes (ck_doc (cw_db w)))" "runtime_ok w"
    and "reconcile digest now ready a w = (e, w')"
  shows "runtime_ok w'"
proof -
  have "filter (\<lambda>n. \<not> nd_enabled n) (cs_nodes (ck_doc (cw_db w))) = []"
    using assms(1) by (auto simp: filter_empty_conv pool_ok_def normalize_state_def Let_def)
  with assms(3,4) doc_config_ok [OF assms(1,2)] show ?thesis
    by (auto simp: reconcile_def Let_def apply_runtime_ok split: if_splits)
qed

lemma step_safe:
  assumes "clash_step digest env m r r'" "run_ok env m r" "run_safe r"
  shows "run_safe r'"
  using assms
proof (induction rule: clash_step.induct)
  case (finish rq snapshot r answers cancelled plan now rand a e w)
  have "set (remove1 (rq, snapshot) (cr_pending r)) \<subseteq> set (cr_pending r)" by (rule set_remove1_subset)
  with finish_safe [OF finish(5,6,1,2,3,4)] finish(6) show ?case by (auto simp: run_safe_def)
next
  case (give_up p r)
  have "set (remove1 p (cr_pending r)) \<subseteq> set (cr_pending r)" by (rule set_remove1_subset)
  with give_up show ?case by (auto simp: run_safe_def)
next
  case (refresh_end s r now answers committed)
  then show ?case by (simp add: run_safe_def refresh_safe)
next
  case (reconciled now ready a r e w)
  have "pool_ok (stored_nodes env (run_doc r))" using reconciled(2) by (simp add: run_ok_def)
  from reconcile_db [OF this reconciled(1)] reconcile_runtime_ok [OF this _ _ reconciled(1)] reconciled(3)
  show ?case by (simp add: run_safe_def)
qed (auto simp: run_safe_def runtime_ok_def)

text \<open>C8: From a run whose stored and running configurations are checked, every interleaving leaves the runtime at a checked
  configuration, also after pushes and commits that failed: every node in it has a supported protocol, a host and a port, chains
  through no other node and names no local file, and every listener has a port of its own and leads to a node of its own.\<close>

theorem runtime_configs_safe:
  assumes "clash_reach digest env m r" "run_safe r" "(clash_step digest env m)\<^sup>*\<^sup>* r r'" "cw_runtime (cr_world r') = Some c"
  shows "config_ok c"
proof -
  from assms(3) have "clash_reach digest env m r' \<and> run_safe r'"
  proof (induction rule: rtranclp_induct)
    case (step y z)
    then show ?case using clash_reach.step step_safe reach_ok by blast
  qed (use assms(1,2) in simp)
  with assms(4) show ?thesis by (simp add: run_safe_def runtime_ok_def)
qed


lemma runtime_configs_safe_witness:
  "\<exists>plan w c. import_finish (\<lambda>_. []) sample_env sample_manager 9 (\<lambda>_. Some ''q'') smooth 4 plan (cr_world (sample_run [])) = (None, w) \<and>
     cw_runtime w = Some c \<and> config_ok c"
proof -
  let ?r = "(sample_run [])\<lparr>cr_pending := [(sample_import ''a'', sample_doc [])]\<rparr>"
  obtain plan w where f:
    "import_prepare sample_env sample_manager sample_answers False (sample_doc []) (sample_import ''a'') = Inr plan"
    "\<forall>urls. subscriptionURLs (ip_raw plan) = Inr urls \<longrightarrow> digests_ok sample_env urls"
    "import_finish (\<lambda>_. []) sample_env sample_manager 9 (\<lambda>_. Some ''q'') smooth (iq_revision (sample_import ''a'')) plan (cr_world ?r) = (None, w)"
    using sample_finished [of "''a''" "[]"] by auto
  from f(3) obtain c where c: "cw_runtime w = Some c"
    by (auto simp: import_finish_def commitState_def smooth_def apply_config_def Let_def split: sum.splits)
  let ?r' = "?r\<lparr>cr_world := w, cr_pending := remove1 (sample_import ''a'', sample_doc []) (cr_pending ?r)\<rparr>"
  have "clash_step (\<lambda>_. []) sample_env sample_manager ?r ?r'" by (rule clash_step.finish [OF _ f]) simp
  then have steps: "(clash_step (\<lambda>_. []) sample_env sample_manager)\<^sup>*\<^sup>* ?r ?r'" by (rule r_into_rtranclp)
  have reach: "clash_reach (\<lambda>_. []) sample_env sample_manager ?r" by (rule sample_pending) simp
  have safe: "run_safe ?r" by (simp add: run_safe_def sample_run_def sample_clash_db_def sample_doc_def runtime_ok_def)
  have "cw_runtime (cr_world ?r') = Some c" by (simp add: c)
  from runtime_configs_safe [OF reach safe steps this] c f(3) show ?thesis
    by (intro exI [of _ plan] exI [of _ w] exI [of _ c]) (simp add: sample_import_def)
qed

end
