(* ===== verification/ClashViews.thy ===== *)
theory ClashViews
  imports ClashSafety
begin

text \<open>
  What an operator sees and exports (\<open>internal/clash/manager.go\<close>, \<open>feed_batch.go\<close>): the view of the document, the preview of an import, the check
  of one feed, and the exported subscription. A document that cannot be read is the caller's error and not modelled here.
\<close>

section \<open>Views\<close>

record node_view =
  nv_retained :: bool
  nv_source_id :: string
  nv_name :: string
  nv_type :: string
  nv_server :: string
  nv_server_port :: int
  nv_proxy_id :: int
  nv_proxy_host :: string
  nv_proxy_port :: int
  nv_enabled :: bool

record clash_view =
  vw_sources :: "source list"
  vw_configured :: bool
  vw_ready :: bool
  vw_url :: string
  vw_url_hint :: string
  vw_revision :: int
  vw_updated_at :: gotime
  vw_nodes :: "node_view list"

text \<open>The number of a text that is none is 0; ports of checked configurations are in range.\<close>

definition nodeView :: "clash_manager \<Rightarrow> clash_node \<Rightarrow> node_view" where
  "nodeView m n =
     \<lparr>nv_retained = False, nv_source_id = nd_source_id n, nv_name = nd_name n, nv_type = nd_type n,
      nv_server = config_string (nd_config n) ''server'',
      nv_server_port = (case config_port (nd_config n) of None \<Rightarrow> 0 | Some p \<Rightarrow> p), nv_proxy_id = nd_proxy_id n,
      nv_proxy_host = (if nd_proxy_id n \<noteq> 0 then mg_host m else []), nv_proxy_port = (if nd_proxy_id n \<noteq> 0 then nd_port n else 0),
      nv_enabled = nd_enabled n\<rparr>"

definition view :: "fetch_env \<Rightarrow> clash_manager \<Rightarrow> clash_state \<Rightarrow> clash_view" where
  "view env m s =
     (let s = normalize_state (fe_sid env) (fe_hint env) s
      in \<lparr>vw_sources = cs_sources s, vw_configured = configured (fe_url env) m, vw_ready = False, vw_url = cs_url s,
          vw_url_hint = (case text_fields (cs_url s) of [] \<Rightarrow> [] | u # _ \<Rightarrow> fe_hint env u), vw_revision = cs_revision s,
          vw_updated_at = cs_updated_at s, vw_nodes = map (nodeView m) (filter nd_enabled (cs_nodes s))\<rparr>)"

text \<open>\<open>listening\<close> is the answer of the listeners, \<open>version\<close> whether the controller answers at all.\<close>

definition Status :: "(clash_state \<Rightarrow> string) \<Rightarrow> fetch_env \<Rightarrow> clash_manager \<Rightarrow> bool \<Rightarrow> bool \<Rightarrow> clash_world \<Rightarrow> clash_view" where
  "Status digest env m listening version w =
     (let s = ck_doc (cw_db w); v = view env m s
      in if vw_configured v
         then v\<lparr>vw_ready := (if cs_nodes s \<noteq> [] then runtime_matches digest listening s w else version)\<rparr> else v)"

definition preview_node :: "clash_manager \<Rightarrow> (string \<rightharpoonup> clash_node) \<Rightarrow> string list \<Rightarrow> clash_node \<Rightarrow> node_view" where
  "preview_node m existing retained n =
     (nodeView m (case existing (nd_name n) of
        None \<Rightarrow> n\<lparr>nd_proxy_id := 0, nd_port := 0, nd_enabled := True\<rparr>
      | Some old \<Rightarrow> n\<lparr>nd_proxy_id := nd_proxy_id old, nd_port := nd_port old, nd_enabled := nd_enabled old\<rparr>))
     \<lparr>nv_retained := nd_name n \<in> set retained\<rparr>"

definition Preview ::
    "fetch_env \<Rightarrow> clash_manager \<Rightarrow> (nat \<Rightarrow> (gotime \<times> feed_response) option) \<Rightarrow> string \<Rightarrow> clash_state \<Rightarrow> url_error + clash_view" where
  "Preview env m answers raw s =
     (let raw = (if raw = [] then cs_url s else raw)
      in case fetchSubscriptionDetails env answers raw of Inl e \<Rightarrow> Inl e
         | Inr (found, sources) \<Rightarrow>
             (let s = normalize_state (fe_sid env) (fe_hint env) s;
                  (nodes, retained) = preserveFailedSources env s found sources;
                  existing = last_by nd_name (filter nd_enabled (cs_nodes s))
              in Inr ((view env m s)\<lparr>vw_sources := sources, vw_nodes := map (preview_node m existing retained) nodes\<rparr>)))"

text \<open>\<open>None\<close> when the request ended before its feed was checked.\<close>

definition CheckSource :: "fetch_env \<Rightarrow> (gotime \<times> feed_response) option \<Rightarrow> string \<Rightarrow> url_error option + source option" where
  "CheckSource env answer raw =
     (case subscriptionURLs raw of
        Inr [u] \<Rightarrow> Inr (case answer of None \<Rightarrow> None | Some (t, response) \<Rightarrow> Some (snd (fetchFeed env t u 1 response)))
      | Inr _ \<Rightarrow> Inl None
      | Inl e \<Rightarrow> Inl (Some e))"

definition IsManaged :: "int \<Rightarrow> clash_state \<Rightarrow> bool" where
  "IsManaged i s \<longleftrightarrow> list_ex (\<lambda>n. nd_proxy_id n = i) (cs_nodes s)"

section \<open>The exported subscription\<close>

definition all_nodes :: string where
  "all_nodes = bytes [229, 133, 168, 233, 131, 168, 232, 138, 130, 231, 130, 185]"

definition exported_config :: "clash_node \<Rightarrow> node_config" where
  "exported_config n = gm_set ''name'' (YStr (nd_name n)) (nd_config n)"

definition publicSubscriptionConfig :: "clash_state \<Rightarrow> (string \<times> yaml) list" where
  "publicSubscriptionConfig s =
     (let ns = filter nd_enabled (cs_nodes s)
      in [(''proxies'', YList (map (\<lambda>n. YMap (exported_config n)) ns)),
          (''proxy-groups'', YList [YMap [(''name'', YStr all_nodes), (''type'', YStr ''select''),
             (''proxies'', YList (map (\<lambda>n. YStr (nd_name n)) ns))]]),
          (''rules'', YList [YStr (''MATCH,'' @ all_nodes)])])"

definition ExportSubscription :: "string \<Rightarrow> string \<Rightarrow> clash_state \<Rightarrow> (string \<times> yaml) list option" where
  "ExportSubscription expected provided s =
     (if trim_space expected = [] \<or> trim_space provided = [] \<or> trim_space expected \<noteq> trim_space provided then None
      else Some (publicSubscriptionConfig s))"

section \<open>Export and import\<close>

text \<open>What a decoder that reads only \<open>proxies\<close> finds in a document.\<close>

definition proxies_of :: "(string \<times> yaml) list \<Rightarrow> node_config list" where
  "proxies_of doc =
     (case map_of doc ''proxies'' of
        Some (YList vs) \<Rightarrow> List.map_filter (\<lambda>v. case v of YMap cfg \<Rightarrow> Some cfg | _ \<Rightarrow> None) vs
      | _ \<Rightarrow> [])"

lemma proxies_of_export: "proxies_of (publicSubscriptionConfig s) = map exported_config (filter nd_enabled (cs_nodes s))"
  by (simp add: proxies_of_def publicSubscriptionConfig_def Let_def map_filter_def comp_def)

definition plain_name :: "string \<Rightarrow> bool" where
  "plain_name name \<longleftrightarrow> name \<noteq> [] \<and> trim_space name = name \<and> length (runes name) \<le> 90 \<and> \<not> isSubscriptionMetadata name"

lemma normalize_exported:
  assumes "safe_nodes ns" "\<forall>n \<in> set ns. plain_name (nd_name n)" "distinct (map nd_name ns)" "set (map nd_name ns) \<inter> set seen = {}"
  shows "\<exists>out. normalize_configs i seen (map exported_config ns) = Inr out \<and> map nd_name out = map nd_name ns \<and>
    (\<forall>key. map (\<lambda>n. gm_get (nd_config n) key) out = map (\<lambda>n. gm_get (exported_config n) key) ns)"
  using assms
proof (induction ns arbitrary: i seen)
  case (Cons n ns)
  let ?cfg = "exported_config n"
  from Cons.prems(1) have safe: "safe_config ?cfg" "safe_nodes ns" by (simp_all add: exported_config_def safe_config_name)
  have name: "config_string ?cfg ''name'' = nd_name n" by (simp add: config_string_def exported_config_def gm_get_set)
  from Cons.prems(2) have plain: "plain_name (nd_name n)" by simp
  from Cons.prems(3,4) have fresh: "nd_name n \<notin> set seen" "set (map nd_name ns) \<inter> set (nd_name n # seen) = {}" by auto
  obtain kind host port where cfg: "gm_get ?cfg ''type'' = Some (YStr kind)" "kind \<in> set supported_types"
    "gm_get ?cfg ''server'' = Some (YStr host)" "host \<noteq> []" "gm_get ?cfg ''port'' = Some (YInt port)" "1 \<le> port" "port \<le> 65535"
    and bad: "\<forall>key \<in> {''dialer-proxy'', ''interface-name'', ''routing-mark''}. gm_get ?cfg key = None" "\<not> unsafeFileReference (YMap ?cfg)"
    using safe(1) unfolding safe_config_def safe_reference_iff by blast
  have fields: "config_string ?cfg ''type'' = kind" "config_string ?cfg ''server'' = host" "config_port ?cfg = Some port"
    by (simp_all add: config_string_def config_port_def cfg)
  have "\<forall>n \<in> set ns. plain_name (nd_name n)" "distinct (map nd_name ns)" using Cons.prems(2,3) by simp_all
  from Cons.IH [OF safe(2) this fresh(2), of "Suc i"] obtain out where
    out: "normalize_configs (Suc i) (nd_name n # seen) (map exported_config ns) = Inr out" "map nd_name out = map nd_name ns"
      "\<forall>key. map (\<lambda>n. gm_get (nd_config n) key) out = map (\<lambda>n. gm_get (exported_config n) key) ns" by blast
  have cfg': "gm_get (gm_set ''port'' (YInt port) (gm_set ''name'' (YStr (nd_name n)) ?cfg)) key = gm_get ?cfg key" for key
    using cfg(5) by (simp add: gm_get_set) (simp add: exported_config_def gm_get_set)
  show ?case
    using plain fresh(1) cfg(2,4,6,7) bad out cfg'
    by (simp add: name fields plain_name_def Let_def)
qed simp

text \<open>The exported subscription can be imported again: read back, it gives exactly the enabled nodes of the document, under their
  display names and with every entry of their configurations, provided that the stored configurations are checked and the display names are
  such as the parser accepts; and without the token there is no export.\<close>

theorem export_imports_again:
  assumes "safe_nodes (cs_nodes s)" "distinct (map nd_name (cs_nodes s))" "\<forall>n \<in> set (cs_nodes s). nd_enabled n \<longrightarrow> plain_name (nd_name n)"
    and "ExportSubscription expected provided s = Some doc" "\<exists>n \<in> set (cs_nodes s). nd_enabled n"
    and "decode_yaml (encode_yaml doc) = Some (proxies_of doc)" "length (encode_yaml doc) \<le> maxBody"
  shows "trim_space expected = trim_space provided \<and>
    (\<exists>out. parseSubscription decode_yaml ParseURL (encode_yaml doc) = Inr out \<and>
      map nd_name out = map nd_name (filter nd_enabled (cs_nodes s)) \<and>
      (\<forall>key. map (\<lambda>n. gm_get (nd_config n) key) out = map (\<lambda>n. gm_get (exported_config n) key) (filter nd_enabled (cs_nodes s))))"
proof
  from assms(4) show "trim_space expected = trim_space provided" by (auto simp: ExportSubscription_def split: if_splits)
  from assms(4) have doc: "doc = publicSubscriptionConfig s" by (auto simp: ExportSubscription_def split: if_splits)
  let ?ns = "filter nd_enabled (cs_nodes s)"
  obtain out where out: "normalize_configs 0 [] (map exported_config ?ns) = Inr out" "map nd_name out = map nd_name ?ns"
    "\<forall>key. map (\<lambda>n. gm_get (nd_config n) key) out = map (\<lambda>n. gm_get (exported_config n) key) ?ns"
    using normalize_exported [of ?ns "[]" 0] assms(1-3) by (auto simp: safe_nodes_filter distinct_map_filter)
  have "?ns \<noteq> []" using assms(5) by (auto simp: filter_empty_conv)
  then obtain n ns where ns: "?ns = n # ns" by (cases ?ns) auto
  with out(2) have "out \<noteq> []" by auto
  with out(1) have "normalizeProxyConfigs (map exported_config ?ns) = Inr out" by (simp add: normalizeProxyConfigs_def)
  with assms(6,7) have "parseSubscription decode_yaml ParseURL (encode_yaml doc) = Inr out"
    by (simp add: parseSubscription_def doc proxies_of_export ns)
  with out(2,3) show "\<exists>out. parseSubscription decode_yaml ParseURL (encode_yaml doc) = Inr out \<and> map nd_name out = map nd_name ?ns \<and>
      (\<forall>key. map (\<lambda>n. gm_get (nd_config n) key) out = map (\<lambda>n. gm_get (exported_config n) key) ?ns)" by blast
qed

section \<open>The preview and the import\<close>

lemma normalize_twice:
  assumes "pool_ok (stored_nodes env s)"
  shows "stored_nodes env (normalize_state (fe_sid env) (fe_hint env) s) = stored_nodes env s"
  by (rule normalize_state_pool [OF assms])

lemma preserve_normalized:
  assumes "pool_ok (stored_nodes env s)"
  shows "preserveFailedSources env (normalize_state (fe_sid env) (fe_hint env) s) found sources = preserveFailedSources env s found sources"
  by (simp only: preserveFailedSources_def Let_def normalize_twice [OF assms])

text \<open>The fetched nodes of the preview are those of the plan.\<close>

lemma Preview_result:
  assumes "pool_ok (stored_nodes env s)" "Preview env m answers raw s = Inr v"
  obtains found nodes retained where
    "fetchSubscriptionDetails env answers (if raw = [] then cs_url s else raw) = Inr (found, vw_sources v)"
    "preserveFailedSources env s found (vw_sources v) = (nodes, retained)"
    "vw_nodes v = map (preview_node m (last_by nd_name (filter nd_enabled (stored_nodes env s))) retained) nodes"
    "vw_revision v = cs_revision s"
proof -
  let ?raw = "if raw = [] then cs_url s else raw" and ?s = "normalize_state (fe_sid env) (fe_hint env) s"
  obtain found sources where f: "fetchSubscriptionDetails env answers ?raw = Inr (found, sources)"
    using assms(2) by (cases "fetchSubscriptionDetails env answers ?raw") (auto simp: Preview_def Let_def)
  obtain nodes retained where p: "preserveFailedSources env ?s found sources = (nodes, retained)"
    by (cases "preserveFailedSources env ?s found sources")
  have "preserveFailedSources env s found sources = (nodes, retained)"
    using p by (simp add: preserve_normalized [OF assms(1)])
  moreover have "v = (view env m ?s)\<lparr>vw_sources := sources,
      vw_nodes := map (preview_node m (last_by nd_name (filter nd_enabled (stored_nodes env s))) retained) nodes\<rparr>"
    using assms(2) f p by (simp add: Preview_def Let_def)
  ultimately show thesis using f by (intro that [of found nodes retained]) (simp_all add: view_def Let_def)
qed

lemma preview_node_fields:
  "nv_name (preview_node m existing retained n) = nd_name n"
  "nv_retained (preview_node m existing retained n) \<longleftrightarrow> nd_name n \<in> set retained"
  "nv_proxy_id (preview_node m existing retained n) = (case existing (nd_name n) of None \<Rightarrow> 0 | Some old \<Rightarrow> nd_proxy_id old)"
  "existing (nd_name n) = Some old \<Longrightarrow> nd_proxy_id old \<noteq> 0 \<Longrightarrow> nv_proxy_port (preview_node m existing retained n) = nd_port old"
  by (simp_all add: preview_node_def nodeView_def split: option.split)

lemma bind_nodes_error: "bind_nodes m now rand old selected b ns = Inl e \<Longrightarrow> e \<in> {PortsExhausted, NoRandomness}"
  by (induction ns arbitrary: b) (auto simp: Let_def split: if_splits option.splits sum.splits)

lemma bind_nodes_names:
  "bind_nodes m now rand old selected b ns = Inr (bound, b') \<Longrightarrow>
   map nd_name bound = filter (\<lambda>k. k \<in> set selected) (map nd_name ns)"
  by (induction ns arbitrary: b bound) (auto simp: Let_def split: if_splits option.splits sum.splits)

lemma import_tx_same_revision:
  "revision = cs_revision (ck_doc db) \<Longrightarrow> import_tx env m now rand revision plan db \<noteq> Inl RevisionChanged"
  using bind_nodes_error
  by (fastforce simp: import_tx_def Let_def split: sum.splits option.splits)

text \<open>A choice among the nodes of a fetch is accepted, and what the retained nodes add is selected too.\<close>

lemma plan_accepts:
  assumes f: "fetchSubscriptionDetails env answers (if trim_space (iq_url rq) = [] then cs_url s else trim_space (iq_url rq)) = Inr (found, sources)"
    and p: "preserveFailedSources env s found sources = (nodes, retained)"
    and "list_ex (\<lambda>s. src_fetch_error s = []) sources" "distinct (iq_names rq)"
    and names: "set (iq_names rq @ retained) \<subseteq> nd_name ` set nodes"
  shows "plan_import env answers s rq = Inr \<lparr>ip_fetched = nodes, ip_sources = sources, ip_selected = iq_names rq @ retained,
     ip_raw = (if trim_space (iq_url rq) = [] then cs_url s else trim_space (iq_url rq))\<rparr>"
proof -
  have "filter (\<lambda>n. \<not> n \<notin> set (map nd_name nodes)) (iq_names rq @ retained) = iq_names rq @ retained"
    by (rule filter_True) (use names in auto)
  moreover have "\<not> list_ex (\<lambda>n. n \<notin> set (map nd_name nodes) \<and> \<not> missing_forgiven (iq_source_ids rq) sources n) (iq_names rq @ retained)"
    using names by (auto simp: list_ex_iff)
  ultimately show ?thesis using f p assms(3,4)
    unfolding plan_import_def Let_def by simp
qed

lemma retained_names:
  assumes pool: "pool_ok (stored_nodes env s)" and found: "found_ok found sources"
    and p: "preserveFailedSources env s found sources = (nodes, retained)"
  shows "set retained \<subseteq> nd_name ` set nodes"
proof
  note pr = preserve_spec [OF pool found p]
  fix k assume "k \<in> set retained"
  then obtain o' where o': "o' \<in> set (stored_nodes env s)" "nd_source_id o' \<in> failed_ids sources" "nd_name o' = k" by (auto simp: pr(6))
  then have "nodeKey o' \<in> set (map nodeKey nodes)" by (auto simp: pr(1))
  then obtain n where "n \<in> set nodes" "nodeKey n = nodeKey o'" by (auto simp: image_iff)
  with pr(7) [OF this(1) o'(1)] o'(3) show "k \<in> nd_name ` set nodes" by auto
qed

lemma existing_spec:
  assumes "pool_ok stored"
  shows "last_by nd_name (filter nd_enabled stored) k = Some o' \<longleftrightarrow> o' \<in> set stored \<and> nd_name o' = k"
proof -
  have "filter nd_enabled stored = stored" using assms by (auto simp: filter_id_conv pool_ok_def)
  moreover have "distinct (map nd_name stored)" using assms by (simp add: pool_ok_def)
  ultimately show ?thesis using last_by_Some [of nd_name stored k o'] last_by_distinct [of nd_name stored o'] by auto
qed

text \<open>What the transaction stores, against the shown nodes \<open>shown\<close>.\<close>

lemma import_shown:
  assumes good: "good_import env m answers s rq plan now rand db db'"
    and shown: "shown = map (preview_node m (last_by nd_name (filter nd_enabled (stored_nodes env (ck_doc db)))) retained) (ip_fetched plan)"
    and sel: "ip_selected plan = iq_names rq @ retained" "set (iq_names rq @ retained) \<subseteq> nd_name ` set (ip_fetched plan)"
  shows "nd_name ` set (cs_nodes (ck_doc db')) = set (iq_names rq) \<union> nv_name ` {nv \<in> set shown. nv_retained nv}" (is ?names)
    and "n \<in> set (cs_nodes (ck_doc db')) \<Longrightarrow> \<exists>nv \<in> set shown. nv_name nv = nd_name n \<and>
         (nv_proxy_id nv \<noteq> 0 \<longrightarrow> nd_proxy_id n = nv_proxy_id nv \<and> nd_port n = nv_proxy_port nv)"
proof -
  define stored where "stored = stored_nodes env (ck_doc db)"
  have pool: "pool_ok stored" and tx: "import_tx env m now rand (iq_revision rq) plan db = Inr db'"
    using good by (simp_all add: good_import_def stored_def)
  obtain bound b where bind: "bind_nodes m now rand (carried plan stored) (ip_selected plan) (start_binding m stored db) (ip_fetched plan) =
      Inr (bound, b)" and nodes': "cs_nodes (ck_doc db') = filter (parked (ip_sources plan)) stored @ bound"
    unfolding stored_def by (rule import_tx_result [OF tx])
  have "map nd_name (cs_nodes (ck_doc db')) = filter (\<lambda>k. k \<in> set (iq_names rq @ retained)) (map nd_name (ip_fetched plan))"
    using bind_nodes_names [OF bind] by (simp add: nodes' nothing_parked [OF pool] sel(1))
  then have set': "nd_name ` set (cs_nodes (ck_doc db')) = {k \<in> nd_name ` set (ip_fetched plan). k \<in> set (iq_names rq @ retained)}"
    by (metis list.set_map set_filter)
  have "nv_name ` {nv \<in> set shown. nv_retained nv} = set retained"
    using sel(2) by (force simp: shown preview_node_fields(1,2) image_iff)
  with set' sel(2) show ?names by auto
  assume n: "n \<in> set (cs_nodes (ck_doc db'))"
  then have "nd_name n \<in> nd_name ` set (ip_fetched plan)" using set' by blast
  then obtain x where x: "x \<in> set (ip_fetched plan)" "nd_name x = nd_name n" by (metis imageE)
  from good obtain b where "nd_name n \<in> set (ip_selected plan)"
    and placed: "placed m now (carried plan stored) (start_binding m stored db) b n"
    unfolding stored_def by (rule good_import_nodes) (use n in blast)
  then have "carried plan stored (nd_name n) = Some old" if "last_by nd_name (filter nd_enabled stored) (nd_name n) = Some old" for old
    using that by (simp add: carried_spec [OF pool] existing_spec [OF pool])
  with placed x show "\<exists>nv \<in> set shown. nv_name nv = nd_name n \<and>
         (nv_proxy_id nv \<noteq> 0 \<longrightarrow> nd_proxy_id n = nv_proxy_id nv \<and> nd_port n = nv_proxy_port nv)"
    unfolding shown stored_def [symmetric]
    by (intro bexI [of _ "preview_node m (last_by nd_name (filter nd_enabled stored)) retained x"])
      (auto simp: preview_node_fields placed_def same_binding_def split: option.splits)
qed

text \<open>C24: An import does what the operator was shown: if the stored document and the answers of the feeds are those of the preview and one feed
  succeeded, every choice without repetitions among the previewed nodes is accepted, and the transaction neither finds the revision
  changed nor gives a node for which the preview showed a proxy another one; it stores the chosen nodes, those
  marked as retained, and nothing else.\<close>

theorem preview_predicts_import:
  assumes "clash_reach digest env m r" "configured (fe_url env) m"
    and "Preview env m answers (trim_space (iq_url rq)) (run_doc r) = Inr v"
    and "list_ex (\<lambda>s. src_fetch_error s = []) (vw_sources v)"
    and "distinct (iq_names rq)" "set (iq_names rq) \<subseteq> nv_name ` set (vw_nodes v)" "iq_revision rq = vw_revision v"
    and "\<forall>urls. subscriptionURLs (if trim_space (iq_url rq) = [] then cs_url (run_doc r) else trim_space (iq_url rq)) = Inr urls \<longrightarrow>
      digests_ok env urls"
  shows "\<exists>plan. import_prepare env m answers False (run_doc r) rq = Inr plan \<and>
    import_tx env m now rand (iq_revision rq) plan (cw_db (cr_world r)) \<noteq> Inl RevisionChanged \<and>
    (\<forall>db'. import_tx env m now rand (iq_revision rq) plan (cw_db (cr_world r)) = Inr db' \<longrightarrow>
      nd_name ` set (cs_nodes (ck_doc db')) = set (iq_names rq) \<union> nv_name ` {nv \<in> set (vw_nodes v). nv_retained nv} \<and>
      (\<forall>n \<in> set (cs_nodes (ck_doc db')). \<exists>nv \<in> set (vw_nodes v). nv_name nv = nd_name n \<and>
         (nv_proxy_id nv \<noteq> 0 \<longrightarrow> nd_proxy_id n = nv_proxy_id nv \<and> nd_port n = nv_proxy_port nv)))"
proof -
  define raw where "raw = (if trim_space (iq_url rq) = [] then cs_url (run_doc r) else trim_space (iq_url rq))"
  let ?db = "cw_db (cr_world r)" and ?existing = "last_by nd_name (filter nd_enabled (stored_nodes env (run_doc r)))"
  have pool: "pool_ok (stored_nodes env (run_doc r))" and tables: "tables_ok m (stored_nodes env (run_doc r)) ?db"
    using reach_ok [OF assms(1)] by (simp_all add: run_ok_def)
  from pool assms(3) obtain found nodes retained where f: "fetchSubscriptionDetails env answers raw = Inr (found, vw_sources v)"
    and p: "preserveFailedSources env (run_doc r) found (vw_sources v) = (nodes, retained)"
    and vw: "vw_nodes v = map (preview_node m ?existing retained) nodes" "vw_revision v = cs_revision (run_doc r)"
    unfolding raw_def by (rule Preview_result)
  have "found_ok found (vw_sources v)" by (rule fetched_ok [OF f]) (use assms(8) in \<open>simp add: raw_def\<close>)
  from retained_names [OF pool this p] assms(6) have names: "set (iq_names rq @ retained) \<subseteq> nd_name ` set nodes"
    by (auto simp: vw(1) image_image preview_node_fields(1))
  define plan where "plan = \<lparr>ip_fetched = nodes, ip_sources = vw_sources v, ip_selected = iq_names rq @ retained, ip_raw = raw\<rparr>"
  have plan: "plan_import env answers (run_doc r) rq = Inr plan"
    unfolding plan_def raw_def by (rule plan_accepts [OF f [unfolded raw_def] p assms(4,5) names])
  have "good_import env m answers (run_doc r) rq plan now rand ?db db'" if "import_tx env m now rand (iq_revision rq) plan ?db = Inr db'" for db'
    using plan assms(8) pool tables that by (simp add: good_import_def plan_def raw_def)
  note import_shown [OF this, of _ "vw_nodes v" retained]
  moreover have "iq_revision rq = cs_revision (ck_doc ?db)" using assms(7) vw(2) by simp
  ultimately show ?thesis
    using plan assms(2) import_tx_same_revision names vw(1) by (intro exI [of _ plan]) (simp add: import_prepare_def plan_def)
qed


section \<open>Witnesses\<close>

definition export_doc :: clash_state where
  "export_doc = sample_doc [(sample_found ''a'')\<lparr>nd_enabled := True\<rparr>]"

lemma export_imports_again_witness:
  "\<exists>out. parseSubscription (\<lambda>_. Some (proxies_of (publicSubscriptionConfig export_doc))) (\<lambda>_. None) [] = Inr out \<and> map nd_name out = [''A'']"
proof -
  let ?n = "(sample_found ''a'')\<lparr>nd_enabled := True\<rparr>"
  have nodes: "cs_nodes export_doc = [?n]" by (simp add: export_doc_def sample_doc_def)
  have "safe_config (nd_config ((sample_found [])\<lparr>nd_original_name := []\<rparr>))"
    by (rule node_ok_safe [OF normalized_nodes(3) [OF sample_parse]]) simp
  then have safe: "safe_nodes (cs_nodes export_doc)" by (simp add: nodes sample_found_def)
  have "plain_name ''A''" by code_simp
  then have name: "\<forall>n \<in> set (cs_nodes export_doc). nd_enabled n \<longrightarrow> plain_name (nd_name n)" by (simp add: nodes sample_found_def)
  have doc: "ExportSubscription ''t'' '' t'' export_doc = Some (publicSubscriptionConfig export_doc)"
  proof -
    have "trim_space ''t'' = ''t''" "trim_space '' t'' = ''t''" by code_simp+
    then show ?thesis by (simp add: ExportSubscription_def)
  qed
  have "\<exists>n \<in> set (cs_nodes export_doc). nd_enabled n" by (simp add: nodes)
  from export_imports_again [OF safe _ name doc this, of "\<lambda>_. Some (proxies_of (publicSubscriptionConfig export_doc))" "\<lambda>_. []" "\<lambda>_. None"]
  show ?thesis by (auto simp: nodes sample_found_def)
qed

lemma preview_predicts_import_witness:
  "\<exists>v plan. Preview sample_env sample_manager sample_answers ''a'' (sample_doc [sample_node]) = Inr v \<and> map nv_name (vw_nodes v) = [''A''] \<and>
     import_prepare sample_env sample_manager sample_answers False (sample_doc [sample_node]) (sample_import ''a'') = Inr plan"
proof -
  let ?s = "sample_doc [sample_node]" and ?r = "sample_run [sample_node]"
  obtain src where f: "fetchSubscriptionDetails sample_env sample_answers ''a'' = Inr ([sample_found ''a''], [src])" "src_fetch_error src = []"
    using sample_details [of "''a''"] by auto
  have pool: "pool_ok (stored_nodes sample_env ?s)" using sample_stored [OF sample_pool(1)] sample_pool(1) by simp
  have p: "preserveFailedSources sample_env ?s [sample_found ''a''] [src] = ([sample_found ''a''], [])"
    by (rule sample_preserved) (simp_all add: f)
  then have p': "preserveFailedSources sample_env (normalize_state (fe_sid sample_env) (fe_hint sample_env) ?s) [sample_found ''a''] [src] =
      ([sample_found ''a''], [])"
    by (simp add: preserve_normalized [OF pool])
  have facts: "nd_name (sample_found ''a'') = ''A''" "cs_revision ?s = 4" by (simp_all add: sample_found_def sample_doc_def)
  obtain v where v: "Preview sample_env sample_manager sample_answers ''a'' ?s = Inr v" "vw_sources v = [src]" "map nv_name (vw_nodes v) = [''A'']"
    "vw_revision v = 4"
    by (simp add: Preview_def f p' view_def preview_node_fields facts Let_def)
  have trim: "trim_space ''a'' = ''a''" by code_simp
  have reach: "clash_reach (\<lambda>_. []) sample_env sample_manager ?r" by (rule sample_reach) simp
  have doc: "run_doc ?r = ?s" by (simp add: sample_run_def sample_clash_db_def)
  have conf: "configured (fe_url sample_env) sample_manager" by code_simp
  have names: "set (iq_names (sample_import ''a'')) \<subseteq> nv_name ` set (vw_nodes v)"
    using v(3) by (metis list.set_map sample_import_def import_request.select_convs(3) subset_refl)
  have rq: "iq_url (sample_import ''a'') = ''a''" "distinct (iq_names (sample_import ''a''))" "iq_revision (sample_import ''a'') = 4"
    by (simp_all add: sample_import_def)
  have pv: "Preview sample_env sample_manager sample_answers (trim_space (iq_url (sample_import ''a''))) (run_doc ?r) = Inr v"
    using v(1) by (simp add: rq trim doc)
  have "list_ex (\<lambda>s. src_fetch_error s = []) (vw_sources v)" "iq_revision (sample_import ''a'') = vw_revision v"
    using v f(2) rq by simp_all
  from preview_predicts_import [OF reach conf pv this(1) rq(2) names this(2)] v(1,3) rq trim doc sample_urls sample_digests
  show ?thesis by simp blast
qed

end
