(* ===== verification/ModelPlatforms.thy ===== *)
theory ModelPlatforms
  imports Prelude
begin

text \<open>
  The provider platforms (\<open>internal/domain/platforms.go\<close>) and the platform that a model name alone tells
  (\<open>internal/service/composite_platform.go\<close>). \<open>lower\<close> is \<open>strings.ToLower\<close>. Display names and the names of the price catalogue are
  left out.
\<close>

section \<open>The registry\<close>

record platform_spec =
  ps_id :: string
  ps_gateway :: string
  ps_cn_provider :: bool

definition platform_row :: "string \<Rightarrow> string \<Rightarrow> bool \<Rightarrow> platform_spec" where
  "platform_row i gateway cn = \<lparr>ps_id = i, ps_gateway = gateway, ps_cn_provider = cn\<rparr>"

definition platformList :: "platform_spec list" where
  "platformList =
     [platform_row ''anthropic'' ''anthropic'' False, platform_row ''openai'' ''openai'' False, platform_row ''gemini'' ''gemini'' False,
      platform_row ''antigravity'' ''antigravity'' False, platform_row ''kiro'' ''kiro'' False, platform_row ''grok'' ''openai'' False,
      platform_row ''adobe'' ''adobe'' False, platform_row ''kimi'' ''openai'' True, platform_row ''zhipu'' ''openai'' True,
      platform_row ''deepseek'' ''openai'' True, platform_row ''minimax'' ''openai'' True, platform_row ''opencode_go'' ''openai'' False,
      platform_row ''typesafe'' ''anthropic'' False, platform_row ''command_code'' ''openai'' False, platform_row ''cline'' ''openai'' False]"

definition LookupPlatform :: "string \<Rightarrow> platform_spec option" where
  "LookupPlatform i = List.find (\<lambda>s. ps_id s = i) platformList"

definition IsConcretePlatform :: "string \<Rightarrow> bool" where
  "IsConcretePlatform i \<longleftrightarrow> LookupPlatform i \<noteq> None"

definition IsGroupPlatform :: "string \<Rightarrow> bool" where
  "IsGroupPlatform i \<longleftrightarrow> i = ''composite'' \<or> IsConcretePlatform i"

definition PlatformIDsWhere :: "(platform_spec \<Rightarrow> bool) \<Rightarrow> string list" where
  "PlatformIDsWhere match = map ps_id (filter match platformList)"

definition ConcretePlatformIDs :: "string list" where
  "ConcretePlatformIDs = PlatformIDsWhere (\<lambda>_. True)"

definition compositePrecedenceHead :: "string list" where
  "compositePrecedenceHead = [''anthropic'', ''gemini'', ''openai'']"

definition CompositePrecedencePlatformIDs :: "string list" where
  "CompositePrecedencePlatformIDs =
     (let first = filter IsConcretePlatform compositePrecedenceHead
      in first @ map ps_id (filter (\<lambda>s. ps_id s \<notin> set first) platformList))"

definition UsesOpenAIGateway :: "string \<Rightarrow> bool" where
  "UsesOpenAIGateway i = (case LookupPlatform i of None \<Rightarrow> False | Some s \<Rightarrow> ps_gateway s = ''openai'')"

definition IsCNProviderPlatform :: "string \<Rightarrow> bool" where
  "IsCNProviderPlatform i = (case LookupPlatform i of None \<Rightarrow> False | Some s \<Rightarrow> ps_cn_provider s)"

section \<open>Names\<close>

text \<open>\<open>strings.TrimPrefix\<close>.\<close>

definition trim_prefix :: "string \<Rightarrow> string \<Rightarrow> string" where
  "trim_prefix p s = (if has_prefix s p then drop (length p) s else s)"

text \<open>The keys of \<open>externalImageModelAliases\<close> (\<open>internal/pkg/adobe/catalog.go\<close>).\<close>

definition externalImageModelNames :: "string list" where
  "externalImageModelNames =
     [''gpt-image-2'', ''gpt-image-1.5'', ''gpt-image-2.5-flare'', ''gpt-image-2.5-sunburst'', ''gpt-image-2.5-prism'',
      ''gpt-image-2.6-star-swirl'', ''gpt-image-2.6-aurora'', ''gpt-image-2.6-flare'', ''gpt-image-2.6-sunburst'',
      ''gpt-image'', ''gpt-image-1'', ''gpt-image-1-mini'', ''gemini-2.5-flash-image'', ''gemini-2.5-flash-image-preview'',
      ''gemini-3-pro-image'', ''gemini-3-pro-image-preview'', ''gemini-3.1-flash-image'', ''gemini-3.1-flash-image-preview'',
      ''nano-banana-pro'', ''nano-banana'', ''nano-banana2'', ''flux-pro'', ''flux-ultra'', ''imagen-4'', ''imagen-4-fast'',
      ''gpt-4o-image'', ''runway-gen4-image'']"

definition IsExternalImageModelID :: "(string \<Rightarrow> string) \<Rightarrow> string \<Rightarrow> bool" where
  "IsExternalImageModelID lower model \<longleftrightarrow> lower (trim_space model) \<in> set externalImageModelNames"

definition isGeminiImageSharedName :: "(string \<Rightarrow> string) \<Rightarrow> string \<Rightarrow> bool" where
  "isGeminiImageSharedName lower model \<longleftrightarrow> has_prefix model ''gemini-'' \<and> IsExternalImageModelID lower model"

definition IsCompositeSharedGeminiImageModel :: "(string \<Rightarrow> string) \<Rightarrow> string \<Rightarrow> bool" where
  "IsCompositeSharedGeminiImageModel lower model =
     isGeminiImageSharedName lower (trim_prefix ''models/'' (lower (trim_space model)))"

definition hasOpenAISeriesPrefix :: "string \<Rightarrow> bool" where
  "hasOpenAISeriesPrefix model = list_ex (\<lambda>p. model = p \<or> has_prefix model (p @ ''-'')) [''o1'', ''o3'', ''o4'', ''o5'']"

text \<open>The provider before the first slash, when that is not the first byte.\<close>

definition split_provider :: "string \<Rightarrow> (string \<times> string) option" where
  "split_provider s =
     (let p = takeWhile (\<lambda>c. c \<noteq> CHR ''/'') s
      in if p = [] \<or> length p = length s then None else Some (trim_space p, trim_space (drop (length p + 1) s)))"

definition provider_platform :: "string \<Rightarrow> string option" where
  "provider_platform provider =
     (if provider \<in> {''anthropic'', ''claude''} then Some ''anthropic''
      else if provider \<in> {''openai'', ''chatgpt''} then Some ''openai''
      else if provider \<in> {''google'', ''google-ai-studio'', ''gemini''} then Some ''gemini''
      else if provider \<in> {''xai'', ''x-ai'', ''grok''} then Some ''grok''
      else if provider \<in> {''kimi'', ''moonshot''} then Some ''kimi''
      else if provider \<in> {''zhipu'', ''glm'', ''bigmodel''} then Some ''zhipu''
      else if provider = ''deepseek'' then Some ''deepseek''
      else if provider = ''minimax'' then Some ''minimax''
      else if provider \<in> {''typesafe'', ''jev''} then Some ''typesafe''
      else None)"

definition name_platform :: "(string \<Rightarrow> string) \<Rightarrow> string \<Rightarrow> string option" where
  "name_platform lower n =
     (let starts = (\<lambda>ps. list_ex (has_prefix n) ps)
      in if starts [''anthropic.claude-'', ''claude-''] then Some ''anthropic''
         else if n = ''gpt-image'' \<or> has_prefix n ''gpt-image-'' then None
         else if isGeminiImageSharedName lower n then None
         else if starts [''nano-banana'', ''flux-'', ''imagen-'', ''firefly-'', ''runway-gen4''] \<or> IsExternalImageModelID lower n
           then Some ''adobe''
         else if starts [''gpt-'', ''chatgpt-'', ''codex-'', ''text-embedding-'', ''text-moderation-'', ''omni-moderation-'',
                         ''dall-e-'', ''tts-'', ''whisper-''] \<or> hasOpenAISeriesPrefix n then Some ''openai''
         else if starts [''gemini-'', ''learnlm-''] then Some ''gemini''
         else if n = ''grok'' \<or> has_prefix n ''grok-'' then Some ''grok''
         else if n = ''k3'' \<or> n = ''k3-256k'' \<or> starts [''kimi-'', ''moonshot-''] then Some ''kimi''
         else if has_prefix n ''glm-'' then Some ''zhipu''
         else if has_prefix n ''deepseek-'' then Some ''deepseek''
         else if starts [''minimax-'', ''abab5'', ''abab6'', ''abab7''] then Some ''minimax''
         else if n = ''jev-latest'' \<or> has_prefix n ''jev-'' then Some ''typesafe''
         else None)"

definition DetectModelPlatform :: "(string \<Rightarrow> string) \<Rightarrow> string \<Rightarrow> string option" where
  "DetectModelPlatform lower model =
     (let n = lower (trim_space model)
      in if n = [] then None
         else let n = trim_prefix ''models/'' n
         in case split_provider n of
              None \<Rightarrow> name_platform lower n
            | Some (provider, rest) \<Rightarrow>
                (case provider_platform provider of
                   Some p \<Rightarrow> Some p
                 | None \<Rightarrow> name_platform lower (if rest = [] then n else trim_prefix ''models/'' rest)))"

text \<open>\<open>compositeSharedImagePlatform\<close>.\<close>

definition compositeSharedImagePlatform :: "(string \<Rightarrow> string) \<Rightarrow> string \<Rightarrow> string \<Rightarrow> string option" where
  "compositeSharedImagePlatform lower model endpoint =
     (if \<not> IsCompositeSharedGeminiImageModel lower model then None
      else if endpoint = ''images'' then Some ''adobe''
      else if endpoint \<in> {''messages'', ''count_tokens'', ''responses'', ''chat_completions'', ''embeddings''} then Some ''gemini''
      else None)"

section \<open>What detection gives\<close>

lemma provider_platform_concrete: "provider_platform p = Some x \<Longrightarrow> IsConcretePlatform x"
proof -
  have "list_all IsConcretePlatform
      [''anthropic'', ''openai'', ''gemini'', ''grok'', ''kimi'', ''zhipu'', ''deepseek'', ''minimax'', ''typesafe'', ''adobe'']"
    by code_simp
  then show "provider_platform p = Some x \<Longrightarrow> IsConcretePlatform x" by (auto simp: provider_platform_def split: if_splits)
qed

lemma name_platform_concrete: "name_platform lower n = Some x \<Longrightarrow> IsConcretePlatform x"
proof -
  have "list_all IsConcretePlatform
      [''anthropic'', ''openai'', ''gemini'', ''grok'', ''kimi'', ''zhipu'', ''deepseek'', ''minimax'', ''typesafe'', ''adobe'']"
    by code_simp
  then show "name_platform lower n = Some x \<Longrightarrow> IsConcretePlatform x"
    unfolding name_platform_def Let_def by (auto split: if_split_asm)
qed

lemma detected_concrete: "DetectModelPlatform lower model = Some x \<Longrightarrow> IsConcretePlatform x"
  by (auto simp: DetectModelPlatform_def Let_def intro: provider_platform_concrete name_platform_concrete
      split: if_splits option.splits prod.splits)

lemma shared_image_concrete: "compositeSharedImagePlatform lower model endpoint = Some x \<Longrightarrow> IsConcretePlatform x"
proof -
  have "IsConcretePlatform ''adobe''" "IsConcretePlatform ''gemini''" by code_simp+
  then show "compositeSharedImagePlatform lower model endpoint = Some x \<Longrightarrow> IsConcretePlatform x"
    by (auto simp: compositeSharedImagePlatform_def split: if_splits)
qed

end
