(* ===== verification/CompositeRoutes.thy ===== *)
theory CompositeRoutes
  imports ModelPlatforms "HOL-Library.Product_Lexorder"
begin

text \<open>
  Composite groups: which provider serves a model (\<open>internal/service/composite_model_route.go\<close>, \<open>composite_route_resolver.go\<close>,
  the ownership of models in \<open>gateway_service.go\<close>). Stored routes, then the names that Gemini and Adobe share, then the accounts' model
  mappings, then the model name decide. \<open>lower\<close> is \<open>strings.ToLower\<close>.
\<close>

section \<open>Routes\<close>

record composite_route =
  mr_id :: int
  mr_group :: int
  mr_public :: string
  mr_match :: string
  mr_target :: string
  mr_upstream :: string
  mr_endpoint :: string
  mr_priority :: int
  mr_enabled :: bool
  mr_notes :: string

definition route_endpoints :: "string list" where
  "route_endpoints =
     [''messages'', ''count_tokens'', ''responses'', ''chat_completions'', ''embeddings'', ''images'', ''gemini'']"

definition normalizeCompositeRouteEndpoint :: "(string \<Rightarrow> string) \<Rightarrow> string \<Rightarrow> string" where
  "normalizeCompositeRouteEndpoint lower endpoint =
     (let e = lower (trim_space endpoint) in if e \<in> set route_endpoints then e else ''any'')"

definition normalizeCompositeRouteMatchType :: "(string \<Rightarrow> string) \<Rightarrow> string \<Rightarrow> string" where
  "normalizeCompositeRouteMatchType lower m = (if lower (trim_space m) = ''prefix'' then ''prefix'' else ''exact'')"

section \<open>Matching\<close>

record candidate =
  cd_route :: composite_route
  cd_strength :: int
  cd_weight :: int
  cd_len :: nat

definition match_candidate :: "(string \<Rightarrow> string) \<Rightarrow> string \<Rightarrow> string \<Rightarrow> composite_route \<Rightarrow> candidate option" where
  "match_candidate lower model endpoint r =
     (let r = r\<lparr>mr_endpoint := normalizeCompositeRouteEndpoint lower (mr_endpoint r)\<rparr>
      in if mr_endpoint r \<noteq> endpoint \<and> mr_endpoint r \<noteq> ''any'' then None
         else let r = r\<lparr>mr_match := normalizeCompositeRouteMatchType lower (mr_match r)\<rparr>;
                  public = trim_space (mr_public r);
                  weight = (if mr_endpoint r = endpoint then 1 else 0);
                  found = (\<lambda>strength. Some \<lparr>cd_route = r, cd_strength = strength, cd_weight = weight, cd_len = length public\<rparr>)
         in if public = [] then None
            else if mr_match r = ''exact'' then (if public \<noteq> model then None else found 2)
            else if mr_match r = ''prefix'' then (if \<not> has_prefix model public then None else found 1)
            else None)"

text \<open>The comparison of the sort: the first component that differs decides.\<close>

definition route_rank :: "candidate \<Rightarrow> int \<times> int \<times> int \<times> int \<times> int" where
  "route_rank c = (- cd_strength c, - cd_weight c, - int (cd_len c), mr_priority (cd_route c), mr_id (cd_route c))"

definition matchCompositeRoute ::
    "(string \<Rightarrow> string) \<Rightarrow> composite_route list \<Rightarrow> string \<Rightarrow> string \<Rightarrow> composite_route option" where
  "matchCompositeRoute lower routes model endpoint =
     (case sort_key route_rank (List.map_filter (match_candidate lower model endpoint) routes) of
        [] \<Rightarrow> None | c # _ \<Rightarrow> Some (cd_route c))"

definition filterSystemOneRouteModels ::
    "(string \<Rightarrow> string) \<Rightarrow> composite_route list \<Rightarrow> string list \<Rightarrow> string \<Rightarrow> string list" where
  "filterSystemOneRouteModels lower routes models endpoint =
     filter (\<lambda>m. case matchCompositeRoute lower routes m (normalizeCompositeRouteEndpoint lower endpoint) of
                   None \<Rightarrow> True | Some r \<Rightarrow> mr_target r \<noteq> ''typesafe'') models"

definition ListExactPublicModels ::
    "(string \<Rightarrow> string) \<Rightarrow> composite_route list \<Rightarrow> string \<Rightarrow> bool \<Rightarrow> string list" where
  "ListExactPublicModels lower routes endpoint system_one =
     (let models = List.map_filter (\<lambda>r.
            let e = normalizeCompositeRouteEndpoint lower (mr_endpoint r)
            in if mr_enabled r \<and> mr_match r = ''exact'' \<and> (endpoint = [] \<or> e = ''any'' \<or> e = endpoint) \<and>
                  trim_space (mr_public r) \<noteq> [] then Some (trim_space (mr_public r)) else None) routes
      in if system_one then models else filterSystemOneRouteModels lower routes models endpoint)"

definition FilterCodexModels :: "(string \<Rightarrow> string) \<Rightarrow> (int \<Rightarrow> composite_route list option) option \<Rightarrow> int \<Rightarrow> string list \<Rightarrow> string list option" where
  "FilterCodexModels lower repo gid models =
     (case (if gid > 0 then repo else None) of None \<Rightarrow> Some models
      | Some list \<Rightarrow> map_option (\<lambda>routes. filterSystemOneRouteModels lower routes models ''responses'') (list gid))"

section \<open>Ownership\<close>

text \<open>
  An account as the ownership sees it: \<open>ca_mapping\<close> are the entries of \<open>model_mapping\<close> that are texts, \<open>ca_supports\<close> is the answer of
  \<open>IsModelSupported\<close>, \<open>ca_oauth\<close> that of \<open>IsOAuth\<close>.
\<close>

record claim_account =
  ca_platform :: string
  ca_oauth :: bool
  ca_mapping :: "string \<rightharpoonup> string"
  ca_supports :: "string \<Rightarrow> bool"

record ownership =
  ow_target :: string
  ow_matched :: bool
  ow_ambiguous :: bool
  ow_oauth :: bool

definition explicitModelMappingClaims :: "claim_account \<Rightarrow> string \<Rightarrow> bool" where
  "explicitModelMappingClaims a model \<longleftrightarrow>
     model \<noteq> [] \<and> (case ca_mapping a model of None \<Rightarrow> False | Some m \<Rightarrow> trim_space m \<noteq> [])"

definition defaultMappingClaimsSharedGeminiImage :: "claim_account \<Rightarrow> string \<Rightarrow> bool" where
  "defaultMappingClaimsSharedGeminiImage a model \<longleftrightarrow>
     ca_platform a \<in> {''gemini'', ''antigravity'', ''adobe''} \<and> ca_supports a model"

definition claims :: "(string \<Rightarrow> string) \<Rightarrow> string \<Rightarrow> claim_account \<Rightarrow> bool" where
  "claims lower model a \<longleftrightarrow>
     IsConcretePlatform (trim_space (ca_platform a)) \<and>
     (explicitModelMappingClaims a model \<or>
      IsCompositeSharedGeminiImageModel lower model \<and> defaultMappingClaimsSharedGeminiImage a model)"

definition ownership_of :: "(string \<Rightarrow> string) \<Rightarrow> string \<Rightarrow> claim_account list \<Rightarrow> ownership" where
  "ownership_of lower model accounts =
     (let claiming = filter (claims lower model) accounts; platforms = remdups (map (\<lambda>a. trim_space (ca_platform a)) claiming)
      in \<lparr>ow_target = (case platforms of [p] \<Rightarrow> p | _ \<Rightarrow> []), ow_matched = (length platforms = 1), ow_ambiguous = (length platforms > 1),
          ow_oauth = list_ex (\<lambda>a. ca_oauth a \<and> UsesOpenAIGateway (trim_space (ca_platform a))) claiming\<rparr>)"

text \<open>\<open>cached\<close> is the entry of the cache under the group and the model, \<open>accounts\<close> the answer of the query (\<open>None\<close>: it failed). The second
  result is what the cache is given.\<close>

definition resolveCompositeModelOwnership ::
    "(string \<Rightarrow> string) \<Rightarrow> ownership option \<Rightarrow> claim_account list option \<Rightarrow> int \<Rightarrow> string \<Rightarrow> ownership option \<times> ownership option" where
  "resolveCompositeModelOwnership lower cached accounts gid model =
     (let model = trim_space model
      in if gid \<le> 0 \<or> model = [] then (Some \<lparr>ow_target = [], ow_matched = False, ow_ambiguous = False, ow_oauth = False\<rparr>, None)
         else case cached of Some o' \<Rightarrow> (Some o', None)
              | None \<Rightarrow> (case accounts of None \<Rightarrow> (None, None)
                         | Some as \<Rightarrow> (Some (ownership_of lower model as), Some (ownership_of lower model as))))"

section \<open>The decision\<close>

record decision =
  de_matched :: bool
  de_source :: string
  de_group :: int
  de_public :: string
  de_target :: string
  de_upstream :: string
  de_endpoint :: string
  de_route :: "composite_route option"
  de_reason :: string

datatype resolve_error = ListFailed | OwnershipFailed

definition ambiguous_reason :: string where
  "ambiguous_reason = ''model is exposed by multiple provider platforms''"

definition oauth_reason :: string where
  "oauth_reason = ''model is exposed by multiple provider platforms including OAuth accounts''"

definition OAuthAmbiguous :: "decision \<Rightarrow> bool" where
  "OAuthAmbiguous d \<longleftrightarrow> \<not> de_matched d \<and> de_reason d = oauth_reason"

definition decided :: "string \<Rightarrow> int \<Rightarrow> string \<Rightarrow> string \<Rightarrow> string \<Rightarrow> string \<Rightarrow> composite_route option \<Rightarrow> decision" where
  "decided source gid model platform upstream endpoint route =
     \<lparr>de_matched = True, de_source = source, de_group = gid, de_public = model, de_target = platform, de_upstream = upstream,
      de_endpoint = endpoint, de_route = route, de_reason = []\<rparr>"

definition undecided :: "int \<Rightarrow> string \<Rightarrow> string \<Rightarrow> string \<Rightarrow> decision" where
  "undecided gid model endpoint reason =
     \<lparr>de_matched = False, de_source = [], de_group = gid, de_public = model, de_target = [], de_upstream = [],
      de_endpoint = endpoint, de_route = None, de_reason = reason\<rparr>"

text \<open>The last resort.\<close>

definition detect :: "(string \<Rightarrow> string) \<Rightarrow> int \<Rightarrow> string \<Rightarrow> string \<Rightarrow> decision" where
  "detect lower gid model endpoint =
     (case DetectModelPlatform lower model of
        Some p \<Rightarrow> decided ''detector'' gid model p model endpoint None
      | None \<Rightarrow> undecided gid model endpoint ''no explicit route or built-in detector match'')"

text \<open>The part after the explicit routes and the shared image names: \<open>owner\<close> is the ownership resolver, if one is set, with \<open>None\<close> for its failure.\<close>

definition resolve_owner ::
    "(string \<Rightarrow> string) \<Rightarrow> (int \<Rightarrow> string \<Rightarrow> ownership option) option \<Rightarrow> int \<Rightarrow> string \<Rightarrow> string \<Rightarrow> resolve_error + decision" where
  "resolve_owner lower owner gid model endpoint =
     (case (if gid > 0 then owner else None) of
        None \<Rightarrow> Inr (detect lower gid model endpoint)
      | Some ask \<Rightarrow>
          (case ask gid model of
             None \<Rightarrow> if DetectModelPlatform lower model = None \<and> \<not> IsCompositeSharedGeminiImageModel lower model
                     then Inl OwnershipFailed else Inr (detect lower gid model endpoint)
           | Some o' \<Rightarrow>
               if ow_ambiguous o' then
                 Inr (undecided gid model endpoint
                   (case DetectModelPlatform lower model of
                      Some p \<Rightarrow> if ow_oauth o' \<and> UsesOpenAIGateway p then oauth_reason else ambiguous_reason
                    | None \<Rightarrow> ambiguous_reason))
               else if ow_matched o' then
                 (let platform = trim_space (ow_target o')
                  in if \<not> IsConcretePlatform platform
                     then Inr (undecided gid model endpoint ''account model ownership has no concrete target platform'')
                     else Inr (decided ''account_model'' gid model platform model endpoint None))
               else Inr (detect lower gid model endpoint)))"

text \<open>\<open>repo\<close> lists the enabled routes of a group, if there is a repository, with \<open>None\<close> for its failure.\<close>

definition Resolve ::
    "(string \<Rightarrow> string) \<Rightarrow> (int \<Rightarrow> composite_route list option) option \<Rightarrow> (int \<Rightarrow> string \<Rightarrow> ownership option) option \<Rightarrow>
     int \<Rightarrow> string \<Rightarrow> string \<Rightarrow> resolve_error + decision" where
  "Resolve lower repo owner gid model endpoint =
     (let model = trim_space model; endpoint = normalizeCompositeRouteEndpoint lower endpoint;
          rest = (case compositeSharedImagePlatform lower model endpoint of
                    Some p \<Rightarrow> Inr (decided ''detector'' gid model p model endpoint None)
                  | None \<Rightarrow> resolve_owner lower owner gid model endpoint)
      in if model = [] then Inr (undecided gid model endpoint ''model is required'')
         else case (if gid > 0 then repo else None) of
                None \<Rightarrow> rest
              | Some list \<Rightarrow>
                  (case list gid of None \<Rightarrow> Inl ListFailed
                   | Some routes \<Rightarrow>
                       (case matchCompositeRoute lower routes model endpoint of
                          Some r \<Rightarrow>
                            let upstream = trim_space (mr_upstream r)
                            in Inr (decided ''route'' gid model (mr_target r) (if upstream = [] then model else upstream) endpoint (Some r))
                        | None \<Rightarrow> rest)))"

end
