(* ===== verification/CompositeAdmin.thy ===== *)
theory CompositeAdmin
  imports CompositeRoutes
begin

text \<open>
  The administration of composite routes (\<open>internal/service/admin_group.go\<close>, \<open>composite_model_route.go\<close>) over the table of routes
  (\<open>internal/repository/composite_model_route_repo.go\<close>, with the validators of \<open>ent/schema/composite_model_route.go\<close> and the unique index of
  \<open>migrations/172_composite_model_routes.sql\<close>). Deleted rows keep their place in the database, but no statement reads them again; they are
  left out, as are the time stamps. A request's check and its statement are one step.
\<close>

section \<open>The table\<close>

record route_table =
  tb_routes :: "composite_route list"
  tb_next :: int

datatype route_error =
    SimpleModeOnly | GroupNotFound | NotCompositeGroup | NoPublicModel | TargetNotConcrete | RouteNotFound | RouteExists | RouteRefused

definition ListByGroup :: "int \<Rightarrow> bool \<Rightarrow> route_table \<Rightarrow> composite_route list" where
  "ListByGroup gid include_disabled tb =
     sort_key (\<lambda>r. (mr_priority r, mr_id r))
       (filter (\<lambda>r. mr_group r = gid \<and> (include_disabled \<or> mr_enabled r)) (tb_routes tb))"

text \<open>The columns of the unique index.\<close>

definition route_key :: "composite_route \<Rightarrow> int \<times> string \<times> string \<times> string" where
  "route_key r = (mr_group r, mr_endpoint r, mr_match r, mr_public r)"

text \<open>The validators of the schema.\<close>

definition row_fits :: "composite_route \<Rightarrow> bool" where
  "row_fits r \<longleftrightarrow>
     mr_public r \<noteq> [] \<and> length (mr_public r) \<le> 200 \<and> length (mr_match r) \<le> 20 \<and> length (mr_target r) \<le> 50 \<and>
     IsConcretePlatform (mr_target r) \<and> length (mr_upstream r) \<le> 200 \<and> length (mr_endpoint r) \<le> 50"

definition InsertRoute :: "composite_route \<Rightarrow> route_table \<Rightarrow> route_error + composite_route \<times> route_table" where
  "InsertRoute r tb =
     (if \<not> row_fits r then Inl RouteRefused
      else if list_ex (\<lambda>x. route_key x = route_key r) (tb_routes tb) then Inl RouteExists
      else let r = r\<lparr>mr_id := tb_next tb\<rparr> in Inr (r, \<lparr>tb_routes = tb_routes tb @ [r], tb_next = tb_next tb + 1\<rparr>))"

text \<open>An update keeps the group of its row.\<close>

definition UpdateRoute :: "composite_route \<Rightarrow> route_table \<Rightarrow> route_error + composite_route \<times> route_table" where
  "UpdateRoute r tb =
     (if \<not> row_fits r then Inl RouteRefused
      else case List.find (\<lambda>x. mr_id x = mr_id r) (tb_routes tb) of None \<Rightarrow> Inl RouteNotFound
           | Some old \<Rightarrow>
               let r = r\<lparr>mr_group := mr_group old\<rparr>
               in if list_ex (\<lambda>x. mr_id x \<noteq> mr_id r \<and> route_key x = route_key r) (tb_routes tb) then Inl RouteExists
                  else Inr (r, tb\<lparr>tb_routes := map (\<lambda>x. if mr_id x = mr_id r then r else x) (tb_routes tb)\<rparr>))"

definition DeleteRoute :: "int \<Rightarrow> route_table \<Rightarrow> route_error + route_table" where
  "DeleteRoute i tb =
     (if list_ex (\<lambda>x. mr_id x = i) (tb_routes tb) then Inr (tb\<lparr>tb_routes := filter (\<lambda>x. mr_id x \<noteq> i) (tb_routes tb)\<rparr>) else Inl RouteNotFound)"

definition DeleteByGroup :: "int \<Rightarrow> route_table \<Rightarrow> route_table" where
  "DeleteByGroup gid tb = tb\<lparr>tb_routes := filter (\<lambda>x. mr_group x \<noteq> gid) (tb_routes tb)\<rparr>"

section \<open>Administration\<close>

record route_input =
  ri_public :: string
  ri_match :: string
  ri_target :: string
  ri_upstream :: string
  ri_endpoint :: string
  ri_priority :: int
  ri_enabled :: bool
  ri_notes :: string

definition normalizeCompositeRouteInput :: "(string \<Rightarrow> string) \<Rightarrow> route_input \<Rightarrow> route_input" where
  "normalizeCompositeRouteInput lower q =
     (let public = trim_space (ri_public q); mt = normalizeCompositeRouteMatchType lower (ri_match q);
          upstream = trim_space (ri_upstream q)
      in \<lparr>ri_public = public, ri_match = mt, ri_target = trim_space (ri_target q),
          ri_upstream = (if upstream = [] \<and> mt = ''exact'' then public else upstream),
          ri_endpoint = normalizeCompositeRouteEndpoint lower (ri_endpoint q), ri_priority = ri_priority q,
          ri_enabled = ri_enabled q, ri_notes = trim_space (ri_notes q)\<rparr>)"

definition compositeRouteFromInput :: "(string \<Rightarrow> string) \<Rightarrow> int \<Rightarrow> route_input \<Rightarrow> route_error + composite_route" where
  "compositeRouteFromInput lower gid q =
     (let q = normalizeCompositeRouteInput lower q
      in if ri_public q = [] then Inl NoPublicModel
         else if \<not> IsConcretePlatform (ri_target q) then Inl TargetNotConcrete
         else Inr \<lparr>mr_id = 0, mr_group = gid, mr_public = ri_public q, mr_match = ri_match q, mr_target = ri_target q,
                   mr_upstream = ri_upstream q, mr_endpoint = ri_endpoint q,
                   mr_priority = (if ri_priority q = 0 then 100 else ri_priority q), mr_enabled = ri_enabled q, mr_notes = ri_notes q\<rparr>)"

text \<open>The checks in front of every operation: the run mode, and the group's platform.\<close>

definition requireCompositeGroup :: "bool \<Rightarrow> (int \<rightharpoonup> string) \<Rightarrow> int \<Rightarrow> route_error option" where
  "requireCompositeGroup simple groups gid =
     (if simple then Some SimpleModeOnly
      else case groups gid of None \<Rightarrow> Some GroupNotFound | Some p \<Rightarrow> if p \<noteq> ''composite'' then Some NotCompositeGroup else None)"

definition compositeRouteBelongsToGroup :: "int \<Rightarrow> int \<Rightarrow> route_table \<Rightarrow> bool" where
  "compositeRouteBelongsToGroup gid i tb = list_ex (\<lambda>r. mr_id r = i) (ListByGroup gid True tb)"

definition ListCompositeRoutes :: "bool \<Rightarrow> (int \<rightharpoonup> string) \<Rightarrow> int \<Rightarrow> route_table \<Rightarrow> route_error + composite_route list" where
  "ListCompositeRoutes simple groups gid tb =
     (case requireCompositeGroup simple groups gid of Some e \<Rightarrow> Inl e | None \<Rightarrow> Inr (ListByGroup gid True tb))"

definition CreateCompositeRoute ::
    "(string \<Rightarrow> string) \<Rightarrow> bool \<Rightarrow> (int \<rightharpoonup> string) \<Rightarrow> int \<Rightarrow> route_input \<Rightarrow> route_table \<Rightarrow> route_error + composite_route \<times> route_table" where
  "CreateCompositeRoute lower simple groups gid q tb =
     (case requireCompositeGroup simple groups gid of Some e \<Rightarrow> Inl e
      | None \<Rightarrow> (case compositeRouteFromInput lower gid q of Inl e \<Rightarrow> Inl e | Inr r \<Rightarrow> InsertRoute r tb))"

definition UpdateCompositeRoute ::
    "(string \<Rightarrow> string) \<Rightarrow> bool \<Rightarrow> (int \<rightharpoonup> string) \<Rightarrow> int \<Rightarrow> int \<Rightarrow> route_input \<Rightarrow> route_table \<Rightarrow>
     route_error + composite_route \<times> route_table" where
  "UpdateCompositeRoute lower simple groups gid i q tb =
     (case requireCompositeGroup simple groups gid of Some e \<Rightarrow> Inl e
      | None \<Rightarrow> if \<not> compositeRouteBelongsToGroup gid i tb then Inl RouteNotFound
          else (case compositeRouteFromInput lower gid q of Inl e \<Rightarrow> Inl e | Inr r \<Rightarrow> UpdateRoute (r\<lparr>mr_id := i\<rparr>) tb))"

definition DeleteCompositeRoute :: "bool \<Rightarrow> (int \<rightharpoonup> string) \<Rightarrow> int \<Rightarrow> int \<Rightarrow> route_table \<Rightarrow> route_error + route_table" where
  "DeleteCompositeRoute simple groups gid i tb =
     (case requireCompositeGroup simple groups gid of Some e \<Rightarrow> Inl e
      | None \<Rightarrow> if \<not> compositeRouteBelongsToGroup gid i tb then Inl RouteNotFound else DeleteRoute i tb)"

definition PreviewCompositeRoute ::
    "(string \<Rightarrow> string) \<Rightarrow> bool \<Rightarrow> (int \<rightharpoonup> string) \<Rightarrow> (int \<Rightarrow> string \<Rightarrow> ownership option) option \<Rightarrow> int \<Rightarrow> string \<Rightarrow> string \<Rightarrow> route_table \<Rightarrow>
     route_error + (resolve_error + decision)" where
  "PreviewCompositeRoute lower simple groups owner gid model endpoint tb =
     (case requireCompositeGroup simple groups gid of Some e \<Rightarrow> Inl e
      | None \<Rightarrow> Inr (Resolve lower (Some (\<lambda>g. Some (ListByGroup g False tb))) owner gid model endpoint))"

section \<open>Tables that arise\<close>

text \<open>The operations of administrators, and the removal of a group's routes (which no service calls yet), in any order from an empty table; a
  refused operation changes nothing.\<close>

datatype route_op =
    CreateOp int route_input | UpdateOp int int route_input | DeleteOp int int | GroupOp int

definition apply_op :: "(string \<Rightarrow> string) \<Rightarrow> bool \<Rightarrow> (int \<rightharpoonup> string) \<Rightarrow> route_op \<Rightarrow> route_table \<Rightarrow> route_table" where
  "apply_op lower simple groups op tb =
     (case op of
        CreateOp gid q \<Rightarrow> (case CreateCompositeRoute lower simple groups gid q tb of Inl _ \<Rightarrow> tb | Inr (_, t) \<Rightarrow> t)
      | UpdateOp gid i q \<Rightarrow> (case UpdateCompositeRoute lower simple groups gid i q tb of Inl _ \<Rightarrow> tb | Inr (_, t) \<Rightarrow> t)
      | DeleteOp gid i \<Rightarrow> (case DeleteCompositeRoute simple groups gid i tb of Inl _ \<Rightarrow> tb | Inr t \<Rightarrow> t)
      | GroupOp gid \<Rightarrow> DeleteByGroup gid tb)"

inductive route_reach :: "(string \<Rightarrow> string) \<Rightarrow> route_table \<Rightarrow> bool" for lower where
  empty: "route_reach lower \<lparr>tb_routes = [], tb_next = n\<rparr>"
| step: "route_reach lower tb \<Longrightarrow> route_reach lower (apply_op lower simple groups op tb)"

definition route_ok :: "composite_route \<Rightarrow> bool" where
  "route_ok r \<longleftrightarrow>
     mr_public r \<noteq> [] \<and> trim_space (mr_public r) = mr_public r \<and> mr_match r \<in> {''exact'', ''prefix''} \<and>
     mr_endpoint r \<in> insert ''any'' (set route_endpoints) \<and> IsConcretePlatform (mr_target r) \<and> trim_space (mr_upstream r) = mr_upstream r \<and>
     (mr_match r = ''exact'' \<longrightarrow> mr_upstream r \<noteq> [])"

definition table_ok :: "route_table \<Rightarrow> bool" where
  "table_ok tb \<longleftrightarrow>
     (\<forall>r \<in> set (tb_routes tb). route_ok r \<and> mr_id r < tb_next tb) \<and> distinct (map mr_id (tb_routes tb)) \<and>
     distinct (map route_key (tb_routes tb))"

lemma from_input_ok:
  assumes "compositeRouteFromInput lower gid q = Inr r"
  shows "route_ok r" "mr_group r = gid"
  using assms
  by (auto simp: compositeRouteFromInput_def normalizeCompositeRouteInput_def normalizeCompositeRouteMatchType_def
      normalizeCompositeRouteEndpoint_def route_ok_def Let_def split: if_splits)

lemma insert_ok:
  assumes "InsertRoute r tb = Inr (r', tb')" "table_ok tb" "route_ok r"
  shows "table_ok tb'"
proof -
  let ?r = "r\<lparr>mr_id := tb_next tb\<rparr>"
  from assms(1) have tb': "tb' = \<lparr>tb_routes = tb_routes tb @ [?r], tb_next = tb_next tb + 1\<rparr>"
    and new: "\<forall>x \<in> set (tb_routes tb). route_key x \<noteq> route_key r"
    by (auto simp: InsertRoute_def list_ex_iff Let_def split: if_splits)
  have "route_key ?r = route_key r" "route_ok ?r" using assms(3) by (simp_all add: route_key_def route_ok_def)
  moreover have "mr_id x \<noteq> tb_next tb" if "x \<in> set (tb_routes tb)" for x using assms(2) that by (auto simp: table_ok_def)
  ultimately show ?thesis using assms(2) new by (force simp: table_ok_def tb')
qed

lemma find_mem: "List.find P xs = Some x \<Longrightarrow> x \<in> set xs \<and> P x"
  by (auto simp: find_Some_iff)

lemma update_ok:
  assumes "UpdateRoute r tb = Inr (r', tb')" "table_ok tb" "route_ok r"
  shows "table_ok tb'"
proof -
  obtain old where found: "List.find (\<lambda>x. mr_id x = mr_id r) (tb_routes tb) = Some old"
    using assms(1) by (cases "List.find (\<lambda>x. mr_id x = mr_id r) (tb_routes tb)") (simp_all add: UpdateRoute_def split: if_splits)
  from find_mem [OF found] have old: "old \<in> set (tb_routes tb)" "mr_id old = mr_id r" by simp_all
  have new: "r' = r\<lparr>mr_group := mr_group old\<rparr>" "tb' = tb\<lparr>tb_routes := map (\<lambda>x. if mr_id x = mr_id r then r' else x) (tb_routes tb)\<rparr>"
    and "\<not> list_ex (\<lambda>x. mr_id x \<noteq> mr_id r \<and> route_key x = route_key r') (tb_routes tb)"
    using assms(1) by (auto simp: UpdateRoute_def found Let_def split: if_splits)
  then have key: "\<forall>x \<in> set (tb_routes tb). mr_id x \<noteq> mr_id r \<longrightarrow> route_key x \<noteq> route_key r'" by (auto simp: list_ex_iff)
  let ?f = "\<lambda>x. if mr_id x = mr_id r then r' else x"
  have ids: "map mr_id (map ?f (tb_routes tb)) = map mr_id (tb_routes tb)" by (simp add: new(1))
  have inj: "inj_on mr_id (set (tb_routes tb))" "inj_on route_key (set (tb_routes tb))" "distinct (tb_routes tb)"
    using assms(2) by (auto simp: table_ok_def distinct_map)
  have "route_key (?f x) \<noteq> route_key (?f y)" if "x \<in> set (tb_routes tb)" "y \<in> set (tb_routes tb)" "x \<noteq> y" for x y
  proof -
    have "mr_id x \<noteq> mr_id y" "route_key x \<noteq> route_key y" using that inj(1,2) by (meson inj_onD)+
    with that key show ?thesis by auto
  qed
  then have "inj_on (\<lambda>x. route_key (?f x)) (set (tb_routes tb))" by (meson inj_onI)
  then have "distinct (map route_key (map ?f (tb_routes tb)))" using inj(3) by (simp add: distinct_map comp_def)
  moreover have "route_ok r'" using assms(3) by (simp add: new(1) route_ok_def)
  moreover have "mr_id r' < tb_next tb" using assms(2) old by (auto simp: new(1) table_ok_def)
  moreover have "distinct (map mr_id (map ?f (tb_routes tb)))" using assms(2) unfolding ids by (simp add: table_ok_def)
  ultimately show ?thesis using assms(2) by (auto simp: table_ok_def new(2) simp del: map_map)
qed

lemma filter_ok: "table_ok tb \<Longrightarrow> table_ok (tb\<lparr>tb_routes := filter P (tb_routes tb)\<rparr>)"
  by (auto simp: table_ok_def distinct_map_filter)

lemma apply_op_ok:
  assumes "table_ok tb"
  shows "table_ok (apply_op lower simple groups op tb)"
proof (cases op)
  case (CreateOp gid q)
  with assms show ?thesis
    by (auto simp: apply_op_def CreateCompositeRoute_def split: sum.splits option.splits intro: insert_ok dest: from_input_ok)
next
  case (UpdateOp gid i q)
  have "table_ok t" if "compositeRouteFromInput lower gid q = Inr r" "UpdateRoute (r\<lparr>mr_id := i\<rparr>) tb = Inr (r', t)" for r r' t
    using update_ok [OF that(2) assms] from_input_ok(1) [OF that(1)] by (simp add: route_ok_def)
  with assms UpdateOp show ?thesis
    by (auto simp: apply_op_def UpdateCompositeRoute_def split: sum.splits option.splits if_splits)
next
  case (DeleteOp gid i)
  with assms show ?thesis
    by (auto simp: apply_op_def DeleteCompositeRoute_def DeleteRoute_def filter_ok split: sum.splits option.splits if_splits)
qed (use assms in \<open>simp add: apply_op_def DeleteByGroup_def filter_ok\<close>)

lemma reach_table_ok: "route_reach lower tb \<Longrightarrow> table_ok tb"
  by (induction rule: route_reach.induct) (auto simp: apply_op_ok, simp add: table_ok_def)


section \<open>The best route\<close>

text \<open>The first element of a stable sort.\<close>

lemma sort_key_hd:
  fixes f :: "'a \<Rightarrow> 'b :: linorder"
  assumes "sort_key f xs = x # ys"
  shows "x \<in> set xs" "y \<in> set xs \<Longrightarrow> f x \<le> f y"
proof -
  have set: "set (x # ys) = set xs" using assms by (metis set_sort)
  then show "x \<in> set xs" by auto
  have "sorted (map f (x # ys))" using assms by (metis sorted_sort_key)
  with set show "y \<in> set xs \<Longrightarrow> f x \<le> f y" by auto
qed

definition candidates :: "(string \<Rightarrow> string) \<Rightarrow> string \<Rightarrow> string \<Rightarrow> composite_route list \<Rightarrow> candidate set" where
  "candidates lower model endpoint routes = {c. \<exists>r \<in> set routes. match_candidate lower model endpoint r = Some c}"

lemma match_result:
  "matchCompositeRoute lower routes model endpoint = None \<longleftrightarrow> candidates lower model endpoint routes = {}"
  "matchCompositeRoute lower routes model endpoint = Some r \<Longrightarrow> \<exists>c \<in> candidates lower model endpoint routes. cd_route c = r \<and>
     (\<forall>c' \<in> candidates lower model endpoint routes. route_rank c \<le> route_rank c')"
proof -
  let ?cs = "List.map_filter (match_candidate lower model endpoint) routes"
  have set: "set ?cs = candidates lower model endpoint routes"
    by (force simp: candidates_def map_filter_def)
  have "sort_key route_rank ?cs = [] \<longleftrightarrow> candidates lower model endpoint routes = {}"
    by (metis set set_empty set_sort)
  then show "matchCompositeRoute lower routes model endpoint = None \<longleftrightarrow> candidates lower model endpoint routes = {}"
    by (auto simp: matchCompositeRoute_def split: list.split)
  assume "matchCompositeRoute lower routes model endpoint = Some r"
  then obtain c cs where "sort_key route_rank ?cs = c # cs" "cd_route c = r"
    by (auto simp: matchCompositeRoute_def split: list.splits)
  with sort_key_hd [of route_rank ?cs c cs] set
  show "\<exists>c \<in> candidates lower model endpoint routes. cd_route c = r \<and>
     (\<forall>c' \<in> candidates lower model endpoint routes. route_rank c \<le> route_rank c')" by auto
qed

text \<open>What decides before the priority: an exact match, a route for the endpoint itself, a longer prefix.\<close>

definition precision :: "candidate \<Rightarrow> int \<times> int \<times> int" where
  "precision c = (- cd_strength c, - cd_weight c, - int (cd_len c))"

lemma rank_precision: "route_rank c \<le> route_rank c' \<Longrightarrow> precision c \<le> precision c'"
  by (auto simp: route_rank_def precision_def)

text \<open>Lower-casing keeps the names that are lower-case already.\<close>

definition keeps_names :: "(string \<Rightarrow> string) \<Rightarrow> bool" where
  "keeps_names lower \<longleftrightarrow> (\<forall>s \<in> set (''any'' # ''exact'' # ''prefix'' # route_endpoints). lower s = s)"

abbreviation stored_endpoints :: "string set" where
  "stored_endpoints \<equiv> insert ''any'' (set route_endpoints)"

lemma normalized_names:
  assumes "keeps_names lower"
  shows "e \<in> stored_endpoints \<Longrightarrow> normalizeCompositeRouteEndpoint lower e = e"
    and "m \<in> {''exact'', ''prefix''} \<Longrightarrow> normalizeCompositeRouteMatchType lower m = m"
proof -
  have trim: "\<forall>s \<in> set (''any'' # ''exact'' # ''prefix'' # route_endpoints). trim_space s = s" "''any'' \<notin> set route_endpoints"
    by code_simp+
  have "trim_space e = e \<and> lower e = e" if "e \<in> stored_endpoints" for e
    using assms trim(1) that by (auto simp: keeps_names_def)
  then show "e \<in> stored_endpoints \<Longrightarrow> normalizeCompositeRouteEndpoint lower e = e"
    using trim(2) by (auto simp: normalizeCompositeRouteEndpoint_def)
  show "m \<in> {''exact'', ''prefix''} \<Longrightarrow> normalizeCompositeRouteMatchType lower m = m"
    using assms trim(1) by (auto simp: normalizeCompositeRouteMatchType_def keeps_names_def)
qed

text \<open>A stored route is its own candidate.\<close>

lemma stored_candidate:
  assumes "keeps_names lower" "route_ok r"
  shows "match_candidate lower model endpoint r =
    (if mr_endpoint r \<noteq> endpoint \<and> mr_endpoint r \<noteq> ''any'' then None
     else if (if mr_match r = ''exact'' then mr_public r \<noteq> model else \<not> has_prefix model (mr_public r)) then None
     else Some \<lparr>cd_route = r, cd_strength = (if mr_match r = ''exact'' then 2 else 1),
                cd_weight = (if mr_endpoint r = endpoint then 1 else 0), cd_len = length (mr_public r)\<rparr>)"
proof -
  have "r\<lparr>mr_endpoint := mr_endpoint r\<rparr> = r" "r\<lparr>mr_match := mr_match r\<rparr> = r" by simp_all
  moreover have "normalizeCompositeRouteEndpoint lower (mr_endpoint r) = mr_endpoint r"
    "normalizeCompositeRouteMatchType lower (mr_match r) = mr_match r"
    using assms normalized_names by (auto simp: route_ok_def)
  ultimately show ?thesis using assms(2) by (auto simp: match_candidate_def route_ok_def Let_def)
qed

text \<open>Two routes of a group that are equally precise are the same.\<close>

lemma precision_inject:
  assumes "keeps_names lower" "table_ok tb" "r \<in> set (tb_routes tb)" "r' \<in> set (tb_routes tb)" "mr_group r = mr_group r'"
    and "match_candidate lower model endpoint r = Some c" "match_candidate lower model endpoint r' = Some c'" "precision c = precision c'"
  shows "r = r'"
proof -
  have ok: "route_ok r" "route_ok r'" using assms(2-4) by (auto simp: table_ok_def)
  note c = assms(6,7) [unfolded stored_candidate [OF assms(1) ok(1)] stored_candidate [OF assms(1) ok(2)]]
  from c assms(8) have same: "mr_endpoint r = mr_endpoint r'" "length (mr_public r) = length (mr_public r')"
    "mr_match r = ''exact'' \<longleftrightarrow> mr_match r' = ''exact''"
    by (auto simp: precision_def split: if_splits)
  moreover have "mr_match r = mr_match r'" using same(3) ok by (auto simp: route_ok_def)
  moreover have "mr_public r = mr_public r'"
    using c same(2,3) by (auto simp: has_prefix_iff split: if_splits)
  ultimately have "route_key r = route_key r'" using assms(5) by (simp add: route_key_def)
  with assms(2-4) show ?thesis by (auto simp: table_ok_def distinct_map dest: inj_onD)
qed

lemma set_ListByGroup: "set (ListByGroup gid dis tb) = {r \<in> set (tb_routes tb). mr_group r = gid \<and> (dis \<or> mr_enabled r)}"
  by (simp add: ListByGroup_def)

definition best_route :: "(string \<Rightarrow> string) \<Rightarrow> composite_route set \<Rightarrow> string \<Rightarrow> string \<Rightarrow> composite_route \<Rightarrow> bool" where
  "best_route lower rs model endpoint r \<longleftrightarrow>
     r \<in> rs \<and> (\<exists>c. match_candidate lower model endpoint r = Some c \<and>
       (\<forall>r' \<in> rs. \<forall>c'. match_candidate lower model endpoint r' = Some c' \<longrightarrow> precision c \<le> precision c'))"

lemma stored_best:
  assumes "keeps_names lower" "table_ok tb"
  shows "matchCompositeRoute lower (ListByGroup gid False tb) model endpoint = Some r \<longleftrightarrow>
    best_route lower (set (ListByGroup gid False tb)) model endpoint r"
proof -
  let ?rs = "ListByGroup gid False tb"
  have own: "cd_route c = r" if "r \<in> set ?rs" "match_candidate lower model endpoint r = Some c" for r c
    using that assms stored_candidate [of lower r model endpoint] by (auto simp: set_ListByGroup table_ok_def split: if_splits)
  have result: "best_route lower (set ?rs) model endpoint x" if x: "matchCompositeRoute lower ?rs model endpoint = Some x" for x
  proof -
    from match_result(2) [OF x] obtain c y where c: "y \<in> set ?rs" "match_candidate lower model endpoint y = Some c" "cd_route c = x"
      and best: "\<forall>c' \<in> candidates lower model endpoint ?rs. route_rank c \<le> route_rank c'"
      by (auto simp: candidates_def)
    have "x = y" using own [OF c(1,2)] c(3) by simp
    moreover have "precision c \<le> precision c'" if "z \<in> set ?rs" "match_candidate lower model endpoint z = Some c'" for z c'
      using that best rank_precision by (auto simp: candidates_def)
    ultimately show ?thesis using c by (auto simp: best_route_def)
  qed
  have unique: "x = y" if "best_route lower (set ?rs) model endpoint x" "best_route lower (set ?rs) model endpoint y" for x y
  proof -
    from that obtain c c' where c: "match_candidate lower model endpoint x = Some c" "match_candidate lower model endpoint y = Some c'"
      "precision c \<le> precision c'" "precision c' \<le> precision c" "x \<in> set ?rs" "y \<in> set ?rs"
      unfolding best_route_def by blast
    then have "precision c = precision c'" by simp
    with c show ?thesis using precision_inject [OF assms, of x y model endpoint c c'] by (auto simp: set_ListByGroup)
  qed
  show ?thesis
  proof
    assume r: "best_route lower (set ?rs) model endpoint r"
    then have "candidates lower model endpoint ?rs \<noteq> {}" by (auto simp: best_route_def candidates_def)
    then obtain x where x: "matchCompositeRoute lower ?rs model endpoint = Some x"
      using match_result(1) [of lower ?rs model endpoint] by auto
    from unique [OF result [OF x] r] x show "matchCompositeRoute lower ?rs model endpoint = Some r" by simp
  qed (rule result)
qed


section \<open>Priorities\<close>

definition reprioritise :: "(composite_route \<Rightarrow> int) \<Rightarrow> composite_route \<Rightarrow> composite_route" where
  "reprioritise f r = r\<lparr>mr_priority := f r\<rparr>"

lemma reprioritise_candidate:
  assumes "keeps_names lower" "route_ok r"
  shows "match_candidate lower model endpoint (reprioritise f r) =
    map_option (\<lambda>c. c\<lparr>cd_route := reprioritise f r\<rparr>) (match_candidate lower model endpoint r)"
proof -
  have ok: "route_ok (reprioritise f r)" using assms(2) by (simp add: route_ok_def reprioritise_def)
  show ?thesis
    unfolding stored_candidate [OF assms(1) ok] stored_candidate [OF assms] by (simp add: reprioritise_def)
qed

lemma reprioritise_best:
  assumes "keeps_names lower" "\<forall>r \<in> rs. route_ok r" "best_route lower rs model endpoint r"
  shows "best_route lower (reprioritise f ` rs) model endpoint (reprioritise f r)"
proof -
  obtain c where c: "r \<in> rs" "match_candidate lower model endpoint r = Some c"
    and best: "\<forall>r' \<in> rs. \<forall>c'. match_candidate lower model endpoint r' = Some c' \<longrightarrow> precision c \<le> precision c'"
    using assms(3) unfolding best_route_def by blast
  have same: "precision (c\<lparr>cd_route := y\<rparr>) = precision c" for y c by (simp add: precision_def)
  have moved: "match_candidate lower model endpoint (reprioritise f x) =
      map_option (\<lambda>c. c\<lparr>cd_route := reprioritise f x\<rparr>) (match_candidate lower model endpoint x)" if "x \<in> rs" for x
    using reprioritise_candidate [OF assms(1)] assms(2) that by blast
  have least: "\<forall>r' \<in> reprioritise f ` rs. \<forall>c'. match_candidate lower model endpoint r' = Some c' \<longrightarrow>
      precision (c\<lparr>cd_route := reprioritise f r\<rparr>) \<le> precision c'"
    using best by (auto simp: moved same)
  have here: "match_candidate lower model endpoint (reprioritise f r) = Some (c\<lparr>cd_route := reprioritise f r\<rparr>)"
    using moved [OF c(1)] c(2) by simp
  show ?thesis unfolding best_route_def using least here imageI [OF c(1)] by (intro conjI exI)
qed

text \<open>C10: The priority of a route never matters. Of the routes that administrators stored for a group, the one a request gets is
  the most precise match: an exact name before a prefix, then a route for the endpoint before one for any, then the longest
  prefix. No two routes of a group are equally precise, so whatever priorities they are given, the choice stays the same.\<close>

theorem priority_never_decides:
  assumes "route_reach lower tb" "keeps_names lower"
  shows "(matchCompositeRoute lower (ListByGroup gid False tb) model endpoint = Some r \<longleftrightarrow>
      best_route lower {r \<in> set (tb_routes tb). mr_group r = gid \<and> mr_enabled r} model endpoint r) \<and>
    matchCompositeRoute lower (ListByGroup gid False (tb\<lparr>tb_routes := map (reprioritise f) (tb_routes tb)\<rparr>)) model endpoint =
      map_option (reprioritise f) (matchCompositeRoute lower (ListByGroup gid False tb) model endpoint)"
proof
  let ?rs = "{r \<in> set (tb_routes tb). mr_group r = gid \<and> mr_enabled r}" and ?tb = "tb\<lparr>tb_routes := map (reprioritise f) (tb_routes tb)\<rparr>"
  have ok: "table_ok tb" by (rule reach_table_ok [OF assms(1)])
  have "route_key (reprioritise f r) = route_key r" "mr_id (reprioritise f r) = mr_id r" "mr_enabled (reprioritise f r) = mr_enabled r"
    "mr_group (reprioritise f r) = mr_group r" "route_ok (reprioritise f r) = route_ok r" for r
    by (simp_all add: reprioritise_def route_key_def route_ok_def)
  note same = this
  have ok': "table_ok ?tb" using ok by (simp add: table_ok_def comp_def same)
  have list: "set (ListByGroup gid False tb) = ?rs" "set (ListByGroup gid False ?tb) = reprioritise f ` ?rs"
    by (auto simp: set_ListByGroup same)
  have rs: "\<forall>r \<in> ?rs. route_ok r" using ok by (simp add: table_ok_def)
  show "matchCompositeRoute lower (ListByGroup gid False tb) model endpoint = Some r \<longleftrightarrow> best_route lower ?rs model endpoint r" for r
    unfolding stored_best [OF assms(2) ok] list ..
  show "matchCompositeRoute lower (ListByGroup gid False ?tb) model endpoint =
      map_option (reprioritise f) (matchCompositeRoute lower (ListByGroup gid False tb) model endpoint)"
  proof (cases "matchCompositeRoute lower (ListByGroup gid False tb) model endpoint")
    case None
    then have "candidates lower model endpoint (ListByGroup gid False tb) = {}"
      using match_result(1) [of lower "ListByGroup gid False tb" model endpoint] by simp
    then have "match_candidate lower model endpoint x = None" if "x \<in> ?rs" for x
      using that unfolding candidates_def list by (cases "match_candidate lower model endpoint x") blast+
    then have "candidates lower model endpoint (ListByGroup gid False ?tb) = {}"
      using rs reprioritise_candidate [OF assms(2)] by (auto simp: candidates_def list)
    with None match_result(1) [of lower "ListByGroup gid False ?tb" model endpoint] show ?thesis by simp
  next
    case (Some r)
    then have "best_route lower (reprioritise f ` ?rs) model endpoint (reprioritise f r)"
      using reprioritise_best [OF assms(2) rs] by (simp add: stored_best [OF assms(2) ok] list)
    with Some show ?thesis by (simp add: stored_best [OF assms(2) ok'] list)
  qed
qed

definition route_form :: "string \<Rightarrow> string \<Rightarrow> string \<Rightarrow> string \<Rightarrow> int \<Rightarrow> route_input" where
  "route_form public match target upstream priority =
     \<lparr>ri_public = public, ri_match = match, ri_target = target, ri_upstream = upstream, ri_endpoint = [], ri_priority = priority,
      ri_enabled = True, ri_notes = []\<rparr>"

definition composite_one :: "int \<rightharpoonup> string" where
  "composite_one i = (if i = 7 then Some ''composite'' else None)"

text \<open>Two prefix routes: the longer one has the larger priority.\<close>

definition two_routes :: route_table where
  "two_routes =
     apply_op ascii_lower False composite_one (CreateOp 7 (route_form ''m-'' ''Prefix'' ''openai'' [] 1))
       (apply_op ascii_lower False composite_one (CreateOp 7 (route_form ''m-1'' ''prefix'' ''kimi'' ''k'' 9))
         \<lparr>tb_routes = [], tb_next = 1\<rparr>)"

lemma two_routes_reach: "route_reach ascii_lower two_routes"
  unfolding two_routes_def by (intro route_reach.step route_reach.empty)

lemma ascii_keeps_names: "keeps_names ascii_lower"
  by code_simp

text \<open>The longer prefix gets the request for m-1x, with the priorities as they are and with both set to 0.\<close>

lemma priority_never_decides_witness:
  "map_option mr_target (matchCompositeRoute ascii_lower (ListByGroup 7 False two_routes) ''m-1x'' ''messages'') = Some ''kimi'' \<and>
   map_option (\<lambda>r. (mr_target r, mr_priority r)) (matchCompositeRoute ascii_lower
     (ListByGroup 7 False (two_routes\<lparr>tb_routes := map (reprioritise (\<lambda>_. 0)) (tb_routes two_routes)\<rparr>)) ''m-1x'' ''messages'') =
   Some (''kimi'', 0)"
proof -
  have first: "map_option mr_target (matchCompositeRoute ascii_lower (ListByGroup 7 False two_routes) ''m-1x'' ''messages'') = Some ''kimi''"
    by code_simp
  show ?thesis
    unfolding conjunct2 [OF priority_never_decides [OF two_routes_reach ascii_keeps_names,
        of 7 "''m-1x''" "''messages''" undefined "\<lambda>_. 0"]]
    using first by (auto simp: reprioritise_def)
qed

end
