(* ===== verification/CompositeRequests.thy ===== *)
theory CompositeRequests
  imports CompositeAdmin
begin

text \<open>
  A decision's way through a request of a composite group: the values of the request's context (\<open>internal/service/composite_platform.go\<close>), the
  middlewares that decide (\<open>internal/server/routes/gateway.go\<close>), and the gateway that reads the decision when it selects an account
  (\<open>internal/service/gateway_scheduling.go\<close>, \<open>internal/handler/composite_platform.go\<close>). \<open>resolve\<close> is the resolver as it answers at that
  moment, \<open>model_of\<close> is \<open>requestmodel.FromBodyForRoute\<close>, and \<open>rewrite\<close> sets the model in a JSON body (\<open>None\<close>: no JSON, no place for it, or
  an error).
\<close>

section \<open>The context\<close>

record request_ctx =
  rc_platform :: "string option"
  rc_upstream :: "string option"
  rc_public :: "string option"
  rc_source :: "string option"

definition no_values :: request_ctx where
  "no_values = \<lparr>rc_platform = None, rc_upstream = None, rc_public = None, rc_source = None\<rparr>"

text \<open>Blank values are neither written nor read.\<close>

definition context_value :: "string option \<Rightarrow> string option" where
  "context_value v = (case v of None \<Rightarrow> None | Some s \<Rightarrow> if trim_space s = [] then None else Some (trim_space s))"

definition stored_value :: "string \<Rightarrow> string option \<Rightarrow> string option" where
  "stored_value s old = (if trim_space s = [] then old else Some (trim_space s))"

definition WithResolvedTargetPlatform :: "string \<Rightarrow> request_ctx \<Rightarrow> request_ctx" where
  "WithResolvedTargetPlatform p ctx = ctx\<lparr>rc_platform := stored_value p (rc_platform ctx)\<rparr>"

definition ResolvedTargetPlatformFromContext :: "request_ctx \<Rightarrow> string option" where
  "ResolvedTargetPlatformFromContext ctx = context_value (rc_platform ctx)"

definition ResolvedUpstreamModelFromContext :: "request_ctx \<Rightarrow> string option" where
  "ResolvedUpstreamModelFromContext ctx = context_value (rc_upstream ctx)"

definition RequestedPublicModelFromContext :: "request_ctx \<Rightarrow> string option" where
  "RequestedPublicModelFromContext ctx = context_value (rc_public ctx)"

definition CompositeRouteSourceFromContext :: "request_ctx \<Rightarrow> string option" where
  "CompositeRouteSourceFromContext ctx = context_value (rc_source ctx)"

definition WithCompositeRouteDecision :: "decision \<Rightarrow> request_ctx \<Rightarrow> request_ctx" where
  "WithCompositeRouteDecision d ctx =
     (if \<not> de_matched d then ctx
      else let ctx = WithResolvedTargetPlatform (de_target d) ctx
           in ctx\<lparr>rc_upstream := stored_value (de_upstream d) (rc_upstream ctx),
                 rc_public := stored_value (de_public d) (rc_public ctx),
                 rc_source := stored_value (de_source d) (rc_source ctx)\<rparr>)"

section \<open>The middlewares\<close>

record api_group =
  ag_id :: int
  ag_platform :: string

type_synonym resolver = "int \<Rightarrow> string \<Rightarrow> string \<Rightarrow> resolve_error + decision"

definition compositeRouteEndpointForPath :: "string \<Rightarrow> string" where
  "compositeRouteEndpointForPath path =
     (if contains_text path ''/messages/count_tokens'' then ''count_tokens''
      else if contains_text path ''/messages'' then ''messages''
      else if contains_text path ''/responses'' \<or> contains_text path ''/alpha/search'' \<or> contains_text path ''/realtime/calls'' \<or>
              has_prefix (dropWhile (\<lambda>c. c = CHR ''/'') (rev path)) (rev ''/live'') then ''responses''
      else if contains_text path ''/chat/completions'' then ''chat_completions''
      else if contains_text path ''/embeddings'' then ''embeddings''
      else if contains_text path ''/images/'' then ''images''
      else if contains_text path ''/v1beta/'' then ''gemini''
      else ''any'')"

datatype body_error = BodyTooLarge | BodyUnreadable

datatype 'b passage = Passed request_ctx "'b option" | Aborted nat

text \<open>\<open>Passed ctx None\<close> goes on with an unread body.\<close>

definition compositeTargetPlatformMiddleware ::
    "resolver \<Rightarrow> api_group option \<Rightarrow> bool \<Rightarrow> body_error + 'b \<Rightarrow> ('b \<Rightarrow> string) \<Rightarrow> ('b \<Rightarrow> string \<Rightarrow> 'b option) \<Rightarrow> string \<Rightarrow>
     request_ctx \<Rightarrow> 'b passage" where
  "compositeTargetPlatformMiddleware resolve grp get body model_of rewrite path ctx =
     (case grp of None \<Rightarrow> Passed ctx None
      | Some g \<Rightarrow>
          if ag_platform g \<noteq> ''composite'' \<or> get then Passed ctx None
          else (case body of
                  Inl e \<Rightarrow> Aborted (case e of BodyTooLarge \<Rightarrow> 413 | BodyUnreadable \<Rightarrow> 400)
                | Inr b \<Rightarrow>
                    let model = model_of b
                    in if model = [] then Passed ctx (Some b)
                       else (case resolve (ag_id g) model (compositeRouteEndpointForPath path) of
                               Inl _ \<Rightarrow> Aborted 500
                             | Inr d \<Rightarrow>
                                 if OAuthAmbiguous d then Aborted 400
                                 else if \<not> de_matched d then Passed ctx (Some b)
                                 else let upstream = trim_space (de_upstream d)
                                      in Passed (WithCompositeRouteDecision d ctx)
                                           (Some (if upstream \<noteq> [] \<and> upstream \<noteq> model
                                                  then case rewrite b upstream of None \<Rightarrow> b | Some b' \<Rightarrow> b' else b)))))"

definition before_last_colon :: "string \<Rightarrow> string" where
  "before_last_colon s =
     (case dropWhile (\<lambda>c. c \<noteq> CHR '':'') (rev s) of [] \<Rightarrow> s | _ # r \<Rightarrow> trim_space (rev r))"

definition compositeGeminiModelFromParams :: "string \<Rightarrow> string \<Rightarrow> string" where
  "compositeGeminiModelFromParams model model_action =
     (if trim_space model \<noteq> [] then trim_space model else before_last_colon (trim_prefix ''/'' (trim_space model_action)))"

text \<open>\<open>None\<close> is the answer 500.\<close>

definition compositeGeminiTargetPlatformMiddleware :: "resolver \<Rightarrow> api_group option \<Rightarrow> string \<Rightarrow> request_ctx \<Rightarrow> request_ctx option" where
  "compositeGeminiTargetPlatformMiddleware resolve grp model ctx =
     (let or_gemini = (\<lambda>ctx. if ResolvedTargetPlatformFromContext ctx = None then WithResolvedTargetPlatform ''gemini'' ctx else ctx)
      in case grp of None \<Rightarrow> Some ctx
         | Some g \<Rightarrow>
             if ag_platform g \<noteq> ''composite'' then Some ctx
             else if model = [] then Some (or_gemini ctx)
             else (case resolve (ag_id g) model ''gemini'' of
                     Inl _ \<Rightarrow> None
                   | Inr d \<Rightarrow> Some (or_gemini (if de_matched d then WithCompositeRouteDecision d ctx else ctx))))"

section \<open>Who reads the decision\<close>

definition getGroupPlatform :: "api_group option \<Rightarrow> request_ctx \<Rightarrow> string" where
  "getGroupPlatform grp ctx =
     (case grp of None \<Rightarrow> []
      | Some g \<Rightarrow>
          if ag_platform g = ''composite''
          then (case ResolvedTargetPlatformFromContext ctx of None \<Rightarrow> ag_platform g | Some p \<Rightarrow> p) else ag_platform g)"

definition ensureCompositeTargetPlatform :: "(string \<Rightarrow> string) \<Rightarrow> api_group option \<Rightarrow> string \<Rightarrow> request_ctx \<Rightarrow> request_ctx" where
  "ensureCompositeTargetPlatform lower grp model ctx =
     (case grp of None \<Rightarrow> ctx
      | Some g \<Rightarrow>
          if ag_platform g \<noteq> ''composite'' \<or> ResolvedTargetPlatformFromContext ctx \<noteq> None then ctx
          else (case DetectModelPlatform lower model of None \<Rightarrow> ctx | Some p \<Rightarrow> WithResolvedTargetPlatform p ctx))"

definition compositeTargetPlatformAllowed ::
    "(string \<Rightarrow> string) \<Rightarrow> api_group option \<Rightarrow> string \<Rightarrow> string list \<Rightarrow> request_ctx \<Rightarrow> bool \<times> request_ctx" where
  "compositeTargetPlatformAllowed lower grp model allowed ctx =
     (case grp of None \<Rightarrow> (True, ctx)
      | Some g \<Rightarrow>
          if ag_platform g \<noteq> ''composite'' then (True, ctx)
          else let ctx = ensureCompositeTargetPlatform lower grp model ctx
               in (case ResolvedTargetPlatformFromContext ctx of None \<Rightarrow> (False, ctx) | Some p \<Rightarrow> (p \<in> set allowed, ctx)))"

definition effectiveAPIKeyPlatform :: "api_group option \<Rightarrow> request_ctx \<Rightarrow> string" where
  "effectiveAPIKeyPlatform grp ctx =
     (case ResolvedTargetPlatformFromContext ctx of Some p \<Rightarrow> p
      | None \<Rightarrow> (case grp of None \<Rightarrow> [] | Some g \<Rightarrow> ag_platform g))"

definition no_decision :: decision where
  "no_decision = undecided 0 [] [] []"

definition resolveCompositeRouteDecision ::
    "(string \<Rightarrow> string) \<Rightarrow> resolver \<Rightarrow> api_group option \<Rightarrow> string \<Rightarrow> string \<Rightarrow> request_ctx \<Rightarrow> resolve_error + decision \<times> bool" where
  "resolveCompositeRouteDecision lower resolve grp model endpoint ctx =
     (case grp of None \<Rightarrow> Inr (no_decision, False)
      | Some g \<Rightarrow>
          if ag_platform g \<noteq> ''composite'' then Inr (no_decision, False)
          else (case ResolvedTargetPlatformFromContext ctx of
                  Some p \<Rightarrow>
                    Inr (decided (case CompositeRouteSourceFromContext ctx of None \<Rightarrow> ''detector'' | Some s \<Rightarrow> s) (ag_id g) model p
                           (case ResolvedUpstreamModelFromContext ctx of None \<Rightarrow> model | Some m \<Rightarrow> m)
                           (normalizeCompositeRouteEndpoint lower endpoint) None, True)
                | None \<Rightarrow> (case resolve (ag_id g) model endpoint of Inl e \<Rightarrow> Inl e | Inr d \<Rightarrow> Inr (d, de_matched d))))"

datatype select_error = GroupFailed | NoSuchGroup | ResolveFailed resolve_error | PlatformUnknown

text \<open>\<open>forced\<close> is the platform of an Antigravity route, \<open>find_group\<close> the group of an id.\<close>

definition group_platform ::
    "(string \<Rightarrow> string) \<Rightarrow> resolver \<Rightarrow> api_group \<Rightarrow> string \<Rightarrow> request_ctx \<Rightarrow> select_error + string \<times> bool" where
  "group_platform lower resolve g model ctx =
     (if ag_platform g \<noteq> ''composite'' then Inr (ag_platform g, False)
      else (case resolveCompositeRouteDecision lower resolve (Some g) model ''any'' ctx of
              Inl e \<Rightarrow> Inl (ResolveFailed e) | Inr (d, found) \<Rightarrow> if found then Inr (de_target d, False) else Inl PlatformUnknown))"

definition resolvePlatform ::
    "(string \<Rightarrow> string) \<Rightarrow> resolver \<Rightarrow> string \<Rightarrow> (int \<Rightarrow> api_group option) \<Rightarrow> int option \<Rightarrow> api_group option \<Rightarrow> string \<Rightarrow>
     request_ctx \<Rightarrow> select_error + string \<times> bool" where
  "resolvePlatform lower resolve forced find_group gid grp model ctx =
     (if forced \<noteq> [] then Inr (forced, True)
      else case ResolvedTargetPlatformFromContext ctx of Some p \<Rightarrow> Inr (p, False)
           | None \<Rightarrow>
               (case grp of Some g \<Rightarrow> group_platform lower resolve g model ctx
                | None \<Rightarrow>
                    (case gid of None \<Rightarrow> Inr (''anthropic'', False)
                     | Some i \<Rightarrow> (case find_group i of None \<Rightarrow> Inl GroupFailed | Some g \<Rightarrow> group_platform lower resolve g model ctx))))"

text \<open>The head of \<open>SelectAccountForModelWithExclusions\<close>: the platform, the model and the context that the selection goes on with.
  \<open>grp\<close> is the answer of \<open>resolveGatewayGroup\<close>, if the request has a group.\<close>

definition selection_target ::
    "(string \<Rightarrow> string) \<Rightarrow> resolver \<Rightarrow> string \<Rightarrow> (select_error + api_group option) option \<Rightarrow> string \<Rightarrow> request_ctx \<Rightarrow>
     select_error + string \<times> string \<times> request_ctx" where
  "selection_target lower resolve forced grp model ctx =
     (if forced \<noteq> [] then Inr (forced, model, ctx)
      else case grp of None \<Rightarrow> Inr (''anthropic'', model, ctx)
           | Some (Inl e) \<Rightarrow> Inl e
           | Some (Inr None) \<Rightarrow> Inl NoSuchGroup
           | Some (Inr (Some g)) \<Rightarrow>
               if ag_platform g \<noteq> ''composite'' then Inr (ag_platform g, model, ctx)
               else (case resolveCompositeRouteDecision lower resolve (Some g) model ''any'' ctx of
                       Inl e \<Rightarrow> Inl (ResolveFailed e)
                     | Inr (d, found) \<Rightarrow>
                         if found then Inr (de_target d, de_upstream d, WithCompositeRouteDecision d ctx) else Inl PlatformUnknown))"

text \<open>\<open>rest\<close> is the answer of the platform's own rules.\<close>

definition isModelSupportedByAccountWithContext :: "(claim_account \<Rightarrow> string \<Rightarrow> bool) \<Rightarrow> request_ctx \<Rightarrow> claim_account \<Rightarrow> string \<Rightarrow> bool" where
  "isModelSupportedByAccountWithContext rest ctx a model =
     (if CompositeRouteSourceFromContext ctx = Some ''account_model'' \<and>
         (case RequestedPublicModelFromContext ctx of None \<Rightarrow> False | Some m \<Rightarrow> \<not> explicitModelMappingClaims a m)
      then False else rest a model)"


section \<open>One decision for a request\<close>

lemma concrete_name: "IsConcretePlatform p \<Longrightarrow> trim_space p = p \<and> p \<noteq> []"
proof -
  have "list_all (\<lambda>p. trim_space p = p \<and> p \<noteq> []) (map ps_id platformList)" by code_simp
  moreover assume "IsConcretePlatform p"
  then have "p \<in> set (map ps_id platformList)"
    by (auto simp: IsConcretePlatform_def LookupPlatform_def dest!: find_mem)
  ultimately show ?thesis by (auto simp: list_all_iff)
qed

lemma match_concrete:
  assumes "matchCompositeRoute lower routes model endpoint = Some r" "\<forall>x \<in> set routes. route_ok x"
  shows "IsConcretePlatform (mr_target r)"
proof -
  from match_result(2) [OF assms(1)] obtain c x where "x \<in> set routes" "match_candidate lower model endpoint x = Some c" "cd_route c = r"
    by (auto simp: candidates_def)
  moreover from this have "mr_target r = mr_target x" by (auto simp: match_candidate_def Let_def split: if_splits)
  ultimately show ?thesis using assms(2) by (simp add: route_ok_def)
qed

text \<open>What a matched decision carries.\<close>

definition sound_decision :: "string \<Rightarrow> decision \<Rightarrow> bool" where
  "sound_decision model d \<longleftrightarrow>
     IsConcretePlatform (de_target d) \<and> trim_space (de_upstream d) = de_upstream d \<and> de_upstream d \<noteq> [] \<and>
     de_public d = trim_space model \<and> trim_space model \<noteq> [] \<and> de_source d \<in> {''route'', ''detector'', ''account_model''} \<and>
     (de_source d = ''route'' \<or> de_upstream d = trim_space model)"

lemma detect_sound: "de_matched (detect lower gid model endpoint) \<Longrightarrow> trim_space model = model \<Longrightarrow> model \<noteq> [] \<Longrightarrow>
    sound_decision model (detect lower gid model endpoint)"
  by (auto simp: detect_def sound_decision_def decided_def undecided_def detected_concrete split: option.splits)

lemma resolve_owner_sound:
  assumes "resolve_owner lower owner gid model endpoint = Inr d" "de_matched d" "trim_space model = model" "model \<noteq> []"
  shows "sound_decision model d"
proof (cases "d = detect lower gid model endpoint")
  case False
  with assms show ?thesis
    by (auto simp: resolve_owner_def undecided_def Let_def split: option.splits if_splits)
       (auto simp: sound_decision_def decided_def)
qed (use assms detect_sound in blast)

lemma resolve_sound:
  assumes "table_ok tb" "Resolve lower (Some (\<lambda>g. Some (ListByGroup g False tb))) owner gid model endpoint = Inr d" "de_matched d"
  shows "sound_decision model d"
proof -
  let ?m = "trim_space model" and ?e = "normalizeCompositeRouteEndpoint lower endpoint"
  have m: "?m \<noteq> []" using assms(2,3) by (auto simp: Resolve_def undecided_def)
  have same: "sound_decision ?m d \<longleftrightarrow> sound_decision model d" by (simp add: sound_decision_def)
  have route: "sound_decision model d" if "matchCompositeRoute lower (ListByGroup gid False tb) ?m ?e = Some r"
    "d = decided ''route'' gid ?m (mr_target r) (if trim_space (mr_upstream r) = [] then ?m else trim_space (mr_upstream r)) ?e (Some r)" for r
  proof -
    have "IsConcretePlatform (mr_target r)"
      using match_concrete [OF that(1)] assms(1) by (auto simp: set_ListByGroup table_ok_def)
    with m show ?thesis by (simp add: that(2) sound_decision_def decided_def)
  qed
  have shared: "sound_decision model d" if "compositeSharedImagePlatform lower ?m ?e = Some p" "d = decided ''detector'' gid ?m p ?m ?e None" for p
    using m shared_image_concrete [OF that(1)] by (simp add: that(2) sound_decision_def decided_def)
  have owner: "sound_decision model d" if "resolve_owner lower owner gid ?m ?e = Inr d"
    using resolve_owner_sound [OF that assms(3)] m by (simp add: same)
  show ?thesis
    using assms(2) m route shared owner unfolding Resolve_def Let_def by (auto split: option.splits if_splits)
qed


lemma context_value_trim [simp]: "trim_space s = s \<Longrightarrow> s \<noteq> [] \<Longrightarrow> context_value (Some s) = Some s"
  by (simp add: context_value_def)

lemma context_value_trimmed: "context_value v = Some s \<Longrightarrow> trim_space s = s \<and> s \<noteq> []"
  by (auto simp: context_value_def split: option.splits if_splits)

text \<open>What the context says once a sound decision is in it.\<close>

lemma decision_in_context:
  assumes "sound_decision model d" "de_matched d"
  shows "ResolvedTargetPlatformFromContext (WithCompositeRouteDecision d ctx) = Some (de_target d)"
    and "ResolvedUpstreamModelFromContext (WithCompositeRouteDecision d ctx) = Some (de_upstream d)"
    and "RequestedPublicModelFromContext (WithCompositeRouteDecision d ctx) = Some (trim_space model)"
    and "CompositeRouteSourceFromContext (WithCompositeRouteDecision d ctx) = Some (de_source d)"
proof -
  have source: "list_all (\<lambda>s. trim_space s = s \<and> s \<noteq> []) [''route'', ''detector'', ''account_model'']" by code_simp
  have d: "trim_space (de_target d) = de_target d" "de_target d \<noteq> []" "trim_space (de_source d) = de_source d" "de_source d \<noteq> []"
    "trim_space (de_upstream d) = de_upstream d" "de_upstream d \<noteq> []" "de_public d = trim_space model" "trim_space model \<noteq> []"
    using assms(1) concrete_name [of "de_target d"] source unfolding sound_decision_def by auto
  show "ResolvedTargetPlatformFromContext (WithCompositeRouteDecision d ctx) = Some (de_target d)"
    and "ResolvedUpstreamModelFromContext (WithCompositeRouteDecision d ctx) = Some (de_upstream d)"
    and "RequestedPublicModelFromContext (WithCompositeRouteDecision d ctx) = Some (trim_space model)"
    and "CompositeRouteSourceFromContext (WithCompositeRouteDecision d ctx) = Some (de_source d)"
    using d assms(2)
    by (simp_all add: WithCompositeRouteDecision_def WithResolvedTargetPlatform_def stored_value_def ResolvedTargetPlatformFromContext_def
        ResolvedUpstreamModelFromContext_def RequestedPublicModelFromContext_def CompositeRouteSourceFromContext_def)
qed

text \<open>A context with a platform needs no resolver, and reading the decision again keeps it.\<close>

lemma resolved_selection:
  assumes "ag_platform g = ''composite''" "ResolvedTargetPlatformFromContext ctx = Some p" "ResolvedUpstreamModelFromContext ctx = Some u"
    and "CompositeRouteSourceFromContext ctx = Some s"
  shows "\<exists>ctx'. selection_target lower resolve [] (Some (Inr (Some g))) model ctx = Inr (p, u, ctx') \<and>
    ResolvedTargetPlatformFromContext ctx' = Some p \<and> ResolvedUpstreamModelFromContext ctx' = Some u \<and>
    CompositeRouteSourceFromContext ctx' = Some s"
proof -
  have trimmed: "trim_space p = p" "p \<noteq> []" "trim_space u = u" "u \<noteq> []" "trim_space s = s" "s \<noteq> []"
    using assms(2-4) context_value_trimmed
    by (auto simp: ResolvedTargetPlatformFromContext_def ResolvedUpstreamModelFromContext_def CompositeRouteSourceFromContext_def)
  then show ?thesis
    using assms
    by (simp add: selection_target_def resolveCompositeRouteDecision_def decided_def WithCompositeRouteDecision_def
        WithResolvedTargetPlatform_def stored_value_def ResolvedTargetPlatformFromContext_def ResolvedUpstreamModelFromContext_def
        CompositeRouteSourceFromContext_def Let_def)
qed



definition composite_seven :: api_group where
  "composite_seven = \<lparr>ag_id = 7, ag_platform = ''composite''\<rparr>"


section \<open>Names that Gemini and Adobe share\<close>

lemma claimed_platform:
  assumes "ow_matched (ownership_of lower model accounts)"
  shows "\<exists>a \<in> set accounts. claims lower model a \<and> ow_target (ownership_of lower model accounts) = trim_space (ca_platform a)"
    and "\<not> ow_ambiguous (ownership_of lower model accounts)"
proof -
  let ?ps = "remdups (map (\<lambda>a. trim_space (ca_platform a)) (filter (claims lower model) accounts))"
  have "length ?ps = 1" using assms by (simp add: ownership_of_def Let_def)
  then obtain p where p: "?ps = [p]" by (auto simp: length_Suc_conv)
  have "set ?ps = {p}" by (simp only: p set_simps)
  then have "p \<in> (\<lambda>a. trim_space (ca_platform a)) ` set (filter (claims lower model) accounts)" by simp
  then show "\<exists>a \<in> set accounts. claims lower model a \<and> ow_target (ownership_of lower model accounts) = trim_space (ca_platform a)"
    unfolding ownership_of_def Let_def p by auto
  show "\<not> ow_ambiguous (ownership_of lower model accounts)" unfolding ownership_of_def Let_def p by simp
qed

text \<open>C11: A shared Gemini image name on the Gemini endpoint whose only owner claims it by its default mapping cannot be served. The ownership
  counts such accounts, so the request is decided for their platform by \<open>account_model\<close>; but the selection then accepts an account only
  if its own mapping lists the name, and refuses every account of the group, the owner too, whatever the platform's rules say of them.\<close>

theorem shared_image_owner_refused:
  assumes "keeps_names lower" "ag_platform g = ''composite''" "0 < ag_id g" "trim_space model = model" "model \<noteq> []"
    and "matchCompositeRoute lower routes model ''gemini'' = None" "ow_matched (ownership_of lower model accounts)"
    and "\<forall>a \<in> set accounts. \<not> explicitModelMappingClaims a model" "a \<in> set accounts"
  shows "\<exists>ctx owner. compositeGeminiTargetPlatformMiddleware
      (Resolve lower (Some (\<lambda>_. Some routes)) (Some (\<lambda>_ m. Some (ownership_of lower m accounts)))) (Some g) model no_values = Some ctx \<and>
    owner \<in> set accounts \<and> claims lower model owner \<and> ca_supports owner model \<and>
    ResolvedTargetPlatformFromContext ctx = Some (trim_space (ca_platform owner)) \<and>
    \<not> isModelSupportedByAccountWithContext rest ctx a requested"
proof -
  let ?o = "ownership_of lower model accounts"
  obtain owner where owner: "owner \<in> set accounts" "claims lower model owner" "ow_target ?o = trim_space (ca_platform owner)"
    using claimed_platform(1) [OF assms(7)] by blast
  then have shared: "IsCompositeSharedGeminiImageModel lower model" "ca_supports owner model" "IsConcretePlatform (ow_target ?o)"
    using assms(8) by (auto simp: claims_def defaultMappingClaimsSharedGeminiImage_def)
  have gemini: "normalizeCompositeRouteEndpoint lower ''gemini'' = ''gemini''"
    using normalized_names(1) [OF assms(1), of "''gemini''"] by (simp add: route_endpoints_def)
  let ?d = "decided ''account_model'' (ag_id g) model (ow_target ?o) model ''gemini'' None"
  have "trim_space (ow_target ?o) = ow_target ?o" using concrete_name shared(3) by blast
  then have "Resolve lower (Some (\<lambda>_. Some routes)) (Some (\<lambda>_ m. Some (ownership_of lower m accounts))) (ag_id g) model ''gemini'' = Inr ?d"
    using assms(3-7) claimed_platform(2) [OF assms(7)] shared(3)
    by (simp add: Resolve_def Let_def gemini compositeSharedImagePlatform_def resolve_owner_def)
  moreover have sound: "sound_decision model ?d" "de_matched ?d" using assms(4,5) shared(3) by (simp_all add: sound_decision_def decided_def)
  note vals = decision_in_context [OF sound, of no_values]
  have "compositeGeminiTargetPlatformMiddleware
      (Resolve lower (Some (\<lambda>_. Some routes)) (Some (\<lambda>_ m. Some (ownership_of lower m accounts)))) (Some g) model no_values =
      Some (WithCompositeRouteDecision ?d no_values)"
    using calculation sound(2) assms(2,5) vals(1) by (simp add: compositeGeminiTargetPlatformMiddleware_def Let_def)
  moreover have "\<not> isModelSupportedByAccountWithContext rest (WithCompositeRouteDecision ?d no_values) a requested"
    using assms(4,8,9) vals(3,4) by (simp add: isModelSupportedByAccountWithContext_def decided_def)
  moreover have "ResolvedTargetPlatformFromContext (WithCompositeRouteDecision ?d no_values) = Some (trim_space (ca_platform owner))"
    using vals(1) owner(3) by (simp add: decided_def)
  ultimately show ?thesis using owner(1,2) shared(2) by blast
qed

text \<open>A group with one Adobe account that has no mapping of its own.\<close>

definition adobe_default :: claim_account where
  "adobe_default = \<lparr>ca_platform = ''adobe'', ca_oauth = False, ca_mapping = Map.empty, ca_supports = (\<lambda>_. True)\<rparr>"

lemma shared_image_owner_refused_witness:
  "\<exists>ctx. compositeGeminiTargetPlatformMiddleware
      (Resolve ascii_lower (Some (\<lambda>_. Some [])) (Some (\<lambda>_ m. Some (ownership_of ascii_lower m [adobe_default])))) (Some composite_seven)
      ''gemini-3-pro-image'' no_values = Some ctx \<and>
    ResolvedTargetPlatformFromContext ctx = Some ''adobe'' \<and>
    \<not> isModelSupportedByAccountWithContext (\<lambda>_ _. True) ctx adobe_default ''gemini-3-pro-image''"
proof -
  have a: "ag_platform composite_seven = ''composite''" "0 < ag_id composite_seven" "trim_space ''gemini-3-pro-image'' = ''gemini-3-pro-image''"
    "''gemini-3-pro-image'' \<noteq> []" "matchCompositeRoute ascii_lower [] ''gemini-3-pro-image'' ''gemini'' = None"
    "ow_matched (ownership_of ascii_lower ''gemini-3-pro-image'' [adobe_default])"
    "\<forall>a \<in> set [adobe_default]. \<not> explicitModelMappingClaims a ''gemini-3-pro-image''" "trim_space (ca_platform adobe_default) = ''adobe''"
    by code_simp+
  show ?thesis
    using shared_image_owner_refused [OF ascii_keeps_names a(1-7), of adobe_default "\<lambda>_ _. True" "''gemini-3-pro-image''"] a(8) by auto
qed

end
