(* ===== verification/TestLeases.thy ===== *)
theory TestLeases
  imports AllocationStore
begin

text \<open>
  Temporary routes for connection tests (\<open>internal/proxyfailover/test_lease.go\<close>): borrowing a proxy
  under the shared capacity, returning it, and releasing expired leases. The random owner is an argument; the
  credential digest is a column of the account row.
\<close>

section \<open>Borrowing\<close>

text \<open>\<open>lockTestRouting\<close> reads the policy row under its lock.\<close>

definition lockTestRouting :: "store \<Rightarrow> bool \<times> int" where
  "lockTestRouting st = (st_enabled st, st_revision st)"

definition original_resume :: "account_row \<Rightarrow> bool" where
  "original_resume a \<longleftrightarrow> ar_schedulable a
     \<or> (ar_auto_paused a \<and> ar_error_message a = Some allocationWaitingMessage)
     \<or> (ar_gated_json a \<and> ar_test_resume a)"

definition lease_eligible :: "gotime \<Rightarrow> account_row \<Rightarrow> bool" where
  "lease_eligible now a \<longleftrightarrow> ar_platform a = ''adobe'' \<and> \<not> ar_deleted a \<and> unexpired (ar_expires_at a) now
     \<and> (ar_status a = ''active'' \<or> ar_status a = ''error'')"

text \<open>\<open>used\<close> and \<open>victims\<close>: the load without the borrower, and the last stopped account on each proxy.\<close>

definition lease_used :: "int \<Rightarrow> alloc_account list \<Rightarrow> int \<Rightarrow> int" where
  "lease_used i accounts = fold (\<lambda>a used. if aa_current a \<noteq> 0 \<and> aa_id a \<noteq> i then bump (aa_current a) 1 used else used) accounts (\<lambda>_. 0)"

definition victim_of :: "int \<Rightarrow> alloc_account list \<Rightarrow> int \<Rightarrow> int" where
  "victim_of i accounts = fold (\<lambda>a victims.
     if aa_current a \<noteq> 0 \<and> aa_id a \<noteq> i
        \<and> \<not> aa_manual_proxy a \<and> aa_binding_only a \<and> \<not> aa_verification_priority a \<and> \<not> aa_test_lease a
     then victims(aa_current a := aa_id a) else victims) accounts (\<lambda>_. 0)"

definition lendable ::
    "(proxy_def \<Rightarrow> string) \<Rightarrow> (int \<Rightarrow> string) \<Rightarrow> gotime \<Rightarrow> string list \<Rightarrow> bool \<Rightarrow> store \<Rightarrow> (int \<Rightarrow> int) \<Rightarrow> (int \<Rightarrow> int) \<Rightarrow> int \<Rightarrow> proxy \<Rightarrow> bool" where
  "lendable fp show now exclude clash st used victims pid p \<longleftrightarrow>
     testRouteAvailable show p exclude clash now \<and> h_status (health_at (st_health st) pid) = ''healthy''
     \<and> h_fingerprint (health_at (st_health st) pid) = fingerprint fp p
     \<and> \<not> time_sub now (h_checked_at (health_at (st_health st) pid)) > ProbeFreshness (int (length (st_proxies st)))
     \<and> \<not> (px_generation_blocked p \<and> list_ex (\<lambda>l. ls_proxy l = pid \<and> ls_expires l > now) (st_leases st))
     \<and> \<not> (used pid \<ge> accountsPerProxy \<and> victims pid = 0)"

text \<open>The scan for the route to lend.\<close>

definition lend_step ::
    "(int \<Rightarrow> int) \<Rightarrow> (int \<rightharpoonup> health) \<Rightarrow> (int, proxy) gomap \<Rightarrow> (int \<Rightarrow> proxy \<Rightarrow> bool) \<Rightarrow> int \<times> proxy \<Rightarrow> int \<Rightarrow> int" where
  "lend_step used hs ps ok e chosen =
     (case e of (pid, p) \<Rightarrow>
        if \<not> ok pid p then chosen
        else if chosen = 0 \<or> generationRouteScore p (health_at hs pid) (used pid)
                < generationRouteScore (proxy_at (gm_get ps) chosen) (health_at hs chosen) (used chosen)
        then pid else chosen)"

definition evict_victim :: "gotime \<Rightarrow> int \<Rightarrow> int \<Rightarrow> store \<Rightarrow> store" where
  "evict_victim now victim pid st =
     publish [victim] (add_event victim pid 0 now
       (update_account victim (\<lambda>a. a\<lparr>ar_proxy_id := None, ar_fallback_origin := None\<rparr>) st))"

definition lend :: "gotime \<Rightarrow> int \<Rightarrow> string \<Rightarrow> string \<Rightarrow> bool \<Rightarrow> int \<Rightarrow> gotime \<Rightarrow> account_row \<Rightarrow> store \<Rightarrow> store" where
  "lend now i owner scope resume pid updated row st =
     (let st = st\<lparr>st_leases := st_leases st @ [\<lparr>ls_account = i, ls_owner = owner, ls_proxy = pid, ls_proxy_updated = updated,
            ls_credential_hash = ar_credential_hash row, ls_scope = scope, ls_acquired = now, ls_expires = now + 5 * minute,
            ls_return = Some resume\<rparr>]\<rparr>;
          previous = coalesce0 (ar_proxy_id row);
          st = update_account i (\<lambda>a. a\<lparr>ar_proxy_id := Some pid, ar_fallback_origin := None, ar_schedulable := False\<rparr>) st
      in refresh_408 i (publish [i] (add_event i previous pid now st)))"

text \<open>The part after the reconciling allocation; \<open>resume\<close> was read before it.\<close>

definition borrow ::
    "(proxy_def \<Rightarrow> string) \<Rightarrow> (int \<Rightarrow> string) \<Rightarrow> gotime \<Rightarrow> string list \<Rightarrow> bool \<Rightarrow> int \<Rightarrow> string \<Rightarrow> string \<Rightarrow> bool \<Rightarrow> store
      \<Rightarrow> store_error + (store \<times> (int \<times> string \<times> string) option)" where
  "borrow fp show now exclude clash i owner scope resume st =
     (case find_account st i of
        None \<Rightarrow> Inl ErrNoTestProxy
      | Some row \<Rightarrow>
          if \<not> lease_eligible now row then Inl ErrNoTestProxy
          else (let ps = store_proxies now st; accounts = loadAllocationAccounts now st;
                    used = lease_used i accounts; victims = victim_of i accounts;
                    pid = fold (lend_step used (st_health st) ps (lendable fp show now exclude clash st used victims)) ps 0
                in if pid = 0 then Inl ErrNoTestProxy
                   else (let st = (if used pid \<ge> accountsPerProxy then evict_victim now (victims pid) pid st else st)
                         in Inr (lend now i owner scope resume pid (px_updated_at (proxy_at (gm_get ps) pid)) row st,
                                 Some (i, owner, routeSource show (proxy_at (gm_get ps) pid))))))"

definition AcquireTestProxy ::
    "(proxy_def \<Rightarrow> string) \<Rightarrow> (int \<Rightarrow> string) \<Rightarrow> gotime \<Rightarrow> string list \<Rightarrow> bool \<Rightarrow> int \<Rightarrow> string \<Rightarrow> string \<Rightarrow> store
      \<Rightarrow> store_error + (store \<times> (int \<times> string \<times> string) option)" where
  "AcquireTestProxy fp show now exclude clash i owner scope st =
     (if \<not> fst (lockTestRouting st) then Inr (st, None)
      else (case find_account st i of
              None \<Rightarrow> Inl StoreNoRows
            | Some row \<Rightarrow>
                if ar_manual row then Inr (st, None)
                else if list_ex (\<lambda>l. ls_account l = i) (st_leases st) then Inl ErrTestBusy
                else if exclude = [] \<and> coalesce0 (ar_proxy_id row) \<noteq> 0
                     \<and> available (proxy_at (gm_get (store_proxies now st)) (coalesce0 (ar_proxy_id row))) now
                then Inr (st, None)
                else borrow fp show now exclude clash i owner scope (original_resume row)
                       (allocate fp now (lockTestRouting st) (st_health st) st)))"

section \<open>Returning\<close>

definition lease_current :: "gotime \<Rightarrow> store \<Rightarrow> lease_row \<Rightarrow> bool" where
  "lease_current now st l \<longleftrightarrow>
     list_ex (\<lambda>a. ar_id a = ls_account l \<and> \<not> ar_deleted a \<and> \<not> ar_manual a \<and> ar_proxy_id a = Some (ls_proxy l)
        \<and> ar_credential_hash a = ls_credential_hash l) (st_accounts st)
     \<and> list_ex (\<lambda>p. px_id p = ls_proxy l \<and> px_updated_at p = ls_proxy_updated l \<and> proxy_row_valid p now) (st_proxies st)"

definition lease_proved :: "store \<Rightarrow> lease_row \<Rightarrow> bool" where
  "lease_proved st l \<longleftrightarrow>
     list_ex (\<lambda>h. ah_account h = ls_account l \<and> ah_scope h = ls_scope l \<and> after (ah_success_started h) (ls_acquired l - 1)
        \<and> (case ah_failed_at h of None \<Rightarrow> True | Some f \<Rightarrow> after (ah_success_started h) f)) (st_acct_health st)"

definition may_resume :: "gotime \<Rightarrow> account_row \<Rightarrow> bool" where
  "may_resume now a \<longleftrightarrow> ar_status a = ''active'' \<and> (case ar_error_message a of None \<Rightarrow> True | Some m \<Rightarrow> m = [])
     \<and> \<not> ar_auto_paused a \<and> unexpired (ar_expires_at a) now \<and> \<not> ar_manual_pause a
     \<and> (ar_gated_text a \<noteq> Some ''true'' \<or> ar_test_state a = Some ''success'')
     \<and> (ar_require_verification a \<noteq> Some ''true'' \<or> ar_verification a = Some ''verified'')"

definition release_row :: "bool \<Rightarrow> account_row \<Rightarrow> account_row" where
  "release_row keep a =
     (if keep then (if ar_auto_paused a then a\<lparr>ar_auto_paused := False\<rparr> else a)
      else a\<lparr>ar_proxy_id := None, ar_fallback_origin := None, ar_schedulable := False\<rparr>)"

definition resume_row :: "gotime \<Rightarrow> account_row \<Rightarrow> account_row" where
  "resume_row now a = (if may_resume now a then a\<lparr>ar_schedulable := True\<rparr> else a)"

definition return_route :: "gotime \<Rightarrow> bool \<Rightarrow> lease_row \<Rightarrow> store \<Rightarrow> store" where
  "return_route now keep l st =
     (let st = update_account (ls_account l) (release_row keep) st;
          st = (if keep then st else add_event (ls_account l) (ls_proxy l) 0 now st);
          st = (if ls_return l = Some True then update_account (ls_account l) (resume_row now) st else st)
      in publish [ls_account l] st)"

definition drop_lease :: "int \<Rightarrow> string \<Rightarrow> store \<Rightarrow> store" where
  "drop_lease i owner st = st\<lparr>st_leases := filter (\<lambda>l. \<not> (ls_account l = i \<and> ls_owner l = owner)) (st_leases st)\<rparr>"

definition FinishTestProxy :: "gotime \<Rightarrow> int \<Rightarrow> string \<Rightarrow> bool \<Rightarrow> store \<Rightarrow> store" where
  "FinishTestProxy now i owner success st =
     (case List.find (\<lambda>l. ls_account l = i \<and> ls_owner l = owner) (st_leases st) of
        None \<Rightarrow> st
      | Some l \<Rightarrow>
          (let current = lease_current now st l;
               keep = success \<and> now < ls_expires l \<and> current \<and> lease_proved st l
                      \<and> available (proxy_at (gm_get (store_proxies now st)) (ls_proxy l)) now;
               st = (if current then return_route now keep l st else st)
           in refresh_408 i (drop_lease i owner st)))"

definition releaseExpiredTests :: "gotime \<Rightarrow> store \<Rightarrow> store" where
  "releaseExpiredTests now st =
     foldl (\<lambda>st l. FinishTestProxy now (ls_account l) (ls_owner l) False st) st
       (filter (\<lambda>l. ls_expires l \<le> now) (st_leases st))"


section \<open>Lemmas\<close>

text \<open>The accounts bound to a proxy.\<close>

definition bound_to :: "int \<Rightarrow> account_row \<Rightarrow> bool" where
  "bound_to p a \<longleftrightarrow> \<not> ar_deleted a \<and> coalesce0 (ar_proxy_id a) = p"

definition load_on :: "store \<Rightarrow> int \<Rightarrow> nat" where
  "load_on st p = length (filter (bound_to p) (st_accounts st))"

definition load_without :: "int list \<Rightarrow> store \<Rightarrow> int \<Rightarrow> nat" where
  "load_without is st p = length (filter (\<lambda>a. bound_to p a \<and> ar_id a \<notin> set is) (st_accounts st))"

lemma filter_length_mono: "(\<And>x. P x \<Longrightarrow> Q x) \<Longrightarrow> length (filter P xs) \<le> length (filter Q xs)"
  by (induction xs) auto

lemma filter_length_less:
  "(\<And>x. P x \<Longrightarrow> Q x) \<Longrightarrow> x \<in> set xs \<Longrightarrow> Q x \<Longrightarrow> \<not> P x \<Longrightarrow> length (filter P xs) < length (filter Q xs)"
proof (induction xs)
  case (Cons y ys)
  have "length (filter P ys) \<le> length (filter Q ys)" using Cons.prems(1) by (rule filter_length_mono)
  with Cons show ?case by (cases "x = y") auto
qed simp

lemma filter_length_one:
  "distinct (map f xs) \<Longrightarrow> (\<And>x. P x \<Longrightarrow> Q x \<or> f x = k) \<Longrightarrow> length (filter P xs) \<le> Suc (length (filter Q xs))"
proof (induction xs)
  case (Cons y ys)
  show ?case
  proof (cases "f y = k")
    case True
    have "f x \<noteq> k" if "x \<in> set ys" for x
    proof -
      from that have "f x \<in> f ` set ys" by (rule imageI)
      with Cons.prems(1) True show ?thesis by auto
    qed
    then have "filter P ys = filter (\<lambda>x. P x \<and> Q x) ys" using Cons.prems(2) by (intro filter_cong) auto
    moreover have "length (filter (\<lambda>x. P x \<and> Q x) ys) \<le> length (filter Q ys)" by (rule filter_length_mono) simp
    ultimately have "length (filter P ys) \<le> length (filter Q ys)" by simp
    then show ?thesis by simp
  next
    case False
    with Cons.IH Cons.prems show ?thesis by auto
  qed
qed simp

lemma lease_used_eq:
  assumes "p \<noteq> 0"
  shows "lease_used i (loadAllocationAccounts now st) p = int (load_without [i] st p)"
proof -
  have f: "fold (\<lambda>a used. if aa_current a \<noteq> 0 \<and> aa_id a \<noteq> i then bump (aa_current a) 1 used else used) accounts u p =
      u p + int (length (filter (\<lambda>a. aa_current a = p \<and> aa_id a \<noteq> i) accounts))" for accounts :: "alloc_account list" and u
    using assms by (induction accounts arbitrary: u) (auto simp: bump_def)
  have s: "length (filter Q (sort_key ar_id rows)) = length (filter Q rows)" for Q rows
    by (simp add: filter_sort)
  show ?thesis
    unfolding lease_used_def f
    by (simp add: loadAllocationAccounts_def filter_map comp_def s load_without_def account_of_row_def bound_to_def conj_ac)
qed

lemma victim_of_bound:
  assumes "p \<noteq> 0" and "victim_of i (loadAllocationAccounts now st) p \<noteq> 0"
  shows "\<exists>a \<in> set (st_accounts st). bound_to p a \<and> ar_id a = victim_of i (loadAllocationAccounts now st) p \<and> ar_id a \<noteq> i
    \<and> \<not> ar_manual a \<and> row_binding_only now a \<and> \<not> row_leased now (st_leases st) (ar_id a)"
proof -
  let ?step = "\<lambda>a victims. if aa_current a \<noteq> 0 \<and> aa_id a \<noteq> i
        \<and> \<not> aa_manual_proxy a \<and> aa_binding_only a \<and> \<not> aa_verification_priority a \<and> \<not> aa_test_lease a
     then victims(aa_current a := aa_id a) else victims"
  have f: "fold ?step accounts v p = v p \<or> (\<exists>a \<in> set accounts. aa_current a = p \<and> aa_id a = fold ?step accounts v p \<and> aa_id a \<noteq> i
        \<and> \<not> aa_manual_proxy a \<and> aa_binding_only a \<and> \<not> aa_test_lease a)" for accounts :: "alloc_account list" and v
  proof (induction accounts rule: rev_induct)
    case (snoc a accounts)
    then show ?case by (auto simp: fun_upd_def)
  qed simp
  from f [of "loadAllocationAccounts now st" "\<lambda>_. 0"] assms(2)
  show ?thesis by (auto simp: victim_of_def loadAllocationAccounts_def account_of_row_def bound_to_def)
qed

lemma refresh_408_accounts [simp]:
  "length (filter (bound_to p) (st_accounts (refresh_408 i st))) = length (filter (bound_to p) (st_accounts st))"
  "st_leases (refresh_408 i st) = st_leases st"
  by (simp_all add: refresh_408_def clean_408_def filter_map comp_def bound_to_def [abs_def] if_distrib [of ar_deleted] if_distrib [of ar_proxy_id] cong: if_cong)

lemma accounts_of_steps [simp]:
  "st_accounts (publish ids st) = st_accounts st" "st_accounts (add_event i f t now st) = st_accounts st"
  "st_leases (publish ids st) = st_leases st" "st_accounts (st\<lparr>st_leases := l\<rparr>) = st_accounts st"
  by (simp_all add: publish_def add_event_def)

lemma find_account_leases [simp]: "find_account (st\<lparr>st_leases := l\<rparr>) j = find_account st j"
  by (simp add: find_account_def)

text \<open>Binding one account to \<open>pid\<close> adds at most one to its load and nothing elsewhere.\<close>

lemma load_after_lend:
  assumes d: "ids_distinct st" and p: "p \<noteq> 0"
  shows "load_on (lend now i owner scope resume pid updated row st) p
      \<le> load_without [i] st p + (if p = pid then 1 else 0)"
proof -
  let ?g = "\<lambda>a. if ar_id a = i then a\<lparr>ar_proxy_id := Some pid, ar_fallback_origin := None, ar_schedulable := False\<rparr> else a"
  have l: "load_on (lend now i owner scope resume pid updated row st) p = length (filter (\<lambda>a. bound_to p (?g a)) (st_accounts st))"
    by (simp add: lend_def Let_def load_on_def update_account_def filter_map comp_def)
  have b: "bound_to p (?g a) \<longleftrightarrow> (if ar_id a = i then \<not> ar_deleted a \<and> p = pid else bound_to p a)" for a
    by (auto simp: bound_to_def coalesce0_def)
  show ?thesis
  proof (cases "p = pid")
    case True
    have "length (filter (\<lambda>a. bound_to p (?g a)) (st_accounts st)) \<le> Suc (load_without [i] st p)"
      unfolding load_without_def b
      by (rule filter_length_one [where f = ar_id and k = i]) (use d in \<open>auto simp: ids_distinct_def\<close>)
    with l True show ?thesis by simp
  next
    case False
    have "length (filter (\<lambda>a. bound_to p (?g a)) (st_accounts st)) \<le> load_without [i] st p"
      unfolding load_without_def b by (rule filter_length_mono) (use False in \<open>auto split: if_splits\<close>)
    with l False show ?thesis by simp
  qed
qed

lemma evict_victim_load:
  assumes "a \<in> set (st_accounts st)" "bound_to pid a" "ar_id a = victim" "victim \<noteq> i" "pid \<noteq> 0"
  shows "load_without [i] (evict_victim now victim pid st) p \<le> load_without [i] st p \<or> p = 0"
    and "load_without [i] (evict_victim now victim pid st) pid < load_without [i] st pid"
proof -
  let ?g = "\<lambda>a. if ar_id a = victim then a\<lparr>ar_proxy_id := None, ar_fallback_origin := None\<rparr> else a"
  have l: "load_without [i] (evict_victim now victim pid st) q
      = length (filter (\<lambda>a. bound_to q (?g a) \<and> ar_id a \<noteq> i) (st_accounts st))" for q
    by (simp add: load_without_def evict_victim_def update_account_def filter_map comp_def if_distrib [of ar_id] cong: if_cong)
  have b: "q \<noteq> 0 \<Longrightarrow> bound_to q (?g a) \<longleftrightarrow> bound_to q a \<and> ar_id a \<noteq> victim" for q a
    by (auto simp: bound_to_def coalesce0_def)
  show "load_without [i] (evict_victim now victim pid st) p \<le> load_without [i] st p \<or> p = 0"
    unfolding l by (cases "p = 0") (auto simp: b load_without_def intro: filter_length_mono)
  show "load_without [i] (evict_victim now victim pid st) pid < load_without [i] st pid"
    unfolding l unfolding load_without_def b [OF assms(5)]
    by (rule filter_length_less [where x = a]) (use assms in auto)
qed

lemma lend_step_ok:
  "fold (lend_step used hs ps ok) xs 0 \<noteq> 0 \<Longrightarrow> \<exists>p. (fold (lend_step used hs ps ok) xs 0, p) \<in> set xs \<and> ok (fold (lend_step used hs ps ok) xs 0) p"
proof (induction xs rule: rev_induct)
  case (snoc e xs)
  then show ?case by (cases e) (auto simp: lend_step_def split: if_splits)
qed simp

lemma load_without_le: "load_without is st p \<le> load_on st p"
  unfolding load_without_def load_on_def by (rule filter_length_mono) simp

lemma evict_ids [simp]: "ids_distinct (evict_victim now v pid st) = ids_distinct st"
  by (simp add: ids_distinct_def evict_victim_def update_account_def comp_def if_distrib [of ar_id] cong: if_cong)

lemma find_refresh_408:
  "find_account (refresh_408 k st) j = map_option (clean_408 k) (find_account st j)"
  unfolding find_account_def refresh_408_def by (simp add: find_map clean_408_def)


lemma borrow_load:
  assumes d: "ids_distinct st" and r: "borrow fp show now exclude clash i owner scope resume st = Inr (st', l)" and p: "p \<noteq> 0"
  shows "load_on st' p \<le> max 3 (load_on st p)"
proof -
  let ?accounts = "loadAllocationAccounts now st"
  let ?used = "lease_used i ?accounts" and ?victims = "victim_of i ?accounts"
  let ?ok = "lendable fp show now exclude clash st ?used ?victims"
  let ?pid = "fold (lend_step ?used (st_health st) (store_proxies now st) ?ok) (store_proxies now st) 0"
  obtain row where row: "find_account st i = Some row" and nz: "?pid \<noteq> 0"
    and st': "st' = lend now i owner scope resume ?pid (px_updated_at (proxy_at (gm_get (store_proxies now st)) ?pid)) row
      (if ?used ?pid \<ge> accountsPerProxy then evict_victim now (?victims ?pid) ?pid st else st)"
    using r by (auto simp: borrow_def Let_def split: option.splits if_splits)
  obtain q where "?ok ?pid q" using lend_step_ok [OF nz] by blast
  then have v: "?used ?pid \<ge> accountsPerProxy \<Longrightarrow> ?victims ?pid \<noteq> 0" by (simp add: lendable_def)
  show ?thesis
  proof (cases "?used ?pid \<ge> accountsPerProxy")
    case True
    from victim_of_bound [OF nz v [OF True]] obtain a where a: "a \<in> set (st_accounts st)" "bound_to ?pid a"
      "ar_id a = ?victims ?pid" "?victims ?pid \<noteq> i" by auto
    have "load_on st' p \<le> load_without [i] (evict_victim now (?victims ?pid) ?pid st) p + (if p = ?pid then 1 else 0)"
      unfolding st' using True load_after_lend [OF _ p] d by simp
    also have "\<dots> \<le> load_without [i] st p"
      using evict_victim_load(1) [OF a nz, of now p] evict_victim_load(2) [OF a nz, of now] p by (cases "p = ?pid") auto
    finally show ?thesis using load_without_le [of "[i]" st p] by linarith
  next
    case False
    have u: "?used ?pid = int (load_without [i] st ?pid)" by (rule lease_used_eq [OF nz])
    have "load_on st' p \<le> load_without [i] st p + (if p = ?pid then 1 else 0)"
      unfolding st' using False load_after_lend [OF d p] by simp
    then show ?thesis using u False load_without_le [of "[i]" st p] by (cases "p = ?pid") (auto simp: accountsPerProxy_def)
  qed
qed

lemma clean_408_frame [simp]:
  "ar_status (clean_408 i a) = ar_status a" "ar_error_message (clean_408 i a) = ar_error_message a"
  "ar_expires_at (clean_408 i a) = ar_expires_at a" "ar_proxy_id (clean_408 i a) = ar_proxy_id a"
  "ar_schedulable (clean_408 i a) = ar_schedulable a"
  "clean_408 i a = a \<or> clean_408 i a = a\<lparr>ar_retired_408 := False\<rparr>"
  by (simp_all add: clean_408_def)

lemma borrow_result:
  assumes "borrow fp show now exclude clash i owner scope resume st = Inr (st', l)"
  shows "\<exists>row' lease. find_account st' i = Some row' \<and> \<not> ar_schedulable row' \<and> lease \<in> set (st_leases st')
    \<and> ls_account lease = i \<and> ls_owner lease = owner \<and> ar_proxy_id row' = Some (ls_proxy lease) \<and> ls_proxy lease \<noteq> 0
    \<and> ls_return lease = Some resume \<and> ls_expires lease = now + 5 * minute
    \<and> (\<forall>m \<in> set (st_leases st'). m = lease \<or> m \<in> set (st_leases st))"
proof -
  obtain row pid u st1 where row: "find_account st i = Some row" and nz: "pid \<noteq> 0"
    and st': "st' = lend now i owner scope resume pid u row st1" and st1: "st1 = st \<or> (\<exists>v. st1 = evict_victim now v pid st)"
    using assms by (fastforce simp: borrow_def Let_def split: option.splits if_splits)
  have "find_account st1 i \<noteq> None"
    using st1 row by (auto simp: evict_victim_def find_update_account)
  then obtain row1 where row1: "find_account st1 i = Some row1" by blast
  have leases: "st_leases st1 = st_leases st" using st1 by (auto simp: evict_victim_def)
  let ?lease = "\<lparr>ls_account = i, ls_owner = owner, ls_proxy = pid, ls_proxy_updated = u,
            ls_credential_hash = ar_credential_hash row, ls_scope = scope, ls_acquired = now, ls_expires = now + 5 * minute,
            ls_return = Some resume\<rparr>"
  have l: "st_leases st' = st_leases st @ [?lease]"
    by (simp add: st' lend_def Let_def leases)
  have f: "find_account st' i = Some (clean_408 i
      (row1\<lparr>ar_proxy_id := Some pid, ar_fallback_origin := None, ar_schedulable := False\<rparr>))"
    using row1 by (simp add: st' lend_def Let_def find_refresh_408 find_update_account)
  let ?row' = "clean_408 i (row1\<lparr>ar_proxy_id := Some pid, ar_fallback_origin := None, ar_schedulable := False\<rparr>)"
  have "\<not> ar_schedulable ?row'" and "ar_proxy_id ?row' = Some pid" by simp_all
  with f l nz show ?thesis by (intro exI [where x = ?row'] exI [where x = ?lease]) simp
qed

lemma release_row_id [simp]: "ar_id (release_row keep a) = ar_id a" by (simp add: release_row_def)
lemma resume_row_id [simp]: "ar_id (resume_row now a) = ar_id a" by (simp add: resume_row_def)

text \<open>What a lease that is still in force does to the row.\<close>

definition back_row :: "gotime \<Rightarrow> lease_row \<Rightarrow> bool \<Rightarrow> account_row \<Rightarrow> account_row" where
  "back_row now l keep a =
     (if ls_return l = Some True then resume_row now (release_row keep a) else release_row keep a)"

lemma find_return_route:
  "find_account (return_route now keep l st) j =
     (if j = ls_account l then map_option (back_row now l keep) (find_account st j) else find_account st j)"
  by (simp add: return_route_def Let_def find_update_account back_row_def [abs_def] option.map_comp comp_def)

definition finish_keep :: "gotime \<Rightarrow> bool \<Rightarrow> store \<Rightarrow> lease_row \<Rightarrow> bool" where
  "finish_keep now success st l \<longleftrightarrow> success \<and> now < ls_expires l \<and> lease_current now st l \<and> lease_proved st l
     \<and> available (proxy_at (gm_get (store_proxies now st)) (ls_proxy l)) now"

lemma finish_find:
  assumes l: "List.find (\<lambda>l. ls_account l = i \<and> ls_owner l = owner) (st_leases st) = Some l"
  shows "find_account (FinishTestProxy now i owner success st) j =
     map_option (\<lambda>a. clean_408 i (if lease_current now st l \<and> j = i then back_row now l (finish_keep now success st l) a else a))
       (find_account st j)"
proof -
  have i: "ls_account l = i" using l by (auto simp: find_Some_iff)
  have d: "find_account (drop_lease i owner s) j = find_account s j" for s by (simp add: find_account_def drop_lease_def)
  have "find_account (FinishTestProxy now i owner success st) j = map_option (clean_408 i)
      (find_account (if lease_current now st l then return_route now (finish_keep now success st l) l st else st) j)"
    by (simp add: FinishTestProxy_def l Let_def find_refresh_408 d finish_keep_def)
  then show ?thesis
    by (cases "lease_current now st l"; cases "j = i") (simp_all add: find_return_route i option.map_comp comp_def)
qed

lemma back_row_frame:
  "ar_status (back_row now l keep a) = ar_status a" "ar_error_message (back_row now l keep a) = ar_error_message a"
  "ar_expires_at (back_row now l keep a) = ar_expires_at a"
  "ar_proxy_id (back_row now l keep a) = ar_proxy_id a \<or> ar_proxy_id (back_row now l keep a) = None"
  by (simp_all add: back_row_def resume_row_def release_row_def)

lemma back_row_resume:
  "ar_schedulable (back_row now l keep a) \<Longrightarrow> \<not> ar_schedulable a \<Longrightarrow>
     ls_return l = Some True \<and> ar_status a = ''active'' \<and> \<not> ar_manual_pause a \<and> unexpired (ar_expires_at a) now"
  by (auto simp: back_row_def resume_row_def release_row_def may_resume_def split: if_splits)

section \<open>Properties\<close>

text \<open>C30: Lending a route to a connection test keeps the shared capacity (no proxy carries more accounts than the larger
  of three and what it carried after the reconciling allocation), never lends to an account that already has a
  lease, and when it lends, the account is bound to the leased proxy, taken out of scheduling, and the lease of
  five minutes, recorded under the caller's owner, is the only new one.\<close>

theorem acquire_test_proxy_safe:
  assumes "AcquireTestProxy fp show now exclude clash i owner scope st = Inr (st', Some l)"
    and "ids_distinct st"
  shows "(\<forall>p. p \<noteq> 0 \<longrightarrow> load_on st' p \<le> max 3 (load_on (allocate fp now (lockTestRouting st) (st_health st) st) p))
    \<and> (\<forall>m \<in> set (st_leases st). ls_account m \<noteq> i)
    \<and> (\<exists>row' lease. find_account st' i = Some row' \<and> \<not> ar_schedulable row' \<and> lease \<in> set (st_leases st')
        \<and> ls_account lease = i \<and> ls_owner lease = owner \<and> ar_proxy_id row' = Some (ls_proxy lease) \<and> ls_proxy lease \<noteq> 0
        \<and> ls_expires lease = now + 5 * minute
        \<and> (\<forall>m \<in> set (st_leases st'). m = lease
\<or> m \<in> set (st_leases st)))"
proof -
  let ?st1 = "allocate fp now (lockTestRouting st) (st_health st) st"
  obtain row where free: "\<not> list_ex (\<lambda>l. ls_account l = i) (st_leases st)"
    and b: "borrow fp show now exclude clash i owner scope (original_resume row) ?st1 = Inr (st', Some l)"
    using assms(1) by (auto simp: AcquireTestProxy_def split: option.splits if_splits)
  from borrow_result [OF b] obtain row' lease where
    "find_account st' i = Some row'" "\<not> ar_schedulable row'" "lease \<in> set (st_leases st')"
    "ls_account lease = i" "ls_owner lease = owner" "ar_proxy_id row' = Some (ls_proxy lease)" "ls_proxy lease \<noteq> 0"
    "ls_expires lease = now + 5 * minute" "\<forall>m \<in> set (st_leases st'). m = lease \<or> m \<in> set (st_leases ?st1)"
    by blast
  with borrow_load [OF _ b] assms(2) free show ?thesis by (auto simp: list_ex_iff allocate_frame)
qed

definition idle_row :: account_row where
  "idle_row = demo_row_acct\<lparr>ar_schedulable := False\<rparr>"

definition idle_store :: store where
  "idle_store = demo_store\<lparr>st_accounts := [idle_row]\<rparr>"

lemma lend_single: "fold (lend_step used hs [(p, x)] ok) [(p, x)] 0 = (if ok p x then p else 0)"
  by (simp add: lend_step_def)

lemma idle_acquires:
  "\<exists>st' l. AcquireTestProxy (\<lambda>d. ''f'') (\<lambda>i. ''7'') 5 [] False 1 ''o'' ''m'' idle_store = Inr (st', Some l)"
proof -
  let ?fp = "\<lambda>d :: proxy_def. ''f''"
  let ?st1 = "allocate ?fp 5 (True, 1) (st_health idle_store) idle_store"
  have pol: "lockTestRouting idle_store = (True, 1)" by (simp add: lockTestRouting_def idle_store_def demo_store_def)
  have row: "find_account idle_store 1 = Some idle_row"
    by (simp add: find_account_def idle_store_def idle_row_def demo_row_acct_def)
  have d: "ids_distinct idle_store" by (simp add: ids_distinct_def idle_store_def)
  have en: "(st_enabled idle_store, st_revision idle_store) = (True, 1)" by (simp add: idle_store_def demo_store_def)
  have nd: "\<not> ar_deleted idle_row" and b: "row_binding_only 5 idle_row"
    by (simp_all add: idle_row_def demo_row_acct_def row_binding_only_def row_waiting_def)
  obtain row' where row': "find_account ?st1 1 = Some row'" "row' = idle_row \<or> (\<exists>p. row' = apply_row p True idle_row)"
    using allocate_find [OF d en row nd, of ?fp 5 "st_health idle_store"] b by (simp split: if_splits) blast+
  have el: "lease_eligible 5 row'"
    using row'(2) by (auto simp: lease_eligible_def apply_row_def idle_row_def demo_row_acct_def unexpired_def)
  let ?p = "loadGenerationHealth 5 (st_routes idle_store) (with_source (st_sources idle_store) (bare_proxy demo_def))"
  have ps: "store_proxies 5 ?st1 = [(7, ?p)]"
    unfolding allocate_frame by (simp add: store_proxies_def loadProxies_def idle_store_def demo_store_def demo_def_def
        proxy_def.truncate_def demo_proxy_def)
  have h: "st_health ?st1 7 = Some demo_health"
    by (subst allocate_frame(6) [OF en [symmetric]])
      (simp add: persistHealth_def idle_store_def demo_store_def demo_health_def zero_health_def fingerprint_def
        store_proxies_def loadProxies_def demo_def_def proxy_def.truncate_def demo_proxy_def)
  have u: "lease_used 1 (loadAllocationAccounts 5 ?st1) 7 = 0"
  proof -
    have "map ar_id (st_accounts ?st1) = [1]" unfolding allocate_frame by (simp add: idle_store_def idle_row_def demo_row_acct_def)
    then have "load_without [1] ?st1 7 = 0" by (auto simp: load_without_def filter_empty_conv map_eq_Cons_conv)
    then show ?thesis using lease_used_eq [of 7 1 5 ?st1] by simp
  qed
  have t: "testRouteAvailable (\<lambda>i. ''7'') ?p [] False 5" and g: "\<not> px_generation_blocked ?p"
    by (simp_all add: testRouteAvailable_def networkAvailable_def loadGenerationHealth_def rows_of_def idle_store_def demo_store_def
        with_source_def demo_def_def proxy_def.truncate_def demo_proxy_def zero_proxy_def max_retry_def)
  have "lendable ?fp (\<lambda>i. ''7'') 5 [] False ?st1 (lease_used 1 (loadAllocationAccounts 5 ?st1))
      (victim_of 1 (loadAllocationAccounts 5 ?st1)) 7 ?p"
    by (simp add: lendable_def t g h u health_at_def allocate_frame accountsPerProxy_def fingerprint_def demo_health_def
        zero_health_def time_sub_def ProbeFreshness_def minute_def sec_def godiv_def)
  then have "\<exists>st' l. borrow ?fp (\<lambda>i. ''7'') 5 [] False 1 ''o'' ''m'' (original_resume idle_row) ?st1 = Inr (st', Some l)"
    by (simp add: borrow_def row' el ps lend_single Let_def del: fold.simps)
  moreover have "ar_proxy_id idle_row = None" "\<not> ar_manual idle_row" "st_leases idle_store = []"
    by (simp_all add: idle_row_def demo_row_acct_def idle_store_def demo_store_def)
  ultimately show ?thesis by (simp add: AcquireTestProxy_def pol row coalesce0_def)
qed

theorem acquire_test_proxy_safe_witness:
  "\<exists>st' row'. find_account st' 1 = Some row' \<and> \<not> ar_schedulable row' \<and> load_on st' 7 \<le> max 3 (load_on
     (allocate (\<lambda>d. ''f'') 5 (lockTestRouting idle_store) (st_health idle_store) idle_store) 7)"
proof -
  obtain st' l where "AcquireTestProxy (\<lambda>d. ''f'') (\<lambda>i. ''7'') 5 [] False 1 ''o'' ''m'' idle_store = Inr (st', Some l)"
    using idle_acquires by blast
  moreover have "ids_distinct idle_store" by (simp add: ids_distinct_def idle_store_def)
  ultimately show ?thesis using acquire_test_proxy_safe by (metis zero_neq_numeral)
qed

text \<open>Returning a lease gives back no more than the lease took: other accounts keep their rows (up to the retired
  metadata), the account never gains an active status or loses an error, it becomes schedulable only when the lease
  was still in force for that very route and credential, had taken the account out of scheduling, and nothing else
  stops the account; a caller who does not own the lease changes nothing, and an owned lease is gone afterwards.\<close>

theorem finish_test_proxy_safe:
  assumes "st' = FinishTestProxy now i owner success st" and "find_account st j = Some row"
  shows "\<exists>row'. find_account st' j = Some row'
    \<and> ar_status row' = ar_status row \<and> ar_error_message row' = ar_error_message row \<and> ar_expires_at row' = ar_expires_at row
    \<and> (ar_proxy_id row' = ar_proxy_id row \<or> ar_proxy_id row' = None)
    \<and> (j \<noteq> i \<longrightarrow> row' = row \<or> row' = row\<lparr>ar_retired_408 := False\<rparr>)
    \<and> (ar_schedulable row' \<and> \<not> ar_schedulable row \<longrightarrow>
         (\<exists>l \<in> set (st_leases st). ls_account l = i \<and> ls_owner l = owner \<and> lease_current now st l \<and> ls_return l = Some True)
         \<and> ar_status row = ''active'' \<and> \<not> ar_manual_pause row \<and> unexpired (ar_expires_at row) now)
    \<and> (\<forall>l \<in> set (st_leases st'). \<not> (ls_account l = i \<and> ls_owner l = owner))
    \<and> ((\<forall>l \<in> set (st_leases st). \<not> (ls_account l = i \<and> ls_owner l = owner)) \<longrightarrow> st' = st)"
proof (cases "List.find (\<lambda>l. ls_account l = i \<and> ls_owner l = owner) (st_leases st)")
  case None
  with assms show ?thesis by (auto simp: FinishTestProxy_def find_None_iff)
next
  case (Some l)
  then have l: "l \<in> set (st_leases st)" "ls_account l = i" "ls_owner l = owner"
    by (auto simp: find_Some_iff)
  have gone: "st_leases st' = filter (\<lambda>l. \<not> (ls_account l = i \<and> ls_owner l = owner)) (st_leases st)"
    by (simp add: assms(1) FinishTestProxy_def Some Let_def drop_lease_def return_route_def)
  let ?row = "if lease_current now st l \<and> j = i then back_row now l (finish_keep now success st l) row else row"
  have f: "find_account st' j = Some (clean_408 i ?row)"
    using finish_find [OF Some] assms by simp
  have "ar_status ?row = ar_status row" "ar_error_message ?row = ar_error_message row" "ar_expires_at ?row = ar_expires_at row"
    "ar_proxy_id ?row = ar_proxy_id row \<or> ar_proxy_id ?row = None" "j \<noteq> i \<longrightarrow> ?row = row"
    by (simp_all add: back_row_frame)
  moreover have "lease_current now st l \<and> ls_return l = Some True \<and> ar_status row = ''active'' \<and> \<not> ar_manual_pause row
      \<and> unexpired (ar_expires_at row) now" if "ar_schedulable ?row" "\<not> ar_schedulable row"
    using that back_row_resume by (simp split: if_splits)
  ultimately show ?thesis unfolding f gone using l clean_408_frame(6) by auto
qed

definition leased_store :: store where
  "leased_store = idle_store\<lparr>st_leases := [\<lparr>ls_account = 1, ls_owner = ''o'', ls_proxy = 7, ls_proxy_updated = 0,
     ls_credential_hash = ''c'', ls_scope = ''m'', ls_acquired = 0, ls_expires = 9, ls_return = Some True\<rparr>]\<rparr>"

theorem finish_test_proxy_safe_witness:
  "\<exists>row'. find_account (FinishTestProxy 5 1 ''o'' True leased_store) 1 = Some row' \<and> ar_status row' = ar_status idle_row
     \<and> ar_error_message row' = ar_error_message idle_row"
proof -
  have "find_account leased_store 1 = Some idle_row"
    by (simp add: leased_store_def idle_store_def find_account_def idle_row_def demo_row_acct_def)
  from finish_test_proxy_safe [OF refl this] show ?thesis by blast
qed

end
