(* ===== verification/StreamCircuit.thy ===== *)
theory StreamCircuit
  imports Prelude
begin

text \<open>
  The proxy stream circuit (\<open>internal/service/openai_proxy_stream_circuit.go\<close>): a bounded, in-process breaker
  keyed by proxy id. A proxy is quarantined after enough separate stream failures within a window; failures
  closer together than the collapse interval count once. The table is a Go map (its order is arbitrary); every
  operation runs under the mutex, so it is one step on the table.
\<close>

section \<open>Settings and entries\<close>

record circuit_settings =
  cs_disabled :: bool
  cs_threshold :: int
  cs_window :: duration
  cs_ttl :: duration
  cs_collapse :: duration
  cs_max_entries :: int

text \<open>The block of the configuration file: disabled, threshold, window seconds, TTL seconds.\<close>

record circuit_config =
  cf_disabled :: bool
  cf_threshold :: int
  cf_window_seconds :: int
  cf_ttl_seconds :: int

definition default_settings :: circuit_settings where
  "default_settings = \<lparr>cs_disabled = False, cs_threshold = 2, cs_window = minute, cs_ttl = 10 * minute,
     cs_collapse = 3 * sec, cs_max_entries = 4096\<rparr>"

definition resolveOpenAIProxyStreamCircuitSettings :: "circuit_config option \<Rightarrow> circuit_settings" where
  "resolveOpenAIProxyStreamCircuitSettings cfg =
     (case cfg of None \<Rightarrow> default_settings
      | Some c \<Rightarrow> default_settings\<lparr>
          cs_disabled := cf_disabled c,
          cs_threshold := (if cf_threshold c > 0 then cf_threshold c else cs_threshold default_settings),
          cs_window := (if cf_window_seconds c > 0 then i64 (cf_window_seconds c * sec) else cs_window default_settings),
          cs_ttl := (if cf_ttl_seconds c > 0 then i64 (cf_ttl_seconds c * sec) else cs_ttl default_settings)\<rparr>)"

definition newOpenAIProxyStreamCircuit :: "circuit_settings \<Rightarrow> circuit_settings" where
  "newOpenAIProxyStreamCircuit s = s\<lparr>
     cs_threshold := (if cs_threshold s \<le> 0 then 2 else cs_threshold s),
     cs_window := (if cs_window s \<le> 0 then minute else cs_window s),
     cs_ttl := (if cs_ttl s \<le> 0 then 10 * minute else cs_ttl s),
     cs_max_entries := (if cs_max_entries s \<le> 0 then 4096 else cs_max_entries s),
     cs_collapse := (if cs_collapse s < 0 then 0 else cs_collapse s)\<rparr>"

record circuit_entry =
  ce_failures :: int
  ce_window_start :: gotime
  ce_last_failure :: gotime
  ce_blocked_until :: gotime
  ce_touched :: gotime

definition zero_entry :: circuit_entry where
  "zero_entry = \<lparr>ce_failures = 0, ce_window_start = 0, ce_last_failure = 0, ce_blocked_until = 0, ce_touched = 0\<rparr>"

type_synonym circuit = "(int, circuit_entry) gomap"

section \<open>Operations\<close>

text \<open>The search for the least recently touched entry; proxy id 0 is "none yet".\<close>

definition oldest_step :: "int \<times> circuit_entry \<Rightarrow> int \<times> gotime \<Rightarrow> int \<times> gotime" where
  "oldest_step e b = (if fst b = 0 \<or> ce_touched (snd e) < snd b then (fst e, ce_touched (snd e)) else b)"

definition stale :: "circuit_settings \<Rightarrow> gotime \<Rightarrow> circuit_entry \<Rightarrow> bool" where
  "stale s now e \<longleftrightarrow>
     (ce_blocked_until e = 0 \<and> time_sub now (ce_touched e) > cs_window s)
     \<or> (ce_blocked_until e \<noteq> 0 \<and> \<not> now < ce_blocked_until e)"

definition ensureCapacityLocked :: "circuit_settings \<Rightarrow> gotime \<Rightarrow> circuit \<Rightarrow> circuit" where
  "ensureCapacityLocked s now es =
     (if int (length es) < cs_max_entries s then es
      else (let es = filter (\<lambda>(i, e). \<not> stale s now e) es in
            if int (length es) < cs_max_entries s then es
            else (let i = fst (fold oldest_step es (0, 0)) in if i > 0 then gm_del i es else es)))"

text \<open>The part of \<open>recordFailure\<close> after the entry is found or made: a new window when the old one is over,
  the collapse of bursts, the count and the trip. The result says whether it tripped, and until when.\<close>

definition window_over :: "circuit_settings \<Rightarrow> gotime \<Rightarrow> circuit_entry \<Rightarrow> bool" where
  "window_over s now e \<longleftrightarrow>
     ce_window_start e = 0 \<or> now < ce_window_start e \<or> time_sub now (ce_window_start e) > cs_window s"

definition fresh_window :: "circuit_settings \<Rightarrow> gotime \<Rightarrow> circuit_entry \<Rightarrow> circuit_entry" where
  "fresh_window s now e =
     (if window_over s now e then e\<lparr>ce_failures := 0, ce_window_start := now, ce_blocked_until := 0\<rparr> else e)"

definition collapsed :: "circuit_settings \<Rightarrow> gotime \<Rightarrow> circuit_entry \<Rightarrow> bool" where
  "collapsed s now e \<longleftrightarrow> cs_collapse s > 0 \<and> ce_last_failure e \<noteq> 0
     \<and> time_sub now (ce_last_failure e) \<ge> 0 \<and> time_sub now (ce_last_failure e) < cs_collapse s"

definition counted :: "circuit_settings \<Rightarrow> gotime \<Rightarrow> circuit_entry \<Rightarrow> circuit_entry" where
  "counted s now e =
     e\<lparr>ce_failures := ce_failures e + 1, ce_last_failure := now, ce_touched := now,
       ce_blocked_until := (if ce_failures e + 1 \<ge> cs_threshold s then now + cs_ttl s else ce_blocked_until e)\<rparr>"

definition count_failure :: "circuit_settings \<Rightarrow> int \<Rightarrow> gotime \<Rightarrow> circuit_entry \<Rightarrow> circuit \<Rightarrow> (bool \<times> gotime) \<times> circuit" where
  "count_failure s i now e es =
     (let e = fresh_window s now e in
      if collapsed s now e then ((False, 0), gm_set i (e\<lparr>ce_touched := now\<rparr>) es)
      else ((ce_failures e + 1 \<ge> cs_threshold s, ce_blocked_until (counted s now e)), gm_set i (counted s now e) es))"

definition recordFailure :: "circuit_settings \<Rightarrow> int \<Rightarrow> gotime \<Rightarrow> circuit \<Rightarrow> (bool \<times> gotime) \<times> circuit" where
  "recordFailure s i now es =
     (if cs_disabled s \<or> i \<le> 0 then ((False, 0), es)
      else (case gm_get es i of
              Some e \<Rightarrow>
                if now < ce_blocked_until e then ((False, ce_blocked_until e), gm_set i (e\<lparr>ce_touched := now\<rparr>) es)
                else count_failure s i now e es
            | None \<Rightarrow> count_failure s i now zero_entry (ensureCapacityLocked s now es)))"

definition recordSuccess :: "int \<Rightarrow> circuit \<Rightarrow> bool \<times> circuit" where
  "recordSuccess i es =
     (if i \<le> 0 then (False, es)
      else (case gm_get es i of None \<Rightarrow> (False, es) | Some _ \<Rightarrow> (True, gm_del i es)))"

definition isBlocked :: "circuit_settings \<Rightarrow> int \<Rightarrow> gotime \<Rightarrow> circuit \<Rightarrow> bool \<times> circuit" where
  "isBlocked s i now es =
     (if cs_disabled s \<or> i \<le> 0 then (False, es)
      else (case gm_get es i of
              None \<Rightarrow> (False, es)
            | Some e \<Rightarrow> if ce_blocked_until e = 0 then (False, es)
                else if \<not> now < ce_blocked_until e then (False, gm_del i es) else (True, es)))"

definition activeBlockCount :: "circuit_settings \<Rightarrow> gotime \<Rightarrow> circuit \<Rightarrow> int" where
  "activeBlockCount s now es =
     (if cs_disabled s then 0
      else int (length (filter (\<lambda>(i, e). ce_blocked_until e \<noteq> 0 \<and> now < ce_blocked_until e) es)))"

section \<open>Use by the gateway\<close>

text \<open>An account's platform and proxy; \<open>None\<close> is the nil pointer. An error is described by whether it is (or wraps)
  a cancellation or a deadline.\<close>

record stream_account =
  sa_platform :: string
  sa_proxy_id :: "int option"

datatype stream_err = StreamCanceled | StreamDeadline | StreamBroken

definition openAIProxyStreamCircuitProxyID :: "stream_account option \<Rightarrow> int option" where
  "openAIProxyStreamCircuitProxyID account =
     (case account of None \<Rightarrow> None
      | Some a \<Rightarrow> if sa_platform a \<noteq> ''openai'' then None
          else (case sa_proxy_id a of None \<Rightarrow> None | Some i \<Rightarrow> if i \<le> 0 then None else Some i))"

definition recordOpenAIProxyStreamDisconnect ::
    "circuit_settings \<Rightarrow> gotime \<Rightarrow> stream_account option \<Rightarrow> stream_err option \<Rightarrow> circuit \<Rightarrow> bool \<times> circuit" where
  "recordOpenAIProxyStreamDisconnect s now account err es =
     (case openAIProxyStreamCircuitProxyID account of
        None \<Rightarrow> (False, es)
      | Some i \<Rightarrow>
          if err = None \<or> err = Some StreamCanceled \<or> err = Some StreamDeadline then (False, es)
          else (let r = recordFailure s i now es in (fst (fst r), snd r)))"

definition clearOpenAIProxyStreamDisconnect :: "stream_account option \<Rightarrow> circuit \<Rightarrow> circuit" where
  "clearOpenAIProxyStreamDisconnect account es =
     (case openAIProxyStreamCircuitProxyID account of None \<Rightarrow> es | Some i \<Rightarrow> snd (recordSuccess i es))"

definition isOpenAIProxyStreamQuarantined ::
    "circuit_settings \<Rightarrow> gotime \<Rightarrow> bool \<Rightarrow> stream_account option \<Rightarrow> circuit \<Rightarrow> bool \<times> circuit" where
  "isOpenAIProxyStreamQuarantined s now bypassed account es =
     (case openAIProxyStreamCircuitProxyID account of
        None \<Rightarrow> (False, es)
      | Some i \<Rightarrow> if bypassed then (False, es) else isBlocked s i now es)"

text \<open>The limiter of the fail-open warning: the new value of the shared variable when it is logged.\<close>

definition fail_open_log :: "int \<Rightarrow> int \<Rightarrow> int option" where
  "fail_open_log prior now = (if i64 (now - prior) < 5 * sec then None else Some now)"

section \<open>Capacity\<close>

text \<open>Keys are positive, as the operations guarantee.\<close>

definition circuit_wf :: "circuit \<Rightarrow> bool" where
  "circuit_wf es \<longleftrightarrow> gm_ok es \<and> (\<forall>i \<in> fst ` set es. 0 < i)"

definition older :: "int \<times> circuit_entry \<Rightarrow> int \<times> circuit_entry \<Rightarrow> bool" where
  "older a b \<longleftrightarrow> ce_touched (snd a) < ce_touched (snd b)"

interpretation circuit_age: weak_order older
  by unfold_locales (auto simp: older_def)

lemma oldest_pick:
  "\<forall>i \<in> fst ` set es. 0 < i \<Longrightarrow> fold oldest_step es (0, 0) =
     (case pick older es of None \<Rightarrow> (0, 0) | Some e \<Rightarrow> (fst e, ce_touched (snd e)))"
proof (induction es rule: rev_induct)
  case (snoc e es)
  have pos: "0 < fst b" if "pick older es = Some b" for b
    using pick_in_set [OF that] snoc.prems by auto
  have IH: "fold oldest_step es (0, 0) = (case pick older es of None \<Rightarrow> (0, 0) | Some e \<Rightarrow> (fst e, ce_touched (snd e)))"
    using snoc by simp
  have "fold oldest_step (es @ [e]) (0, 0) = oldest_step e (fold oldest_step es (0, 0))" by simp
  also have "\<dots> = (case pick older (es @ [e]) of None \<Rightarrow> (0, 0) | Some e \<Rightarrow> (fst e, ce_touched (snd e)))"
    unfolding IH using pos
    by (cases "pick older es") (simp_all add: pick_snoc pick_step_def oldest_step_def [of e] older_def [of e])
  finally show ?case .
qed simp

lemma circuit_wf_del: "circuit_wf es \<Longrightarrow> circuit_wf (gm_del i es)"
  by (auto simp: circuit_wf_def AList.delete_eq)

lemma circuit_wf_filter: "circuit_wf es \<Longrightarrow> circuit_wf (filter P es)"
  by (auto simp: circuit_wf_def)

lemma circuit_wf_set: "circuit_wf es \<Longrightarrow> 0 < i \<Longrightarrow> circuit_wf (gm_set i e es)"
  by (auto simp: circuit_wf_def dest: gm_set_entries)

text \<open>When no entry is stale and the table is full, the least recently touched one goes.\<close>

lemma ensureCapacity_evicts:
  assumes wf: "circuit_wf es" and full: "cs_max_entries s \<le> int (length (filter (\<lambda>(i, e). \<not> stale s now e) es))"
    and m: "0 < cs_max_entries s"
  shows "\<exists>i e. (i, e) \<in> set es \<and> \<not> stale s now e \<and> (\<forall>(j, e') \<in> set es. \<not> stale s now e' \<longrightarrow> ce_touched e \<le> ce_touched e')
    \<and> ensureCapacityLocked s now es = gm_del i (filter (\<lambda>(i, e). \<not> stale s now e) es)"
proof -
  let ?es = "filter (\<lambda>(i, e). \<not> stale s now e) es"
  have len: "length ?es \<le> length es" by simp
  have pos: "\<forall>i \<in> fst ` set ?es. 0 < i" using wf by (auto simp: circuit_wf_def)
  from full m have "?es \<noteq> []" by auto
  then obtain b where b: "pick older ?es = Some b" by (cases "pick older ?es") auto
  from pick_in_set [OF b] have mem: "b \<in> set ?es" .
  have "\<not> older x b" if "x \<in> set ?es" for x by (rule circuit_age.pick_best [OF b that])
  then have least: "\<forall>(j, e') \<in> set es. \<not> stale s now e' \<longrightarrow> ce_touched (snd b) \<le> ce_touched e'"
    by (fastforce simp: older_def not_less)
  have big: "cs_max_entries s \<le> int (length es)" using full len by linarith
  have b0: "0 < fst b" using mem pos by blast
  have "ensureCapacityLocked s now es = gm_del (fst b) ?es"
    using full big b0 by (simp add: ensureCapacityLocked_def Let_def oldest_pick [OF pos] b)
  with mem least show ?thesis by (intro exI [where x = "fst b"] exI [where x = "snd b"]) (auto simp: case_prod_beta)
qed

lemma ensureCapacity_room:
  assumes wf: "circuit_wf es" and m: "0 < cs_max_entries s" and cap: "int (length es) \<le> cs_max_entries s"
  shows "int (length (ensureCapacityLocked s now es)) < cs_max_entries s"
proof (cases "cs_max_entries s \<le> int (length (filter (\<lambda>(i, e). \<not> stale s now e) es))")
  case True
  let ?es = "filter (\<lambda>(i, e). \<not> stale s now e) es"
  from ensureCapacity_evicts [OF wf True m] obtain i e where e: "(i, e) \<in> set ?es"
    "ensureCapacityLocked s now es = gm_del i ?es" by auto
  have ok: "gm_ok ?es" using wf by (simp add: circuit_wf_def)
  with e(1) have "gm_get ?es i \<noteq> None" by (metis gm_in_set option.distinct(1))
  then have "length (gm_del i ?es) = length ?es - 1" "?es \<noteq> []" using gm_len_del [OF ok] by auto
  moreover have "length ?es \<le> length es" by simp
  ultimately show ?thesis using cap e(2) by (cases ?es) auto
next
  case False
  then show ?thesis by (auto simp: ensureCapacityLocked_def Let_def)
qed

lemma ensureCapacity_wf: "circuit_wf es \<Longrightarrow> circuit_wf (ensureCapacityLocked s now es)"
  by (simp add: ensureCapacityLocked_def Let_def circuit_wf_del circuit_wf_filter)

lemma ensureCapacity_sub: "circuit_wf es \<Longrightarrow> gm_get (ensureCapacityLocked s now es) i = Some e \<Longrightarrow> gm_get es i = Some e"
proof -
  assume wf: "circuit_wf es" and g: "gm_get (ensureCapacityLocked s now es) i = Some e"
  have ok: "gm_ok es" using wf by (simp add: circuit_wf_def)
  let ?es = "filter (\<lambda>(i, e). \<not> stale s now e) es"
  have f: "gm_get ?es i = Some e \<Longrightarrow> gm_get es i = Some e"
    by (auto simp: gm_get_filter [OF ok] split: option.splits if_splits)
  have d: "gm_get (gm_del j ?es) i = Some e \<Longrightarrow> gm_get ?es i = Some e" for j
    by (simp add: gm_get_del split: if_splits)
  show ?thesis using g f d unfolding ensureCapacityLocked_def Let_def by (simp only: split: if_splits)
qed

interpretation circuit_table: capped_table "ensureCapacityLocked s now" "\<lambda>i e es. if 0 < i then gm_set i e es else es"
    "\<lambda>es i. gm_get es i \<noteq> None" length "nat (max 1 (cs_max_entries s))"
    "\<lambda>es. circuit_wf es \<and> 0 < cs_max_entries s" for s now
proof
  fix es :: circuit and i :: int and e
  assume wf: "circuit_wf es \<and> 0 < cs_max_entries s"
  show "length es \<le> nat (max 1 (cs_max_entries s)) \<Longrightarrow> length (ensureCapacityLocked s now es) < nat (max 1 (cs_max_entries s))"
    using ensureCapacity_room [of es s now] wf by linarith
  show "circuit_wf (ensureCapacityLocked s now es) \<and> 0 < cs_max_entries s" using wf by (simp add: ensureCapacity_wf)
  show "length (if 0 < i then gm_set i e es else es) \<le> Suc (length es)" by (simp add: gm_len_set)
  show "gm_get es i \<noteq> None \<Longrightarrow> length (if 0 < i then gm_set i e es else es) = length es" by (auto simp: gm_len_set)
  show "circuit_wf (if 0 < i then gm_set i e es else es) \<and> 0 < cs_max_entries s" using wf by (simp add: circuit_wf_set)
qed


section \<open>Evidence\<close>

text \<open>One call of the circuit by the gateway, and the table with the instants at which failures of each proxy were
  reported since its last success.\<close>

datatype circuit_op = Failed int gotime | Succeeded int | Asked int gotime

definition circuit_step :: "circuit_settings \<Rightarrow> circuit_op \<Rightarrow> circuit \<Rightarrow> circuit" where
  "circuit_step s c es =
     (case c of Failed i now \<Rightarrow> snd (recordFailure s i now es)
      | Succeeded i \<Rightarrow> snd (recordSuccess i es)
      | Asked i now \<Rightarrow> snd (isBlocked s i now es))"

definition reported :: "circuit_op list \<Rightarrow> int \<Rightarrow> gotime set" where
  "reported cs i = {t. Failed i t \<in> set cs}"

definition op_time :: "circuit_op \<Rightarrow> gotime option" where
  "op_time c = (case c of Failed i t \<Rightarrow> Some t | Succeeded i \<Rightarrow> None | Asked i t \<Rightarrow> Some t)"

text \<open>Times are positive (after Go's zero time) and never go back.\<close>

inductive timely :: "circuit_op list \<Rightarrow> gotime \<Rightarrow> bool" where
  Nil: "timely [] 1"
| Timed: "timely cs t \<Longrightarrow> op_time c = Some u \<Longrightarrow> t \<le> u \<Longrightarrow> timely (cs @ [c]) u"
| Untimed: "timely cs t \<Longrightarrow> op_time c = None \<Longrightarrow> timely (cs @ [c]) t"

definition evidence :: "circuit_settings \<Rightarrow> gotime set \<Rightarrow> gotime \<Rightarrow> circuit_entry \<Rightarrow> bool" where
  "evidence s R clock e \<longleftrightarrow>
     (\<exists>ts. set ts \<subseteq> R \<and> int (length ts) = ce_failures e \<and> sorted_wrt (\<lambda>a b. a + cs_collapse s \<le> b) ts
        \<and> (\<forall>t \<in> set ts. ce_window_start e \<le> t \<and> t - ce_window_start e \<le> cs_window s \<and> t \<le> ce_last_failure e
             \<and> ce_last_failure e \<noteq> 0))
     \<and> ce_last_failure e \<le> clock \<and> 0 \<le> ce_window_start e \<and> ce_window_start e \<le> clock
     \<and> (ce_blocked_until e \<noteq> 0 \<longrightarrow> cs_threshold s \<le> ce_failures e)"

definition settings_ok :: "circuit_settings \<Rightarrow> bool" where
  "settings_ok s \<longleftrightarrow> 1 \<le> cs_threshold s \<and> 0 < cs_window s \<and> cs_window s < 2 ^ 63 - 1 \<and> 0 < cs_ttl s
     \<and> 0 \<le> cs_collapse s \<and> cs_collapse s < 2 ^ 63 \<and> 0 < cs_max_entries s"

lemma evidence_mono: "evidence s R clock e \<Longrightarrow> R \<subseteq> R' \<Longrightarrow> clock \<le> clock' \<Longrightarrow> evidence s R' clock' e"
  unfolding evidence_def by (meson order.trans)

lemma evidence_touch: "evidence s R clock e \<Longrightarrow> evidence s R clock (e\<lparr>ce_touched := t\<rparr>)"
  by (simp add: evidence_def)

lemma evidence_zero: "0 \<le> clock \<Longrightarrow> evidence s R clock zero_entry"
  by (simp add: evidence_def zero_entry_def)

lemma evidence_fresh:
  assumes "evidence s R clock e" "clock \<le> now" "0 < now" "0 < cs_window s"
  shows "evidence s R now (fresh_window s now e)"
proof (cases "window_over s now e")
  case True
  then have "fresh_window s now e = e\<lparr>ce_failures := 0, ce_window_start := now, ce_blocked_until := 0\<rparr>"
    by (simp add: fresh_window_def)
  with assms show ?thesis by (simp add: evidence_def)
next
  case False
  then show ?thesis using evidence_mono [OF assms(1) order_refl assms(2)] by (simp add: fresh_window_def)
qed

lemma fresh_window_not_over:
  assumes "0 < now" "settings_ok s"
  shows "ce_window_start (fresh_window s now e) \<le> now \<and> now - ce_window_start (fresh_window s now e) \<le> cs_window s"
proof -
  have w: "time_sub now (ce_window_start e) \<le> cs_window s \<longleftrightarrow> now - ce_window_start e \<le> cs_window s"
    using assms(2) by (intro time_sub_le) (auto simp: settings_ok_def)
  show ?thesis using assms w by (auto simp: fresh_window_def window_over_def settings_ok_def not_less)
qed

lemma evidence_counted:
  assumes e: "evidence s R now e" and now: "0 < now" "now \<in> R" and nc: "\<not> collapsed s now e" and ok: "settings_ok s"
    and win: "ce_window_start e \<le> now" "now - ce_window_start e \<le> cs_window s"
  shows "evidence s R now (counted s now e)"
proof -
  from e obtain ts where ts: "set ts \<subseteq> R" "int (length ts) = ce_failures e" "sorted_wrt (\<lambda>a b. a + cs_collapse s \<le> b) ts"
    "\<forall>t \<in> set ts. ce_window_start e \<le> t \<and> t - ce_window_start e \<le> cs_window s \<and> t \<le> ce_last_failure e \<and> ce_last_failure e \<noteq> 0"
    and last: "ce_last_failure e \<le> now" and w: "0 \<le> ce_window_start e"
    and b: "ce_blocked_until e \<noteq> 0 \<longrightarrow> cs_threshold s \<le> ce_failures e"
    by (auto simp: evidence_def)
  have gap: "t + cs_collapse s \<le> now" if "t \<in> set ts" for t
  proof -
    from ts(4) that have t: "t \<le> ce_last_failure e" "ce_last_failure e \<noteq> 0" by auto
    have "time_sub now (ce_last_failure e) < cs_collapse s \<longleftrightarrow> now - ce_last_failure e < cs_collapse s" if "0 < cs_collapse s"
      using ok that by (intro time_sub_less) (auto simp: settings_ok_def)
    with nc t last ok show ?thesis by (auto simp: collapsed_def settings_ok_def)
  qed
  let ?ts = "ts @ [now]"
  have "set ?ts \<subseteq> R" "int (length ?ts) = ce_failures (counted s now e)" using ts now by (simp_all add: counted_def)
  moreover have "sorted_wrt (\<lambda>a b. a + cs_collapse s \<le> b) ?ts" using ts(3) gap by (simp add: sorted_wrt_append)
  moreover have "\<forall>t \<in> set ?ts. ce_window_start (counted s now e) \<le> t \<and> t - ce_window_start (counted s now e) \<le> cs_window s
      \<and> t \<le> ce_last_failure (counted s now e) \<and> ce_last_failure (counted s now e) \<noteq> 0"
    using ts(4) last win now(1) by (auto simp: counted_def)
  ultimately have "\<exists>ts. set ts \<subseteq> R \<and> int (length ts) = ce_failures (counted s now e)
      \<and> sorted_wrt (\<lambda>a b. a + cs_collapse s \<le> b) ts
      \<and> (\<forall>t \<in> set ts. ce_window_start (counted s now e) \<le> t \<and> t - ce_window_start (counted s now e) \<le> cs_window s
           \<and> t \<le> ce_last_failure (counted s now e) \<and> ce_last_failure (counted s now e) \<noteq> 0)"
    by blast
  moreover have "ce_last_failure (counted s now e) \<le> now" "0 \<le> ce_window_start (counted s now e)"
    "ce_window_start (counted s now e) \<le> now"
    "ce_blocked_until (counted s now e) \<noteq> 0 \<longrightarrow> cs_threshold s \<le> ce_failures (counted s now e)"
    using w win b by (auto simp: counted_def)
  ultimately show ?thesis unfolding evidence_def by blast
qed

text \<open>Every entry of the table is backed by evidence.\<close>

definition circuit_inv :: "circuit_settings \<Rightarrow> (int \<Rightarrow> gotime set) \<Rightarrow> gotime \<Rightarrow> circuit \<Rightarrow> bool" where
  "circuit_inv s R clock es \<longleftrightarrow> circuit_wf es \<and> int (length es) \<le> cs_max_entries s
     \<and> (\<forall>i e. gm_get es i = Some e \<longrightarrow> evidence s (R i) clock e)"

lemma circuit_inv_mono: "circuit_inv s R clock es \<Longrightarrow> (\<And>i. R i \<subseteq> R' i) \<Longrightarrow> clock \<le> clock' \<Longrightarrow> circuit_inv s R' clock' es"
  unfolding circuit_inv_def by (meson evidence_mono)

lemma circuit_inv_del: "circuit_inv s R clock es \<Longrightarrow> circuit_inv s R clock (gm_del i es)"
  using length_delete_le [of i es] by (auto simp: circuit_inv_def circuit_wf_del gm_get_del)

lemma circuit_inv_set:
  "circuit_inv s R clock es \<Longrightarrow> 0 < i \<Longrightarrow> gm_get es i \<noteq> None \<or> int (length es) < cs_max_entries s \<Longrightarrow>
   evidence s (R i) clock e \<Longrightarrow> circuit_inv s R clock (gm_set i e es)"
  by (auto simp: circuit_inv_def circuit_wf_set gm_get_set gm_len_set)

lemma count_failure_inv:
  assumes inv: "circuit_inv s R now es" and i: "0 < i" "gm_get es i \<noteq> None \<or> int (length es) < cs_max_entries s"
    and e: "evidence s (R i) now e" and now: "0 < now" "now \<in> R i" and ok: "settings_ok s"
  shows "circuit_inv s R now (snd (count_failure s i now e es))"
proof -
  let ?f = "fresh_window s now e"
  have f: "evidence s (R i) now ?f"
    by (rule evidence_fresh [OF e order_refl now(1)]) (use ok in \<open>simp add: settings_ok_def\<close>)
  show ?thesis
  proof (cases "collapsed s now ?f")
    case True
    then show ?thesis unfolding count_failure_def Let_def
      by (simp add: circuit_inv_set [OF inv i evidence_touch [OF f]])
  next
    case False
    have "evidence s (R i) now (counted s now ?f)"
      by (rule evidence_counted [OF f now False ok]) (use fresh_window_not_over [OF now(1) ok] in auto)
    with False show ?thesis unfolding count_failure_def Let_def
      by (simp add: circuit_inv_set [OF inv i])
  qed
qed

lemma circuit_step_inv:
  assumes inv: "circuit_inv s R clock es" and ok: "settings_ok s" and c: "0 < clock" "clock \<le> clock'"
    and t: "\<And>u. op_time c = Some u \<Longrightarrow> u = clock'"
    and R: "\<And>i. R i \<subseteq> R' i" "\<And>i t. c = Failed i t \<Longrightarrow> t \<in> R' i"
  shows "circuit_inv s R' clock' (circuit_step s c es)"
proof -
  have inv': "circuit_inv s R' clock' es" by (rule circuit_inv_mono [OF inv R(1) c(2)])
  show ?thesis
  proof (cases c)
    case (Failed i now)
    with t have now: "now = clock'" by (simp add: op_time_def)
    show ?thesis
    proof (cases "cs_disabled s \<or> i \<le> 0")
      case True
      with inv' Failed show ?thesis by (simp add: circuit_step_def recordFailure_def)
    next
      case False
      then have i: "0 < i" by simp
      have pos: "0 < clock'" using c by simp
      show ?thesis
      proof (cases "gm_get es i")
        case None
        let ?es = "ensureCapacityLocked s now es"
        have m: "0 < cs_max_entries s" using ok by (simp add: settings_ok_def)
        have wf: "circuit_wf es" and cap: "int (length es) \<le> cs_max_entries s" using inv' by (simp_all add: circuit_inv_def)
        have room: "int (length ?es) < cs_max_entries s" by (rule ensureCapacity_room [OF wf m cap])
        have "circuit_inv s R' clock' ?es"
          using inv' room ensureCapacity_wf [OF wf] ensureCapacity_sub [OF wf] by (auto simp: circuit_inv_def)
        from count_failure_inv [OF this i] room pos evidence_zero [of clock' s "R' i"] R(2) [OF Failed] ok now
        show ?thesis by (simp add: circuit_step_def Failed recordFailure_def False None)
      next
        case (Some e)
        have e: "evidence s (R' i) clock' e" using inv' Some by (simp add: circuit_inv_def)
        have "circuit_inv s R' clock' (gm_set i (e\<lparr>ce_touched := now\<rparr>) es)"
          by (rule circuit_inv_set [OF inv' i _ evidence_touch [OF e]]) (simp add: Some)
        moreover have "circuit_inv s R' clock' (snd (count_failure s i now e es))"
          unfolding now by (rule count_failure_inv [OF inv' i _ e pos _ ok]) (use Some R(2) [OF Failed] now in auto)
        ultimately show ?thesis using False Some by (simp add: circuit_step_def Failed recordFailure_def)
      qed
    qed
  next
    case (Succeeded i)
    with inv' circuit_inv_del [OF inv'] show ?thesis by (simp add: circuit_step_def recordSuccess_def split: option.split)
  next
    case (Asked i now)
    with inv' circuit_inv_del [OF inv'] show ?thesis by (simp add: circuit_step_def isBlocked_def split: option.split)
  qed
qed

lemma timely_pos: "timely cs t \<Longrightarrow> 0 < t"
  by (induction rule: timely.induct) auto

lemma reported_snoc: "reported cs i \<subseteq> reported (cs @ [c]) i" "c = Failed i t \<Longrightarrow> t \<in> reported (cs @ [c]) i"
  by (auto simp: reported_def)

lemma circuit_run_inv:
  "timely cs t \<Longrightarrow> settings_ok s \<Longrightarrow> circuit_inv s (reported cs) t (fold (circuit_step s) cs [])"
proof (induction rule: timely.induct)
  case Nil
  then show ?case by (simp add: circuit_inv_def circuit_wf_def settings_ok_def)
next
  case (Timed cs t c u)
  have "circuit_inv s (reported (cs @ [c])) u (circuit_step s c (fold (circuit_step s) cs []))"
    by (rule circuit_step_inv [OF Timed.IH [OF Timed.prems] Timed.prems timely_pos [OF Timed.hyps(1)] Timed.hyps(3)])
      (use Timed.hyps(2) reported_snoc in auto)
  then show ?case by simp
next
  case (Untimed cs t c)
  have "circuit_inv s (reported (cs @ [c])) t (circuit_step s c (fold (circuit_step s) cs []))"
    by (rule circuit_step_inv [OF Untimed.IH [OF Untimed.prems] Untimed.prems timely_pos [OF Untimed.hyps(1)] order_refl])
      (use Untimed.hyps(2) reported_snoc in auto)
  then show ?case by simp
qed


section \<open>Properties\<close>

text \<open>C33: A proxy is only quarantined on enough evidence: whatever calls were made before (in an order with
  non-decreasing times), if a proxy is reported blocked then failures of it were reported at as many instants as
  the threshold, each at least the collapse interval after the one before and all within one window, so a burst of
  streams that die together counts once.\<close>

theorem quarantine_needs_evidence:
  assumes "timely cs t" and "settings_ok s" and "fst (isBlocked s i now (fold (circuit_step s) cs []))"
  shows "\<exists>ts. set ts \<subseteq> reported cs i \<and> cs_threshold s \<le> int (length ts)
    \<and> sorted_wrt (\<lambda>a b. a + cs_collapse s \<le> b) ts
    \<and> (\<forall>a \<in> set ts. \<forall>b \<in> set ts. b - a \<le> cs_window s)"
proof -
  let ?es = "fold (circuit_step s) cs []"
  have inv: "circuit_inv s (reported cs) t ?es" by (rule circuit_run_inv [OF assms(1,2)])
  obtain e where e: "gm_get ?es i = Some e" "ce_blocked_until e \<noteq> 0"
    using assms(3) by (auto simp: isBlocked_def split: option.splits if_splits)
  then have ev: "evidence s (reported cs i) t e" using inv by (simp add: circuit_inv_def)
  then obtain ts where ts: "set ts \<subseteq> reported cs i" "int (length ts) = ce_failures e"
    "sorted_wrt (\<lambda>a b. a + cs_collapse s \<le> b) ts"
    "\<forall>t \<in> set ts. ce_window_start e \<le> t \<and> t - ce_window_start e \<le> cs_window s"
    by (auto simp: evidence_def)
  have "b - a \<le> cs_window s" if "a \<in> set ts" "b \<in> set ts" for a b
    using bspec [OF ts(4) that(1)] bspec [OF ts(4) that(2)] by linarith
  moreover have "cs_threshold s \<le> int (length ts)" using ev e(2) ts(2) by (simp add: evidence_def)
  ultimately show ?thesis using ts by blast
qed

definition two_failures :: "circuit_op list" where
  "two_failures = [Failed 7 (10 * sec), Failed 7 (11 * sec), Failed 7 (14 * sec)]"

lemma two_failures_timely: "timely two_failures (14 * sec)"
proof -
  have "timely ([] @ [Failed 7 (10 * sec)]) (10 * sec)" by (rule timely.Timed [OF timely.Nil]) (simp_all add: op_time_def sec_def)
  from timely.Timed [OF this, of "Failed 7 (11 * sec)" "11 * sec"]
  have "timely (([] @ [Failed 7 (10 * sec)]) @ [Failed 7 (11 * sec)]) (11 * sec)" by (simp add: op_time_def sec_def)
  from timely.Timed [OF this, of "Failed 7 (14 * sec)" "14 * sec"] show ?thesis
    by (simp add: op_time_def sec_def two_failures_def)
qed

theorem quarantine_needs_evidence_witness:
  "\<exists>ts. set ts \<subseteq> reported two_failures 7 \<and> 2 \<le> int (length ts) \<and> sorted_wrt (\<lambda>a b. a + 3 * sec \<le> b) ts"
proof -
  have ok: "settings_ok default_settings" by (simp add: settings_ok_def default_settings_def minute_def sec_def)
  have "fst (isBlocked default_settings 7 (15 * sec) (fold (circuit_step default_settings) two_failures []))"
    by (simp add: two_failures_def circuit_step_def recordFailure_def ensureCapacityLocked_def default_settings_def
        count_failure_def Let_def fresh_window_def window_over_def zero_entry_def collapsed_def counted_def
        sec_def minute_def time_sub_def isBlocked_def)
  from quarantine_needs_evidence [OF two_failures_timely ok this] show ?thesis
    by (auto simp: default_settings_def)
qed

text \<open>The table of the circuit never exceeds its limit, whatever calls were made; and when it is full of entries that
  are all still relevant, making room drops exactly the one that was touched least recently.\<close>

theorem circuit_bounded_lru:
  assumes "timely cs t" and "settings_ok s" and "es = fold (circuit_step s) cs []"
  shows "int (length es) \<le> cs_max_entries s
    \<and> (\<forall>now. int (length es) = cs_max_entries s \<longrightarrow> (\<forall>(j, e) \<in> set es. \<not> stale s now e) \<longrightarrow>
        (\<exists>i e. gm_get es i = Some e \<and> (\<forall>(j, e') \<in> set es. ce_touched e \<le> ce_touched e')
           \<and> ensureCapacityLocked s now es = gm_del i es))"
proof (intro conjI allI impI)
  have inv: "circuit_wf es" "int (length es) \<le> cs_max_entries s"
    using circuit_run_inv [OF assms(1,2)] assms(3) by (simp_all add: circuit_inv_def)
  then show "int (length es) \<le> cs_max_entries s" by simp
  fix now
  assume full: "int (length es) = cs_max_entries s" and fresh: "\<forall>(j, e) \<in> set es. \<not> stale s now e"
  have all: "filter (\<lambda>(i, e). \<not> stale s now e) es = es" using fresh by (intro filter_True) auto
  have m: "0 < cs_max_entries s" using assms(2) by (simp add: settings_ok_def)
  have ok: "gm_ok es" using inv(1) by (simp add: circuit_wf_def)
  from ensureCapacity_evicts [OF inv(1) _ m, of now] obtain i e where "(i, e) \<in> set es"
    "\<forall>(j, e') \<in> set es. \<not> stale s now e' \<longrightarrow> ce_touched e \<le> ce_touched e'" "ensureCapacityLocked s now es = gm_del i es"
    unfolding all using full by auto
  with fresh show "\<exists>i e. gm_get es i = Some e \<and> (\<forall>(j, e') \<in> set es. ce_touched e \<le> ce_touched e')
           \<and> ensureCapacityLocked s now es = gm_del i es"
    by (intro exI [where x = i] exI [where x = e]) (auto simp: gm_in_set [OF ok])
qed

theorem circuit_bounded_lru_witness:
  "int (length (fold (circuit_step default_settings) two_failures [])) \<le> 4096"
proof -
  have "settings_ok default_settings" by (simp add: settings_ok_def default_settings_def minute_def sec_def)
  from circuit_bounded_lru [OF two_failures_timely this refl] show ?thesis by (simp add: default_settings_def)
qed

end
