(* ===== verification/ModelTransient.thy ===== *)
theory ModelTransient
  imports Prelude
begin

text \<open>
  Transient failures per account and model (\<open>internal/service/openai_account_model_transient.go\<close>): a bounded
  table of failure streaks with short and long cooldowns. \<open>lower\<close> is \<open>strings.ToLower\<close>. A zero \<open>now\<close> means
  the process clock, which is the argument \<open>clock\<close>.
\<close>

section \<open>State\<close>

type_synonym model_key = "int \<times> string"

record transient_entry =
  te_streak :: int
  te_last_failure :: gotime
  te_block_until :: gotime
  te_touched :: gotime

record transient_state =
  ts_entries :: "(model_key, transient_entry) gomap"
  ts_max :: int

record transient_decision =
  td_streak :: int
  td_cooldown :: duration
  td_block_until :: gotime

definition streak_ttl :: duration where "streak_ttl = 30 * minute"
definition short_cooldown :: duration where "short_cooldown = 10 * sec"
definition long_cooldown :: duration where "long_cooldown = 45 * sec"
definition default_max :: int where "default_max = 4096"

definition newOpenAIAccountModelTransientState :: "int \<Rightarrow> transient_state" where
  "newOpenAIAccountModelTransientState m = \<lparr>ts_entries = [], ts_max = (if m \<le> 0 then default_max else m)\<rparr>"

definition no_decision :: transient_decision where
  "no_decision = \<lparr>td_streak = 0, td_cooldown = 0, td_block_until = 0\<rparr>"

definition zero_transient :: transient_entry where
  "zero_transient = \<lparr>te_streak = 0, te_last_failure = 0, te_block_until = 0, te_touched = 0\<rparr>"

section \<open>Operations\<close>

definition normalizeOpenAIAccountModelTransientModel :: "(string \<Rightarrow> string) \<Rightarrow> string \<Rightarrow> string" where
  "normalizeOpenAIAccountModelTransientModel lower model =
     (let m = trim_space model in if length m > 512 then [] else lower m)"

definition openAIAccountModelTransientKey :: "(string \<Rightarrow> string) \<Rightarrow> int \<Rightarrow> string \<Rightarrow> model_key option" where
  "openAIAccountModelTransientKey lower acct model =
     (let m = normalizeOpenAIAccountModelTransientModel lower model
      in if acct \<le> 0 \<or> m = [] then None else Some (acct, m))"

text \<open>The oldest entry; \<open>None\<close> is \<open>found = false\<close>.\<close>

definition touched_before :: "model_key \<times> transient_entry \<Rightarrow> model_key \<times> transient_entry \<Rightarrow> bool" where
  "touched_before a b \<longleftrightarrow> te_touched (snd a) < te_touched (snd b)"

definition evictOldestLocked :: "transient_state \<Rightarrow> transient_state" where
  "evictOldestLocked s =
     (if int (length (ts_entries s)) < ts_max s then s
      else (case pick touched_before (ts_entries s) of
              None \<Rightarrow> s
            | Some e \<Rightarrow> s\<lparr>ts_entries := gm_del (fst e) (ts_entries s)\<rparr>))"

definition streak_broken :: "transient_entry option \<Rightarrow> gotime \<Rightarrow> bool" where
  "streak_broken e now \<longleftrightarrow>
     (case e of None \<Rightarrow> True
      | Some e \<Rightarrow> te_last_failure e = 0 \<or> time_sub now (te_last_failure e) > streak_ttl \<or> now < te_last_failure e)"

definition cooldown_for :: "int \<Rightarrow> duration" where
  "cooldown_for n = (if n \<ge> 3 then long_cooldown else if n = 2 then short_cooldown else 0)"

definition record_failure ::
    "(string \<Rightarrow> string) \<Rightarrow> gotime \<Rightarrow> int \<Rightarrow> string \<Rightarrow> gotime \<Rightarrow> transient_state \<Rightarrow> transient_decision \<times> transient_state" where
  "record_failure lower clock acct model now s =
     (case openAIAccountModelTransientKey lower acct model of
        None \<Rightarrow> (no_decision, s)
      | Some key \<Rightarrow>
          (let now = (if now = 0 then clock else now);
               s = (if ts_max s \<le> 0 then s\<lparr>ts_max := default_max\<rparr> else s);
               old = gm_get (ts_entries s) key;
               s = (if old = None then evictOldestLocked s else s);
               e = (case old of None \<Rightarrow> zero_transient | Some e \<Rightarrow> e);
               e = (if streak_broken old now then e\<lparr>te_streak := 0, te_block_until := 0\<rparr> else e);
               n = te_streak e + 1;
               e = e\<lparr>te_streak := n, te_last_failure := now, te_touched := now,
                     te_block_until := (if cooldown_for n > 0 then now + cooldown_for n else 0)\<rparr>
           in (\<lparr>td_streak = n, td_cooldown = cooldown_for n, td_block_until = te_block_until e\<rparr>,
               s\<lparr>ts_entries := gm_set key e (ts_entries s)\<rparr>)))"

definition record_success :: "(string \<Rightarrow> string) \<Rightarrow> int \<Rightarrow> string \<Rightarrow> transient_state \<Rightarrow> transient_state" where
  "record_success lower acct model s =
     (case openAIAccountModelTransientKey lower acct model of
        None \<Rightarrow> s | Some key \<Rightarrow> s\<lparr>ts_entries := gm_del key (ts_entries s)\<rparr>)"

definition is_blocked ::
    "(string \<Rightarrow> string) \<Rightarrow> gotime \<Rightarrow> int \<Rightarrow> string \<Rightarrow> gotime \<Rightarrow> transient_state \<Rightarrow> bool \<times> transient_state" where
  "is_blocked lower clock acct model now s =
     (case openAIAccountModelTransientKey lower acct model of
        None \<Rightarrow> (False, s)
      | Some key \<Rightarrow>
          (let now = (if now = 0 then clock else now) in
           case gm_get (ts_entries s) key of
             None \<Rightarrow> (False, s)
           | Some e \<Rightarrow>
               if te_last_failure e \<noteq> 0 \<and> time_sub now (te_last_failure e) > streak_ttl
               then (False, s\<lparr>ts_entries := gm_del key (ts_entries s)\<rparr>)
               else (te_block_until e \<noteq> 0 \<and> now < te_block_until e,
                     s\<lparr>ts_entries := gm_set key (e\<lparr>te_touched := now\<rparr>) (ts_entries s)\<rparr>)))"

definition transient_size :: "transient_state \<Rightarrow> int" where
  "transient_size s = int (length (ts_entries s))"

section \<open>Lemmas\<close>

interpretation transient_age: weak_order touched_before
  by unfold_locales (auto simp: touched_before_def)

definition transient_ok :: "transient_state \<Rightarrow> bool" where
  "transient_ok s \<longleftrightarrow> gm_ok (ts_entries s) \<and> 0 < ts_max s"

lemma evict_ok: "transient_ok s \<Longrightarrow> transient_ok (evictOldestLocked s)"
  by (auto simp: transient_ok_def evictOldestLocked_def split: option.split)

lemma evict_max [simp]: "ts_max (evictOldestLocked s) = ts_max s"
  by (auto simp: evictOldestLocked_def split: option.split)

lemma evict_room:
  assumes ok: "transient_ok s" and cap: "int (length (ts_entries s)) \<le> ts_max s"
  shows "int (length (ts_entries (evictOldestLocked s))) < ts_max s"
proof (cases "int (length (ts_entries s)) < ts_max s")
  case True
  then show ?thesis by (simp add: evictOldestLocked_def)
next
  case False
  then obtain e where e: "pick touched_before (ts_entries s) = Some e"
    using ok by (cases "pick touched_before (ts_entries s)") (auto simp: transient_ok_def)
  from pick_in_set [OF e] have mem: "e \<in> set (ts_entries s)" .
  have g: "gm_ok (ts_entries s)" using ok by (simp add: transient_ok_def)
  have "gm_get (ts_entries s) (fst e) = Some (snd e)" using mem gm_in_set [OF g, of "fst e" "snd e"] by simp
  then have l: "length (gm_del (fst e) (ts_entries s)) = length (ts_entries s) - 1" by (rule gm_len_del_in [OF g])
  have "0 < length (ts_entries s)" using mem by (cases "ts_entries s") auto
  then have "int (length (gm_del (fst e) (ts_entries s))) < ts_max s" using l cap by linarith
  then show ?thesis using False e by (simp add: evictOldestLocked_def)
qed

lemma evict_keeps_others: "gm_get (ts_entries (evictOldestLocked s)) k = Some e \<Longrightarrow> gm_get (ts_entries s) k = Some e"
  by (auto simp: evictOldestLocked_def gm_get_del split: option.splits if_splits)

interpretation transient_table: capped_table evictOldestLocked "\<lambda>k e s. s\<lparr>ts_entries := gm_set k e (ts_entries s)\<rparr>"
    "\<lambda>s k. gm_get (ts_entries s) k \<noteq> None" "\<lambda>s. length (ts_entries s)" "nat m" "\<lambda>s. transient_ok s \<and> ts_max s = m" for m
proof
  fix s :: transient_state and k :: model_key and e
  assume wf: "transient_ok s \<and> ts_max s = m"
  then have m: "0 < m" by (auto simp: transient_ok_def)
  show "length (ts_entries s) \<le> nat m \<Longrightarrow> length (ts_entries (evictOldestLocked s)) < nat m"
    using evict_room [of s] wf m by linarith
  show "transient_ok (evictOldestLocked s) \<and> ts_max (evictOldestLocked s) = m" using wf by (simp add: evict_ok)
  show "length (ts_entries (s\<lparr>ts_entries := gm_set k e (ts_entries s)\<rparr>)) \<le> Suc (length (ts_entries s))"
    by (simp add: gm_len_set)
  show "gm_get (ts_entries s) k \<noteq> None \<Longrightarrow>
      length (ts_entries (s\<lparr>ts_entries := gm_set k e (ts_entries s)\<rparr>)) = length (ts_entries s)"
    by (auto simp: gm_len_set)
  show "transient_ok (s\<lparr>ts_entries := gm_set k e (ts_entries s)\<rparr>) \<and> ts_max (s\<lparr>ts_entries := gm_set k e (ts_entries s)\<rparr>) = m"
    using wf by (auto simp: transient_ok_def)
qed

lemma record_failure_state:
  assumes "openAIAccountModelTransientKey lower acct model = Some key" "0 < ts_max s"
  shows "\<exists>e. snd (record_failure lower clock acct model now s) =
      (let s' = (if gm_get (ts_entries s) key = None then evictOldestLocked s else s)
       in s'\<lparr>ts_entries := gm_set key e (ts_entries s')\<rparr>)"
  using assms by (auto simp: record_failure_def Let_def)

text \<open>Failures of one key in a row, each within the streak's lifetime.\<close>

fun spaced :: "gotime \<Rightarrow> gotime list \<Rightarrow> bool" where
  "spaced t [] = True"
| "spaced t (u # us) = (0 < u \<and> t \<le> u \<and> u - t \<le> streak_ttl \<and> spaced u us)"

fun failures :: "(string \<Rightarrow> string) \<Rightarrow> int \<Rightarrow> string \<Rightarrow> gotime list \<Rightarrow> transient_decision \<times> transient_state \<Rightarrow> transient_decision \<times> transient_state" where
  "failures lower acct model [] r = r"
| "failures lower acct model (t # ts) r = failures lower acct model ts (record_failure lower t acct model t (snd r))"

lemma record_failure_again:
  assumes k: "openAIAccountModelTransientKey lower acct model = Some key"
    and e: "gm_get (ts_entries s) key = Some e" "te_last_failure e = t" "0 < t" "te_streak e = n" and m: "0 < ts_max s"
    and u: "0 < u" "t \<le> u" "u - t \<le> streak_ttl"
  shows "\<exists>e' s'. record_failure lower clock acct model u s =
      (\<lparr>td_streak = n + 1, td_cooldown = cooldown_for (n + 1),
        td_block_until = (if cooldown_for (n + 1) > 0 then u + cooldown_for (n + 1) else 0)\<rparr>, s')
    \<and> gm_get (ts_entries s') key = Some e' \<and> te_last_failure e' = u \<and> te_streak e' = n + 1 \<and> 0 < ts_max s'"
proof -
  have "time_sub u t \<le> streak_ttl \<longleftrightarrow> u - t \<le> streak_ttl" by (rule time_sub_le) (simp_all add: streak_ttl_def minute_def)
  with e u have "\<not> streak_broken (Some e) u" by (simp add: streak_broken_def not_less)
  with k e m u show ?thesis by (simp add: record_failure_def Let_def gm_get_set)
qed

lemma failures_again:
  assumes k: "openAIAccountModelTransientKey lower acct model = Some key"
  shows "gm_get (ts_entries (snd r)) key = Some e \<Longrightarrow> te_last_failure e = t \<Longrightarrow> 0 < t \<Longrightarrow> te_streak e = n \<Longrightarrow>
    0 < ts_max (snd r) \<Longrightarrow> spaced t us \<Longrightarrow> us \<noteq> [] \<Longrightarrow>
    fst (failures lower acct model us r) =
      \<lparr>td_streak = n + int (length us), td_cooldown = cooldown_for (n + int (length us)),
       td_block_until = (if cooldown_for (n + int (length us)) > 0 then last us + cooldown_for (n + int (length us)) else 0)\<rparr>"
proof (induction us arbitrary: r e t n)
  case Nil
  then show ?case by simp
next
  case (Cons u us)
  from Cons.prems have u: "0 < u" "t \<le> u" "u - t \<le> streak_ttl" "spaced u us" by simp_all
  from record_failure_again [OF k Cons.prems(1-5) u(1-3), of u] obtain e' s' where
    r: "record_failure lower u acct model u (snd r) = (\<lparr>td_streak = n + 1, td_cooldown = cooldown_for (n + 1),
        td_block_until = (if cooldown_for (n + 1) > 0 then u + cooldown_for (n + 1) else 0)\<rparr>, s')"
    and e': "gm_get (ts_entries s') key = Some e'" "te_last_failure e' = u" "te_streak e' = n + 1" "0 < ts_max s'"
    by blast
  show ?case
  proof (cases "us = []")
    case True
    then show ?thesis by (simp add: r)
  next
    case False
    from Cons.IH [of "record_failure lower u acct model u (snd r)" e' u "n + 1"] r e' u False
    show ?thesis by (simp add: add.assoc add.commute [of 1])
  qed
qed


lemma blocked_size:
  "transient_ok s \<Longrightarrow> length (ts_entries (snd (is_blocked lower clock acct model now s))) \<le> length (ts_entries s)
     \<and> transient_ok (snd (is_blocked lower clock acct model now s)) \<and> ts_max (snd (is_blocked lower clock acct model now s)) = ts_max s"
  using length_delete_le [of _ "ts_entries s"]
  by (auto simp: is_blocked_def Let_def gm_len_set transient_ok_def split: option.split)

lemma success_size:
  "transient_ok s \<Longrightarrow> length (ts_entries (record_success lower acct model s)) \<le> length (ts_entries s)
     \<and> transient_ok (record_success lower acct model s) \<and> ts_max (record_success lower acct model s) = ts_max s"
  using length_delete_le [of _ "ts_entries s"]
  by (auto simp: record_success_def transient_ok_def split: option.split)

lemma failure_size:
  assumes ok: "transient_ok s" "int (length (ts_entries s)) \<le> ts_max s"
  shows "int (length (ts_entries (snd (record_failure lower clock acct model now s)))) \<le> ts_max s
     \<and> transient_ok (snd (record_failure lower clock acct model now s))
     \<and> ts_max (snd (record_failure lower clock acct model now s)) = ts_max s"
proof (cases "openAIAccountModelTransientKey lower acct model")
  case None
  with ok show ?thesis by (simp add: record_failure_def)
next
  case (Some key)
  have m: "0 < ts_max s" using ok(1) by (simp add: transient_ok_def)
  have wf: "transient_ok s \<and> ts_max s = ts_max s" using ok(1) by simp
  have c: "length (ts_entries s) \<le> nat (ts_max s)" using ok(2) m by linarith
  from record_failure_state [OF Some m, of clock now] obtain e where e: "snd (record_failure lower clock acct model now s) =
      (let s' = (if gm_get (ts_entries s) key = None then evictOldestLocked s else s)
       in s'\<lparr>ts_entries := gm_set key e (ts_entries s')\<rparr>)" by blast
  show ?thesis
  proof (cases "gm_get (ts_entries s) key = None")
    case True
    with transient_table.put_room_cap [OF wf c, of key e] transient_table.put_room_wf [OF wf, of key e] m show ?thesis
      by (simp add: e Let_def)
  next
    case False
    have "int (length (gm_set key e (ts_entries s))) \<le> ts_max s"
      using transient_table.put_has_cap [OF wf c False, of e] m by simp
    with False transient_table.put_wf [OF wf, of key e] show ?thesis by (simp add: e Let_def del: not_None_eq)
  qed
qed

datatype transient_op = TFailure int string gotime | TSuccess int string | TAsk int string gotime

definition transient_step :: "(string \<Rightarrow> string) \<Rightarrow> gotime \<Rightarrow> transient_op \<Rightarrow> transient_state \<Rightarrow> transient_state" where
  "transient_step lower clock c s =
     (case c of TFailure i m t \<Rightarrow> snd (record_failure lower clock i m t s)
      | TSuccess i m \<Rightarrow> record_success lower i m s
      | TAsk i m t \<Rightarrow> snd (is_blocked lower clock i m t s))"

lemma transient_run:
  "transient_ok s \<Longrightarrow> int (length (ts_entries s)) \<le> ts_max s \<Longrightarrow>
   int (length (ts_entries (fold (transient_step lower clock) cs s))) \<le> ts_max s
     \<and> transient_ok (fold (transient_step lower clock) cs s) \<and> ts_max (fold (transient_step lower clock) cs s) = ts_max s"
proof (induction cs arbitrary: s)
  case (Cons c cs)
  let ?s = "transient_step lower clock c s"
  have "int (length (ts_entries ?s)) \<le> ts_max s \<and> transient_ok ?s \<and> ts_max ?s = ts_max s"
  proof (cases c)
    case (TFailure i m t)
    with failure_size [OF Cons.prems] show ?thesis by (simp add: transient_step_def)
  next
    case (TSuccess i m)
    with success_size [OF Cons.prems(1), of lower i m] Cons.prems(2) show ?thesis by (simp add: transient_step_def)
  next
    case (TAsk i m t)
    with blocked_size [OF Cons.prems(1), of lower clock i m t] Cons.prems(2) show ?thesis by (simp add: transient_step_def)
  qed
  with Cons.IH [of ?s] show ?case by simp
qed simp

section \<open>Properties\<close>

text \<open>The breaker's reaction depends on the streak alone: the n-th failure of an account and model in a row (each
  within thirty minutes of the one before) gives a streak of n and no cooldown, ten seconds or forty-five seconds
  for n = 1, 2, and at least 3, however slowly the requests arrive.\<close>

theorem streak_decides_cooldown:
  assumes "openAIAccountModelTransientKey lower acct model = Some key"
    and "gm_get (ts_entries s) key = None" "0 < ts_max s" "0 < t" "spaced t us" "n = 1 + int (length us)"
  shows "fst (failures lower acct model (t # us) (d, s)) =
    \<lparr>td_streak = n, td_cooldown = (if n = 1 then 0 else if n = 2 then 10 * sec else 45 * sec),
     td_block_until = (if n = 1 then 0 else last (t # us) + (if n = 2 then 10 * sec else 45 * sec))\<rparr>"
proof -
  let ?r = "record_failure lower t acct model t s"
  have first: "fst ?r = \<lparr>td_streak = 1, td_cooldown = 0, td_block_until = 0\<rparr>"
    "\<exists>e. gm_get (ts_entries (snd ?r)) key = Some e \<and> te_last_failure e = t \<and> te_streak e = 1" "0 < ts_max (snd ?r)"
    using assms by (simp_all add: record_failure_def Let_def streak_broken_def zero_transient_def cooldown_for_def gm_get_set)
  have "1 \<le> n" using assms(6) by simp
  then have c: "cooldown_for n = (if n = 1 then 0 else if n = 2 then 10 * sec else 45 * sec)"
    by (auto simp: cooldown_for_def short_cooldown_def long_cooldown_def)
  show ?thesis
  proof (cases "us = []")
    case True
    with first assms(6) show ?thesis by simp
  next
    case False
    then have n: "n \<noteq> 1" using assms(6) by simp
    from first(2) obtain e where e: "gm_get (ts_entries (snd ?r)) key = Some e" "te_last_failure e = t" "te_streak e = 1" by blast
    have "2 \<le> n" using assms(6) False by (cases us) auto
    with failures_again [OF assms(1) e(1,2) assms(4) e(3) first(3) assms(5) False] n False
    show ?thesis unfolding assms(6) [symmetric] by (simp add: c sec_def)
  qed
qed

theorem streak_decides_cooldown_witness:
  "td_cooldown (fst (failures ascii_lower 5 ''m'' [1, 2, 3] (no_decision, newOpenAIAccountModelTransientState 8))) = 45 * sec"
proof -
  have "trim_space ''m'' = ''m''"
    by (simp add: trim_space_def drop_spaces.simps [of _ "''m''"] space_len_def ascii_space_def)
  then have k: "openAIAccountModelTransientKey ascii_lower 5 ''m'' = Some (5, ''m'')"
    by (simp add: openAIAccountModelTransientKey_def normalizeOpenAIAccountModelTransientModel_def ascii_lower_def)
  show ?thesis
    by (subst streak_decides_cooldown [OF k, where n = 3])
      (simp_all add: newOpenAIAccountModelTransientState_def streak_ttl_def minute_def)
qed

text \<open>The table never exceeds its limit, and its keys stay distinct, under any sequence of failures, successes and
  queries.\<close>

theorem transient_table_bounded:
  assumes "s = newOpenAIAccountModelTransientState m"
  shows "transient_size (fold (transient_step lower clock) cs s) \<le> (if m \<le> 0 then 4096 else m)
    \<and> gm_ok (ts_entries (fold (transient_step lower clock) cs s))"
proof -
  have "transient_ok s" "int (length (ts_entries s)) \<le> ts_max s" "ts_max s = (if m \<le> 0 then 4096 else m)"
    by (simp_all add: assms newOpenAIAccountModelTransientState_def transient_ok_def default_max_def)
  with transient_run [of s lower clock cs] show ?thesis by (simp add: transient_size_def transient_ok_def)
qed

theorem transient_table_bounded_witness:
  "transient_size (fold (transient_step ascii_lower 9) [TFailure 1 ''a'' 3, TFailure 2 ''b'' 4]
     (newOpenAIAccountModelTransientState 1)) \<le> 1"
  using transient_table_bounded [OF refl, of ascii_lower 9 _ 1] by (metis not_one_le_zero)

end
