(* ===== verification/InvalidAuth.thy ===== *)
theory InvalidAuth
  imports Prelude "HOL-Library.Word"
begin

unbundle bit_operations_syntax

text \<open>
  The limiter of failed API-key authentications (\<open>internal/service/invalid_auth_abuse_limiter.go\<close>): sixteen
  shards chosen by a 32-bit FNV-1a hash, a shared count of tracked clients, an overflow bucket for clients beyond
  the capacity, and an incremental clean-up at capacity. Each shard's mutex makes an operation one step on its shard;
  the model runs the operations one after the other.
\<close>

section \<open>State\<close>

record abuse_config =
  ic_enabled :: bool
  ic_threshold :: int
  ic_window_seconds :: int
  ic_block_seconds :: int
  ic_capacity :: int

record abuse_settings =
  il_threshold :: int
  il_window :: duration
  il_block :: duration
  il_capacity :: int

record abuse_entry =
  ie_failures :: int
  ie_window_start :: gotime
  ie_blocked_until :: gotime

type_synonym shard = "(string, abuse_entry) gomap"

record limiter =
  lm_shards :: "shard list"
  lm_overflow :: abuse_entry
  lm_tracked :: int
  lm_recorded :: "64 word"
  lm_blocked :: "64 word"
  lm_rejected :: "64 word"
  lm_expired :: "64 word"
  lm_overflowed :: "64 word"
  lm_global_blocked :: "64 word"
  lm_cleanup_next :: int
  lm_cleanup_cursor :: "32 word"

definition newInvalidAuthAbuseLimiter :: "abuse_config option \<Rightarrow> (abuse_settings \<times> limiter) option" where
  "newInvalidAuthAbuseLimiter cfg =
     (case cfg of None \<Rightarrow> None
      | Some c \<Rightarrow>
          if \<not> ic_enabled c \<or> ic_threshold c \<le> 0 \<or> ic_window_seconds c \<le> 0 \<or> ic_block_seconds c \<le> 0 \<or> ic_capacity c \<le> 0
          then None
          else Some (\<lparr>il_threshold = ic_threshold c, il_window = i64 (ic_window_seconds c * sec),
                      il_block = i64 (ic_block_seconds c * sec), il_capacity = ic_capacity c\<rparr>,
                     \<lparr>lm_shards = replicate 16 [],
                      lm_overflow = \<lparr>ie_failures = 0, ie_window_start = 0, ie_blocked_until = 0\<rparr>,
                      lm_tracked = 0, lm_recorded = 0, lm_blocked = 0, lm_rejected = 0, lm_expired = 0, lm_overflowed = 0,
                      lm_global_blocked = 0, lm_cleanup_next = 0, lm_cleanup_cursor = 0\<rparr>))"

section \<open>Shards\<close>

fun fnv1a :: "32 word \<Rightarrow> string \<Rightarrow> 32 word" where
  "fnv1a h [] = h"
| "fnv1a h (c # cs) = fnv1a ((h XOR of_nat (of_char c)) * 16777619) cs"

definition shard_of :: "string \<Rightarrow> nat" where
  "shard_of key = unat (fnv1a 2166136261 key mod 16)"

definition entryExpired :: "abuse_settings \<Rightarrow> abuse_entry \<Rightarrow> gotime \<Rightarrow> bool" where
  "entryExpired s e now \<longleftrightarrow>
     \<not> ie_blocked_until e > now \<and> \<not> ie_window_start e > now \<and> \<not> now < ie_window_start e + il_window s"

definition get_entry :: "limiter \<Rightarrow> string \<Rightarrow> abuse_entry option" where
  "get_entry l key = gm_get (lm_shards l ! shard_of key) key"

definition set_shard :: "nat \<Rightarrow> shard \<Rightarrow> limiter \<Rightarrow> limiter" where
  "set_shard i m l = l\<lparr>lm_shards := (lm_shards l)[i := m]\<rparr>"

definition put_entry :: "string \<Rightarrow> abuse_entry \<Rightarrow> limiter \<Rightarrow> limiter" where
  "put_entry key e l = set_shard (shard_of key) (gm_set key e (lm_shards l ! shard_of key)) l"

text \<open>Removing an expired entry.\<close>

definition drop_entry :: "string \<Rightarrow> limiter \<Rightarrow> limiter" where
  "drop_entry key l =
     (set_shard (shard_of key) (gm_del key (lm_shards l ! shard_of key)) l)
       \<lparr>lm_tracked := lm_tracked l - 1, lm_expired := lm_expired l + 1\<rparr>"

definition unix_nano :: "gotime \<Rightarrow> int" where
  "unix_nano t = i64 (t - 62135596800 * 1000000000)"

definition maybeCleanupAtCapacity :: "abuse_settings \<Rightarrow> gotime \<Rightarrow> limiter \<Rightarrow> limiter" where
  "maybeCleanupAtCapacity s now l =
     (if lm_tracked l < il_capacity s then l
      else if unix_nano now < lm_cleanup_next l then l
      else (let i = unat (lm_cleanup_cursor l mod 16); m = lm_shards l ! i;
                keep = filter (\<lambda>(k, e). \<not> entryExpired s e now) m; gone = length m - length keep
            in (set_shard i keep l)
                 \<lparr>lm_cleanup_next := unix_nano (now + 100 * ms), lm_cleanup_cursor := lm_cleanup_cursor l + 1,
                  lm_tracked := lm_tracked l - int gone, lm_expired := lm_expired l + of_nat gone\<rparr>))"

text \<open>The common beginning of \<open>check\<close> and \<open>record\<close>: the limiter without an expired entry of this client.\<close>

definition refresh_client :: "abuse_settings \<Rightarrow> gotime \<Rightarrow> string \<Rightarrow> limiter \<Rightarrow> limiter" where
  "refresh_client s now key l =
     (let l = maybeCleanupAtCapacity s now l in
      case get_entry l key of None \<Rightarrow> l | Some e \<Rightarrow> if entryExpired s e now then drop_entry key l else l)"

section \<open>Operations\<close>

definition checkOverflow :: "gotime \<Rightarrow> limiter \<Rightarrow> duration option" where
  "checkOverflow now l =
     (if ie_blocked_until (lm_overflow l) > now then Some (time_sub (ie_blocked_until (lm_overflow l)) now) else None)"

text \<open>\<open>Some retry\<close> is a refusal.\<close>

definition check :: "abuse_settings \<Rightarrow> gotime \<Rightarrow> string \<Rightarrow> limiter \<Rightarrow> duration option \<times> limiter" where
  "check s now key l =
     (if key = [] then (None, l)
      else (let l = refresh_client s now key l in
            case get_entry l key of
              Some e \<Rightarrow> if ie_blocked_until e > now
                then (Some (time_sub (ie_blocked_until e) now), l\<lparr>lm_rejected := lm_rejected l + 1\<rparr>) else (None, l)
            | None \<Rightarrow>
                if lm_tracked l \<ge> il_capacity s
                then (case checkOverflow now l of
                        Some r \<Rightarrow> (Some r, l\<lparr>lm_rejected := lm_rejected l + 1, lm_global_blocked := lm_global_blocked l + 1\<rparr>)
                      | None \<Rightarrow> (None, l))
                else (None, l)))"

text \<open>Counting one failure of an entry; the flag says that it blocked.\<close>

definition count_abuse :: "abuse_settings \<Rightarrow> gotime \<Rightarrow> abuse_entry \<Rightarrow> bool \<times> abuse_entry" where
  "count_abuse s now e =
     (if ie_failures e + 1 \<ge> il_threshold s
      then (True, e\<lparr>ie_failures := 0, ie_blocked_until := now + il_block s, ie_window_start := now + il_block s\<rparr>)
      else (False, e\<lparr>ie_failures := ie_failures e + 1\<rparr>))"

definition recordOverflow :: "abuse_settings \<Rightarrow> gotime \<Rightarrow> limiter \<Rightarrow> limiter" where
  "recordOverflow s now l =
     (let l = l\<lparr>lm_overflowed := lm_overflowed l + 1\<rparr>; o' = lm_overflow l in
      if ie_blocked_until o' > now then l
      else (let o' = (if ie_window_start o' = 0 \<or> \<not> now < ie_window_start o' + il_window s
                      then o'\<lparr>ie_window_start := now, ie_failures := 0\<rparr> else o');
                r = count_abuse s now o'
            in l\<lparr>lm_overflow := snd r, lm_blocked := (if fst r then lm_blocked l + 1 else lm_blocked l)\<rparr>))"

definition record_client :: "abuse_settings \<Rightarrow> gotime \<Rightarrow> string \<Rightarrow> abuse_entry \<Rightarrow> limiter \<Rightarrow> limiter" where
  "record_client s now key e l =
     (if ie_blocked_until e > now then l
      else (let e = (if ie_window_start e > now \<or> \<not> now < ie_window_start e + il_window s
                     then e\<lparr>ie_window_start := now, ie_failures := 0\<rparr> else e);
                r = count_abuse s now e; l = put_entry key (snd r) l
            in if fst r then l\<lparr>lm_blocked := lm_blocked l + 1\<rparr> else l))"

definition new_entry :: "gotime \<Rightarrow> abuse_entry" where
  "new_entry now = \<lparr>ie_failures = 0, ie_window_start = now, ie_blocked_until = 0\<rparr>"

definition record_failed :: "abuse_settings \<Rightarrow> gotime \<Rightarrow> string \<Rightarrow> limiter \<Rightarrow> limiter" where
  "record_failed s now key l =
     (if key = [] then l
      else (let l = refresh_client s now key (l\<lparr>lm_recorded := lm_recorded l + 1\<rparr>) in
            case get_entry l key of
              Some e \<Rightarrow> record_client s now key e l
            | None \<Rightarrow>
                if lm_tracked l \<ge> il_capacity s then recordOverflow s now l
                else record_client s now key (new_entry now)
                       (put_entry key (new_entry now) (l\<lparr>lm_tracked := lm_tracked l + 1\<rparr>))))"

text \<open>The counters the operator sees: enabled, tracked, capacity, and the six event counts.\<close>

definition health_counters :: "abuse_settings \<Rightarrow> limiter \<Rightarrow> bool \<times> int \<times> int \<times> 64 word list" where
  "health_counters s l = (True, lm_tracked l, il_capacity s,
     [lm_recorded l, lm_blocked l, lm_rejected l, lm_expired l, lm_overflowed l, lm_global_blocked l])"

section \<open>Lemmas\<close>

lemma shard_of_less: "shard_of key < 16"
proof -
  have "fnv1a 2166136261 key mod 16 < (16 :: 32 word)" by (rule word_mod_less_divisor) simp
  then show ?thesis unfolding shard_of_def by (simp add: word_less_nat_alt)
qed

lemma cursor_less: "unat (w mod (16 :: 32 word)) < 16"
proof -
  have "w mod 16 < (16 :: 32 word)" by (rule word_mod_less_divisor) simp
  then show ?thesis by (simp add: word_less_nat_alt)
qed

text \<open>The number of clients in all shards.\<close>

definition population :: "limiter \<Rightarrow> int" where
  "population l = int (\<Sum>m \<leftarrow> lm_shards l. length m)"

definition limiter_ok :: "abuse_settings \<Rightarrow> limiter \<Rightarrow> bool" where
  "limiter_ok s l \<longleftrightarrow> length (lm_shards l) = 16 \<and> lm_tracked l = population l \<and> lm_tracked l \<le> il_capacity s
     \<and> (\<forall>i < 16. gm_ok (lm_shards l ! i) \<and> (\<forall>k \<in> fst ` set (lm_shards l ! i). shard_of k = i))"

lemma sum_update:
  "i < length xs \<Longrightarrow> int (\<Sum>m \<leftarrow> xs[i := y]. length m) = int (\<Sum>m \<leftarrow> xs. length m) + int (length y) - int (length (xs ! i))"
proof (induction xs arbitrary: i)
  case (Cons x xs)
  then show ?case by (cases i) auto
qed simp

lemma set_shard_sel [simp]:
  "lm_tracked (set_shard i m l) = lm_tracked l" "lm_shards (set_shard i m l) = (lm_shards l)[i := m]"
  by (simp_all add: set_shard_def)

lemma population_set:
  "length (lm_shards l) = 16 \<Longrightarrow> i < 16 \<Longrightarrow>
   population (set_shard i m l) = population l + int (length m) - int (length (lm_shards l ! i))"
  by (simp add: population_def sum_update)

lemma population_frame [simp]:
  "population (l\<lparr>lm_tracked := a, lm_expired := b\<rparr>) = population l" "population (l\<lparr>lm_blocked := c\<rparr>) = population l"
  "population (l\<lparr>lm_tracked := a\<rparr>) = population l" "population (l\<lparr>lm_recorded := r\<rparr>) = population l"
  by (simp_all add: population_def)

text \<open>Replacing one shard.\<close>

lemma limiter_ok_shard:
  assumes ok: "limiter_ok s l" and i: "i < 16" and m: "gm_ok m" "\<forall>k \<in> fst ` set m. shard_of k = i"
    and l': "lm_shards l' = (lm_shards l)[i := m]"
    and t: "lm_tracked l' = lm_tracked l + int (length m) - int (length (lm_shards l ! i))" "lm_tracked l' \<le> il_capacity s"
  shows "limiter_ok s l'"
proof -
  have "population l' = population l + int (length m) - int (length (lm_shards l ! i))"
    using ok i by (simp add: population_def l' sum_update limiter_ok_def)
  then show ?thesis using ok m t i unfolding limiter_ok_def l' by (auto simp: nth_list_update)
qed

lemma shard_ok: "limiter_ok s l \<Longrightarrow> gm_ok (lm_shards l ! shard_of key)"
  "limiter_ok s l \<Longrightarrow> k \<in> fst ` set (lm_shards l ! shard_of key) \<Longrightarrow> shard_of k = shard_of key"
  using shard_of_less by (auto simp: limiter_ok_def)

lemma drop_entry_ok:
  assumes ok: "limiter_ok s l" and e: "get_entry l key = Some e"
  shows "limiter_ok s (drop_entry key l)"
proof -
  let ?m = "lm_shards l ! shard_of key"
  have g: "gm_ok ?m" by (rule shard_ok(1) [OF ok])
  have len: "length (gm_del key ?m) = length ?m - 1" using gm_len_del_in [OF g] e by (simp add: get_entry_def)
  have pos: "0 < length ?m" using e by (cases ?m) (auto simp: get_entry_def)
  show ?thesis
  proof (rule limiter_ok_shard [OF ok shard_of_less])
    show "gm_ok (gm_del key ?m)" using g by simp
    have "fst ` set (gm_del key ?m) \<subseteq> fst ` set ?m" by (auto simp: AList.delete_eq)
    then show "\<forall>k \<in> fst ` set (gm_del key ?m). shard_of k = shard_of key"
      using shard_ok(2) [OF ok, of _ key] by blast
    show "lm_shards (drop_entry key l) = (lm_shards l)[shard_of key := gm_del key ?m]" by (simp add: drop_entry_def)
    show "lm_tracked (drop_entry key l) = lm_tracked l + int (length (gm_del key ?m)) - int (length ?m)"
    proof -
      have "lm_tracked (drop_entry key l) = lm_tracked l - 1" by (simp add: drop_entry_def)
      with len pos show ?thesis by linarith
    qed
    show "lm_tracked (drop_entry key l) \<le> il_capacity s" using ok by (simp add: drop_entry_def limiter_ok_def)
  qed
qed

lemma cleanup_ok:
  assumes ok: "limiter_ok s l"
  shows "limiter_ok s (maybeCleanupAtCapacity s now l)"
proof (cases "lm_tracked l < il_capacity s \<or> unix_nano now < lm_cleanup_next l")
  case True
  with ok show ?thesis by (auto simp: maybeCleanupAtCapacity_def)
next
  case False
  let ?i = "unat (lm_cleanup_cursor l mod 16)"
  let ?m = "lm_shards l ! ?i"
  let ?keep = "filter (\<lambda>(k, e). \<not> entryExpired s e now) ?m"
  let ?l = "maybeCleanupAtCapacity s now l"
  note i = cursor_less [of "lm_cleanup_cursor l"]
  have le: "length ?keep \<le> length ?m" by simp
  have t: "lm_tracked ?l = lm_tracked l - int (length ?m - length ?keep)"
    using False by (simp add: maybeCleanupAtCapacity_def Let_def)
  show ?thesis
  proof (rule limiter_ok_shard [OF ok i])
    show "gm_ok ?keep" using ok i by (simp add: limiter_ok_def)
    show "\<forall>k \<in> fst ` set ?keep. shard_of k = ?i" using ok i by (auto simp: limiter_ok_def)
    show "lm_shards ?l = (lm_shards l)[?i := ?keep]" using False by (simp add: maybeCleanupAtCapacity_def Let_def)
    show "lm_tracked ?l = lm_tracked l + int (length ?keep) - int (length ?m)" using t le by linarith
    have "lm_tracked l \<le> il_capacity s" using ok by (simp add: limiter_ok_def)
    then show "lm_tracked ?l \<le> il_capacity s" using t le by linarith
  qed
qed

lemma refresh_ok: "limiter_ok s l \<Longrightarrow> limiter_ok s (refresh_client s now key l)"
  unfolding refresh_client_def Let_def by (auto simp: cleanup_ok split: option.split intro: drop_entry_ok)

lemma shard_set_keys:
  assumes "limiter_ok s l"
  shows "\<forall>k \<in> fst ` set (gm_set key e (lm_shards l ! shard_of key)). shard_of k = shard_of key"
proof
  fix k
  assume "k \<in> fst ` set (gm_set key e (lm_shards l ! shard_of key))"
  then have "k = key \<or> k \<in> fst ` set (lm_shards l ! shard_of key)"
    by (auto dest!: gm_set_entries intro: rev_image_eqI)
  then show "shard_of k = shard_of key" using shard_ok(2) [OF assms] by blast
qed

lemma put_entry_ok:
  assumes ok: "limiter_ok s l" and e: "get_entry l key \<noteq> None"
  shows "limiter_ok s (put_entry key e l)"
proof -
  let ?m = "lm_shards l ! shard_of key"
  let ?l = "put_entry key e l"
  have len: "length (gm_set key e ?m) = length ?m" using assms(2) by (auto simp: gm_len_set get_entry_def)
  show ?thesis
  proof (rule limiter_ok_shard [OF ok shard_of_less gm_ok_set [OF shard_ok(1) [OF ok]] shard_set_keys [OF ok]])
    show "lm_shards ?l = (lm_shards l)[shard_of key := gm_set key e ?m]" by (simp add: put_entry_def)
    show "lm_tracked ?l = lm_tracked l + int (length (gm_set key e ?m)) - int (length ?m)"
      unfolding len by (simp add: put_entry_def)
    show "lm_tracked ?l \<le> il_capacity s" using ok by (simp add: put_entry_def limiter_ok_def)
  qed
qed

lemma put_new_ok:
  assumes ok: "limiter_ok s l" and e: "get_entry l key = None" and c: "lm_tracked l < il_capacity s"
  shows "limiter_ok s (put_entry key e (l\<lparr>lm_tracked := lm_tracked l + 1\<rparr>))"
proof -
  let ?m = "lm_shards l ! shard_of key"
  let ?l = "put_entry key e (l\<lparr>lm_tracked := lm_tracked l + 1\<rparr>)"
  have len: "length (gm_set key e ?m) = Suc (length ?m)" using assms(2) by (auto simp: gm_len_set get_entry_def)
  show ?thesis
  proof (rule limiter_ok_shard [OF ok shard_of_less gm_ok_set [OF shard_ok(1) [OF ok]] shard_set_keys [OF ok]])
    show "lm_shards ?l = (lm_shards l)[shard_of key := gm_set key e ?m]" by (simp add: put_entry_def)
    show "lm_tracked ?l = lm_tracked l + int (length (gm_set key e ?m)) - int (length ?m)"
      unfolding len by (simp add: put_entry_def)
    show "lm_tracked ?l \<le> il_capacity s" using ok c by (simp add: put_entry_def limiter_ok_def)
  qed
qed

lemma get_put: "limiter_ok s l \<or> length (lm_shards l) = 16 \<Longrightarrow> get_entry (put_entry key e l) key = Some e"
  using shard_of_less by (auto simp: get_entry_def put_entry_def limiter_ok_def gm_get_set)

lemma limiter_ok_frame [simp]:
  "limiter_ok s (l\<lparr>lm_blocked := c\<rparr>) = limiter_ok s l" "limiter_ok s (l\<lparr>lm_recorded := r\<rparr>) = limiter_ok s l"
  "limiter_ok s (l\<lparr>lm_rejected := r\<rparr>) = limiter_ok s l" "limiter_ok s (l\<lparr>lm_rejected := r, lm_global_blocked := g\<rparr>) = limiter_ok s l"
  "limiter_ok s (l\<lparr>lm_overflowed := r\<rparr>) = limiter_ok s l" "limiter_ok s (l\<lparr>lm_overflow := o', lm_blocked := c\<rparr>) = limiter_ok s l"
  "limiter_ok s (l\<lparr>lm_overflowed := r, lm_overflow := o', lm_blocked := c\<rparr>) = limiter_ok s l"
  "limiter_ok s (l\<lparr>lm_overflowed := r, lm_overflow := o'\<rparr>) = limiter_ok s l"
  by (simp_all add: limiter_ok_def population_def)

lemma record_client_ok:
  "limiter_ok s l \<Longrightarrow> get_entry l key \<noteq> None \<Longrightarrow> limiter_ok s (record_client s now key e l)"
  by (simp add: record_client_def Let_def put_entry_ok)

lemma recordOverflow_ok: "limiter_ok s l \<Longrightarrow> limiter_ok s (recordOverflow s now l)"
  by (simp add: recordOverflow_def Let_def)

lemma record_ok:
  assumes ok: "limiter_ok s l"
  shows "limiter_ok s (record_failed s now key l)"
proof -
  let ?l = "refresh_client s now key (l\<lparr>lm_recorded := lm_recorded l + 1\<rparr>)"
  have l: "limiter_ok s ?l" using ok by (intro refresh_ok) simp
  show ?thesis
  proof (cases "get_entry ?l key")
    case None
    show ?thesis
    proof (cases "lm_tracked ?l \<ge> il_capacity s")
      case True
      with None ok recordOverflow_ok [OF l] show ?thesis by (simp add: record_failed_def Let_def)
    next
      case False
      let ?p = "put_entry key (new_entry now) (?l\<lparr>lm_tracked := lm_tracked ?l + 1\<rparr>)"
      have p: "limiter_ok s ?p" using put_new_ok [OF l None] False by simp
      have "length (lm_shards (?l\<lparr>lm_tracked := lm_tracked ?l + 1\<rparr>)) = 16" using l by (simp add: limiter_ok_def)
      then have "get_entry ?p key \<noteq> None" by (simp add: get_put)
      from record_client_ok [OF p this] None False ok show ?thesis by (simp add: record_failed_def Let_def)
    qed
  next
    case (Some e)
    with record_client_ok [OF l, of key now e] ok show ?thesis by (simp add: record_failed_def Let_def)
  qed
qed

lemma check_ok: "limiter_ok s l \<Longrightarrow> limiter_ok s (snd (check s now key l))"
  using refresh_ok [of s l now key] by (auto simp: check_def Let_def split: option.split)


text \<open>A live entry survives the clean-up, so its failures add up.\<close>

lemma cleanup_keeps:
  assumes ok: "limiter_ok s l" and e: "get_entry l key = Some e" "\<not> entryExpired s e now"
  shows "get_entry (maybeCleanupAtCapacity s now l) key = Some e"
proof (cases "lm_tracked l < il_capacity s \<or> unix_nano now < lm_cleanup_next l")
  case True
  with e show ?thesis by (auto simp: maybeCleanupAtCapacity_def)
next
  case False
  let ?i = "unat (lm_cleanup_cursor l mod 16)"
  have g: "gm_ok (lm_shards l ! shard_of key)" by (rule shard_ok(1) [OF ok])
  have len: "length (lm_shards l) = 16" using ok by (simp add: limiter_ok_def)
  have sh: "lm_shards (maybeCleanupAtCapacity s now l)
      = (lm_shards l)[?i := filter (\<lambda>(k, e). \<not> entryExpired s e now) (lm_shards l ! ?i)]"
    using False by (simp add: maybeCleanupAtCapacity_def Let_def)
  show ?thesis
  proof (cases "?i = shard_of key")
    case True
    then show ?thesis using e shard_of_less [of key] by (simp add: get_entry_def sh len gm_get_filter [OF g])
  next
    case False
    then show ?thesis using e by (simp add: get_entry_def sh)
  qed
qed

lemma refresh_keeps:
  assumes "limiter_ok s l" "get_entry l key = Some e" "\<not> entryExpired s e now"
  shows "get_entry (refresh_client s now key l) key = Some e"
  using cleanup_keeps [OF assms] assms(3) by (simp add: refresh_client_def Let_def)

lemma get_entry_frame [simp]:
  "get_entry (l\<lparr>lm_blocked := c\<rparr>) key = get_entry l key" "get_entry (l\<lparr>lm_recorded := r\<rparr>) key = get_entry l key"
  "lm_tracked (put_entry key' e l) = lm_tracked l"
  by (simp_all add: get_entry_def put_entry_def)

lemma record_live:
  assumes ok: "limiter_ok s l" and key: "key \<noteq> []" and e: "get_entry l key = Some e"
    and w: "ie_blocked_until e \<le> now" "ie_window_start e \<le> now" "now < ie_window_start e + il_window s"
  shows "get_entry (record_failed s now key l) key = Some (snd (count_abuse s now e))"
proof -
  let ?l = "l\<lparr>lm_recorded := lm_recorded l + 1\<rparr>"
  have ok': "limiter_ok s ?l" using ok by simp
  have "get_entry (refresh_client s now key ?l) key = Some e"
    by (rule refresh_keeps [OF ok']) (use e w in \<open>auto simp: entryExpired_def\<close>)
  moreover have "limiter_ok s (refresh_client s now key ?l)" by (rule refresh_ok [OF ok'])
  moreover from this have "length (lm_shards (refresh_client s now key ?l)) = 16" by (simp add: limiter_ok_def)
  ultimately show ?thesis using key w
    by (simp add: record_failed_def record_client_def Let_def get_put)
qed

lemma record_first:
  assumes ok: "limiter_ok s l" and key: "key \<noteq> []" and e: "get_entry l key = None" "lm_tracked l < il_capacity s"
    and now: "0 < now" "0 < il_window s"
  shows "get_entry (record_failed s now key l) key = Some (snd (count_abuse s now (new_entry now)))"
proof -
  let ?l = "l\<lparr>lm_recorded := lm_recorded l + 1\<rparr>"
  have r: "refresh_client s now key ?l = ?l"
    using e by (simp add: refresh_client_def maybeCleanupAtCapacity_def Let_def)
  have len: "length (lm_shards l) = 16" using ok by (simp add: limiter_ok_def)
  have n: "length (lm_shards (put_entry key (new_entry now) (?l\<lparr>lm_tracked := lm_tracked l + 1\<rparr>))) = 16"
    by (simp add: put_entry_def len)
  show ?thesis using key e now n
    by (simp add: record_failed_def r record_client_def new_entry_def Let_def get_put)
qed

definition record_all :: "abuse_settings \<Rightarrow> string \<Rightarrow> gotime list \<Rightarrow> limiter \<Rightarrow> limiter" where
  "record_all s key ts l = fold (\<lambda>t. record_failed s t key) ts l"

lemma record_all_ok: "limiter_ok s l \<Longrightarrow> limiter_ok s (record_all s key ts l)"
  unfolding record_all_def by (induction ts arbitrary: l) (auto intro: record_ok)

lemma record_more:
  assumes key: "key \<noteq> []"
  shows "limiter_ok s l \<Longrightarrow> get_entry l key = Some e \<Longrightarrow> ie_blocked_until e = 0 \<Longrightarrow> 0 < ie_window_start e \<Longrightarrow>
    sorted us \<Longrightarrow> (\<forall>u \<in> set us. ie_window_start e \<le> u \<and> u < ie_window_start e + il_window s) \<Longrightarrow>
    us \<noteq> [] \<Longrightarrow> ie_failures e + int (length us) = il_threshold s \<Longrightarrow>
    get_entry (record_all s key us l) key =
      Some (e\<lparr>ie_failures := 0, ie_blocked_until := last us + il_block s, ie_window_start := last us + il_block s\<rparr>)"
proof (induction us arbitrary: l e)
  case Nil
  then show ?case by simp
next
  case (Cons u us)
  have live: "get_entry (record_failed s u key l) key = Some (snd (count_abuse s u e))"
    by (rule record_live [OF Cons.prems(1) key Cons.prems(2)]) (use Cons.prems in auto)
  show ?case
  proof (cases "us = []")
    case True
    with live Cons.prems(8) show ?thesis by (simp add: record_all_def count_abuse_def)
  next
    case False
    let ?e = "e\<lparr>ie_failures := ie_failures e + 1\<rparr>"
    have "ie_failures e + 1 < il_threshold s" using Cons.prems(8) False by (cases us) auto
    then have e': "get_entry (record_failed s u key l) key = Some ?e" using live by (simp add: count_abuse_def)
    have "get_entry (record_all s key us (record_failed s u key l)) key =
        Some (?e\<lparr>ie_failures := 0, ie_blocked_until := last us + il_block s, ie_window_start := last us + il_block s\<rparr>)"
      by (rule Cons.IH [OF record_ok [OF Cons.prems(1)] e']) (use Cons.prems False in auto)
    with False show ?thesis by (simp add: record_all_def)
  qed
qed

section \<open>Properties\<close>

text \<open>C34: The shared count of tracked clients is exact and bounded: starting from a new limiter, after any sequence of
  checks and recorded failures the count equals the number of clients in the sixteen shards, never exceeds the
  capacity, and every client is in the shard its hash selects.\<close>

theorem tracked_count_exact:
  assumes "newInvalidAuthAbuseLimiter cfg = Some (s, l0)"
    and "l = fold (\<lambda>(ask, now, key) l. if ask then snd (check s now key l) else record_failed s now key l) ops l0"
  shows "lm_tracked l = int (\<Sum>m \<leftarrow> lm_shards l. length m) \<and> lm_tracked l \<le> il_capacity s
    \<and> (\<forall>i < 16. \<forall>k \<in> fst ` set (lm_shards l ! i). shard_of k = i)"
proof -
  have "limiter_ok s l0"
  proof -
    have l0: "lm_shards l0 = replicate 16 []" "lm_tracked l0 = 0" "0 < il_capacity s"
      using assms(1) by (auto simp: newInvalidAuthAbuseLimiter_def split: option.splits if_splits)
    then show ?thesis by (simp add: limiter_ok_def population_def sum_list_replicate)
  qed
  then have "limiter_ok s (fold (\<lambda>(ask, now, key) l. if ask then snd (check s now key l) else record_failed s now key l) ops l0)"
    by (induction ops arbitrary: l0) (simp_all add: check_ok record_ok split_def)
  then show ?thesis unfolding assms(2) by (simp add: limiter_ok_def population_def)
qed

definition demo_abuse :: abuse_config where
  "demo_abuse = \<lparr>ic_enabled = True, ic_threshold = 2, ic_window_seconds = 60, ic_block_seconds = 300, ic_capacity = 4\<rparr>"

definition demo_settings :: abuse_settings where
  "demo_settings = \<lparr>il_threshold = 2, il_window = 60 * sec, il_block = 300 * sec, il_capacity = 4\<rparr>"

definition demo_limiter :: limiter where
  "demo_limiter = snd (the (newInvalidAuthAbuseLimiter (Some demo_abuse)))"

lemma demo_new: "newInvalidAuthAbuseLimiter (Some demo_abuse) = Some (demo_settings, demo_limiter)"
  by (simp add: demo_limiter_def newInvalidAuthAbuseLimiter_def demo_abuse_def demo_settings_def sec_def i64_def)

theorem tracked_count_exact_witness:
  "lm_tracked (record_failed demo_settings 5 ''1.2.3.4'' demo_limiter) \<le> 4"
  using tracked_count_exact [OF demo_new refl, of "[(False, 5, ''1.2.3.4'')]"] by (simp add: demo_settings_def)

text \<open>A client that fails as often as the threshold within one window is refused for the whole block, with the exact
  remaining time, whatever the other shards hold and although clean-ups may run in between, as long as there was
  room to track it at its first failure.\<close>

theorem threshold_blocks_client:
  assumes "limiter_ok s l" "key \<noteq> []" "get_entry l key = None" "lm_tracked l < il_capacity s" "0 < il_window s" "0 < il_block s"
    and "0 < t" "sorted (t # us)" "\<forall>u \<in> set us. u < t + il_window s" "int (length (t # us)) = il_threshold s"
    and "last (t # us) \<le> now" "now < last (t # us) + il_block s"
  shows "fst (check s now key (record_all s key (t # us) l)) = Some (time_sub (last (t # us) + il_block s) now)"
proof -
  let ?b = "last (t # us) + il_block s" and ?l = "record_all s key (t # us) l"
  have first: "get_entry (record_failed s t key l) key = Some (snd (count_abuse s t (new_entry t)))"
    by (rule record_first [OF assms(1-4,7,5)])
  have e: "\<exists>e. get_entry ?l key = Some e \<and> ie_blocked_until e = ?b"
  proof (cases "us = []")
    case True
    with first assms(10) show ?thesis by (simp add: record_all_def count_abuse_def new_entry_def)
  next
    case False
    then have "2 \<le> il_threshold s" using assms(10) by (cases us) auto
    then have f: "get_entry (record_failed s t key l) key = Some ((new_entry t)\<lparr>ie_failures := 1\<rparr>)"
      using first by (simp add: count_abuse_def new_entry_def)
    have "get_entry (record_all s key us (record_failed s t key l)) key =
        Some ((new_entry t)\<lparr>ie_failures := 1, ie_failures := 0, ie_blocked_until := last us + il_block s,
          ie_window_start := last us + il_block s\<rparr>)"
      by (rule record_more [OF assms(2) record_ok [OF assms(1)] f]) (use assms False in \<open>auto simp: new_entry_def\<close>)
    then show ?thesis using False by (simp add: record_all_def)
  qed
  then obtain e where e: "get_entry ?l key = Some e" "ie_blocked_until e = ?b" by blast
  have "get_entry (refresh_client s now key ?l) key = Some e"
    by (rule refresh_keeps [OF record_all_ok [OF assms(1)] e(1)]) (use e(2) assms(12) in \<open>simp add: entryExpired_def\<close>)
  with e(2) assms(2,12) show ?thesis by (simp add: check_def Let_def)
qed

theorem threshold_blocks_client_witness:
  "fst (check demo_settings (10 * sec) ''k'' (record_all demo_settings ''k'' [3 * sec, 9 * sec] demo_limiter)) = Some (299 * sec)"
proof -
  have ok: "limiter_ok demo_settings demo_limiter"
    by (simp add: limiter_ok_def population_def demo_limiter_def newInvalidAuthAbuseLimiter_def demo_abuse_def
        demo_settings_def sum_list_replicate)
  have g: "get_entry demo_limiter ''k'' = None"
    using shard_of_less by (simp add: get_entry_def demo_limiter_def newInvalidAuthAbuseLimiter_def demo_abuse_def)
  have t: "lm_tracked demo_limiter < il_capacity demo_settings"
    by (simp add: demo_limiter_def newInvalidAuthAbuseLimiter_def demo_abuse_def demo_settings_def)
  show ?thesis
    by (subst threshold_blocks_client [OF ok _ g t]) (simp_all add: demo_settings_def sec_def time_sub_def)
qed

end
