(* ===== verification/KiroCooldown.thy ===== *)
theory KiroCooldown
  imports Prelude
begin

text \<open>
  Cooldowns of Kiro tokens (\<open>internal/pkg/kirocooldown/store.go\<close>): the Lua scripts that read and write one Redis
  hash per token, and the Go methods around them. A script is one atomic step. Hash fields are numbers where the
  scripts store numbers (Lua's doubles are exact in the range the scripts use); times are milliseconds; a key past its
  expiry is absent. The hexadecimal SHA-256 digest is the parameter \<open>digest\<close>.
\<close>

section \<open>State\<close>

record khash =
  kh_until :: "int option"
  kh_reason :: "string option"
  kh_fails :: "int option"
  kh_last_request :: "int option"
  kh_expires :: "int option"

type_synonym kstore = "string \<rightharpoonup> khash"

definition empty_hash :: khash where
  "empty_hash = \<lparr>kh_until = None, kh_reason = None, kh_fails = None, kh_last_request = None, kh_expires = None\<rparr>"

definition reason_429 :: string where "reason_429 = ''rate_limit_exceeded''"
definition reason_suspended :: string where "reason_suspended = ''account_suspended''"
definition short_ms :: int where "short_ms = 60000"
definition max_ms :: int where "max_ms = 300000"
definition long_ms :: int where "long_ms = 86400000"
definition active_ttl_ms :: int where "active_ttl_ms = 10000"
definition state_ttl_ms :: int where "state_ttl_ms = 90000000"

definition RedisKey :: "(string \<Rightarrow> string) \<Rightarrow> string \<Rightarrow> string" where
  "RedisKey digest token = ''kiro:cooldown:'' @ ''{'' @ digest (trim_space token) @ ''}''"

text \<open>What a command sees of a key at \<open>now\<close>.\<close>

definition live :: "int \<Rightarrow> kstore \<Rightarrow> string \<Rightarrow> khash" where
  "live now st k =
     (case st k of None \<Rightarrow> empty_hash
      | Some h \<Rightarrow> (case kh_expires h of None \<Rightarrow> h | Some e \<Rightarrow> if e \<le> now then empty_hash else h))"

definition num :: "int option \<Rightarrow> int" where
  "num v = (case v of None \<Rightarrow> 0 | Some i \<Rightarrow> i)"

definition str :: "string option \<Rightarrow> string" where
  "str v = (case v of None \<Rightarrow> [] | Some s \<Rightarrow> s)"

section \<open>Scripts\<close>

text \<open>\<open>checkCooldownScript\<close>: the flag, the wait and the reason.\<close>

definition checkCooldownScript :: "int \<Rightarrow> string \<Rightarrow> kstore \<Rightarrow> (bool \<times> int \<times> string) \<times> kstore" where
  "checkCooldownScript now k st =
     (let h = live now st k; until = num (kh_until h); h = h\<lparr>kh_last_request := None\<rparr> in
      if until > now then ((True, until - now, str (kh_reason h)), st(k \<mapsto> h))
      else if until > 0 then ((False, 0, []), st(k \<mapsto> h\<lparr>kh_until := None, kh_reason := None\<rparr>))
      else ((False, 0, []), st(k \<mapsto> h)))"

definition script_cooldown :: "int \<Rightarrow> int \<Rightarrow> int \<Rightarrow> int" where
  "script_cooldown shortest longest n =
     (let c = shortest * 2 ^ nat (n - 1) in if c > longest then longest else c)"

definition mark429Script :: "int \<Rightarrow> string \<Rightarrow> int \<Rightarrow> int \<Rightarrow> int \<Rightarrow> string \<Rightarrow> kstore \<Rightarrow> int \<times> kstore" where
  "mark429Script now k shortest longest ttl reason st =
     (let h = live now st k; n = num (kh_fails h) + 1; c = script_cooldown shortest longest n
      in (c, st(k \<mapsto> h\<lparr>kh_fails := Some n, kh_until := Some (now + c), kh_reason := Some reason, kh_expires := Some (now + ttl)\<rparr>)))"

definition markSuccessScript :: "int \<Rightarrow> string \<Rightarrow> int \<Rightarrow> kstore \<Rightarrow> kstore" where
  "markSuccessScript now k ttl st =
     st(k \<mapsto> (live now st k)\<lparr>kh_fails := Some 0, kh_until := Some 0, kh_reason := Some [], kh_expires := Some (now + ttl)\<rparr>)"

definition markSuspendedScript :: "int \<Rightarrow> string \<Rightarrow> int \<Rightarrow> int \<Rightarrow> string \<Rightarrow> kstore \<Rightarrow> int \<times> kstore" where
  "markSuspendedScript now k c ttl reason st =
     (c, st(k \<mapsto> (live now st k)\<lparr>kh_fails := Some 0, kh_until := Some (now + c), kh_reason := Some reason,
                                kh_expires := Some (now + ttl)\<rparr>))"

section \<open>The Go methods\<close>

text \<open>\<open>connected = False\<close> is the missing store or client. \<open>Some (remaining, reason)\<close> is the cooldown error.\<close>

datatype kiro_error = ErrStoreUnavailable

definition validate :: "bool \<Rightarrow> kiro_error option" where
  "validate connected = (if connected then None else Some ErrStoreUnavailable)"

definition CheckCooldown ::
    "(string \<Rightarrow> string) \<Rightarrow> bool \<Rightarrow> int \<Rightarrow> string \<Rightarrow> kstore \<Rightarrow> (kiro_error + (duration \<times> string) option) \<times> kstore" where
  "CheckCooldown digest connected now token st =
     (case validate connected of Some e \<Rightarrow> (Inl e, st)
      | None \<Rightarrow>
          let r = checkCooldownScript now (RedisKey digest token) st
          in (Inr (if fst (fst r) then Some (i64 (fst (snd (fst r)) * ms), snd (snd (fst r))) else None), snd r))"

definition MarkSuccess :: "(string \<Rightarrow> string) \<Rightarrow> bool \<Rightarrow> int \<Rightarrow> string \<Rightarrow> kstore \<Rightarrow> kiro_error option \<times> kstore" where
  "MarkSuccess digest connected now token st =
     (case validate connected of Some e \<Rightarrow> (Some e, st)
      | None \<Rightarrow> (None, markSuccessScript now (RedisKey digest token) active_ttl_ms st))"

definition Mark429 :: "(string \<Rightarrow> string) \<Rightarrow> bool \<Rightarrow> int \<Rightarrow> string \<Rightarrow> kstore \<Rightarrow> (kiro_error + duration) \<times> kstore" where
  "Mark429 digest connected now token st =
     (case validate connected of Some e \<Rightarrow> (Inl e, st)
      | None \<Rightarrow>
          let r = mark429Script now (RedisKey digest token) short_ms max_ms state_ttl_ms reason_429 st
          in (Inr (i64 (fst r * ms)), snd r))"

definition MarkSuspended :: "(string \<Rightarrow> string) \<Rightarrow> bool \<Rightarrow> int \<Rightarrow> string \<Rightarrow> kstore \<Rightarrow> (kiro_error + duration) \<times> kstore" where
  "MarkSuspended digest connected now token st =
     (case validate connected of Some e \<Rightarrow> (Inl e, st)
      | None \<Rightarrow>
          let r = markSuspendedScript now (RedisKey digest token) long_ms state_ttl_ms reason_suspended st
          in (Inr (i64 (fst r * ms)), snd r))"

text \<open>\<open>GetState\<close>: reason, end, remaining, failures; \<open>now\<close> is the process clock.\<close>

definition GetState ::
    "(string \<Rightarrow> string) \<Rightarrow> bool \<Rightarrow> int \<Rightarrow> string \<Rightarrow> kstore \<Rightarrow> kiro_error + (string \<times> int \<times> int \<times> int) option" where
  "GetState digest connected now token st =
     (case validate connected of Some e \<Rightarrow> Inl e
      | None \<Rightarrow>
          let h = live now st (RedisKey digest token); until = num (kh_until h)
          in Inr (if until \<le> 0 then None else if until - now \<le> 0 then None
                  else Some (str (kh_reason h), until, until - now, num (kh_fails h))))"

fun unique_keys :: "(string \<Rightarrow> string) \<Rightarrow> string list \<Rightarrow> string list \<Rightarrow> string list" where
  "unique_keys digest seen [] = []"
| "unique_keys digest seen (t # ts) =
     (let t = trim_space t; k = RedisKey digest t in
      if t = [] \<or> k \<in> set seen then unique_keys digest seen ts else k # unique_keys digest (k # seen) ts)"

text \<open>A candidate is (key, end, failures); the order of the scan keeps the first of equal ones.\<close>

definition earlier :: "string \<times> int \<times> int \<Rightarrow> string \<times> int \<times> int \<Rightarrow> bool" where
  "earlier a b \<longleftrightarrow> fst (snd a) < fst (snd b) \<or> (fst (snd a) = fst (snd b) \<and> snd (snd a) < snd (snd b))"

definition transient_candidates :: "int \<Rightarrow> kstore \<Rightarrow> string list \<Rightarrow> (string \<times> int \<times> int) list" where
  "transient_candidates now st keys =
     map (\<lambda>k. (k, num (kh_until (live now st k)), num (kh_fails (live now st k))))
       (filter (\<lambda>k. \<not> (num (kh_until (live now st k)) \<le> now \<or> str (kh_reason (live now st k)) \<noteq> reason_429)) keys)"

definition ClearEarliestTransientCooldown ::
    "(string \<Rightarrow> string) \<Rightarrow> bool \<Rightarrow> int \<Rightarrow> string list \<Rightarrow> kstore \<Rightarrow> (kiro_error + bool) \<times> kstore" where
  "ClearEarliestTransientCooldown digest connected now tokens st =
     (case validate connected of Some e \<Rightarrow> (Inl e, st)
      | None \<Rightarrow>
          (case pick earlier (transient_candidates now st (unique_keys digest [] tokens)) of
             None \<Rightarrow> (Inr False, st)
           | Some c \<Rightarrow> (Inr True, st(fst c \<mapsto> (live now st (fst c))\<lparr>kh_until := None, kh_reason := None,
                                                              kh_expires := Some (now + active_ttl_ms)\<rparr>))))"

text \<open>The Go-side formula. The untyped constant in \<open>time.Duration(1<<retryCount)\<close> is a 64-bit duration.\<close>

definition Calculate429Cooldown :: "int \<Rightarrow> duration" where
  "Calculate429Cooldown retryCount =
     (let n = (if retryCount < 0 then 0 else retryCount); c = i64 (minute * i64 (2 ^ nat n))
      in if c > 5 * minute then 5 * minute else c)"

section \<open>Lemmas\<close>

interpretation cooldown_order: weak_order earlier
  by unfold_locales (auto simp: earlier_def)

lemma live_put [simp]:
  "kh_expires h = Some e \<Longrightarrow> now < e \<Longrightarrow> live now (st(k \<mapsto> h)) k = h"
  by (simp add: live_def)

lemma cooldown_pow_le: "script_cooldown short_ms max_ms n \<le> max_ms"
  by (simp add: script_cooldown_def Let_def)

lemma script_cooldown_values:
  "1 \<le> n \<Longrightarrow> script_cooldown short_ms max_ms n =
     (if n = 1 then 60000 else if n = 2 then 120000 else if n = 3 then 240000 else 300000)"
proof -
  assume n: "1 \<le> n"
  show ?thesis
  proof (cases "n \<le> 3")
    case True
    with n have "n = 1 \<or> n = 2 \<or> n = 3" by auto
    then show ?thesis by (auto simp: script_cooldown_def Let_def short_ms_def max_ms_def)
  next
    case False
    then have "(3 :: nat) \<le> nat (n - 1)" by linarith
    then have "(2 :: int) ^ 3 \<le> 2 ^ nat (n - 1)" by (rule power_increasing) simp
    with False show ?thesis by (auto simp: script_cooldown_def Let_def short_ms_def max_ms_def)
  qed
qed

text \<open>A run of rate-limit answers for one token.\<close>

fun mark_all :: "(string \<Rightarrow> string) \<Rightarrow> string \<Rightarrow> int list \<Rightarrow> kstore \<Rightarrow> kstore" where
  "mark_all digest token [] st = st"
| "mark_all digest token (t # ts) st = mark_all digest token ts (snd (Mark429 digest True t token st))"

fun within_ttl :: "int \<Rightarrow> int list \<Rightarrow> bool" where
  "within_ttl t [] = True"
| "within_ttl t (u # us) = (t \<le> u \<and> u < t + state_ttl_ms \<and> within_ttl u us)"

definition marked :: "int \<Rightarrow> int \<Rightarrow> khash \<Rightarrow> bool" where
  "marked t n h \<longleftrightarrow> kh_fails h = Some n \<and> kh_until h = Some (t + script_cooldown short_ms max_ms n)
     \<and> kh_reason h = Some reason_429 \<and> kh_expires h = Some (t + state_ttl_ms)"

lemma mark_once:
  assumes "num (kh_fails (live t st (RedisKey digest token))) = n"
  shows "\<exists>h. snd (Mark429 digest True t token st) = st(RedisKey digest token \<mapsto> h) \<and> marked t (n + 1) h"
  using assms by (auto simp: Mark429_def validate_def Let_def mark429Script_def marked_def)

lemma mark_all_marked:
  "st (RedisKey digest token) = Some h \<Longrightarrow> marked t n h \<Longrightarrow> within_ttl t us \<Longrightarrow>
   \<exists>h'. mark_all digest token us st (RedisKey digest token) = Some h' \<and> marked (last (t # us)) (n + int (length us)) h'"
proof (induction us arbitrary: st h t n)
  case Nil
  then show ?case by simp
next
  case (Cons u us)
  have "live u st (RedisKey digest token) = h"
    using Cons.prems by (simp add: live_def marked_def)
  then have f: "num (kh_fails (live u st (RedisKey digest token))) = n" using Cons.prems(2) by (simp add: marked_def num_def)
  from mark_once [OF f] obtain h1 where h1: "snd (Mark429 digest True u token st) = st(RedisKey digest token \<mapsto> h1)"
    "marked u (n + 1) h1" by blast
  have w: "within_ttl u us" and g: "(st(RedisKey digest token \<mapsto> h1)) (RedisKey digest token) = Some h1"
    using Cons.prems(3) by simp_all
  from Cons.IH [of "st(RedisKey digest token \<mapsto> h1)" h1 u "n + 1", OF g h1(2) w] obtain h' where
    "mark_all digest token us (st(RedisKey digest token \<mapsto> h1)) (RedisKey digest token) = Some h'"
    "marked (last (u # us)) (n + 1 + int (length us)) h'" by blast
  moreover have "last (t # u # us) = last (u # us)" "n + int (length (u # us)) = n + 1 + int (length us)" by simp_all
  ultimately show ?case by (simp only: mark_all.simps h1(1)) blast
qed

section \<open>Properties\<close>

text \<open>Rate limits in a row (each before the state of the one before expires) double the cooldown up to the limit: after
  the n-th one the token is refused for one, two, four and then five minutes, with the reason and the exact remaining
  time, until that time has passed, when it is admitted again.\<close>

theorem rate_limits_escalate:
  assumes "st (RedisKey digest token) = None" and "within_ttl t us" and "n = 1 + int (length us)"
    and "c = (if n = 1 then 60000 else if n = 2 then 120000 else if n = 3 then 240000 else 300000)"
    and "last (t # us) \<le> now" and "now < last (t # us) + state_ttl_ms" and "0 < t"
  shows "fst (CheckCooldown digest True now token (mark_all digest token (t # us) st)) =
    Inr (if now < last (t # us) + c then Some ((last (t # us) + c - now) * 1000000, ''rate_limit_exceeded'') else None)"
proof -
  let ?k = "RedisKey digest token"
  have f: "num (kh_fails (live t st ?k)) = 0" by (simp add: live_def assms(1) empty_hash_def num_def)
  from mark_once [OF f] obtain h1 where h1: "snd (Mark429 digest True t token st) = st(?k \<mapsto> h1)" "marked t 1 h1" by auto
  have "\<exists>h'. mark_all digest token us (st(?k \<mapsto> h1)) ?k = Some h' \<and> marked (last (t # us)) (1 + int (length us)) h'"
    by (rule mark_all_marked [OF _ h1(2) assms(2)]) simp
  then obtain h where h: "mark_all digest token (t # us) st ?k = Some h" "marked (last (t # us)) n h"
    using h1(1) assms(3) by auto
  have c: "script_cooldown short_ms max_ms n = c" using script_cooldown_values [of n] assms(3,4) by simp
  have l: "live now (mark_all digest token (t # us) st) ?k = h" using h assms(6) by (simp add: live_def marked_def)
  have small: "i64 ((last (t # us) + c - now) * ms) = (last (t # us) + c - now) * 1000000" if "now < last (t # us) + c"
  proof -
    have "c \<le> 300000" using assms(4) by (auto split: if_splits)
    with that assms(5) show ?thesis by (intro trans [OF i64_small]) (auto simp: ms_def)
  qed
  show ?thesis using h(2) c small l
    by (auto simp: CheckCooldown_def validate_def Let_def checkCooldownScript_def marked_def num_def str_def reason_429_def)
qed

theorem rate_limits_escalate_witness:
  "fst (CheckCooldown id True 9000 ''tok'' (mark_all id ''tok'' [1000, 5000] Map.empty)) = Inr (Some (116000 * 1000000, ''rate_limit_exceeded''))"
  by (subst rate_limits_escalate [OF _ _ refl refl]) (simp_all add: state_ttl_ms_def)

text \<open>Clearing the earliest transient cooldown touches at most one token, and only one that is rate limited at the moment
  (a suspended or idle token is never released): it is one of the given tokens, no other rate-limited one of them ends
  earlier, its failure count is kept, and afterwards it is admitted.\<close>

theorem clear_earliest_transient:
  assumes "ClearEarliestTransientCooldown digest True now tokens st = (Inr cleared, st')"
  shows "(\<not> cleared \<longrightarrow> st' = st \<and> (\<forall>k \<in> set (unique_keys digest [] tokens).
            num (kh_until (live now st k)) \<le> now \<or> str (kh_reason (live now st k)) \<noteq> reason_429))
    \<and> (cleared \<longrightarrow> (\<exists>k h. k \<in> set (unique_keys digest [] tokens) \<and> st' = st(k \<mapsto> h)
         \<and> now < num (kh_until (live now st k)) \<and> str (kh_reason (live now st k)) = reason_429
         \<and> kh_until h = None \<and> kh_fails h = kh_fails (live now st k)
         \<and> (\<forall>j \<in> set (unique_keys digest [] tokens). now < num (kh_until (live now st j)) \<longrightarrow>
              str (kh_reason (live now st j)) = reason_429 \<longrightarrow> num (kh_until (live now st k)) \<le> num (kh_until (live now st j)))))"
proof (cases "pick earlier (transient_candidates now st (unique_keys digest [] tokens))")
  case None
  then have "transient_candidates now st (unique_keys digest [] tokens) = []" by simp
  then show ?thesis using assms None
    by (auto simp: ClearEarliestTransientCooldown_def validate_def transient_candidates_def filter_empty_conv)
next
  case (Some c)
  let ?cs = "transient_candidates now st (unique_keys digest [] tokens)"
  from pick_in_set [OF Some] obtain k where k: "c = (k, num (kh_until (live now st k)), num (kh_fails (live now st k)))"
    "k \<in> set (unique_keys digest [] tokens)" "now < num (kh_until (live now st k))" "str (kh_reason (live now st k)) = reason_429"
    by (auto simp: transient_candidates_def)
  have best: "num (kh_until (live now st k)) \<le> num (kh_until (live now st j))"
    if j: "j \<in> set (unique_keys digest [] tokens)" "now < num (kh_until (live now st j))" "str (kh_reason (live now st j)) = reason_429" for j
  proof -
    have "(j, num (kh_until (live now st j)), num (kh_fails (live now st j))) \<in> set ?cs"
      using j by (auto simp: transient_candidates_def)
    from cooldown_order.pick_best [OF Some this] k(1) show ?thesis by (auto simp: earlier_def)
  qed
  let ?h = "(live now st k)\<lparr>kh_until := None, kh_reason := None, kh_expires := Some (now + active_ttl_ms)\<rparr>"
  have "cleared" and st': "st' = st(k \<mapsto> ?h)"
    using assms Some k(1) by (auto simp: ClearEarliestTransientCooldown_def validate_def)
  have "kh_until ?h = None" "kh_fails ?h = kh_fails (live now st k)" by simp_all
  with k(2-4) best st' \<open>cleared\<close> show ?thesis by blast
qed

theorem clear_earliest_transient_witness:
  "\<exists>k h. k \<in> set (unique_keys id [] [''a'', ''b'']) \<and> kh_until h = None
     \<and> snd (ClearEarliestTransientCooldown id True 2000 [''a'', ''b''] (mark_all id ''a'' [1000] Map.empty))
       = (mark_all id ''a'' [1000] Map.empty)(k \<mapsto> h)"
proof -
  let ?r = "ClearEarliestTransientCooldown id True 2000 [''a'', ''b''] (mark_all id ''a'' [1000] Map.empty)"
  have "case fst ?r of Inl _ \<Rightarrow> False | Inr c \<Rightarrow> c" by code_simp
  then have "?r = (Inr True, snd ?r)" by (cases ?r; cases "fst ?r"; simp)
  from clear_earliest_transient [OF this] show ?thesis by blast
qed

text \<open>The Go-side formula agrees with the script (retry n is the script's failure n + 1) only up to 27 retries: for 28
  the 64-bit product has wrapped and the cooldown is negative, that is, none at all.\<close>

theorem go_cooldown_agrees_until_overflow:
  shows "(\<forall>n. 0 \<le> n \<and> n \<le> 27 \<longrightarrow> Calculate429Cooldown n = script_cooldown short_ms max_ms (n + 1) * 1000000)
    \<and> Calculate429Cooldown 28 < 0"
proof (intro conjI allI impI)
  fix n :: int
  assume n: "0 \<le> n \<and> n \<le> 27"
  have p: "(2 :: int) ^ nat n \<le> 2 ^ 27" using n by (intro power_increasing) auto
  have q: "(1 :: int) \<le> 2 ^ nat n" by simp
  have i: "i64 (2 ^ nat n) = 2 ^ nat n" using p by (intro i64_small) auto
  have j: "i64 (minute * 2 ^ nat n) = minute * 2 ^ nat n" using p q by (intro i64_small) (auto simp: minute_def)
  have "nat (n + 1 - 1) = nat n" by simp
  then show "Calculate429Cooldown n = script_cooldown short_ms max_ms (n + 1) * 1000000"
    using n j by (simp add: Calculate429Cooldown_def i Let_def script_cooldown_def minute_def short_ms_def max_ms_def)
next

  show "Calculate429Cooldown 28 < 0" by (simp add: Calculate429Cooldown_def minute_def i64_def)
qed

theorem go_cooldown_agrees_until_overflow_witness:
  "Calculate429Cooldown 2 = 240 * 1000000000"
  using go_cooldown_agrees_until_overflow by (simp add: script_cooldown_def short_ms_def max_ms_def)

end
