(* ===== verification/ImageArena.thy ===== *)
theory ImageArena
  imports Prelude
begin

text \<open>
  Reserved disk space for image results (\<open>pkg/imagebuffer/arena.go\<close>, \<open>json.go\<close>). An arena is a file of fixed size
  whose unused extents are in a free list. \<open>Build\<close> takes the first extent that is long enough under the mutex
  (\<open>reserve\<close>), lets its caller write through a bounded writer without the mutex, and under the mutex again either
  records the mapped slice or gives the extent back and coalesces the list (\<open>finish\<close>). Concurrent builds interleave
  at these two points, which is what the step relation \<open>arena_step\<close> shows.

  The file system is a parameter: how many bytes each write takes, and whether mapping succeeds. \<open>bufio.Writer\<close>
  passes the bytes on in pieces of its choosing (any list of pieces) and keeps the first error, which \<open>Flush\<close> returns.
\<close>

section \<open>Extents and the arena\<close>

record extent =
  ex_offset :: int
  ex_size :: int

record arena =
  im_free :: "extent list"
  im_mappings :: "extent list"
  im_closed :: bool

datatype image_error = ErrCapacity | ErrTooLarge | ErrUnexpectedEOF | WriteFailed | MapFailed | DiskFailed

definition diskHeadroom :: int where
  "diskHeadroom = 8 * 2 ^ 30"

definition new_arena :: "int \<Rightarrow> arena" where
  "new_arena len = \<lparr>im_free = [\<lparr>ex_offset = 0, ex_size = len\<rparr>], im_mappings = [], im_closed = False\<rparr>"

text \<open>The accounting step of \<open>New\<close>, under \<open>reserveMu\<close>: \<open>available\<close> is the answer of the file system (no answer is an
  error), \<open>pending\<close> the shared counter. It yields the new counter.\<close>

definition admit_reservation :: "int option \<Rightarrow> int \<Rightarrow> int \<Rightarrow> image_error + int" where
  "admit_reservation available len pending =
     (if len \<le> 0 \<or> len > (2 ^ 63 - 1) - diskHeadroom then Inl ErrCapacity
      else (case available of None \<Rightarrow> Inl DiskFailed
            | Some a \<Rightarrow> if a \<ge> (len + diskHeadroom + pending) mod 2 ^ 64 then Inr (i64 (pending + len)) else Inl ErrCapacity))"

text \<open>Its second half: the slow reservation (\<open>reserved\<close>: the file system's answer), then the counter goes down again.\<close>

definition settle_reservation :: "bool \<Rightarrow> int \<Rightarrow> int \<Rightarrow> (image_error + arena) \<times> int" where
  "settle_reservation reserved len pending = (if reserved then Inr (new_arena len) else Inl DiskFailed, i64 (pending - len))"

section \<open>Building a slice\<close>

definition build_size :: "int \<Rightarrow> int \<Rightarrow> int" where
  "build_size page limit = i64 (godiv (i64 (limit + page - 1)) page * page)"

text \<open>First fit; the extent shrinks from the front and stays in the list even when it is used up.\<close>

fun take_slot :: "int \<Rightarrow> extent list \<Rightarrow> extent \<times> extent list" where
  "take_slot n [] = (\<lparr>ex_offset = 0, ex_size = 0\<rparr>, [])"
| "take_slot n (e # es) =
     (if ex_size e \<ge> n
      then (\<lparr>ex_offset = ex_offset e, ex_size = n\<rparr>, e\<lparr>ex_offset := ex_offset e + n, ex_size := ex_size e - n\<rparr> # es)
      else (case take_slot n es of (slot, es') \<Rightarrow> (slot, e # es')))"

definition reserve :: "int \<Rightarrow> int \<Rightarrow> arena \<Rightarrow> image_error + (extent \<times> arena)" where
  "reserve page limit a =
     (let need = build_size page limit in
      if limit \<le> 0 \<or> need < limit then Inl ErrTooLarge
      else if im_closed a then Inl ErrCapacity
      else (case take_slot need (im_free a) of (slot, free) \<Rightarrow>
              if ex_size slot = 0 then Inl ErrCapacity else Inr (slot, a\<lparr>im_free := free\<rparr>)))"

record bounded_writer =
  bw_remaining :: int
  bw_written :: int

text \<open>\<open>boundedWriter.Write\<close> of a piece of \<open>n\<close> bytes of which the file takes \<open>k\<close> (fewer than \<open>n\<close> with an error).\<close>

definition bounded_write :: "int \<Rightarrow> int \<Rightarrow> bounded_writer \<Rightarrow> image_error option \<times> bounded_writer" where
  "bounded_write n k w =
     (if n > bw_remaining w then (Some ErrTooLarge, w)
      else (if k < n then Some WriteFailed else None,
            w\<lparr>bw_remaining := bw_remaining w - k, bw_written := bw_written w + k\<rparr>))"

fun write_pieces :: "(int \<times> int) list \<Rightarrow> bounded_writer \<Rightarrow> image_error option \<times> bounded_writer" where
  "write_pieces [] w = (None, w)"
| "write_pieces ((n, k) # ps) w =
     (case bounded_write n k w of (Some err, w) \<Rightarrow> (Some err, w) | (None, w) \<Rightarrow> write_pieces ps w)"

definition write_limited :: "int \<Rightarrow> (int \<times> int) list \<Rightarrow> image_error option \<times> bounded_writer" where
  "write_limited limit ps = write_pieces ps \<lparr>bw_remaining = limit, bw_written = 0\<rparr>"

text \<open>The error of the callback comes first, then the one \<open>Flush\<close> returns.\<close>

definition build_error :: "image_error option \<Rightarrow> image_error option \<Rightarrow> image_error option" where
  "build_error callback flush = (case callback of None \<Rightarrow> flush | Some err \<Rightarrow> Some err)"
section \<open>Giving an extent back\<close>

text \<open>The merge loop; the accumulator is \<open>merged\<close>, its last element first.\<close>

fun merge_extents :: "extent list \<Rightarrow> extent list \<Rightarrow> extent list" where
  "merge_extents acc [] = rev acc"
| "merge_extents acc (e # es) =
     (if ex_size e = 0 then merge_extents acc es
      else (case acc of
              m # rest \<Rightarrow> if ex_offset m + ex_size m = ex_offset e
                       then merge_extents (m\<lparr>ex_size := ex_size m + ex_size e\<rparr> # rest) es
                       else merge_extents (e # acc) es
            | [] \<Rightarrow> merge_extents [e] es))"

definition give_back :: "extent \<Rightarrow> extent list \<Rightarrow> extent list" where
  "give_back slot free = merge_extents [] (sort_key ex_offset (free @ [slot]))"

text \<open>The end of \<open>Build\<close>: \<open>err\<close> is the error so far, \<open>written\<close> the bytes written, \<open>mapped\<close> whether mapping the file works.\<close>

definition finish_build :: "extent \<Rightarrow> image_error option \<Rightarrow> int \<Rightarrow> bool \<Rightarrow> arena \<Rightarrow> (image_error + extent) \<times> arena" where
  "finish_build slot err written mapped a =
     (let err = (if err = None \<and> written > 0 \<and> \<not> mapped then Some MapFailed else err);
          data = \<lparr>ex_offset = ex_offset slot, ex_size = (if err = None \<and> written > 0 then written else 0)\<rparr>
      in if err \<noteq> None \<or> ex_size data = 0
         then (Inl (case err of None \<Rightarrow> ErrUnexpectedEOF | Some e \<Rightarrow> e), a\<lparr>im_free := give_back slot (im_free a)\<rparr>)
         else (Inr data, a\<lparr>im_mappings := im_mappings a @ [data]\<rparr>))"

text \<open>\<open>Build\<close> by a caller that is not interleaved with others; \<open>callback\<close> is the callback's own error.\<close>

definition Build ::
    "int \<Rightarrow> int \<Rightarrow> (int \<times> int) list \<Rightarrow> image_error option \<Rightarrow> bool \<Rightarrow> arena \<Rightarrow> (image_error + extent) \<times> arena" where
  "Build page limit ps callback mapped a =
     (case reserve page limit a of Inl err \<Rightarrow> (Inl err, a)
      | Inr (slot, a) \<Rightarrow>
          (case write_limited limit ps of (flush, w) \<Rightarrow>
             finish_build slot (build_error callback flush) (bw_written w) mapped a))"

definition Close :: "arena \<Rightarrow> arena" where
  "Close a = (if im_closed a then a else a\<lparr>im_closed := True, im_mappings := []\<rparr>)"

section \<open>The response body\<close>

text \<open>\<open>OpenAIResponse\<close> writes the marshalled payload without its closing brace, then the images in base64. \<open>enc\<close> is the
  standard encoding and \<open>header\<close> the marshalled payload, which is an empty object when \<open>nf\<close> is 0.\<close>

definition image_item :: "('b \<Rightarrow> string) \<Rightarrow> 'b \<Rightarrow> string" where
  "image_item enc img = ''{\"b64_json\":\"'' @ enc img @ ''\"}''"

fun image_items :: "('b \<Rightarrow> string) \<Rightarrow> bool \<Rightarrow> 'b list \<Rightarrow> string" where
  "image_items enc later [] = ''''"
| "image_items enc later (img # imgs) = (if later then '','' else '''') @ image_item enc img @ image_items enc True imgs"

definition response_body :: "('b \<Rightarrow> string) \<Rightarrow> nat \<Rightarrow> string \<Rightarrow> 'b list \<Rightarrow> string" where
  "response_body enc nf header imgs =
     butlast header @ (if nf > 0 then '','' else '''') @ ''\"data\":['' @ image_items enc False imgs @ '']}''"

definition response_limit :: "('b \<Rightarrow> int) \<Rightarrow> string \<Rightarrow> 'b list \<Rightarrow> int" where
  "response_limit encoded_len header imgs =
     fold (\<lambda>img limit. i64 (limit + encoded_len img)) imgs (i64 (int (length header) + 64 + int (length imgs) * 32))"

definition OpenAIResponse ::
    "('b \<Rightarrow> int) \<Rightarrow> int \<Rightarrow> string \<Rightarrow> 'b list \<Rightarrow> (int \<times> int) list \<Rightarrow> bool \<Rightarrow> arena \<Rightarrow> (image_error + extent) \<times> arena" where
  "OpenAIResponse encoded_len page header imgs ps mapped a = Build page (response_limit encoded_len header imgs) ps None mapped a"

section \<open>Interleaved builds\<close>

text \<open>
  A state of the shared arena: the arena, the builds that are writing (slot and limit, in any order), and a ghost
  list of the slots of finished slices (which the code forgets, since an arena never frees a slice).
\<close>

record arena_state =
  as_arena :: arena
  as_writing :: "(extent \<times> int) list"
  as_slots :: "extent list"

inductive arena_step :: "int \<Rightarrow> arena_state \<Rightarrow> arena_state \<Rightarrow> bool" for page :: int where
  start: "reserve page limit (as_arena s) = Inr (slot, a) \<Longrightarrow>
    arena_step page s (s\<lparr>as_arena := a, as_writing := as_writing s @ [(slot, limit)]\<rparr>)"
| give_up: "as_writing s = xs @ (slot, limit) # ys \<Longrightarrow> list_all (\<lambda>(n, k). 0 \<le> k \<and> k \<le> n) ps \<Longrightarrow>
    write_limited limit ps = (flush, w) \<Longrightarrow>
    finish_build slot (build_error callback flush) (bw_written w) mapped (as_arena s) = (Inl err, a) \<Longrightarrow>
    arena_step page s (s\<lparr>as_arena := a, as_writing := xs @ ys\<rparr>)"
| deliver: "as_writing s = xs @ (slot, limit) # ys \<Longrightarrow> list_all (\<lambda>(n, k). 0 \<le> k \<and> k \<le> n) ps \<Longrightarrow>
    write_limited limit ps = (flush, w) \<Longrightarrow>
    finish_build slot (build_error callback flush) (bw_written w) mapped (as_arena s) = (Inr data, a) \<Longrightarrow>
    arena_step page s (s\<lparr>as_arena := a, as_writing := xs @ ys, as_slots := as_slots s @ [slot]\<rparr>)"
| close: "arena_step page s (s\<lparr>as_arena := Close (as_arena s)\<rparr>)"

inductive arena_reach :: "int \<Rightarrow> int \<Rightarrow> arena_state \<Rightarrow> bool" for page len :: int where
  init: "arena_reach page len \<lparr>as_arena = new_arena len, as_writing = [], as_slots = []\<rparr>"
| step: "arena_reach page len s \<Longrightarrow> arena_step page s t \<Longrightarrow> arena_reach page len t"

section \<open>Which extents cover a byte\<close>

definition inside :: "int \<Rightarrow> extent \<Rightarrow> bool" where
  "inside p e \<longleftrightarrow> ex_offset e \<le> p \<and> p < ex_offset e + ex_size e"

definition cover :: "int \<Rightarrow> extent list \<Rightarrow> nat" where
  "cover p es = length (filter (inside p) es)"

lemma cover_simps [simp]:
  "cover p [] = 0" "cover p (e # es) = (if inside p e then 1 else 0) + cover p es" "cover p (xs @ ys) = cover p xs + cover p ys"
  by (simp_all add: cover_def)

lemma cover_mset: "mset xs = mset ys \<Longrightarrow> cover p xs = cover p ys"
  unfolding cover_def by (metis mset_filter size_mset)

lemma cover_pos: "e \<in> set es \<Longrightarrow> inside p e \<Longrightarrow> 1 \<le> cover p es"
  by (induction es) auto

lemma cover_nonzero: "cover p (filter (\<lambda>e. ex_size e \<noteq> 0) es) = cover p es"
  by (induction es) (auto simp: inside_def)

definition apart :: "extent \<Rightarrow> extent \<Rightarrow> bool" where
  "apart a b \<longleftrightarrow> ex_offset a + ex_size a \<le> ex_offset b \<or> ex_offset b + ex_size b \<le> ex_offset a"

definition below :: "extent \<Rightarrow> extent \<Rightarrow> bool" where
  "below a b \<longleftrightarrow> ex_offset a + ex_size a < ex_offset b"

lemma apart_cover: "(\<forall>p. \<not> (inside p a \<and> inside p b)) \<Longrightarrow> 0 < ex_size a \<Longrightarrow> 0 < ex_size b \<Longrightarrow> apart a b"
  by (drule spec [of _ "max (ex_offset a) (ex_offset b)"]) (auto simp: apart_def inside_def max_def split: if_splits)

lemma pairwise_apart:
  "(\<forall>p. cover p es \<le> 1) \<Longrightarrow> (\<forall>e \<in> set es. 0 < ex_size e) \<Longrightarrow> sorted_wrt apart es"
proof (induction es)
  case Nil
  then show ?case by simp
next
  case (Cons e es)
  have "apart e f" if f: "f \<in> set es" for f
  proof (rule apart_cover)
    show "\<forall>p. \<not> (inside p e \<and> inside p f)"
    proof (intro allI notI, elim conjE)
      fix p assume "inside p e" "inside p f"
      then have "2 \<le> cover p (e # es)" using cover_pos [OF f] by simp
      with Cons.prems(1) show False by (metis Suc_1 not_less_eq_eq)
    qed
  qed (use Cons.prems(2) f in auto)
  moreover have "\<forall>p. cover p es \<le> 1" using Cons.prems(1) by (metis cover_simps(2) le_add2 le_trans)
  ultimately show ?case using Cons by simp
qed

section \<open>Taking a slot\<close>

lemma take_slot_cases:
  assumes "take_slot n (e # es) = (slot, es')"
  obtains (hit) "n \<le> ex_size e" "slot = \<lparr>ex_offset = ex_offset e, ex_size = n\<rparr>"
      "es' = e\<lparr>ex_offset := ex_offset e + n, ex_size := ex_size e - n\<rparr> # es"
    | (miss) rest where "ex_size e < n" "take_slot n es = (slot, rest)" "es' = e # rest"
  using assms by (cases "n \<le> ex_size e"; cases "take_slot n es") auto

definition extents_ok :: "int \<Rightarrow> extent list \<Rightarrow> bool" where
  "extents_ok page es \<longleftrightarrow> (\<forall>e \<in> set es. 0 \<le> ex_size e \<and> page dvd ex_offset e)"

lemma extents_ok_simps [simp]:
  "extents_ok page []"
  "extents_ok page (e # es) \<longleftrightarrow> 0 \<le> ex_size e \<and> page dvd ex_offset e \<and> extents_ok page es"
  "extents_ok page (xs @ ys) \<longleftrightarrow> extents_ok page xs \<and> extents_ok page ys"
  by (auto simp: extents_ok_def)

lemma take_slot_cover:
  "take_slot n es = (slot, es') \<Longrightarrow> 0 < n \<Longrightarrow> cover p es' + (if inside p slot then 1 else 0) = cover p es"
proof (induction es arbitrary: slot es')
  case Nil
  then show ?case by (auto simp: inside_def)
next
  case (Cons e es)
  from Cons.prems(1) show ?case
  proof (cases rule: take_slot_cases)
    case hit
    with Cons.prems(2) show ?thesis by (simp add: inside_def)
  next
    case (miss rest)
    with Cons.IH [OF miss(2) Cons.prems(2)] show ?thesis by simp
  qed
qed

lemma take_slot_size: "take_slot n es = (slot, es') \<Longrightarrow> ex_size slot \<noteq> 0 \<Longrightarrow> ex_size slot = n"
proof (induction es arbitrary: slot es')
  case (Cons e es)
  from Cons.prems(1) show ?case by (cases rule: take_slot_cases) (use Cons in auto)
qed auto

lemma take_slot_ok:
  "take_slot n es = (slot, es') \<Longrightarrow> page dvd n \<Longrightarrow> 0 < n \<Longrightarrow> extents_ok page es
    \<Longrightarrow> extents_ok page es' \<and> page dvd ex_offset slot \<and> 0 \<le> ex_size slot"
proof (induction es arbitrary: slot es')
  case (Cons e es)
  from Cons.prems(1) show ?case
  proof (cases rule: take_slot_cases)
    case hit
    with Cons.prems show ?thesis by simp
  next
    case (miss rest)
    with Cons.IH [OF miss(2)] Cons.prems show ?thesis by simp
  qed
qed auto

lemma take_slot_above:
  "take_slot n es = (slot, es') \<Longrightarrow> 0 < n \<Longrightarrow> \<forall>e \<in> set es. below a e \<Longrightarrow> \<forall>e \<in> set es'. below a e"
proof (induction es arbitrary: slot es')
  case (Cons e es)
  from Cons.prems(1) show ?case
  proof (cases rule: take_slot_cases)
    case hit
    with Cons.prems show ?thesis by (simp add: below_def)
  next
    case (miss rest)
    with Cons.IH [OF miss(2)] Cons.prems show ?thesis by simp
  qed
qed auto

lemma take_slot_sorted:
  "take_slot n es = (slot, es') \<Longrightarrow> 0 < n \<Longrightarrow> sorted_wrt below es \<Longrightarrow> sorted_wrt below es'"
proof (induction es arbitrary: slot es')
  case (Cons e es)
  from Cons.prems(1) show ?case
  proof (cases rule: take_slot_cases)
    case hit
    with Cons.prems show ?thesis by (simp add: below_def)
  next
    case (miss rest)
    with Cons.IH [OF miss(2)] take_slot_above [where a = e, OF miss(2)] Cons.prems miss(3) show ?thesis by simp
  qed
qed auto

section \<open>Coalescing\<close>

lemma merge_extents_nonzero: "merge_extents acc (filter (\<lambda>e. ex_size e \<noteq> 0) es) = merge_extents acc es"
  by (induction acc es rule: merge_extents.induct) (auto split: list.splits)

lemma merge_extents_cover:
  "(\<forall>e \<in> set (acc @ es). 0 \<le> ex_size e) \<Longrightarrow> cover p (merge_extents acc es) = cover p acc + cover p es"
proof (induction acc es rule: merge_extents.induct)
  case (1 acc)
  show ?case by (simp add: cover_def flip: rev_filter)
next
  case (2 acc e es)
  show ?case
  proof (cases "ex_size e = 0")
    case True
    with 2 show ?thesis by (simp add: inside_def)
  next
    case False
    show ?thesis
    proof (cases acc)
      case Nil
      with False 2 show ?thesis by simp
    next
      case (Cons m rest)
      then show ?thesis using False 2 by (cases "ex_offset m + ex_size m = ex_offset e") (auto simp: inside_def)
    qed
  qed
qed

lemma merge_extents_sorted:
  "sorted_wrt below (rev acc) \<Longrightarrow> sorted_wrt (\<lambda>a b. ex_offset a + ex_size a \<le> ex_offset b) (rev acc @ es) \<Longrightarrow>
   (\<forall>e \<in> set (acc @ es). 0 < ex_size e) \<Longrightarrow>
   sorted_wrt below (merge_extents acc es) \<and> (\<forall>e \<in> set (merge_extents acc es). 0 < ex_size e)"
proof (induction acc es rule: merge_extents.induct)
  case (1 acc)
  then show ?case by simp
next
  case (2 acc e es)
  have e: "ex_size e \<noteq> 0" using 2(7) by auto
  show ?case
  proof (cases acc)
    case Nil
    with 2 e show ?thesis by simp
  next
    case (Cons m rest)
    show ?thesis
    proof (cases "ex_offset m + ex_size m = ex_offset e")
      case True
      have eq: "ex_offset m + (ex_size m + ex_size e) = ex_offset e + ex_size e" using True by simp
      from 2(3) [OF e Cons True] 2(5-) Cons True show ?thesis
        by (simp add: sorted_wrt_append below_def e eq)
    next
      case False
      have step: "merge_extents acc (e # es) = merge_extents (e # acc) es" using Cons False e by simp
      have "below x e" if "x \<in> set acc" for x
      proof (cases "x = m")
        case True
        with 2(6) Cons False show ?thesis by (auto simp: sorted_wrt_append below_def)
      next
        case False
        with that Cons have "x \<in> set rest" by simp
        with 2(5-7) Cons show ?thesis by (force simp: sorted_wrt_append below_def)
      qed
      then have "sorted_wrt below (rev (e # acc))" using 2(5) by (simp add: sorted_wrt_append)
      from 2(4) [OF e Cons False this] 2(6,7) show ?thesis unfolding step by simp
    qed
  qed
qed

lemma merge_extents_aligned:
  "(\<forall>e \<in> set (acc @ es). page dvd ex_offset e) \<Longrightarrow> e' \<in> set (merge_extents acc es) \<Longrightarrow> page dvd ex_offset e'"
proof (induction acc es rule: merge_extents.induct)
  case (2 acc e es)
  then show ?case by (cases "ex_size e = 0"; cases acc) (auto split: if_splits)
qed auto

text \<open>Sorted by offset and nowhere overlapping means one after the other.\<close>

lemma sorted_cover_consecutive:
  "sorted (map ex_offset es) \<Longrightarrow> (\<forall>p. cover p es \<le> 1) \<Longrightarrow> (\<forall>e \<in> set es. 0 < ex_size e) \<Longrightarrow>
   sorted_wrt (\<lambda>a b. ex_offset a + ex_size a \<le> ex_offset b) es"
proof -
  assume s: "sorted (map ex_offset es)" and c: "\<forall>p. cover p es \<le> 1" and z: "\<forall>e \<in> set es. 0 < ex_size e"
  have "sorted_wrt (\<lambda>a b. ex_offset a \<le> ex_offset b \<and> apart a b) es"
    using s pairwise_apart [OF c z] by (induction es) (auto simp: sorted_wrt_map)
  then show ?thesis
    by (rule sorted_wrt_mono_rel [rotated]) (use z in \<open>auto simp: apart_def\<close>)
qed

text \<open>\<open>sort.Slice\<close> is not stable; extents of equal offsets occur (an exhausted one and its neighbour), but every order
  by offset leads to the same list, so taking the stable sort loses nothing.\<close>

lemma sorted_extents_strict:
  assumes "sorted (map ex_offset es)" "\<forall>p. cover p es \<le> 1" "\<forall>e \<in> set es. 0 < ex_size e"
  shows "sorted (map ex_offset es) \<and> distinct (map ex_offset es)"
proof -
  have "sorted_wrt (\<lambda>a b. ex_offset a < ex_offset b) es"
    by (rule sorted_wrt_mono_rel [rotated, OF sorted_cover_consecutive [OF assms]]) (use assms(3) in force)
  then have "sorted_wrt (<) (map ex_offset es)" by (simp add: sorted_wrt_map)
  then show ?thesis by (simp only: strict_sorted_iff)
qed

lemma coalesce_order_irrelevant:
  assumes "mset ys = mset es" "sorted (map ex_offset ys)" "\<forall>p. cover p es \<le> 1" "\<forall>e \<in> set es. 0 \<le> ex_size e"
  shows "merge_extents [] ys = merge_extents [] (sort_key ex_offset es)"
proof -
  let ?nz = "filter (\<lambda>e. ex_size e \<noteq> 0)"
  have strict: "sorted (map ex_offset (?nz zs)) \<and> distinct (map ex_offset (?nz zs))"
    if "mset zs = mset es" "sorted (map ex_offset zs)" for zs
  proof (rule sorted_extents_strict)
    show "\<forall>e \<in> set (?nz zs). 0 < ex_size e" using mset_eq_setD [OF that(1)] assms(4) by force
    show "\<forall>p. cover p (?nz zs) \<le> 1" using assms(3) cover_mset [OF that(1)] by (simp add: cover_nonzero)
  qed (use that(2) in \<open>rule sorted_filter\<close>)
  have "?nz ys = ?nz (sort_key ex_offset es)"
  proof (rule map_sorted_distinct_set_unique)
    show "set (?nz ys) = set (?nz (sort_key ex_offset es))" using mset_eq_setD [OF assms(1)] by auto
    then show "inj_on ex_offset (set (?nz ys) \<union> set (?nz (sort_key ex_offset es)))"
      using strict [OF assms(1,2)] unfolding distinct_map by simp
  qed (use strict [OF assms(1,2)] strict [of "sort_key ex_offset es"] in simp_all)
  then show ?thesis by (metis merge_extents_nonzero)
qed

lemma give_back_cover:
  "\<forall>e \<in> set (slot # free). 0 \<le> ex_size e \<Longrightarrow> cover p (give_back slot free) = cover p free + (if inside p slot then 1 else 0)"
  by (simp add: give_back_def merge_extents_cover cover_mset [of "sort_key ex_offset (free @ [slot])" "free @ [slot]"])

lemma give_back_ok:
  assumes "extents_ok page (slot # free)" "\<forall>p. cover p (slot # free) \<le> 1"
  shows "extents_ok page (give_back slot free) \<and> sorted_wrt below (give_back slot free)
    \<and> (\<forall>e \<in> set (give_back slot free). 0 < ex_size e)"
proof -
  let ?nz = "\<lambda>e. ex_size e \<noteq> 0" and ?es = "sort_key ex_offset (free @ [slot])"
  have c: "\<forall>p. cover p (filter ?nz ?es) \<le> 1"
    using assms(2) cover_mset [of ?es "slot # free"] by (simp add: cover_nonzero)
  have pos: "\<forall>e \<in> set (filter ?nz ?es). 0 < ex_size e" using assms(1) by (auto simp: extents_ok_def)
  have "sorted (map ex_offset (filter ?nz ?es))" by (simp add: sorted_filter)
  from sorted_cover_consecutive [OF this c pos]
  have "sorted_wrt below (merge_extents [] (filter ?nz ?es)) \<and> (\<forall>e \<in> set (merge_extents [] (filter ?nz ?es)). 0 < ex_size e)"
    using merge_extents_sorted [of "[]" "filter ?nz ?es"] pos by simp
  moreover have "page dvd ex_offset e" if "e \<in> set (give_back slot free)" for e
    using that merge_extents_aligned [of "[]" ?es page e] assms(1) by (auto simp: give_back_def extents_ok_def)
  ultimately show ?thesis by (force simp: give_back_def merge_extents_nonzero extents_ok_def)
qed

section \<open>Sizes and bounded writes\<close>

lemma div_times_le: "0 < b \<Longrightarrow> (a :: int) div b * b \<le> a"
  using pos_mod_sign [of b a] by (simp flip: minus_mod_eq_div_mult)

lemma godiv_times_range:
  assumes "0 < b" "in_i64 a"
  shows "in_i64 (godiv a b * b)"
proof (cases "0 \<le> a")
  case True
  then have "0 \<le> a div b * b" using assms(1) by (simp add: pos_imp_zdiv_nonneg_iff)
  with True assms div_times_le [of b a] show ?thesis by (simp add: godiv_nonneg in_i64_def)
next
  case False
  then have "godiv a b * b = - (- a div b * b)" using assms(1) by (simp add: godiv_def)
  moreover have "0 \<le> - a div b * b" using False assms(1) by (simp add: pos_imp_zdiv_nonneg_iff)
  ultimately show ?thesis using div_times_le [of b "- a"] assms by (simp add: in_i64_def)
qed

lemma build_size_eq: "0 < page \<Longrightarrow> build_size page limit = godiv (i64 (limit + page - 1)) page * page"
  by (simp add: build_size_def i64_id godiv_times_range i64_range)

lemma build_size_dvd: "0 < page \<Longrightarrow> page dvd build_size page limit"
  by (simp add: build_size_eq)

lemma bounded_write_frame:
  "bounded_write n k w = (err, w') \<Longrightarrow> 0 \<le> k \<Longrightarrow> k \<le> n \<Longrightarrow>
     bw_written w' + bw_remaining w' = bw_written w + bw_remaining w \<and> bw_written w \<le> bw_written w'
     \<and> (0 \<le> bw_remaining w \<longrightarrow> 0 \<le> bw_remaining w')"
  by (auto simp: bounded_write_def split: if_splits)

lemma write_pieces_frame:
  "write_pieces ps w = (err, w') \<Longrightarrow> list_all (\<lambda>(n, k). 0 \<le> k \<and> k \<le> n) ps \<Longrightarrow>
     bw_written w' + bw_remaining w' = bw_written w + bw_remaining w \<and> bw_written w \<le> bw_written w'
     \<and> (0 \<le> bw_remaining w \<longrightarrow> 0 \<le> bw_remaining w')"
proof (induction ps w rule: write_pieces.induct)
  case (1 w)
  then show ?case by simp
next
  case (2 n k ps w)
  obtain e1 w1 where b: "bounded_write n k w = (e1, w1)" by (cases "bounded_write n k w")
  have nk: "0 \<le> k" "k \<le> n" using 2(3) by auto
  note f = bounded_write_frame [OF b nk]
  show ?case
  proof (cases e1)
    case None
    from 2(1) [OF b [symmetric] None] 2(2,3) b None f show ?thesis by auto
  next
    case (Some x)
    with 2(2) b f show ?thesis by simp
  qed
qed

lemma write_limited_bound:
  assumes "write_limited limit ps = (err, w)" "list_all (\<lambda>(n, k). 0 \<le> k \<and> k \<le> n) ps" "0 \<le> limit"
  shows "0 \<le> bw_written w \<and> bw_written w \<le> limit"
  using write_pieces_frame [OF assms(1) [unfolded write_limited_def] assms(2)] assms(3) by simp

lemma write_pieces_complete:
  "list_all (\<lambda>(n, k). 0 \<le> n \<and> k = n) ps \<Longrightarrow> sum_list (map fst ps) \<le> bw_remaining w \<Longrightarrow>
   write_pieces ps w = (None, w\<lparr>bw_remaining := bw_remaining w - sum_list (map fst ps), bw_written := bw_written w + sum_list (map fst ps)\<rparr>)"
proof (induction ps w rule: write_pieces.induct)
  case (1 w)
  then show ?case by simp
next
  case (2 n k ps w)
  let ?w = "w\<lparr>bw_remaining := bw_remaining w - n, bw_written := bw_written w + n\<rparr>"
  have k: "k = n" "0 \<le> n" and ps: "list_all (\<lambda>(n, k). 0 \<le> n \<and> k = n) ps" using 2(2) by auto
  have "0 \<le> sum_list (map fst ps)" using ps by (induction ps) auto
  then have b: "bounded_write n k w = (None, ?w)" using 2(3) k by (simp add: bounded_write_def)
  from 2(1) [OF b [symmetric] refl ps] 2(3) b show ?case by (simp add: algebra_simps)
qed

section \<open>The invariant of a shared arena\<close>

definition slice_of :: "extent \<Rightarrow> extent \<Rightarrow> bool" where
  "slice_of m slot \<longleftrightarrow> ex_offset m = ex_offset slot \<and> 0 < ex_size m \<and> ex_size m \<le> ex_size slot"

text \<open>Every byte of the file is in exactly one place: free, being written, or part of a finished slot.\<close>

definition arena_inv :: "int \<Rightarrow> int \<Rightarrow> arena_state \<Rightarrow> bool" where
  "arena_inv page len s \<longleftrightarrow>
     (\<forall>p. cover p (im_free (as_arena s)) + cover p (map fst (as_writing s)) + cover p (as_slots s) = (if 0 \<le> p \<and> p < len then 1 else 0))
     \<and> extents_ok page (im_free (as_arena s)) \<and> sorted_wrt below (im_free (as_arena s))
     \<and> (\<forall>(slot, limit) \<in> set (as_writing s). 0 < limit \<and> limit \<le> ex_size slot \<and> page dvd ex_offset slot)
     \<and> (\<forall>slot \<in> set (as_slots s). 0 < ex_size slot \<and> page dvd ex_offset slot)
     \<and> (as_writing s = [] \<and> as_slots s = [] \<longrightarrow> (\<forall>e \<in> set (im_free (as_arena s)). 0 < ex_size e))
     \<and> (\<exists>before rest. as_slots s = before @ rest \<and> list_all2 slice_of (im_mappings (as_arena s)) rest
          \<and> (\<not> im_closed (as_arena s) \<longrightarrow> before = []))"

lemma arena_inv_init: "0 < len \<Longrightarrow> arena_inv page len \<lparr>as_arena = new_arena len, as_writing = [], as_slots = []\<rparr>"
  by (auto simp: arena_inv_def new_arena_def inside_def)

lemma reserve_cases:
  assumes "reserve page limit a = Inr (slot, a')" "0 < page"
  obtains free where "take_slot (build_size page limit) (im_free a) = (slot, free)" "a' = a\<lparr>im_free := free\<rparr>"
    "0 < limit" "limit \<le> build_size page limit" "ex_size slot = build_size page limit" "\<not> im_closed a"
  using assms take_slot_size
  by (cases "take_slot (build_size page limit) (im_free a)") (auto simp: reserve_def Let_def split: if_splits)

lemma arena_inv_start:
  assumes inv: "arena_inv page len s" and page: "0 < page" and r: "reserve page limit (as_arena s) = Inr (slot, a)"
  shows "arena_inv page len (s\<lparr>as_arena := a, as_writing := as_writing s @ [(slot, limit)]\<rparr>)"
proof -
  from r page obtain free where t: "take_slot (build_size page limit) (im_free (as_arena s)) = (slot, free)"
    and a: "a = (as_arena s)\<lparr>im_free := free\<rparr>" and l: "0 < limit" "limit \<le> build_size page limit" "ex_size slot = build_size page limit"
    by (rule reserve_cases)
  from l have n: "0 < build_size page limit" by simp
  note ok = take_slot_ok [OF t build_size_dvd [OF page] n] and srt = take_slot_sorted [OF t n]
  have c: "cover p free + (if inside p slot then 1 else 0) = cover p (im_free (as_arena s))" for p
    by (rule take_slot_cover [OF t n])
  show ?thesis
    using inv ok srt l unfolding arena_inv_def c [symmetric] a
    by (simp add: ac_simps)
qed

lemma finish_cases:
  assumes "finish_build slot err written mapped a = (res, a')"
  obtains (failed) e where "res = Inl e" "a' = a\<lparr>im_free := give_back slot (im_free a)\<rparr>"
    | (ended) "res = Inr \<lparr>ex_offset = ex_offset slot, ex_size = written\<rparr>" "0 < written" "err = None" "mapped"
        "a' = a\<lparr>im_mappings := im_mappings a @ [\<lparr>ex_offset = ex_offset slot, ex_size = written\<rparr>]\<rparr>"
  using assms by (auto simp: finish_build_def Let_def split: if_splits)

lemma arena_inv_fail:
  assumes inv: "arena_inv page len s" and w: "as_writing s = xs @ (slot, limit) # ys"
  shows "arena_inv page len (s\<lparr>as_arena := (as_arena s)\<lparr>im_free := give_back slot (im_free (as_arena s))\<rparr>, as_writing := xs @ ys\<rparr>)"
proof -
  let ?free = "im_free (as_arena s)"
  have slot: "0 < limit" "limit \<le> ex_size slot" "page dvd ex_offset slot" using inv w by (auto simp: arena_inv_def)
  have c: "cover p ?free + cover p (map fst (xs @ (slot, limit) # ys)) + cover p (as_slots s) = (if 0 \<le> p \<and> p < len then 1 else 0)" for p
    using inv w by (simp add: arena_inv_def)
  have once: "\<forall>p. cover p (slot # ?free) \<le> 1"
  proof
    fix p show "cover p (slot # ?free) \<le> 1" using c [of p] by (simp split: if_splits)
  qed
  have ok: "extents_ok page (slot # ?free)" using inv slot by (simp add: arena_inv_def)
  then have cb: "cover p (give_back slot ?free) = cover p ?free + (if inside p slot then 1 else 0)" for p
    by (intro give_back_cover) (auto simp: extents_ok_def)
  have "cover p (give_back slot ?free) + cover p (map fst (xs @ ys)) + cover p (as_slots s) = (if 0 \<le> p \<and> p < len then 1 else 0)" for p
    using c [of p] unfolding cb by simp
  with inv w give_back_ok [OF ok once] show ?thesis by (simp add: arena_inv_def)
qed

lemma arena_inv_done:
  assumes inv: "arena_inv page len s" and w: "as_writing s = xs @ (slot, limit) # ys" and n: "0 < n" "n \<le> limit"
  shows "arena_inv page len (s\<lparr>as_arena := (as_arena s)\<lparr>im_mappings := im_mappings (as_arena s) @ [\<lparr>ex_offset = ex_offset slot, ex_size = n\<rparr>]\<rparr>,
    as_writing := xs @ ys, as_slots := as_slots s @ [slot]\<rparr>)"
proof -
  have slot: "0 < limit" "limit \<le> ex_size slot" "page dvd ex_offset slot" using inv w by (auto simp: arena_inv_def)
  then have m: "slice_of \<lparr>ex_offset = ex_offset slot, ex_size = n\<rparr> slot" using n by (simp add: slice_of_def)
  from inv obtain before rest where r: "as_slots s = before @ rest" "list_all2 slice_of (im_mappings (as_arena s)) rest"
    "\<not> im_closed (as_arena s) \<longrightarrow> before = []" by (auto simp: arena_inv_def)
  then have "as_slots s @ [slot] = before @ (rest @ [slot])"
    "list_all2 slice_of (im_mappings (as_arena s) @ [\<lparr>ex_offset = ex_offset slot, ex_size = n\<rparr>]) (rest @ [slot])"
    using m by (simp_all add: list_all2_appendI)
  with inv w slot r(3) show ?thesis
    unfolding arena_inv_def by (simp add: ac_simps) (metis append.assoc)
qed

lemma arena_inv_close: "arena_inv page len s \<Longrightarrow> arena_inv page len (s\<lparr>as_arena := Close (as_arena s)\<rparr>)"
  by (auto simp: arena_inv_def Close_def)

lemma arena_inv_step:
  assumes "arena_step page s t" "arena_inv page len s" "0 < page"
  shows "arena_inv page len t"
  using assms(1)
proof (cases rule: arena_step.cases)
  case (start limit slot a)
  with assms show ?thesis by (simp add: arena_inv_start)
next
  case (give_up xs slot limit ys ps flush w callback mapped err a)
  from give_up(5) have "a = (as_arena s)\<lparr>im_free := give_back slot (im_free (as_arena s))\<rparr>"
    by (cases rule: finish_cases) auto
  with arena_inv_fail [OF assms(2) give_up(2)] give_up(1) show ?thesis by simp
next
  case (deliver xs slot limit ys ps flush w callback mapped data a)
  from assms(2) deliver(2) have "0 \<le> limit" by (auto simp: arena_inv_def)
  from write_limited_bound [OF deliver(4,3) this] have n: "bw_written w \<le> limit" by simp
  from deliver(5) show ?thesis
  proof (cases rule: finish_cases)
    case (failed e)
    then show ?thesis by simp
  next
    case ended
    from arena_inv_done [OF assms(2) deliver(2) ended(2) n] ended(5) deliver(1) show ?thesis by simp
  qed
next
  case close
  with assms show ?thesis by (simp add: arena_inv_close)
qed

lemma arena_inv_reach: "arena_reach page len s \<Longrightarrow> 0 < page \<Longrightarrow> 0 < len \<Longrightarrow> arena_inv page len s"
  by (induction rule: arena_reach.induct) (auto intro: arena_inv_init arena_inv_step)

section \<open>What the invariant gives\<close>

definition fits :: "extent \<Rightarrow> extent \<Rightarrow> bool" where
  "fits m slot \<longleftrightarrow> ex_offset m = ex_offset slot \<and> ex_size m \<le> ex_size slot"

lemma apart_shrink: "list_all2 fits xs ys \<Longrightarrow> sorted_wrt apart ys \<Longrightarrow> sorted_wrt apart xs"
proof (induction rule: list_all2_induct)
  case Nil
  then show ?case by simp
next
  case (Cons x xs y ys)
  have "apart x x'" if x': "x' \<in> set xs" for x'
  proof -
    from Cons(2) x' obtain y' where "y' \<in> set ys" "fits x' y'" by (metis in_set_conv_nth list_all2_conv_all_nth)
    with Cons(1,4) show ?thesis by (auto simp: apart_def fits_def)
  qed
  with Cons show ?case by simp
qed

definition nonempty :: "extent list \<Rightarrow> extent list" where
  "nonempty = filter (\<lambda>e. ex_size e \<noteq> 0)"

lemma arena_places:
  assumes "arena_inv page len s"
  obtains rest where "list_all2 slice_of (im_mappings (as_arena s)) rest"
    "sorted_wrt apart (rest @ map fst (as_writing s) @ nonempty (im_free (as_arena s)))"
    "\<forall>e \<in> set (rest @ map fst (as_writing s)). 0 < ex_size e \<and> 0 \<le> ex_offset e \<and> ex_offset e + ex_size e \<le> len \<and> page dvd ex_offset e"
proof -
  from assms obtain before rest where r: "as_slots s = before @ rest" "list_all2 slice_of (im_mappings (as_arena s)) rest"
    by (auto simp: arena_inv_def)
  let ?es = "rest @ map fst (as_writing s) @ nonempty (im_free (as_arena s))"
  have c: "cover p ?es \<le> (if 0 \<le> p \<and> p < len then 1 else 0)" for p
  proof -
    have "cover p (im_free (as_arena s)) + cover p (map fst (as_writing s)) + cover p (as_slots s) = (if 0 \<le> p \<and> p < len then 1 else 0)"
      using assms by (simp add: arena_inv_def)
    then show ?thesis by (simp add: r(1) nonempty_def cover_nonzero split: if_splits)
  qed
  have slots: "\<forall>e \<in> set rest. 0 < ex_size e" "\<forall>e \<in> set (map fst (as_writing s)). 0 < ex_size e"
    using assms r(1) by (auto simp: arena_inv_def)
  have "0 < ex_size e" if "e \<in> set (nonempty (im_free (as_arena s)))" for e
  proof -
    have "0 \<le> ex_size e" "ex_size e \<noteq> 0" using assms that by (auto simp: arena_inv_def nonempty_def extents_ok_def)
    then show ?thesis by simp
  qed
  with slots have pos: "\<forall>e \<in> set ?es. 0 < ex_size e" by auto
  have "\<forall>p. cover p ?es \<le> 1" by (intro allI le_trans [OF c]) simp
  from pairwise_apart [OF this pos] have ap: "sorted_wrt apart ?es" .
  have "0 \<le> ex_offset e \<and> ex_offset e + ex_size e \<le> len" if e: "e \<in> set ?es" for e
  proof -
    have "inside (ex_offset e) e" "inside (ex_offset e + ex_size e - 1) e" using pos e by (auto simp: inside_def)
    then have "1 \<le> cover (ex_offset e) ?es" "1 \<le> cover (ex_offset e + ex_size e - 1) ?es"
      using cover_pos [OF e] by blast+
    then show ?thesis using c [of "ex_offset e"] c [of "ex_offset e + ex_size e - 1"] by (auto split: if_splits)
  qed
  moreover have "page dvd ex_offset e" if "e \<in> set (rest @ map fst (as_writing s))" for e
    using that assms r(1) by (auto simp: arena_inv_def)
  ultimately have "\<forall>e \<in> set (rest @ map fst (as_writing s)). 0 < ex_size e \<and> 0 \<le> ex_offset e \<and> ex_offset e + ex_size e \<le> len
      \<and> page dvd ex_offset e"
    using slots by auto
  then show thesis by (rule that [OF r(2) ap])
qed

lemma slice_fits: "list_all2 slice_of slices rest \<Longrightarrow> list_all2 fits (slices @ es) (rest @ es)"
  by (rule list_all2_appendI)
    (auto simp: fits_def slice_of_def list_all2_same elim!: list_all2_mono intro!: list.rel_refl)

text \<open>A free list that covers a whole range and is coalesced is a single extent.\<close>

lemma whole_free_list:
  assumes c: "\<forall>p. cover p es = (if 0 \<le> p \<and> p < len then 1 else 0)" and s: "sorted_wrt below es"
    and pos: "\<forall>e \<in> set es. 0 < ex_size e" and len: "0 < len"
  shows "es = [\<lparr>ex_offset = 0, ex_size = len\<rparr>]"
proof -
  have edge: "inside p e \<Longrightarrow> e \<in> set es \<Longrightarrow> 0 \<le> p \<and> p < len" for p e
    using cover_pos [of e es p] c by (auto split: if_splits)
  obtain e rest where es: "es = e # rest" using c len by (cases es) (force split: if_splits)+
  have "rest = []"
  proof (rule ccontr)
    assume "rest \<noteq> []"
    then obtain f where f: "f \<in> set rest" by (cases rest) auto
    let ?p = "ex_offset e + ex_size e"
    have "?p < ex_offset f" using s f by (simp add: es below_def)
    moreover have "inside (ex_offset f) f" using pos f by (simp add: es inside_def)
    ultimately have "?p < len" using edge [of "ex_offset f" f] f by (simp add: es)
    moreover have "0 \<le> ?p" using edge [of "ex_offset e" e] pos by (auto simp: es inside_def)
    ultimately have "cover ?p es = 1" using c by simp
    moreover have "\<not> inside ?p g" if "g \<in> set es" for g
      using that s by (auto simp: es inside_def below_def)
    then have "cover ?p es = 0" by (simp add: cover_def filter_empty_conv)
    ultimately show False by simp
  qed
  have only: "inside p e \<longleftrightarrow> 0 \<le> p \<and> p < len" for p
    using c [THEN spec, of p] unfolding es \<open>rest = []\<close> by (simp split: if_splits)
  from only [of 0] only [of "len - 1"] only [of "-1"] only [of len] len
  have "inside 0 e" "inside (len - 1) e" "\<not> inside (-1) e" "\<not> inside len e" by simp_all
  then have "ex_offset e = 0" "ex_size e = len" by (auto simp: inside_def)
  then show ?thesis by (simp add: es \<open>rest = []\<close>)
qed

lemma build_complete:
  assumes r: "reserve page limit a = Inr (slot, a')" and ps: "list_all (\<lambda>(n, k). 0 \<le> n \<and> k = n) ps"
    and n: "sum_list (map fst ps) = n" "0 < n" "n \<le> limit"
  shows "Build page limit ps None True a =
    (Inr \<lparr>ex_offset = ex_offset slot, ex_size = n\<rparr>, a'\<lparr>im_mappings := im_mappings a' @ [\<lparr>ex_offset = ex_offset slot, ex_size = n\<rparr>]\<rparr>)"
  using write_pieces_complete [OF ps, of "\<lparr>bw_remaining = limit, bw_written = 0\<rparr>"] n
  by (simp add: Build_def r write_limited_def build_error_def finish_build_def Let_def)

lemma image_items_length:
  "length (image_items enc later imgs) \<le> 16 * length imgs + sum_list (map (\<lambda>img. length (enc img)) imgs)"
  by (induction enc later imgs rule: image_items.induct) (auto simp: image_item_def)

lemma response_limit_eq:
  assumes "\<forall>img \<in> set imgs. 0 \<le> f img" "0 \<le> b" "b + sum_list (map f imgs) < 2 ^ 63"
  shows "fold (\<lambda>img limit. i64 (limit + f img)) imgs b = b + sum_list (map f imgs)"
  using assms
proof (induction imgs arbitrary: b)
  case Nil
  then show ?case by simp
next
  case (Cons img imgs)
  have "0 \<le> sum_list (map f imgs)" using Cons.prems(1) by (intro sum_list_nonneg) auto
  with Cons.prems have "i64 (b + f img) = b + f img" by (intro i64_small) auto
  with Cons.IH [of "b + f img"] Cons.prems show ?case by simp
qed

section \<open>Properties\<close>

text \<open>C20: However builds, failures and the final close interleave, the slices handed out, the regions still being
  written and the free regions of an arena never overlap; every slice and every region being written is a non-empty
  part of the file, and starts at a page boundary as mapping it requires.\<close>

theorem arena_slices_safe:
  assumes "arena_reach page len s" "0 < page" "0 < len"
  shows "sorted_wrt apart (im_mappings (as_arena s) @ map fst (as_writing s) @ nonempty (im_free (as_arena s)))
    \<and> (\<forall>e \<in> set (im_mappings (as_arena s) @ map fst (as_writing s)).
         0 < ex_size e \<and> 0 \<le> ex_offset e \<and> ex_offset e + ex_size e \<le> len \<and> page dvd ex_offset e)"
proof -
  from arena_inv_reach [OF assms] obtain rest where r: "list_all2 slice_of (im_mappings (as_arena s)) rest"
    "sorted_wrt apart (rest @ map fst (as_writing s) @ nonempty (im_free (as_arena s)))"
    "\<forall>e \<in> set (rest @ map fst (as_writing s)). 0 < ex_size e \<and> 0 \<le> ex_offset e \<and> ex_offset e + ex_size e \<le> len \<and> page dvd ex_offset e"
    by (rule arena_places)
  have "0 < ex_size e \<and> 0 \<le> ex_offset e \<and> ex_offset e + ex_size e \<le> len \<and> page dvd ex_offset e"
    if "e \<in> set (im_mappings (as_arena s))" for e
  proof -
    from r(1) that obtain f where f: "f \<in> set rest" "slice_of e f" by (metis in_set_conv_nth list_all2_conv_all_nth)
    with r(3) have "0 < ex_size f \<and> 0 \<le> ex_offset f \<and> ex_offset f + ex_size f \<le> len \<and> page dvd ex_offset f" by simp
    with f(2) show ?thesis by (auto simp: slice_of_def)
  qed
  with r(3) apart_shrink [OF slice_fits [OF r(1)] r(2)] show ?thesis by auto
qed

text \<open>Two builds take their slots, the first one fails.\<close>

definition demo_start :: arena_state where
  "demo_start = \<lparr>as_arena = new_arena 20480, as_writing = [], as_slots = []\<rparr>"

definition demo_first :: arena_state where
  "demo_first = \<lparr>as_arena = (new_arena 20480)\<lparr>im_free := [\<lparr>ex_offset = 8192, ex_size = 12288\<rparr>]\<rparr>,
     as_writing = [(\<lparr>ex_offset = 0, ex_size = 8192\<rparr>, 5000)], as_slots = []\<rparr>"

lemma demo_first_reach: "arena_reach 4096 20480 demo_first"
proof -
  have "arena_reach 4096 20480 demo_start" unfolding demo_start_def by (rule arena_reach.init)
  moreover have "reserve 4096 5000 (as_arena demo_start) = Inr (\<lparr>ex_offset = 0, ex_size = 8192\<rparr>, as_arena demo_first)"
    by code_simp
  from arena_step.start [OF this] have "arena_step 4096 demo_start demo_first"
    by (simp add: demo_start_def demo_first_def)
  ultimately show ?thesis by (rule arena_reach.step)
qed

theorem arena_slices_safe_witness:
  "sorted_wrt apart (im_mappings (as_arena demo_first) @ map fst (as_writing demo_first) @ nonempty (im_free (as_arena demo_first)))"
  using arena_slices_safe [OF demo_first_reach] by simp

text \<open>Failed builds leave nothing behind: in an open arena without finished slices and without running builds the free
  list is again one extent that covers the whole reserved file, whatever was attempted before and in which order.\<close>

theorem arena_whole_again:
  assumes "arena_reach page len s" "0 < page" "0 < len"
    and "as_writing s = []" "im_mappings (as_arena s) = []" "\<not> im_closed (as_arena s)"
  shows "im_free (as_arena s) = im_free (new_arena len)"
proof -
  have inv: "arena_inv page len s" by (rule arena_inv_reach [OF assms(1-3)])
  then have "as_slots s = []" using assms(5,6) by (auto simp: arena_inv_def)
  with inv assms have "im_free (as_arena s) = [\<lparr>ex_offset = 0, ex_size = len\<rparr>]"
    by (intro whole_free_list) (simp_all add: arena_inv_def)
  then show ?thesis by (simp add: new_arena_def)
qed

theorem arena_whole_again_witness:
  "im_free (snd (finish_build \<lparr>ex_offset = 0, ex_size = 8192\<rparr> (Some WriteFailed) 300 True (as_arena demo_first)))
     = im_free (new_arena 20480)"
proof -
  let ?a = "snd (finish_build \<lparr>ex_offset = 0, ex_size = 8192\<rparr> (Some WriteFailed) 300 True (as_arena demo_first))"
  let ?s = "demo_first\<lparr>as_arena := ?a, as_writing := []\<rparr>"
  have w: "write_limited 5000 [(300, 300), (400, 0)] = (Some WriteFailed, \<lparr>bw_remaining = 4700, bw_written = 300\<rparr>)" by code_simp
  have f: "finish_build \<lparr>ex_offset = 0, ex_size = 8192\<rparr> (build_error None (Some WriteFailed))
      (bw_written \<lparr>bw_remaining = 4700, bw_written = 300\<rparr>) True (as_arena demo_first) = (Inl WriteFailed, ?a)"
    by (simp add: finish_build_def build_error_def)
  have "arena_step 4096 demo_first (demo_first\<lparr>as_arena := ?a, as_writing := [] @ []\<rparr>)"
    by (rule arena_step.give_up [OF _ _ w f]) (simp_all add: demo_first_def)
  with demo_first_reach have "arena_reach 4096 20480 ?s" by (auto intro: arena_reach.step)
  from arena_whole_again [OF this] show ?thesis
    by (simp add: finish_build_def demo_first_def new_arena_def)
qed

text \<open>The size \<open>OpenAIResponse\<close> reserves is always enough: when a slot of that size is free and the file system takes
  every byte, building the response succeeds with a slice of exactly the length of the body, so the bounded writer
  never refuses it.\<close>

theorem response_fits:
  assumes "\<forall>img \<in> set imgs. encoded_len img = int (length (enc img))"
    and "int (length header) + 64 + 32 * int (length imgs) + sum_list (map encoded_len imgs) < 2 ^ 63"
    and "reserve page (response_limit encoded_len header imgs) a = Inr (slot, a')"
    and "list_all (\<lambda>(n, k). 0 \<le> n \<and> k = n) ps" "sum_list (map fst ps) = int (length (response_body enc nf header imgs))"
  shows "fst (OpenAIResponse encoded_len page header imgs ps True a)
     = Inr \<lparr>ex_offset = ex_offset slot, ex_size = int (length (response_body enc nf header imgs))\<rparr>"
proof -
  let ?b = "int (length header) + 64 + 32 * int (length imgs)"
  have sum: "sum_list (map encoded_len imgs) = int (sum_list (map (\<lambda>img. length (enc img)) imgs))"
    using assms(1) by (induction imgs) auto
  have "i64 ?b = ?b" by (rule i64_small) (use assms(2) sum in linarith)+
  then have limit: "response_limit encoded_len header imgs = ?b + sum_list (map encoded_len imgs)"
    using assms(1,2) by (simp add: response_limit_def response_limit_eq mult.commute)
  have "length (response_body enc nf header imgs) \<le> length header + 64 + 32 * length imgs + sum_list (map (\<lambda>img. length (enc img)) imgs)"
  proof -
    have "length (response_body enc nf header imgs) \<le> length header + 54 + length (image_items enc False imgs)"
      by (auto simp: response_body_def intro: le_trans [OF diff_le_self])
    with image_items_length [of enc False imgs] show ?thesis by linarith
  qed
  then have "int (length (response_body enc nf header imgs)) \<le> response_limit encoded_len header imgs"
    unfolding limit sum by linarith
  moreover have "0 < int (length (response_body enc nf header imgs))" by (simp add: response_body_def)
  ultimately show ?thesis
    using build_complete [OF assms(3,4,5)] by (simp add: OpenAIResponse_def)
qed

theorem response_fits_witness:
  "fst (OpenAIResponse (\<lambda>img. int (length img)) 4096 ''{}'' [''QUJD''] [(30, 30)] True (new_arena 8192))
     = Inr \<lparr>ex_offset = 0, ex_size = 30\<rparr>"
proof -
  have b: "int (length (response_body id 0 ''{}'' [''QUJD''])) = 30" by code_simp
  have r: "reserve 4096 (response_limit (\<lambda>img. int (length img)) ''{}'' [''QUJD'']) (new_arena 8192)
      = Inr (\<lparr>ex_offset = 0, ex_size = 4096\<rparr>, (new_arena 8192)\<lparr>im_free := [\<lparr>ex_offset = 4096, ex_size = 4096\<rparr>]\<rparr>)"
    by code_simp
  from response_fits [where enc = id and nf = 0, OF _ _ r, of "[(30, 30)]"] b show ?thesis by simp
qed

end
