(* ===== verification/IdempotencyStore.thy ===== *)
theory IdempotencyStore
  imports Prelude
begin

text \<open>
  The store of idempotency records: the Go interface \<open>IdempotencyRepository\<close> (\<open>service/idempotency.go\<close>) as a record of
  its methods and, as a locale, the contract its clients rely on; and the SQL implementation
  (\<open>repository/idempotency_repo.go\<close>) on a table, which is shown to meet the contract. Database failures are not results
  of the methods here; the clients' theories add them at every call.
\<close>

section \<open>Records and the interface\<close>

definition status_processing :: string where "status_processing = ''processing''"
definition status_succeeded :: string where "status_succeeded = ''succeeded''"
definition status_failed :: string where "status_failed = ''failed_retryable''"

lemma status_distinct [simp]:
  "status_processing \<noteq> status_succeeded" "status_processing \<noteq> status_failed" "status_succeeded \<noteq> status_failed"
  "status_succeeded \<noteq> status_processing" "status_failed \<noteq> status_processing" "status_failed \<noteq> status_succeeded"
  by (simp_all add: status_processing_def status_succeeded_def status_failed_def)

text \<open>The two informational time stamps of a row (creation and last update) are left out; no code reads them.\<close>

record idem_record =
  ir_id :: int
  ir_scope :: string
  ir_key_hash :: string
  ir_fingerprint :: string
  ir_status :: string
  ir_response_status :: "int option"
  ir_response_body :: "string option"
  ir_error_reason :: "string option"
  ir_locked_until :: "gotime option"
  ir_expires_at :: gotime

record 's idem_repository =
  CreateProcessing :: "idem_record \<Rightarrow> 's \<Rightarrow> int option \<times> 's"
  GetByScopeAndKeyHash :: "string \<Rightarrow> string \<Rightarrow> 's \<Rightarrow> idem_record option"
  TryReclaim :: "int \<Rightarrow> string \<Rightarrow> gotime \<Rightarrow> gotime \<Rightarrow> gotime \<Rightarrow> 's \<Rightarrow> bool \<times> 's"
  ExtendProcessingLock :: "int \<Rightarrow> string \<Rightarrow> gotime \<Rightarrow> gotime \<Rightarrow> 's \<Rightarrow> bool \<times> 's"
  MarkSucceeded :: "int \<Rightarrow> int \<Rightarrow> string \<Rightarrow> gotime \<Rightarrow> 's \<Rightarrow> 's"
  MarkFailedRetryable :: "int \<Rightarrow> string \<Rightarrow> gotime \<Rightarrow> gotime \<Rightarrow> 's \<Rightarrow> 's"
  DeleteExpired :: "gotime \<Rightarrow> int \<Rightarrow> 's \<Rightarrow> int \<times> 's"

section \<open>The table\<close>

record idem_table =
  it_rows :: "idem_record list"
  it_next :: int

definition update_rows :: "(idem_record \<Rightarrow> bool) \<Rightarrow> (idem_record \<Rightarrow> idem_record) \<Rightarrow> idem_table \<Rightarrow> bool \<times> idem_table" where
  "update_rows hit f t = (list_ex hit (it_rows t), t\<lparr>it_rows := map (\<lambda>r. if hit r then f r else r) (it_rows t)\<rparr>)"

definition sql_get :: "string \<Rightarrow> string \<Rightarrow> idem_table \<Rightarrow> idem_record option" where
  "sql_get scope key t = List.find (\<lambda>r. ir_scope r = scope \<and> ir_key_hash r = key) (it_rows t)"

definition created_row :: "int \<Rightarrow> idem_record \<Rightarrow> idem_record" where
  "created_row i r = r\<lparr>ir_id := i, ir_response_status := None, ir_response_body := None, ir_error_reason := None\<rparr>"

definition sql_create :: "idem_record \<Rightarrow> idem_table \<Rightarrow> int option \<times> idem_table" where
  "sql_create r t =
     (if list_ex (\<lambda>q. ir_scope q = ir_scope r \<and> ir_key_hash q = ir_key_hash r) (it_rows t) then (None, t)
      else (Some (it_next t), t\<lparr>it_rows := it_rows t @ [created_row (it_next t) r], it_next := it_next t + 1\<rparr>))"

definition reclaimable :: "int \<Rightarrow> string \<Rightarrow> gotime \<Rightarrow> idem_record \<Rightarrow> bool" where
  "reclaimable i from now r \<longleftrightarrow> ir_id r = i \<and> ir_status r = from
     \<and> (case ir_locked_until r of None \<Rightarrow> True | Some l \<Rightarrow> l \<le> now)"

definition claimed_row :: "gotime \<Rightarrow> gotime \<Rightarrow> idem_record \<Rightarrow> idem_record" where
  "claimed_row locked expires r =
     r\<lparr>ir_status := status_processing, ir_locked_until := Some locked, ir_error_reason := None, ir_expires_at := expires\<rparr>"

definition sql_reclaim :: "int \<Rightarrow> string \<Rightarrow> gotime \<Rightarrow> gotime \<Rightarrow> gotime \<Rightarrow> idem_table \<Rightarrow> bool \<times> idem_table" where
  "sql_reclaim i from now locked expires =
     update_rows (reclaimable i from now) (claimed_row locked expires)"

definition renewable :: "int \<Rightarrow> string \<Rightarrow> idem_record \<Rightarrow> bool" where
  "renewable i fp r \<longleftrightarrow> ir_id r = i \<and> ir_status r = status_processing \<and> ir_fingerprint r = fp"

definition renewed_row :: "gotime \<Rightarrow> gotime \<Rightarrow> idem_record \<Rightarrow> idem_record" where
  "renewed_row locked expires r = r\<lparr>ir_locked_until := Some locked, ir_expires_at := expires\<rparr>"

definition sql_extend :: "int \<Rightarrow> string \<Rightarrow> gotime \<Rightarrow> gotime \<Rightarrow> idem_table \<Rightarrow> bool \<times> idem_table" where
  "sql_extend i fp locked expires =
     update_rows (renewable i fp) (renewed_row locked expires)"

definition succeeded_row :: "int \<Rightarrow> string \<Rightarrow> gotime \<Rightarrow> idem_record \<Rightarrow> idem_record" where
  "succeeded_row code body expires r =
     r\<lparr>ir_status := status_succeeded, ir_response_status := Some code, ir_response_body := Some body,
       ir_error_reason := None, ir_locked_until := None, ir_expires_at := expires\<rparr>"

definition sql_succeeded :: "int \<Rightarrow> int \<Rightarrow> string \<Rightarrow> gotime \<Rightarrow> idem_table \<Rightarrow> idem_table" where
  "sql_succeeded i code body expires t =
     snd (update_rows (\<lambda>r. ir_id r = i) (succeeded_row code body expires) t)"

definition failed_row :: "string \<Rightarrow> gotime \<Rightarrow> gotime \<Rightarrow> idem_record \<Rightarrow> idem_record" where
  "failed_row reason locked expires r =
     r\<lparr>ir_status := status_failed, ir_error_reason := Some reason, ir_locked_until := Some locked, ir_expires_at := expires\<rparr>"

definition sql_failed :: "int \<Rightarrow> string \<Rightarrow> gotime \<Rightarrow> gotime \<Rightarrow> idem_table \<Rightarrow> idem_table" where
  "sql_failed i reason locked expires t =
     snd (update_rows (\<lambda>r. ir_id r = i) (failed_row reason locked expires) t)"

text \<open>The victims of a clean-up: the expired rows that expire first, up to the limit.\<close>

definition sql_victims :: "gotime \<Rightarrow> int \<Rightarrow> idem_table \<Rightarrow> int list" where
  "sql_victims now limit t =
     take (nat (if limit \<le> 0 then 500 else limit))
       (map ir_id (sort_key ir_expires_at (filter (\<lambda>r. ir_expires_at r \<le> now) (it_rows t))))"

definition sql_delete_expired :: "gotime \<Rightarrow> int \<Rightarrow> idem_table \<Rightarrow> int \<times> idem_table" where
  "sql_delete_expired now limit t =
     (let gone = filter (\<lambda>r. ir_id r \<in> set (sql_victims now limit t)) (it_rows t)
      in (int (length gone), t\<lparr>it_rows := filter (\<lambda>r. ir_id r \<notin> set (sql_victims now limit t)) (it_rows t)\<rparr>))"

definition NewIdempotencyRepository :: "idem_table idem_repository" where
  "NewIdempotencyRepository = \<lparr>CreateProcessing = sql_create, GetByScopeAndKeyHash = sql_get, TryReclaim = sql_reclaim,
     ExtendProcessingLock = sql_extend, MarkSucceeded = sql_succeeded, MarkFailedRetryable = sql_failed,
     DeleteExpired = sql_delete_expired\<rparr>"

text \<open>The table's constraints: one row per scope and key, ids from a serial column.\<close>

definition table_ok :: "idem_table \<Rightarrow> bool" where
  "table_ok t \<longleftrightarrow> distinct (map (\<lambda>r. (ir_scope r, ir_key_hash r)) (it_rows t)) \<and> distinct (map ir_id (it_rows t))
     \<and> (\<forall>r \<in> set (it_rows t). 0 < ir_id r \<and> ir_id r < it_next t) \<and> 0 < it_next t"
named_theorems idem_rows "the columns of a row after an update"

lemma row_updates [idem_rows]:
  "ir_id (claimed_row l e r) = ir_id r" "ir_scope (claimed_row l e r) = ir_scope r" "ir_key_hash (claimed_row l e r) = ir_key_hash r"
  "ir_fingerprint (claimed_row l e r) = ir_fingerprint r" "ir_status (claimed_row l e r) = status_processing"
  "ir_expires_at (claimed_row l e r) = e" "ir_locked_until (claimed_row l e r) = Some l"
  "ir_id (renewed_row l e r) = ir_id r" "ir_scope (renewed_row l e r) = ir_scope r" "ir_key_hash (renewed_row l e r) = ir_key_hash r"
  "ir_fingerprint (renewed_row l e r) = ir_fingerprint r" "ir_status (renewed_row l e r) = ir_status r"
  "ir_expires_at (renewed_row l e r) = e" "ir_locked_until (renewed_row l e r) = Some l"
  "ir_id (succeeded_row c b e r) = ir_id r" "ir_scope (succeeded_row c b e r) = ir_scope r"
  "ir_key_hash (succeeded_row c b e r) = ir_key_hash r" "ir_fingerprint (succeeded_row c b e r) = ir_fingerprint r"
  "ir_status (succeeded_row c b e r) = status_succeeded" "ir_expires_at (succeeded_row c b e r) = e"
  "ir_response_body (succeeded_row c b e r) = Some b" "ir_locked_until (succeeded_row c b e r) = None"
  "ir_id (failed_row m l e r) = ir_id r" "ir_scope (failed_row m l e r) = ir_scope r" "ir_key_hash (failed_row m l e r) = ir_key_hash r"
  "ir_fingerprint (failed_row m l e r) = ir_fingerprint r" "ir_status (failed_row m l e r) = status_failed"
  "ir_expires_at (failed_row m l e r) = e" "ir_locked_until (failed_row m l e r) = Some l"
  "ir_id (created_row i r) = i" "ir_scope (created_row i r) = ir_scope r" "ir_key_hash (created_row i r) = ir_key_hash r"
  "ir_fingerprint (created_row i r) = ir_fingerprint r" "ir_status (created_row i r) = ir_status r"
  "ir_expires_at (created_row i r) = ir_expires_at r" "ir_locked_until (created_row i r) = ir_locked_until r"
  by (simp_all add: claimed_row_def renewed_row_def succeeded_row_def failed_row_def created_row_def)

section \<open>The contract\<close>

text \<open>
  What a client may rely on, in terms of lookups only: every method acts on the looked-up records as the row functions
  say, a method that takes an id acts on no other record, and a record is not deleted before it expires.
\<close>

locale idem_contract =
  fixes repo :: "'s idem_repository" and ok :: "'s \<Rightarrow> bool"
  assumes get_key: "ok s \<Longrightarrow> GetByScopeAndKeyHash repo sc k s = Some r \<Longrightarrow> ir_scope r = sc \<and> ir_key_hash r = k \<and> 0 < ir_id r"
    and get_inj: "ok s \<Longrightarrow> GetByScopeAndKeyHash repo sc k s = Some r \<Longrightarrow> GetByScopeAndKeyHash repo sc' k' s = Some r'
      \<Longrightarrow> ir_id r = ir_id r' \<Longrightarrow> r = r'"
    and create_old: "ok s \<Longrightarrow> GetByScopeAndKeyHash repo (ir_scope r) (ir_key_hash r) s \<noteq> None \<Longrightarrow> CreateProcessing repo r s = (None, s)"
    and create_new: "ok s \<Longrightarrow> GetByScopeAndKeyHash repo (ir_scope r) (ir_key_hash r) s = None \<Longrightarrow>
      \<exists>i s'. CreateProcessing repo r s = (Some i, s') \<and> ok s' \<and> (\<forall>sc k. GetByScopeAndKeyHash repo sc k s' =
        (if sc = ir_scope r \<and> k = ir_key_hash r then Some (created_row i r) else GetByScopeAndKeyHash repo sc k s))"
    and reclaim: "ok s \<Longrightarrow> ok (snd (TryReclaim repo i from now l e s)) \<and> GetByScopeAndKeyHash repo sc k (snd (TryReclaim repo i from now l e s)) =
        map_option (\<lambda>r. if reclaimable i from now r then claimed_row l e r else r) (GetByScopeAndKeyHash repo sc k s)"
    and reclaim_taken: "ok s \<Longrightarrow> GetByScopeAndKeyHash repo sc k s = Some r \<Longrightarrow>
        fst (TryReclaim repo (ir_id r) from now l e s) = reclaimable (ir_id r) from now r"
    and extend: "ok s \<Longrightarrow> ok (snd (ExtendProcessingLock repo i fp l e s)) \<and> GetByScopeAndKeyHash repo sc k (snd (ExtendProcessingLock repo i fp l e s)) =
        map_option (\<lambda>r. if renewable i fp r then renewed_row l e r else r) (GetByScopeAndKeyHash repo sc k s)"
    and extend_held: "ok s \<Longrightarrow> GetByScopeAndKeyHash repo sc k s = Some r \<Longrightarrow>
        fst (ExtendProcessingLock repo (ir_id r) fp l e s) = renewable (ir_id r) fp r"
    and succeeded: "ok s \<Longrightarrow> ok (MarkSucceeded repo i c b e s) \<and> GetByScopeAndKeyHash repo sc k (MarkSucceeded repo i c b e s) =
        map_option (\<lambda>r. if ir_id r = i then succeeded_row c b e r else r) (GetByScopeAndKeyHash repo sc k s)"
    and failed: "ok s \<Longrightarrow> ok (MarkFailedRetryable repo i m l e s) \<and> GetByScopeAndKeyHash repo sc k (MarkFailedRetryable repo i m l e s) =
        map_option (\<lambda>r. if ir_id r = i then failed_row m l e r else r) (GetByScopeAndKeyHash repo sc k s)"
    and swept: "ok s \<Longrightarrow> ok (snd (DeleteExpired repo now n s)) \<and> (GetByScopeAndKeyHash repo sc k (snd (DeleteExpired repo now n s)) =
        GetByScopeAndKeyHash repo sc k s \<or> (GetByScopeAndKeyHash repo sc k (snd (DeleteExpired repo now n s)) = None
          \<and> (\<exists>r. GetByScopeAndKeyHash repo sc k s = Some r \<and> ir_expires_at r \<le> now)))"

section \<open>The SQL implementation meets it\<close>

lemma sql_get_update:
  assumes "\<And>r. ir_scope (f r) = ir_scope r \<and> ir_key_hash (f r) = ir_key_hash r"
  shows "sql_get sc k (snd (update_rows hit f t)) = map_option (\<lambda>r. if hit r then f r else r) (sql_get sc k t)"
proof -
  have "List.find (\<lambda>r. ir_scope r = sc \<and> ir_key_hash r = k) (map (\<lambda>r. if hit r then f r else r) rs)
      = map_option (\<lambda>r. if hit r then f r else r) (List.find (\<lambda>r. ir_scope r = sc \<and> ir_key_hash r = k) rs)" for rs
    by (induction rs) (use assms in auto)
  then show ?thesis by (simp add: sql_get_def update_rows_def)
qed

lemma table_ok_update:
  assumes "table_ok t" "\<And>r. ir_scope (f r) = ir_scope r \<and> ir_key_hash (f r) = ir_key_hash r \<and> ir_id (f r) = ir_id r"
  shows "table_ok (snd (update_rows hit f t))"
proof -
  let ?g = "\<lambda>r. if hit r then f r else r"
  have "map (\<lambda>r. (ir_scope r, ir_key_hash r)) (map ?g rs) = map (\<lambda>r. (ir_scope r, ir_key_hash r)) rs"
    and "map ir_id (map ?g rs) = map ir_id rs" for rs
    using assms(2) by (induction rs) auto
  moreover have "\<forall>r \<in> set (map ?g (it_rows t)). 0 < ir_id r \<and> ir_id r < it_next t"
    using assms by (auto simp: table_ok_def)
  ultimately show ?thesis using assms(1) unfolding table_ok_def update_rows_def by (simp del: map_map)
qed

lemma sql_get_in: "sql_get sc k t = Some r \<Longrightarrow> r \<in> set (it_rows t) \<and> ir_scope r = sc \<and> ir_key_hash r = k"
  by (auto simp: sql_get_def find_Some_iff)

lemma table_id_inj: "table_ok t \<Longrightarrow> r \<in> set (it_rows t) \<Longrightarrow> r' \<in> set (it_rows t) \<Longrightarrow> ir_id r = ir_id r' \<Longrightarrow> r = r'"
  unfolding table_ok_def distinct_map by (auto dest: inj_onD)

lemma table_key_inj: "table_ok t \<Longrightarrow> r \<in> set (it_rows t) \<Longrightarrow> sql_get (ir_scope r) (ir_key_hash r) t = Some r"
proof -
  assume ok: "table_ok t" and r: "r \<in> set (it_rows t)"
  then obtain q where q: "sql_get (ir_scope r) (ir_key_hash r) t = Some q"
    by (cases "sql_get (ir_scope r) (ir_key_hash r) t") (auto simp: sql_get_def find_None_iff)
  from sql_get_in [OF this] ok r have "q = r" unfolding table_ok_def distinct_map by (auto dest: inj_onD)
  with q show ?thesis by simp
qed

lemma update_hits:
  assumes "table_ok t" "sql_get sc k t = Some r" "\<And>q. hit q \<Longrightarrow> ir_id q = ir_id r"
  shows "fst (update_rows hit f t) = hit r"
proof -
  have r: "r \<in> set (it_rows t)" using sql_get_in [OF assms(2)] by simp
  moreover have "q = r" if "q \<in> set (it_rows t)" "hit q" for q
    by (rule table_id_inj [OF assms(1) that(1) r assms(3) [OF that(2)]])
  ultimately have "list_ex hit (it_rows t) = hit r" unfolding list_ex_iff by blast
  then show ?thesis by (simp add: update_rows_def)
qed

lemma sql_create_get:
  assumes "sql_get (ir_scope r) (ir_key_hash r) t = None"
  shows "sql_create r t = (Some (it_next t), t\<lparr>it_rows := it_rows t @ [created_row (it_next t) r], it_next := it_next t + 1\<rparr>)"
    and "sql_get sc k (snd (sql_create r t)) = (if sc = ir_scope r \<and> k = ir_key_hash r then Some (created_row (it_next t) r) else sql_get sc k t)"
proof -
  have none: "\<not> list_ex (\<lambda>q. ir_scope q = ir_scope r \<and> ir_key_hash q = ir_key_hash r) (it_rows t)"
    using assms by (auto simp: sql_get_def find_None_iff list_ex_iff)
  then show eq: "sql_create r t = (Some (it_next t), t\<lparr>it_rows := it_rows t @ [created_row (it_next t) r], it_next := it_next t + 1\<rparr>)"
    by (simp add: sql_create_def)
  have "List.find P (rs @ [q]) = (case List.find P rs of None \<Rightarrow> if P q then Some q else None | Some x \<Rightarrow> Some x)"
    for P rs and q :: idem_record
    by (induction rs) auto
  then show "sql_get sc k (snd (sql_create r t)) = (if sc = ir_scope r \<and> k = ir_key_hash r then Some (created_row (it_next t) r) else sql_get sc k t)"
    using assms by (auto simp: eq sql_get_def idem_rows split: option.splits)
qed

lemma table_ok_create: "table_ok t \<Longrightarrow> table_ok (snd (sql_create r t))"
proof (cases "sql_get (ir_scope r) (ir_key_hash r) t")
  case None
  then have "(ir_scope r, ir_key_hash r) \<notin> (\<lambda>r. (ir_scope r, ir_key_hash r)) ` set (it_rows t)"
    by (auto simp: sql_get_def find_None_iff)
  moreover assume "table_ok t"
  moreover then have "it_next t \<notin> ir_id ` set (it_rows t)" by (auto simp: table_ok_def)
  ultimately show ?thesis by (auto simp: sql_create_get(1) [OF None] table_ok_def idem_rows)
next
  case (Some q)
  then have "list_ex (\<lambda>q. ir_scope q = ir_scope r \<and> ir_key_hash q = ir_key_hash r) (it_rows t)"
    using sql_get_in [OF Some] by (auto simp: list_ex_iff)
  moreover assume "table_ok t"
  ultimately show ?thesis by (simp add: sql_create_def)
qed

lemma table_ok_sweep: "table_ok t \<Longrightarrow> table_ok (snd (sql_delete_expired now n t))"
  by (auto simp: table_ok_def sql_delete_expired_def Let_def distinct_map_filter)

lemma victims_expired: "i \<in> set (sql_victims now n t) \<Longrightarrow> \<exists>r \<in> set (it_rows t). ir_id r = i \<and> ir_expires_at r \<le> now"
  unfolding sql_victims_def by (drule in_set_takeD) auto

lemma find_filter_unique:
  assumes "distinct (map f rs)"
  shows "List.find (\<lambda>r. f r = x) (filter P rs) =
    (case List.find (\<lambda>r. f r = x) rs of None \<Rightarrow> None | Some r \<Rightarrow> if P r then Some r else None)"
  using assms
proof (induction rs)
  case Nil
  then show ?case by simp
next
  case (Cons r rs)
  have "List.find (\<lambda>q. f q = f r) (filter P rs) = None"
    using Cons.prems by (simp add: find_None_iff) (metis imageI)
  with Cons show ?case by auto
qed

lemma sql_get_sweep:
  assumes "table_ok t"
  shows "sql_get sc k (snd (sql_delete_expired now n t)) = sql_get sc k t
    \<or> sql_get sc k (snd (sql_delete_expired now n t)) = None \<and> (\<exists>r. sql_get sc k t = Some r \<and> ir_expires_at r \<le> now)"
proof -
  let ?P = "\<lambda>r. ir_id r \<notin> set (sql_victims now n t)"
  have eq: "sql_get sc k (snd (sql_delete_expired now n t)) =
      (case sql_get sc k t of None \<Rightarrow> None | Some r \<Rightarrow> if ?P r then Some r else None)"
    using find_filter_unique [of "\<lambda>r. (ir_scope r, ir_key_hash r)" "it_rows t" "(sc, k)" ?P] assms
    by (simp add: sql_get_def sql_delete_expired_def Let_def table_ok_def)
  show ?thesis
  proof (cases "sql_get sc k t")
    case None
    then show ?thesis by (simp add: eq)
  next
    case (Some r)
    show ?thesis
    proof (cases "?P r")
      case True
      with Some show ?thesis by (simp add: eq)
    next
      case False
      then obtain q where q: "q \<in> set (it_rows t)" "ir_id q = ir_id r" "ir_expires_at q \<le> now"
        using victims_expired by blast
      have "r \<in> set (it_rows t)" using sql_get_in [OF Some] by simp
      then have "q = r" by (rule table_id_inj [OF assms q(1) _ q(2)])
      with q(3) have "ir_expires_at r \<le> now" by simp
      with Some False show ?thesis by (simp add: eq)
    qed
  qed
qed

lemmas repository_methods = NewIdempotencyRepository_def sql_reclaim_def sql_extend_def sql_succeeded_def sql_failed_def

interpretation idem_sql: idem_contract NewIdempotencyRepository table_ok
proof
  fix s :: idem_table
  assume ok: "table_ok s"
  note upd = sql_get_update table_ok_update [OF ok]
  show "GetByScopeAndKeyHash NewIdempotencyRepository sc k s = Some r \<Longrightarrow> ir_scope r = sc \<and> ir_key_hash r = k \<and> 0 < ir_id r" for sc k r
    using sql_get_in [of sc k s r] ok by (auto simp: NewIdempotencyRepository_def table_ok_def)
  show "GetByScopeAndKeyHash NewIdempotencyRepository sc k s = Some r \<Longrightarrow> GetByScopeAndKeyHash NewIdempotencyRepository sc' k' s = Some r'
      \<Longrightarrow> ir_id r = ir_id r' \<Longrightarrow> r = r'" for sc k r sc' k' r'
    using sql_get_in [of sc k s r] sql_get_in [of sc' k' s r'] table_id_inj [OF ok] by (auto simp: NewIdempotencyRepository_def)
  show "GetByScopeAndKeyHash NewIdempotencyRepository (ir_scope r) (ir_key_hash r) s \<noteq> None \<Longrightarrow>
      CreateProcessing NewIdempotencyRepository r s = (None, s)" for r
    by (auto simp: NewIdempotencyRepository_def sql_create_def list_ex_iff dest: sql_get_in)
  show "GetByScopeAndKeyHash NewIdempotencyRepository (ir_scope r) (ir_key_hash r) s = None \<Longrightarrow>
      \<exists>i s'. CreateProcessing NewIdempotencyRepository r s = (Some i, s') \<and> table_ok s' \<and> (\<forall>sc k. GetByScopeAndKeyHash NewIdempotencyRepository sc k s' =
        (if sc = ir_scope r \<and> k = ir_key_hash r then Some (created_row i r) else GetByScopeAndKeyHash NewIdempotencyRepository sc k s))" for r
    using table_ok_create [OF ok, of r] sql_create_get [of r s] by (auto simp: NewIdempotencyRepository_def)
  show "table_ok (snd (TryReclaim NewIdempotencyRepository i from now l e s))
      \<and> GetByScopeAndKeyHash NewIdempotencyRepository sc k (snd (TryReclaim NewIdempotencyRepository i from now l e s)) =
        map_option (\<lambda>r. if reclaimable i from now r then claimed_row l e r else r) (GetByScopeAndKeyHash NewIdempotencyRepository sc k s)"
    for i "from" now l e sc k
    by (simp add: repository_methods upd idem_rows)
  show "GetByScopeAndKeyHash NewIdempotencyRepository sc k s = Some r \<Longrightarrow>
      fst (TryReclaim NewIdempotencyRepository (ir_id r) from now l e s) = reclaimable (ir_id r) from now r" for sc k r "from" now l e
    using update_hits [OF ok, of sc k r "reclaimable (ir_id r) from now"] by (simp add: repository_methods reclaimable_def)
  show "table_ok (snd (ExtendProcessingLock NewIdempotencyRepository i fp l e s))
      \<and> GetByScopeAndKeyHash NewIdempotencyRepository sc k (snd (ExtendProcessingLock NewIdempotencyRepository i fp l e s)) =
        map_option (\<lambda>r. if renewable i fp r then renewed_row l e r else r) (GetByScopeAndKeyHash NewIdempotencyRepository sc k s)"
    for i fp l e sc k
    by (simp add: repository_methods upd idem_rows)
  show "GetByScopeAndKeyHash NewIdempotencyRepository sc k s = Some r \<Longrightarrow>
      fst (ExtendProcessingLock NewIdempotencyRepository (ir_id r) fp l e s) = renewable (ir_id r) fp r" for sc k r fp l e
    using update_hits [OF ok, of sc k r "renewable (ir_id r) fp"] by (simp add: repository_methods renewable_def)
  show "table_ok (MarkSucceeded NewIdempotencyRepository i c b e s)
      \<and> GetByScopeAndKeyHash NewIdempotencyRepository sc k (MarkSucceeded NewIdempotencyRepository i c b e s) =
        map_option (\<lambda>r. if ir_id r = i then succeeded_row c b e r else r) (GetByScopeAndKeyHash NewIdempotencyRepository sc k s)"
    for i c b e sc k
    by (simp add: repository_methods upd idem_rows)
  show "table_ok (MarkFailedRetryable NewIdempotencyRepository i m l e s)
      \<and> GetByScopeAndKeyHash NewIdempotencyRepository sc k (MarkFailedRetryable NewIdempotencyRepository i m l e s) =
        map_option (\<lambda>r. if ir_id r = i then failed_row m l e r else r) (GetByScopeAndKeyHash NewIdempotencyRepository sc k s)"
    for i m l e sc k
    by (simp add: repository_methods upd idem_rows)
  show "table_ok (snd (DeleteExpired NewIdempotencyRepository now n s))
      \<and> (GetByScopeAndKeyHash NewIdempotencyRepository sc k (snd (DeleteExpired NewIdempotencyRepository now n s)) =
        GetByScopeAndKeyHash NewIdempotencyRepository sc k s \<or>
        (GetByScopeAndKeyHash NewIdempotencyRepository sc k (snd (DeleteExpired NewIdempotencyRepository now n s)) = None
          \<and> (\<exists>r. GetByScopeAndKeyHash NewIdempotencyRepository sc k s = Some r \<and> ir_expires_at r \<le> now)))" for now n sc k
    using sql_get_sweep [OF ok] table_ok_sweep [OF ok] by (simp add: NewIdempotencyRepository_def)
qed

end
