(* ===== verification/Idempotency.thy ===== *)
theory Idempotency
  imports IdempotencyStore
begin

text \<open>
  The idempotency coordinator (\<open>service/idempotency.go\<close>). \<open>Execute\<close> runs a side effect at most once per key: it claims a
  record, runs the effect, and stores the outcome; a repeated request replays the stored answer.

  \<open>Execute\<close> is a sequence of calls to the repository. Each position between two calls is a value of \<open>idem_pc\<close>, and
  \<open>idem_call\<close> makes the next call and decides how to go on, so that the same definitions give the sequential function
  and the interleaving of concurrent requests (\<open>idem_step\<close>). Parameters stand for SHA-256 (\<open>hash\<close>), upper-casing,
  the JSON encoder and decoder, the redaction of stored answers, and for the side effect's outcome. Logging and metrics
  are left out.
\<close>

section \<open>Configuration, requests and errors\<close>

record idem_config =
  dc_default_ttl :: duration
  dc_system_ttl :: duration
  dc_processing_timeout :: duration
  dc_backoff :: duration
  dc_max_stored :: int
  dc_observe_only :: bool

definition DefaultIdempotencyConfig :: idem_config where
  "DefaultIdempotencyConfig = \<lparr>dc_default_ttl = 24 * hour, dc_system_ttl = 1 * hour, dc_processing_timeout = 30 * sec,
     dc_backoff = 5 * sec, dc_max_stored = 64 * 1024, dc_observe_only = True\<rparr>"

record 'p idem_options =
  xo_scope :: string
  xo_actor :: string
  xo_method :: string
  xo_route :: string
  xo_key :: string
  xo_payload :: 'p
  xo_ttl :: duration
  xo_require_key :: bool
  xo_timeout :: duration

datatype idem_error = KeyRequired | KeyInvalid | KeyConflict | InProgress "int option" | RetryBackoff "int option"
  | StoreUnavailable | InvalidPayload | ExecutorNil | ScopeRequired | ExecutionFailed string

section \<open>Keys and fingerprints\<close>

definition printable :: "char \<Rightarrow> bool" where
  "printable c \<longleftrightarrow> (let n = of_char c :: nat in 33 \<le> n \<and> n \<le> 126)"

definition NormalizeIdempotencyKey :: "string \<Rightarrow> idem_error + string" where
  "NormalizeIdempotencyKey raw =
     (let key = trim_space raw in
      if key = [] then Inr [] else if length key > 128 then Inl KeyInvalid
      else if list_all printable key then Inr key else Inl KeyInvalid)"

definition newline :: string where "newline = [CHR 0x0A]"

definition BuildIdempotencyFingerprint ::
    "(string \<Rightarrow> string) \<Rightarrow> (string \<Rightarrow> string) \<Rightarrow> ('p \<Rightarrow> string option) \<Rightarrow> string \<Rightarrow> string \<Rightarrow> string \<Rightarrow> 'p \<Rightarrow> idem_error + string" where
  "BuildIdempotencyFingerprint hash upper marshal method route actor payload =
     (let method = (if method = [] then ''POST'' else method); route = (if route = [] then ''/'' else route);
          actor = (if actor = [] then ''anonymous'' else actor)
      in (case marshal payload of None \<Rightarrow> Inl InvalidPayload
          | Some raw \<Rightarrow> Inr (hash (upper method @ newline @ route @ newline @ actor @ newline @ raw))))"

section \<open>Stored answers\<close>

text \<open>\<open>utf8.ValidString\<close>, on bytes.\<close>

fun utf8_valid :: "nat list \<Rightarrow> bool" where
  "utf8_valid [] = True"
| "utf8_valid (a # bs) =
     (if a < 128 then utf8_valid bs
      else case bs of [] \<Rightarrow> False
        | b # cs \<Rightarrow>
            if 194 \<le> a \<and> a \<le> 223 then tail_byte b \<and> utf8_valid cs
            else case cs of [] \<Rightarrow> False
              | c # ds \<Rightarrow>
                  if 224 \<le> a \<and> a \<le> 239
                  then tail_byte b \<and> (a = 224 \<longrightarrow> 160 \<le> b) \<and> (a = 237 \<longrightarrow> b \<le> 159) \<and> tail_byte c \<and> utf8_valid ds
                  else case ds of [] \<Rightarrow> False
                    | d # es \<Rightarrow> 240 \<le> a \<and> a \<le> 244 \<and> tail_byte b \<and> (a = 240 \<longrightarrow> 144 \<le> b) \<and> (a = 244 \<longrightarrow> b \<le> 143)
                        \<and> tail_byte c \<and> tail_byte d \<and> utf8_valid es)"

definition ValidString :: "string \<Rightarrow> bool" where
  "ValidString s \<longleftrightarrow> utf8_valid (map of_char s)"

fun shrink_utf8 :: "string \<Rightarrow> nat \<Rightarrow> nat" where
  "shrink_utf8 s 0 = 0"
| "shrink_utf8 s (Suc n) = (if ValidString (take (Suc n) s) then Suc n else shrink_utf8 s n)"

definition truncateUTF8 :: "string \<Rightarrow> int \<Rightarrow> string" where
  "truncateUTF8 s maxBytes =
     (if maxBytes \<le> 0 \<or> int (length s) \<le> maxBytes then s else take (shrink_utf8 s (nat maxBytes)) s)"

definition marshalStoredResponse :: "('d \<Rightarrow> string option) \<Rightarrow> (string \<Rightarrow> string) \<Rightarrow> idem_config \<Rightarrow> 'd \<Rightarrow> string option" where
  "marshalStoredResponse marshal redact cfg data =
     (case marshal data of None \<Rightarrow> None
      | Some raw \<Rightarrow>
          (let redacted = redact raw in
           Some (if dc_max_stored cfg > 0 \<and> int (length redacted) > dc_max_stored cfg
                 then truncateUTF8 redacted (dc_max_stored cfg) @ ''...(truncated)'' else redacted)))"

text \<open>\<open>empty_obj\<close> is Go's empty_obj JSON object, \<open>unmarshal\<close> the decoder.\<close>

definition decodeStoredResponse :: "(string \<Rightarrow> 'd option) \<Rightarrow> 'd \<Rightarrow> string option \<Rightarrow> 'd option" where
  "decodeStoredResponse unmarshal empty_obj stored =
     (case stored of None \<Rightarrow> Some empty_obj
      | Some s \<Rightarrow> if trim_space s = [] then Some empty_obj else unmarshal s)"

text \<open>The answer to a busy client; \<open>Seconds\<close> is truncated toward zero.\<close>

definition retry_after :: "gotime option \<Rightarrow> gotime \<Rightarrow> int option" where
  "retry_after locked now =
     (case locked of None \<Rightarrow> None
      | Some l \<Rightarrow> (let s = godiv (time_sub l now) sec in Some (if s \<le> 0 then 1 else s)))"

section \<open>The claim\<close>

text \<open>What a request brings to the repository: its record (without an id) and its clock reading.\<close>

record idem_claim =
  cl_record :: idem_record
  cl_now :: gotime
  cl_ttl :: duration

abbreviation cl_scope :: "idem_claim \<Rightarrow> string" where "cl_scope c \<equiv> ir_scope (cl_record c)"
abbreviation cl_key :: "idem_claim \<Rightarrow> string" where "cl_key c \<equiv> ir_key_hash (cl_record c)"
abbreviation cl_fp :: "idem_claim \<Rightarrow> string" where "cl_fp c \<equiv> ir_fingerprint (cl_record c)"
abbreviation cl_expires :: "idem_claim \<Rightarrow> gotime" where "cl_expires c \<equiv> ir_expires_at (cl_record c)"

definition cl_locked :: "idem_config \<Rightarrow> idem_claim \<Rightarrow> gotime" where
  "cl_locked cfg c = cl_now c + dc_processing_timeout cfg"

text \<open>The part of \<open>Execute\<close> before the first call: no claim (\<open>None\<close>) means that the effect runs unguarded.\<close>

definition prepare ::
    "(string \<Rightarrow> string) \<Rightarrow> (string \<Rightarrow> string) \<Rightarrow> ('p \<Rightarrow> string option) \<Rightarrow> idem_config \<Rightarrow> bool \<Rightarrow> bool \<Rightarrow> gotime \<Rightarrow> 'p idem_options
      \<Rightarrow> idem_error + idem_claim option" where
  "prepare hash upper marshal cfg has_repo has_executor now opts =
     (if \<not> has_executor then Inl ExecutorNil
      else (case NormalizeIdempotencyKey (xo_key opts) of Inl e \<Rightarrow> Inl e
        | Inr key \<Rightarrow>
            if key = [] then (if xo_require_key opts \<and> \<not> dc_observe_only cfg then Inl KeyRequired else Inr None)
            else if \<not> has_repo then Inl StoreUnavailable
            else if xo_scope opts = [] then Inl ScopeRequired
            else (case BuildIdempotencyFingerprint hash upper marshal (xo_method opts) (xo_route opts) (xo_actor opts) (xo_payload opts) of
                    Inl e \<Rightarrow> Inl e
                  | Inr fp \<Rightarrow>
                      (let ttl = (if xo_ttl opts \<le> 0 then dc_default_ttl cfg else xo_ttl opts)
                       in Inr (Some \<lparr>cl_record = \<lparr>ir_id = 0, ir_scope = xo_scope opts, ir_key_hash = hash key, ir_fingerprint = fp,
                              ir_status = status_processing, ir_response_status = None, ir_response_body = None, ir_error_reason = None,
                              ir_locked_until = Some (now + dc_processing_timeout cfg), ir_expires_at = now + ttl\<rparr>,
                            cl_now = now, cl_ttl = ttl\<rparr>)))))"
section \<open>Between two calls\<close>

datatype 'd idem_pc =
    PcCreate
  | PcGet
  | PcReclaimExpired idem_record
  | PcGetAgain
  | PcReclaimFailed idem_record
  | PcRun int
  | PcSucceed int 'd string gotime
  | PcFail int string string gotime gotime
  | PcDone "idem_error + 'd \<times> bool"

text \<open>An id of 0 is refused before the effect runs.\<close>

definition start_run :: "int \<Rightarrow> 'd idem_pc" where
  "start_run i = (if i = 0 then PcDone (Inl StoreUnavailable) else PcRun i)"

text \<open>The switch over the status of an existing record.\<close>

definition by_status :: "(string \<Rightarrow> 'd option) \<Rightarrow> 'd \<Rightarrow> gotime \<Rightarrow> idem_record \<Rightarrow> 'd idem_pc" where
  "by_status unmarshal empty_obj now r =
     (if ir_status r = status_succeeded then
        (case decodeStoredResponse unmarshal empty_obj (ir_response_body r) of None \<Rightarrow> PcDone (Inl StoreUnavailable)
         | Some d \<Rightarrow> PcDone (Inr (d, True)))
      else if ir_status r = status_processing then PcDone (Inl (InProgress (retry_after (ir_locked_until r) now)))
      else if ir_status r = status_failed then
        (case ir_locked_until r of
           Some l \<Rightarrow> if l > now then PcDone (Inl (RetryBackoff (retry_after (ir_locked_until r) now))) else PcReclaimFailed r
         | None \<Rightarrow> PcReclaimFailed r)
      else PcDone (Inl KeyConflict))"

definition after_get :: "(string \<Rightarrow> 'd option) \<Rightarrow> 'd \<Rightarrow> idem_claim \<Rightarrow> idem_record option \<Rightarrow> 'd idem_pc" where
  "after_get unmarshal empty_obj c existing =
     (case existing of None \<Rightarrow> PcDone (Inl StoreUnavailable)
      | Some r \<Rightarrow>
          if ir_fingerprint r \<noteq> cl_fp c then PcDone (Inl KeyConflict)
          else if \<not> ir_expires_at r > cl_now c then PcReclaimExpired r
          else by_status unmarshal empty_obj (cl_now c) r)"

definition after_get_again :: "(string \<Rightarrow> 'd option) \<Rightarrow> 'd \<Rightarrow> idem_claim \<Rightarrow> idem_record option \<Rightarrow> 'd idem_pc" where
  "after_get_again unmarshal empty_obj c latest =
     (case latest of None \<Rightarrow> PcDone (Inl StoreUnavailable)
      | Some r \<Rightarrow>
          if ir_fingerprint r \<noteq> cl_fp c then PcDone (Inl KeyConflict) else by_status unmarshal empty_obj (cl_now c) r)"

text \<open>One call to the repository.\<close>

definition idem_call ::
    "'s idem_repository \<Rightarrow> idem_config \<Rightarrow> (string \<Rightarrow> 'd option) \<Rightarrow> 'd \<Rightarrow> idem_claim \<Rightarrow> 'd idem_pc \<Rightarrow> 's \<Rightarrow> 'd idem_pc \<times> 's" where
  "idem_call repo cfg unmarshal empty_obj c pc s =
     (case pc of
        PcCreate \<Rightarrow>
          (case CreateProcessing repo (cl_record c) s of (Some i, s) \<Rightarrow> (start_run i, s) | (None, s) \<Rightarrow> (PcGet, s))
      | PcGet \<Rightarrow> (after_get unmarshal empty_obj c (GetByScopeAndKeyHash repo (cl_scope c) (cl_key c) s), s)
      | PcReclaimExpired r \<Rightarrow>
          (case TryReclaim repo (ir_id r) (ir_status r) (cl_now c) (cl_locked cfg c) (cl_expires c) s of
             (taken, s) \<Rightarrow> (if taken then start_run (ir_id r) else PcGetAgain, s))
      | PcGetAgain \<Rightarrow> (after_get_again unmarshal empty_obj c (GetByScopeAndKeyHash repo (cl_scope c) (cl_key c) s), s)
      | PcReclaimFailed r \<Rightarrow>
          (case TryReclaim repo (ir_id r) status_failed (cl_now c) (cl_locked cfg c) (cl_expires c) s of
             (taken, s) \<Rightarrow> (if taken then start_run (ir_id r)
                           else PcDone (Inl (InProgress (retry_after (ir_locked_until r) (cl_now c)))), s))
      | PcRun i \<Rightarrow> (PcRun i, s)
      | PcSucceed i d body expires \<Rightarrow> (PcDone (Inr (d, False)), MarkSucceeded repo i 200 body expires s)
      | PcFail i err reason backoff expires \<Rightarrow> (PcDone (Inl (ExecutionFailed err)), MarkFailedRetryable repo i reason backoff expires s)
      | PcDone r \<Rightarrow> (PcDone r, s))"

text \<open>How the request goes on when the call reports an error.\<close>

definition call_error :: "'d idem_pc \<Rightarrow> 'd idem_pc" where
  "call_error pc = (case pc of PcFail i err reason backoff expires \<Rightarrow> PcDone (Inl (ExecutionFailed err)) | _ \<Rightarrow> PcDone (Inl StoreUnavailable))"

text \<open>After the effect: \<open>outcome\<close> is its result or the reason of its error, \<open>later\<close> the clock. With an execution timeout the
  record's life is counted from here.\<close>

definition after_run ::
    "('d \<Rightarrow> string option) \<Rightarrow> (string \<Rightarrow> string) \<Rightarrow> idem_config \<Rightarrow> bool \<Rightarrow> idem_claim \<Rightarrow> int \<Rightarrow> gotime \<Rightarrow> string + 'd \<Rightarrow> 'd idem_pc" where
  "after_run marshal redact cfg timed c i later outcome =
     (let expires = (if timed then later + cl_ttl c else cl_expires c) in
      case outcome of
        Inl reason \<Rightarrow> PcFail i reason (if reason = [] then ''EXECUTION_FAILED'' else reason) (later + dc_backoff cfg) expires
      | Inr d \<Rightarrow> (case marshalStoredResponse marshal redact cfg d of None \<Rightarrow> PcDone (Inl StoreUnavailable)
                 | Some body \<Rightarrow> PcSucceed i d body expires))"

text \<open>The lease that a long execution renews (\<open>renewProcessingLease\<close>): interval of the ticker, and one renewal.\<close>

definition renew_lease :: "idem_config \<Rightarrow> duration" where
  "renew_lease cfg = (if dc_processing_timeout cfg \<le> 0 then dc_processing_timeout DefaultIdempotencyConfig else dc_processing_timeout cfg)"

definition renew_interval :: "idem_config \<Rightarrow> duration \<Rightarrow> duration" where
  "renew_interval cfg ttl =
     (let interval = min (godiv (renew_lease cfg) 3) (godiv ttl 3) in if interval < ms then ms else interval)"

definition renew_once :: "'s idem_repository \<Rightarrow> idem_config \<Rightarrow> idem_claim \<Rightarrow> int \<Rightarrow> gotime \<Rightarrow> 's \<Rightarrow> bool \<times> 's" where
  "renew_once repo cfg c i now = ExtendProcessingLock repo i (cl_fp c) (now + renew_lease cfg) (now + cl_ttl c)"

section \<open>The sequential function\<close>

text \<open>The calls up to the effect. Five are enough (\<open>claim_calls_enough\<close>).\<close>

fun claim_calls ::
    "nat \<Rightarrow> 's idem_repository \<Rightarrow> idem_config \<Rightarrow> (string \<Rightarrow> 'd option) \<Rightarrow> 'd \<Rightarrow> idem_claim \<Rightarrow> 'd idem_pc \<Rightarrow> 's \<Rightarrow> 'd idem_pc \<times> 's" where
  "claim_calls 0 repo cfg unmarshal empty_obj c pc s = (pc, s)"
| "claim_calls (Suc n) repo cfg unmarshal empty_obj c pc s =
     (case idem_call repo cfg unmarshal empty_obj c pc s of (pc, s) \<Rightarrow> claim_calls n repo cfg unmarshal empty_obj c pc s)"

text \<open>\<open>Execute\<close> when the store works: its result, the new store, and whether the effect was run.\<close>

definition Execute ::
    "(string \<Rightarrow> string) \<Rightarrow> (string \<Rightarrow> string) \<Rightarrow> ('p \<Rightarrow> string option) \<Rightarrow> ('d \<Rightarrow> string option) \<Rightarrow> (string \<Rightarrow> string) \<Rightarrow> (string \<Rightarrow> 'd option) \<Rightarrow> 'd
      \<Rightarrow> idem_config \<Rightarrow> 's idem_repository \<Rightarrow> gotime \<Rightarrow> gotime \<Rightarrow> string + 'd \<Rightarrow> 'p idem_options \<Rightarrow> 's
      \<Rightarrow> (idem_error + 'd \<times> bool) \<times> 's \<times> bool" where
  "Execute hash upper marshal_payload marshal redact unmarshal empty_obj cfg repo now later outcome opts s =
     (case prepare hash upper marshal_payload cfg True True now opts of
        Inl e \<Rightarrow> (Inl e, s, False)
      | Inr None \<Rightarrow> ((case outcome of Inl reason \<Rightarrow> Inl (ExecutionFailed reason) | Inr d \<Rightarrow> Inr (d, False)), s, True)
      | Inr (Some c) \<Rightarrow>
          (case claim_calls 5 repo cfg unmarshal empty_obj c PcCreate s of
             (PcRun i, s) \<Rightarrow>
               (case idem_call repo cfg unmarshal empty_obj c (after_run marshal redact cfg (xo_timeout opts > 0) c i later outcome) s of
                  (PcDone r, s) \<Rightarrow> (r, s, True) | (_, s) \<Rightarrow> (Inl StoreUnavailable, s, True))
           | (PcDone r, s) \<Rightarrow> (r, s, False)
           | (_, s) \<Rightarrow> (Inl StoreUnavailable, s, False)))"

section \<open>Concurrent requests\<close>

text \<open>
  A world of requests that share a store. \<open>lo\<close> and \<open>hi\<close> bound the clock readings of a period that is no longer than any
  record's life: within it no record expires. A call may fail, and a failed call may still have taken effect. The log
  is a ghost: every run of an effect with its key, its fingerprint and whether it succeeded.
\<close>

record ('d, 's) idem_world =
  wo_store :: 's
  wo_reqs :: "nat \<Rightarrow> (idem_claim \<times> 'd idem_pc) option"
  wo_log :: "((string \<times> string) \<times> string \<times> bool) list"

fun owner :: "'d idem_pc \<Rightarrow> int option" where
  "owner (PcRun i) = Some i"
| "owner (PcSucceed i d body e) = Some i"
| "owner (PcFail i err reason b e) = Some i"
| "owner _ = None"

fun is_call :: "'d idem_pc \<Rightarrow> bool" where
  "is_call (PcRun i) = False"
| "is_call (PcDone r) = False"
| "is_call _ = True"

inductive idem_step for
    repo :: "'s idem_repository" and cfg :: idem_config and hash upper :: "string \<Rightarrow> string" and mp :: "'p \<Rightarrow> string option"
    and marshal :: "'d \<Rightarrow> string option" and redact :: "string \<Rightarrow> string" and unmarshal :: "string \<Rightarrow> 'd option" and empty_obj :: 'd
    and lo hi :: gotime where
  arrive: "wo_reqs w n = None \<Longrightarrow> lo \<le> now \<Longrightarrow> now < hi \<Longrightarrow> prepare hash upper mp cfg True True now opts = Inr (Some c) \<Longrightarrow>
    hi - lo \<le> cl_ttl c \<Longrightarrow>
    idem_step repo cfg hash upper mp marshal redact unmarshal empty_obj lo hi w (w\<lparr>wo_reqs := (wo_reqs w)(n \<mapsto> (c, PcCreate))\<rparr>)"
| call: "wo_reqs w n = Some (c, pc) \<Longrightarrow> idem_call repo cfg unmarshal empty_obj c pc (wo_store w) = (pc', s) \<Longrightarrow>
    idem_step repo cfg hash upper mp marshal redact unmarshal empty_obj lo hi w
      (w\<lparr>wo_store := s, wo_reqs := (wo_reqs w)(n \<mapsto> (c, pc'))\<rparr>)"
| call_fails: "wo_reqs w n = Some (c, pc) \<Longrightarrow> is_call pc \<Longrightarrow>
    s = wo_store w \<or> s = snd (idem_call repo cfg unmarshal empty_obj c pc (wo_store w)) \<Longrightarrow>
    idem_step repo cfg hash upper mp marshal redact unmarshal empty_obj lo hi w
      (w\<lparr>wo_store := s, wo_reqs := (wo_reqs w)(n \<mapsto> (c, call_error pc))\<rparr>)"
| run: "wo_reqs w n = Some (c, PcRun i) \<Longrightarrow> lo \<le> later \<Longrightarrow>
    idem_step repo cfg hash upper mp marshal redact unmarshal empty_obj lo hi w
      (w\<lparr>wo_reqs := (wo_reqs w)(n \<mapsto> (c, after_run marshal redact cfg timed c i later outcome)),
         wo_log := wo_log w @ [((cl_scope c, cl_key c), cl_fp c, (case outcome of Inl reason \<Rightarrow> False | Inr d \<Rightarrow> True))]\<rparr>)"
| renew: "wo_reqs w n = Some (c, pc) \<Longrightarrow> owner pc = Some i \<Longrightarrow> lo \<le> later \<Longrightarrow>
    idem_step repo cfg hash upper mp marshal redact unmarshal empty_obj lo hi w
      (w\<lparr>wo_store := snd (renew_once repo cfg c i later (wo_store w))\<rparr>)"
| sweep: "now < hi \<Longrightarrow>
    idem_step repo cfg hash upper mp marshal redact unmarshal empty_obj lo hi w
      (w\<lparr>wo_store := snd (DeleteExpired repo now limit (wo_store w))\<rparr>)"

inductive idem_reach for
    repo :: "'s idem_repository" and cfg :: idem_config and hash upper :: "string \<Rightarrow> string" and mp :: "'p \<Rightarrow> string option"
    and marshal :: "'d \<Rightarrow> string option" and redact :: "string \<Rightarrow> string" and unmarshal :: "string \<Rightarrow> 'd option" and empty_obj :: 'd
    and lo hi :: gotime and s0 :: 's where
  init: "idem_reach repo cfg hash upper mp marshal redact unmarshal empty_obj lo hi s0 \<lparr>wo_store = s0, wo_reqs = Map.empty, wo_log = []\<rparr>"
| step: "idem_reach repo cfg hash upper mp marshal redact unmarshal empty_obj lo hi s0 w \<Longrightarrow>
    idem_step repo cfg hash upper mp marshal redact unmarshal empty_obj lo hi w w' \<Longrightarrow>
    idem_reach repo cfg hash upper mp marshal redact unmarshal empty_obj lo hi s0 w'"

section \<open>The invariant\<close>

text \<open>\<open>G\<close> is the lookup function of the store.\<close>

definition rows_inv :: "gotime \<Rightarrow> (string \<Rightarrow> string \<Rightarrow> idem_record option) \<Rightarrow> bool" where
  "rows_inv hi G \<longleftrightarrow> (\<forall>sc k r. G sc k = Some r \<longrightarrow> hi \<le> ir_expires_at r)
     \<and> (\<forall>sc k r sc' k' r'. G sc k = Some r \<longrightarrow> G sc' k' = Some r' \<longrightarrow> ir_id r = ir_id r' \<longrightarrow> sc = sc' \<and> k = k')"

definition claim_inv :: "gotime \<Rightarrow> gotime \<Rightarrow> idem_claim \<Rightarrow> bool" where
  "claim_inv lo hi c \<longleftrightarrow> cl_now c < hi \<and> hi \<le> cl_expires c \<and> hi \<le> lo + cl_ttl c \<and> ir_status (cl_record c) = status_processing"

definition known :: "(string \<Rightarrow> string \<Rightarrow> idem_record option) \<Rightarrow> idem_claim \<Rightarrow> int \<Rightarrow> bool" where
  "known G c i \<longleftrightarrow> (\<exists>q. G (cl_scope c) (cl_key c) = Some q \<and> ir_id q = i \<and> ir_fingerprint q = cl_fp c)"

definition owns :: "(string \<Rightarrow> string \<Rightarrow> idem_record option) \<Rightarrow> idem_claim \<Rightarrow> int \<Rightarrow> bool" where
  "owns G c i \<longleftrightarrow> (\<exists>q. G (cl_scope c) (cl_key c) = Some q \<and> ir_id q = i \<and> ir_fingerprint q = cl_fp c \<and> ir_status q = status_processing)"

definition pc_inv :: "gotime \<Rightarrow> (string \<Rightarrow> string \<Rightarrow> idem_record option) \<Rightarrow> idem_claim \<Rightarrow> 'd idem_pc \<Rightarrow> bool" where
  "pc_inv hi G c pc \<longleftrightarrow>
     (case pc of PcReclaimExpired r \<Rightarrow> False | PcReclaimFailed r \<Rightarrow> known G c (ir_id r)
      | PcRun i \<Rightarrow> owns G c i | PcSucceed i d b e \<Rightarrow> owns G c i \<and> hi \<le> e | PcFail i m r b e \<Rightarrow> owns G c i \<and> hi \<le> e | _ \<Rightarrow> True)"

definition reqs_inv :: "gotime \<Rightarrow> gotime \<Rightarrow> (string \<Rightarrow> string \<Rightarrow> idem_record option) \<Rightarrow> (nat \<Rightarrow> (idem_claim \<times> 'd idem_pc) option) \<Rightarrow> bool" where
  "reqs_inv lo hi G reqs \<longleftrightarrow> (\<forall>n c pc. reqs n = Some (c, pc) \<longrightarrow> claim_inv lo hi c \<and> pc_inv hi G c pc)
     \<and> (\<forall>n c pc m c' pc'. reqs n = Some (c, pc) \<longrightarrow> reqs m = Some (c', pc') \<longrightarrow> owner pc \<noteq> None \<longrightarrow> owner pc = owner pc' \<longrightarrow> n = m)"

fun succeeding :: "'d idem_pc \<Rightarrow> bool" where
  "succeeding (PcSucceed i d b e) = True"
| "succeeding _ = False"

definition settled :: "(string \<Rightarrow> string \<Rightarrow> idem_record option) \<Rightarrow> (nat \<Rightarrow> (idem_claim \<times> 'd idem_pc) option) \<Rightarrow> string \<times> string \<Rightarrow> bool" where
  "settled G reqs key \<longleftrightarrow> (\<exists>q. G (fst key) (snd key) = Some q \<and> ir_status q \<noteq> status_failed
     \<and> (\<forall>n c pc. reqs n = Some (c, pc) \<longrightarrow> owner pc = Some (ir_id q) \<longrightarrow> succeeding pc))"

definition log_inv :: "(string \<Rightarrow> string \<Rightarrow> idem_record option) \<Rightarrow> (nat \<Rightarrow> (idem_claim \<times> 'd idem_pc) option)
    \<Rightarrow> ((string \<times> string) \<times> string \<times> bool) list \<Rightarrow> bool" where
  "log_inv G reqs log \<longleftrightarrow>
     (\<forall>(key, fp, okay) \<in> set log. (\<exists>q. G (fst key) (snd key) = Some q \<and> ir_fingerprint q = fp) \<and> (okay \<longrightarrow> settled G reqs key))
     \<and> sorted_wrt (\<lambda>(key, fp, okay) (key', fp', okay'). key = key' \<longrightarrow> \<not> okay) log"

definition idem_inv where
  "idem_inv lo hi G reqs log \<longleftrightarrow> rows_inv hi G \<and> reqs_inv lo hi G reqs \<and> log_inv G reqs log"

lemma log_inv_mono:
  assumes "log_inv G reqs log"
    and "\<And>key fp q. G (fst key) (snd key) = Some q \<Longrightarrow> \<exists>q'. G' (fst key) (snd key) = Some q' \<and> ir_fingerprint q' = ir_fingerprint q"
    and "\<And>key fp. (key, fp, True) \<in> set log \<Longrightarrow> settled G reqs key \<Longrightarrow> settled G' reqs' key"
  shows "log_inv G' reqs' log"
  unfolding log_inv_def
proof (intro conjI ballI, clarify)
  fix sc k fp okay assume e: "((sc, k), fp, okay) \<in> set log"
  with assms(1) have o: "(\<exists>q. G sc k = Some q \<and> ir_fingerprint q = fp) \<and> (okay \<longrightarrow> settled G reqs (sc, k))"
    unfolding log_inv_def by force
  from o have "\<exists>q'. G' sc k = Some q' \<and> ir_fingerprint q' = fp" using assms(2) [of "(sc, k)"] by auto
  moreover have "okay \<longrightarrow> settled G' reqs' (sc, k)" using o assms(3) [of "(sc, k)" fp] e by (cases okay) simp_all
  ultimately show "(\<exists>q. G' (fst (sc, k)) (snd (sc, k)) = Some q \<and> ir_fingerprint q = fp) \<and> (okay \<longrightarrow> settled G' reqs' (sc, k))"
    by simp
qed (use assms(1) in \<open>simp add: log_inv_def\<close>)

text \<open>A request that stops owning, or never owned, does no harm.\<close>

lemma inv_drop:
  assumes "idem_inv lo hi G reqs log" "claim_inv lo hi c" "owner pc = None" "pc_inv hi G c pc"
  shows "idem_inv lo hi G (reqs(n \<mapsto> (c, pc))) log"
proof -
  have "settled G reqs key \<Longrightarrow> settled G (reqs(n \<mapsto> (c, pc))) key" for key
    using assms(3) unfolding settled_def by auto
  with assms(1) have "log_inv G (reqs(n \<mapsto> (c, pc))) log" unfolding idem_inv_def by (blast intro: log_inv_mono)
  moreover have "reqs_inv lo hi G (reqs(n \<mapsto> (c, pc)))"
    using assms unfolding idem_inv_def reqs_inv_def by (auto split: if_splits)
  ultimately show ?thesis using assms(1) by (simp add: idem_inv_def)
qed

definition upd_rows where
  "upd_rows hit f (G :: string \<Rightarrow> string \<Rightarrow> idem_record option) = (\<lambda>sc k. map_option (\<lambda>r. if hit r then f r else r) (G sc k))"

lemma upd_rows_Some: "G sc k = Some q \<Longrightarrow> upd_rows hit f G sc k = Some (if hit q then f q else q)"
  by (simp add: upd_rows_def)

text \<open>A change of rows that keeps ids, fingerprints and lives, and spoils neither a running request nor a settled key.\<close>

lemma inv_update:
  assumes inv: "idem_inv lo hi G reqs log" and keep: "\<And>r. ir_id (f r) = ir_id r \<and> ir_fingerprint (f r) = ir_fingerprint r"
    and life: "\<And>r. hit r \<Longrightarrow> hi \<le> ir_expires_at (f r)"
    and run: "\<And>n c pc q. reqs n = Some (c, pc) \<Longrightarrow> owner pc = Some (ir_id q) \<Longrightarrow> hit q \<Longrightarrow> ir_status q = status_processing
      \<Longrightarrow> ir_status (f q) = status_processing"
    and settle: "\<And>key fp q. (key, fp, True) \<in> set log \<Longrightarrow> G (fst key) (snd key) = Some q \<Longrightarrow> hit q \<Longrightarrow> ir_status q \<noteq> status_failed
      \<Longrightarrow> ir_status (f q) \<noteq> status_failed"
  shows "idem_inv lo hi (upd_rows hit f G) reqs log"
proof -
  have rows: "rows_inv hi (upd_rows hit f G)"
    using inv keep life unfolding idem_inv_def rows_inv_def upd_rows_def by (auto split: if_splits)
  have known: "known (upd_rows hit f G) c i" if "known G c i" for c i
    using that keep by (fastforce simp: known_def upd_rows_Some)
  have owns: "owns (upd_rows hit f G) c i" if "owns G c i" "reqs n = Some (c, pc)" "owner pc = Some i" for c i n pc
  proof -
    from that(1) obtain q where q: "G (cl_scope c) (cl_key c) = Some q" "ir_id q = i" "ir_fingerprint q = cl_fp c"
      "ir_status q = status_processing" by (auto simp: owns_def)
    with run [OF that(2), of q] that(3) keep show ?thesis by (auto simp: owns_def upd_rows_Some)
  qed
  have reqs: "reqs_inv lo hi (upd_rows hit f G) reqs"
    unfolding reqs_inv_def
  proof (intro conjI allI impI)
    fix n c pc assume n: "reqs n = Some (c, pc)"
    with inv have "claim_inv lo hi c" "pc_inv hi G c pc" by (auto simp: idem_inv_def reqs_inv_def)
    then show "claim_inv lo hi c" "pc_inv hi (upd_rows hit f G) c pc"
      using known owns [OF _ n] by (auto simp: pc_inv_def split: idem_pc.splits)
  qed (use inv in \<open>unfold idem_inv_def reqs_inv_def, blast\<close>)
  have s: "settled (upd_rows hit f G) reqs key" if "settled G reqs key" "(key, fp, True) \<in> set log" for key fp
  proof -
    from that(1) obtain q where q: "G (fst key) (snd key) = Some q" "ir_status q \<noteq> status_failed"
      "\<forall>n c pc. reqs n = Some (c, pc) \<longrightarrow> owner pc = Some (ir_id q) \<longrightarrow> succeeding pc" by (auto simp: settled_def)
    with settle [OF that(2) q(1)] keep [of q] show ?thesis by (auto simp: settled_def upd_rows_Some)
  qed
  have l: "log_inv G reqs log" using inv by (simp add: idem_inv_def)
  have "log_inv (upd_rows hit f G) reqs log"
    by (rule log_inv_mono [OF l]) (simp_all add: upd_rows_Some keep s)
  with rows reqs show ?thesis by (simp add: idem_inv_def)
qed

text \<open>A new row disturbs nobody.\<close>

lemma inv_extend:
  assumes inv: "idem_inv lo hi G reqs log" and new: "rows_inv hi G'" and ext: "\<And>sc k r. G sc k = Some r \<Longrightarrow> G' sc k = Some r"
  shows "idem_inv lo hi G' reqs log"
proof -
  have "pc_inv hi G c pc \<Longrightarrow> pc_inv hi G' c pc" for c and pc :: "'a idem_pc"
    using ext by (auto simp: pc_inv_def known_def owns_def split: idem_pc.splits)
  then have "reqs_inv lo hi G' reqs" using inv unfolding idem_inv_def reqs_inv_def by blast
  moreover have "settled G reqs key \<Longrightarrow> settled G' reqs key" for key
    using ext unfolding settled_def by blast
  then have "log_inv G' reqs log" using inv ext unfolding idem_inv_def by (blast intro: log_inv_mono)
  ultimately show ?thesis using new by (simp add: idem_inv_def)
qed

text \<open>A request becomes the owner of a row that nobody owns and that no success has settled.\<close>

lemma inv_own:
  assumes inv: "idem_inv lo hi G reqs log" and n: "reqs n = Some (c, pc0)" and o: "owns G c i"
    and free: "\<And>m c' pc'. reqs m = Some (c', pc') \<Longrightarrow> owner pc' \<noteq> Some i"
    and open': "\<And>key fp q. (key, fp, True) \<in> set log \<Longrightarrow> G (fst key) (snd key) = Some q \<Longrightarrow> ir_id q \<noteq> i"
  shows "idem_inv lo hi G (reqs(n \<mapsto> (c, PcRun i))) log"
proof -
  have "reqs_inv lo hi G (reqs(n \<mapsto> (c, PcRun i)))"
    unfolding reqs_inv_def
  proof (intro conjI allI impI)
    fix m c' pc' assume m: "(reqs(n \<mapsto> (c, PcRun i))) m = Some (c', pc')"
    have old: "reqs k = Some (d, p) \<Longrightarrow> claim_inv lo hi d \<and> pc_inv hi G d p" for k d p
      using inv by (auto simp: idem_inv_def reqs_inv_def)
    show "claim_inv lo hi c'" using m old n by (auto split: if_splits)
    show "pc_inv hi G c' pc'" using m old o by (auto simp: pc_inv_def split: if_splits)
  next
    fix m c' pc' k d p
    assume "(reqs(n \<mapsto> (c, PcRun i))) m = Some (c', pc')" "(reqs(n \<mapsto> (c, PcRun i))) k = Some (d, p)"
      "owner pc' \<noteq> None" "owner pc' = owner p"
    then show "m = k" using inv free unfolding idem_inv_def reqs_inv_def
      by (auto split: if_splits)
  qed
  have s: "settled G (reqs(n \<mapsto> (c, PcRun i))) key" if "settled G reqs key" "(key, fp, True) \<in> set log" for key fp
    using that(1) open' [OF that(2)] unfolding settled_def by (auto split: if_splits)
  have l: "log_inv G reqs log" using inv by (simp add: idem_inv_def)
  have "log_inv G (reqs(n \<mapsto> (c, PcRun i))) log"
    by (rule log_inv_mono [OF l]) (simp_all add: s)
  with \<open>reqs_inv lo hi G (reqs(n \<mapsto> (c, PcRun i)))\<close> show ?thesis using inv by (simp add: idem_inv_def)
qed

text \<open>The effect has run: the request stays the owner, or gives up.\<close>

lemma inv_run:
  assumes inv: "idem_inv lo hi G reqs log" and n: "reqs n = Some (c, PcRun i)"
    and pc: "owner pc = Some i \<or> owner pc = None" "pc_inv hi G c pc" and okay: "okay \<longrightarrow> owner pc = Some i \<longrightarrow> succeeding pc"
  shows "idem_inv lo hi G (reqs(n \<mapsto> (c, pc))) (log @ [((cl_scope c, cl_key c), cl_fp c, okay)])"
proof -
  let ?reqs = "reqs(n \<mapsto> (c, pc))" and ?key = "(cl_scope c, cl_key c)"
  from inv n have "pc_inv hi G c (PcRun i :: 'a idem_pc)" unfolding idem_inv_def reqs_inv_def by blast
  then obtain q where q: "G (cl_scope c) (cl_key c) = Some q" "ir_id q = i" "ir_fingerprint q = cl_fp c" "ir_status q = status_processing"
    by (auto simp: owns_def pc_inv_def)
  have uniq: "m = n" if "reqs m = Some (c', pc')" "owner pc' = Some i" for m c' pc'
    using inv n that unfolding idem_inv_def reqs_inv_def by (metis option.distinct(1) owner.simps(1))
  have other: "settled G ?reqs key" if "settled G reqs key" for key
  proof -
    from that obtain r where r: "G (fst key) (snd key) = Some r" "ir_status r \<noteq> status_failed"
      "\<forall>n c pc. reqs n = Some (c, pc) \<longrightarrow> owner pc = Some (ir_id r) \<longrightarrow> succeeding pc" by (auto simp: settled_def)
    then have "ir_id r \<noteq> i" using n by force
    with r pc(1) show ?thesis unfolding settled_def by (auto split: if_splits)
  qed
  have fresh: "\<not> settled G reqs ?key"
  proof
    assume "settled G reqs ?key"
    then have "\<forall>n c pc. reqs n = Some (c, pc) \<longrightarrow> owner pc = Some i \<longrightarrow> succeeding pc"
      using q(1,2) unfolding settled_def by auto
    with n have "succeeding (PcRun i :: 'a idem_pc)" by (metis owner.simps(1))
    then show False by simp
  qed
  have new: "okay \<Longrightarrow> settled G ?reqs ?key"
    unfolding settled_def using q okay uniq by (auto split: if_splits)
  have "reqs_inv lo hi G ?reqs"
    unfolding reqs_inv_def
  proof (intro conjI allI impI)
    fix m c' pc' assume m: "?reqs m = Some (c', pc')"
    have old: "reqs k = Some (d, p) \<Longrightarrow> claim_inv lo hi d \<and> pc_inv hi G d p" for k d p
      using inv by (auto simp: idem_inv_def reqs_inv_def)
    show "claim_inv lo hi c'" using m old n by (auto split: if_splits)
    show "pc_inv hi G c' pc'" using m old pc by (auto split: if_splits)
  next
    fix m c' pc' k d p
    assume "?reqs m = Some (c', pc')" "?reqs k = Some (d, p)" "owner pc' \<noteq> None" "owner pc' = owner p"
    then show "m = k" using inv uniq pc(1) unfolding idem_inv_def reqs_inv_def
      by (auto split: if_splits)
  qed
  moreover have "log_inv G ?reqs (log @ [(?key, cl_fp c, okay)])"
  proof -
    have l: "\<forall>(key, fp, o') \<in> set log. (\<exists>q. G (fst key) (snd key) = Some q \<and> ir_fingerprint q = fp) \<and> (o' \<longrightarrow> settled G reqs key)"
      "sorted_wrt (\<lambda>(key, fp, o') (key', fp', okay'). key = key' \<longrightarrow> \<not> o') log"
      using inv by (auto simp: idem_inv_def log_inv_def)
    have "\<forall>(key, fp, o') \<in> set log. key = ?key \<longrightarrow> \<not> o'" using l(1) fresh by fast
    with l(2) have "sorted_wrt (\<lambda>(key, fp, o') (key', fp', okay'). key = key' \<longrightarrow> \<not> o') (log @ [(?key, cl_fp c, okay)])"
      by (auto simp: sorted_wrt_append)
    moreover have "\<forall>(key, fp, o') \<in> set (log @ [(?key, cl_fp c, okay)]).
        (\<exists>q. G (fst key) (snd key) = Some q \<and> ir_fingerprint q = fp) \<and> (o' \<longrightarrow> settled G ?reqs key)"
      using l(1) other new q by auto
    ultimately show ?thesis by (simp add: log_inv_def)
  qed
  ultimately show ?thesis using inv by (simp add: idem_inv_def)
qed

section \<open>Every step keeps the invariant\<close>

definition lookup :: "'s idem_repository \<Rightarrow> 's \<Rightarrow> string \<Rightarrow> string \<Rightarrow> idem_record option" where
  "lookup repo s sc k = GetByScopeAndKeyHash repo sc k s"

lemma prepare_claim:
  "prepare hash upper mp cfg a b now opts = Inr (Some c) \<Longrightarrow>
     cl_now c = now \<and> cl_expires c = now + cl_ttl c \<and> ir_status (cl_record c) = status_processing"
  by (auto simp: prepare_def Let_def split: if_splits sum.splits)

lemma by_status_inv:
  "ir_id r = i \<Longrightarrow> known G c i \<Longrightarrow> owner (by_status unmarshal empty_obj now r) = None \<and> pc_inv hi G c (by_status unmarshal empty_obj now r)"
  by (auto simp: by_status_def pc_inv_def split: option.splits)

lemma after_get_inv:
  assumes "rows_inv hi G" "claim_inv lo hi c"
  shows "owner (after_get unmarshal empty_obj c (G (cl_scope c) (cl_key c))) = None
      \<and> pc_inv hi G c (after_get unmarshal empty_obj c (G (cl_scope c) (cl_key c)))"
    and "owner (after_get_again unmarshal empty_obj c (G (cl_scope c) (cl_key c))) = None
      \<and> pc_inv hi G c (after_get_again unmarshal empty_obj c (G (cl_scope c) (cl_key c)))"
proof -
  have "owner (by_status unmarshal empty_obj (cl_now c) r) = None \<and> pc_inv hi G c (by_status unmarshal empty_obj (cl_now c) r)
      \<and> cl_now c < ir_expires_at r"
    if "G (cl_scope c) (cl_key c) = Some r" "ir_fingerprint r = cl_fp c" for r
    using that assms by_status_inv [of r "ir_id r" G c unmarshal empty_obj "cl_now c" hi]
    by (fastforce simp: known_def rows_inv_def claim_inv_def)
  then show "owner (after_get unmarshal empty_obj c (G (cl_scope c) (cl_key c))) = None
      \<and> pc_inv hi G c (after_get unmarshal empty_obj c (G (cl_scope c) (cl_key c)))"
    and "owner (after_get_again unmarshal empty_obj c (G (cl_scope c) (cl_key c))) = None
      \<and> pc_inv hi G c (after_get_again unmarshal empty_obj c (G (cl_scope c) (cl_key c)))"
    by (auto simp: after_get_def after_get_again_def pc_inv_def split: option.splits)
qed

lemma after_run_inv:
  assumes "claim_inv lo hi c" "owns G c i" "lo \<le> later"
  shows "(owner (after_run marshal redact cfg timed c i later outcome) = Some i \<or> owner (after_run marshal redact cfg timed c i later outcome) = None)
    \<and> pc_inv hi G c (after_run marshal redact cfg timed c i later outcome)
    \<and> ((case outcome of Inl reason \<Rightarrow> False | Inr d \<Rightarrow> True) \<longrightarrow> owner (after_run marshal redact cfg timed c i later outcome) = Some i
         \<longrightarrow> succeeding (after_run marshal redact cfg timed c i later outcome))"
  using assms by (auto simp: after_run_def Let_def pc_inv_def claim_inv_def split: sum.splits option.splits)

lemma known_unique: "rows_inv hi G \<Longrightarrow> G sc k = Some q \<Longrightarrow> G sc' k' = Some q' \<Longrightarrow> ir_id q = ir_id q' \<Longrightarrow> q = q'"
  unfolding rows_inv_def by (metis option.inject)

lemma inv_owner_row:
  assumes "idem_inv lo hi G reqs log" "reqs m = Some (c, pc)" "owner pc = Some i"
  shows "owns G c i"
proof -
  have "pc_inv hi G c pc" using assms(1,2) unfolding idem_inv_def reqs_inv_def by blast
  with assms(3) show ?thesis by (cases pc) (auto simp: pc_inv_def)
qed

lemma inv_settled: "idem_inv lo hi G reqs log \<Longrightarrow> (key, fp, True) \<in> set log \<Longrightarrow> settled G reqs key"
  unfolding idem_inv_def log_inv_def by fastforce

context idem_contract
begin

lemma rows_inv_lookup: "ok s \<Longrightarrow> (\<And>sc k r. lookup repo s sc k = Some r \<Longrightarrow> hi \<le> ir_expires_at r) \<Longrightarrow> rows_inv hi (lookup repo s)"
  unfolding rows_inv_def lookup_def by (metis get_inj get_key)

lemma create_inv:
  assumes ok: "ok s" and inv: "idem_inv lo hi (lookup repo s) reqs log" and n: "reqs n = Some (c, PcCreate)"
    and call: "idem_call repo cfg unmarshal empty_obj c PcCreate s = (pc, s')"
  shows "ok s' \<and> idem_inv lo hi (lookup repo s') (reqs(n \<mapsto> (c, pc))) log"
proof -
  have cl: "claim_inv lo hi c" using inv n by (auto simp: idem_inv_def reqs_inv_def)
  show ?thesis
  proof (cases "lookup repo s (cl_scope c) (cl_key c)")
    case (Some q)
    then have "CreateProcessing repo (cl_record c) s = (None, s)" by (intro create_old [OF ok]) (simp add: lookup_def)
    with call have "pc = PcGet" "s' = s" by (simp_all add: idem_call_def)
    with inv_drop [OF inv cl, of PcGet] ok show ?thesis by (simp add: pc_inv_def)
  next
    case None
    then obtain i s1 where new: "CreateProcessing repo (cl_record c) s = (Some i, s1)" "ok s1"
      "\<forall>sc k. lookup repo s1 sc k = (if sc = cl_scope c \<and> k = cl_key c then Some (created_row i (cl_record c)) else lookup repo s sc k)"
      using create_new [OF ok, of "cl_record c"] unfolding lookup_def by blast
    let ?G = "lookup repo s" and ?G' = "lookup repo s1"
    have row: "?G' (cl_scope c) (cl_key c) = Some (created_row i (cl_record c))" using new(3) by simp
    then have "0 < i" using get_key [OF new(2), of "cl_scope c" "cl_key c" "created_row i (cl_record c)"]
      by (simp add: lookup_def idem_rows)
    then have pc: "pc = PcRun i" "s' = s1" using call new(1) by (simp_all add: idem_call_def start_run_def)
    have rows: "rows_inv hi ?G'"
    proof (rule rows_inv_lookup [OF new(2)])
      show "hi \<le> ir_expires_at r" if "?G' sc k = Some r" for sc k r
        using that new(3) inv cl by (auto simp: idem_inv_def rows_inv_def claim_inv_def idem_rows split: if_splits)
    qed
    have inv1: "idem_inv lo hi ?G' reqs log"
      by (rule inv_extend [OF inv rows]) (use new(3) None in auto)
    have old: "ir_id q \<noteq> i" if "?G sc k = Some q" for sc k q
    proof
      assume "ir_id q = i"
      have "?G' sc k = Some q" using that new(3) None by auto
      with row \<open>ir_id q = i\<close> rows have "sc = cl_scope c \<and> k = cl_key c" by (auto simp: rows_inv_def idem_rows)
      with that None show False by simp
    qed
    have "idem_inv lo hi ?G' (reqs(n \<mapsto> (c, PcRun i))) log"
    proof (rule inv_own [OF inv1 n])
      show "owns ?G' c i" using row cl by (simp add: owns_def idem_rows claim_inv_def)
      show "owner pc' \<noteq> Some i" if "reqs m = Some (c', pc')" for m c' pc'
        using inv_owner_row [OF inv that] old by (auto simp: owns_def)
      show "ir_id q \<noteq> i" if "(key, fp, True) \<in> set log" "?G' (fst key) (snd key) = Some q" for key fp q
        using inv_settled [OF inv that(1)] old that(2) new(3) None by (auto simp: settled_def split: if_splits)
    qed
    with new(2) pc show ?thesis by simp
  qed
qed

lemma lookup_update: "(\<And>sc k. lookup repo s' sc k = map_option (\<lambda>r. if hit r then f r else r) (lookup repo s sc k)) \<Longrightarrow>
    lookup repo s' = upd_rows hit f (lookup repo s)"
  by (simp add: upd_rows_def fun_eq_iff)

lemma reclaim_inv:
  fixes reqs :: "nat \<Rightarrow> (idem_claim \<times> 'd idem_pc) option"
  assumes ok: "ok s" and inv: "idem_inv lo hi (lookup repo s) reqs log" and n: "reqs n = Some (c, PcReclaimFailed r)"
    and call: "idem_call repo cfg unmarshal empty_obj c (PcReclaimFailed r) s = (pc, s')"
  shows "ok s' \<and> idem_inv lo hi (lookup repo s') (reqs(n \<mapsto> (c, pc))) log"
proof -
  let ?G = "lookup repo s" and ?i = "ir_id r"
  have cl: "claim_inv lo hi c" and "pc_inv hi ?G c (PcReclaimFailed r :: 'd idem_pc)"
    using inv n unfolding idem_inv_def reqs_inv_def by blast+
  then obtain q where q: "?G (cl_scope c) (cl_key c) = Some q" "ir_id q = ?i" "ir_fingerprint q = cl_fp c"
    by (auto simp: known_def pc_inv_def)
  let ?t = "TryReclaim repo ?i status_failed (cl_now c) (cl_locked cfg c) (cl_expires c) s"
  let ?hit = "reclaimable ?i status_failed (cl_now c)" and ?f = "claimed_row (cl_locked cfg c) (cl_expires c)"
  have G': "lookup repo (snd ?t) = upd_rows ?hit ?f ?G" and ok': "ok (snd ?t)"
    using reclaim [OF ok] by (auto intro!: lookup_update simp: lookup_def)
  have taken: "fst ?t = ?hit q" using reclaim_taken [OF ok, of "cl_scope c" "cl_key c" q] q by (simp add: lookup_def)
  have s': "s' = snd ?t" and pc: "pc = (if fst ?t then start_run ?i else PcDone (Inl (InProgress (retry_after (ir_locked_until r) (cl_now c)))))"
    using call by (auto simp: idem_call_def split: prod.splits)
  have inv1: "idem_inv lo hi (upd_rows ?hit ?f ?G) reqs log"
    by (rule inv_update [OF inv]) (use cl in \<open>auto simp: idem_rows reclaimable_def claim_inv_def\<close>)
  show ?thesis
  proof (cases "fst ?t")
    case False
    with inv_drop [OF inv1 cl, of pc] pc s' ok' G' show ?thesis by (simp add: pc_inv_def)
  next
    case True
    with taken have hit: "?hit q" "ir_status q = status_failed" by (auto simp: reclaimable_def)
    have rows: "rows_inv hi ?G" using inv by (simp add: idem_inv_def)
    have "0 < ?i" using get_key [OF ok, of "cl_scope c" "cl_key c" q] q by (simp add: lookup_def)
    then have pc': "pc = PcRun ?i" using pc True by (simp add: start_run_def)
    have "idem_inv lo hi (upd_rows ?hit ?f ?G) (reqs(n \<mapsto> (c, PcRun ?i))) log"
    proof (rule inv_own [OF inv1 n])
      show "owns (upd_rows ?hit ?f ?G) c ?i" using q hit(1) by (simp add: owns_def upd_rows_Some idem_rows)
      show "owner pc' \<noteq> Some ?i" if m: "reqs m = Some (c', pc')" for m c' pc'
      proof
        assume "owner pc' = Some ?i"
        from inv_owner_row [OF inv m this] obtain p where "?G (cl_scope c') (cl_key c') = Some p" "ir_id p = ?i" "ir_status p = status_processing"
          by (auto simp: owns_def)
        with known_unique [OF rows q(1), of _ _ p] q(2) hit(2) show False by auto
      qed
      show "ir_id p \<noteq> ?i" if "(key, fp, True) \<in> set log" "upd_rows ?hit ?f ?G (fst key) (snd key) = Some p" for key fp p
      proof
        assume "ir_id p = ?i"
        from inv_settled [OF inv that(1)] obtain p' where p': "?G (fst key) (snd key) = Some p'" "ir_status p' \<noteq> status_failed"
          by (auto simp: settled_def)
        with that(2) \<open>ir_id p = ?i\<close> have "ir_id p' = ?i" by (auto simp: upd_rows_Some idem_rows split: if_splits)
        with known_unique [OF rows q(1) p'(1)] q(2) hit(2) p'(2) show False by auto
      qed
    qed
    with pc' s' ok' G' show ?thesis by simp
  qed
qed

lemma finish_inv:
  fixes reqs :: "nat \<Rightarrow> (idem_claim \<times> 'd idem_pc) option"
  assumes ok: "ok s" and inv: "idem_inv lo hi (lookup repo s) reqs log" and n: "reqs n = Some (c, pc)"
    and pc: "owner pc = Some i" "\<And>j. pc \<noteq> PcRun j"
    and call: "idem_call repo cfg unmarshal empty_obj c pc s = (pc', s')"
  shows "ok s' \<and> idem_inv lo hi (lookup repo s') (reqs(n \<mapsto> (c, pc'))) log"
proof -
  let ?G = "lookup repo s"
  have cl: "claim_inv lo hi c" and p: "pc_inv hi ?G c pc" using inv n unfolding idem_inv_def reqs_inv_def by blast+
  have alone: "m = n" if "reqs m = Some (c', p')" "owner p' = Some i" for m c' p'
    using inv n pc(1) that unfolding idem_inv_def reqs_inv_def by (metis option.distinct(1))
  have done': "idem_inv lo hi ?G (reqs(n \<mapsto> (c, PcDone r))) log" for r
    by (rule inv_drop [OF inv cl]) (simp_all add: pc_inv_def)
  have none: "owner p' \<noteq> Some i" if "(reqs(n \<mapsto> (c, PcDone r))) m = Some (c', p')" for m c' p' r
    using that alone by (auto split: if_splits)
  show ?thesis
  proof (cases pc)
    case (PcSucceed j d body e)
    with pc(1) have j: "j = i" by simp
    have G': "lookup repo s' = upd_rows (\<lambda>r. ir_id r = i) (succeeded_row 200 body e) ?G" "ok s'"
      and pc': "pc' = PcDone (Inr (d, False))"
      using succeeded [OF ok] call PcSucceed j by (auto intro!: lookup_update simp: lookup_def idem_call_def)
    have "idem_inv lo hi (upd_rows (\<lambda>r. ir_id r = i) (succeeded_row 200 body e) ?G) (reqs(n \<mapsto> (c, pc'))) log"
      unfolding pc'
      by (rule inv_update [OF done']) (use p PcSucceed none in \<open>auto simp: idem_rows pc_inv_def\<close>)
    with G' show ?thesis by simp
  next
    case (PcFail j err reason b e)
    with pc(1) have j: "j = i" by simp
    have G': "lookup repo s' = upd_rows (\<lambda>r. ir_id r = i) (failed_row reason b e) ?G" "ok s'"
      and pc': "pc' = PcDone (Inl (ExecutionFailed err))"
      using failed [OF ok] call PcFail j by (auto intro!: lookup_update simp: lookup_def idem_call_def)
    have open': "ir_id q \<noteq> i" if "(key, fp, True) \<in> set log" "?G (fst key) (snd key) = Some q" for key fp q
    proof
      assume "ir_id q = i"
      with inv_settled [OF inv that(1)] that(2) n pc(1) have "succeeding pc" unfolding settled_def by fastforce
      with PcFail show False by simp
    qed
    have "idem_inv lo hi (upd_rows (\<lambda>r. ir_id r = i) (failed_row reason b e) ?G) (reqs(n \<mapsto> (c, pc'))) log"
      unfolding pc'
      by (rule inv_update [OF done']) (use p PcFail none open' in \<open>auto simp: idem_rows pc_inv_def\<close>)
    with G' show ?thesis by simp
  qed (use pc in auto)
qed

lemma call_inv:
  fixes reqs :: "nat \<Rightarrow> (idem_claim \<times> 'd idem_pc) option"
  assumes ok: "ok s" and inv: "idem_inv lo hi (lookup repo s) reqs log" and n: "reqs n = Some (c, pc)"
    and call: "idem_call repo cfg unmarshal empty_obj c pc s = (pc', s')"
  shows "ok s' \<and> idem_inv lo hi (lookup repo s') (reqs(n \<mapsto> (c, pc'))) log"
proof -
  have cl: "claim_inv lo hi c" and p: "pc_inv hi (lookup repo s) c pc" using inv n unfolding idem_inv_def reqs_inv_def by blast+
  have rows: "rows_inv hi (lookup repo s)" using inv by (simp add: idem_inv_def)
  note get = after_get_inv [OF rows cl, of unmarshal empty_obj]
  have same: "reqs(n \<mapsto> (c, pc)) = reqs" using n by (simp add: fun_upd_idem)
  show ?thesis
  proof (cases pc)
    case PcCreate
    with create_inv [OF ok inv] n call show ?thesis by simp
  next
    case PcGet
    with call have "pc' = after_get unmarshal empty_obj c (lookup repo s (cl_scope c) (cl_key c))" "s' = s"
      by (auto simp: idem_call_def lookup_def)
    with inv_drop [OF inv cl] get(1) ok show ?thesis by blast
  next
    case (PcReclaimExpired r)
    with p show ?thesis by (simp add: pc_inv_def)
  next
    case PcGetAgain
    with call have "pc' = after_get_again unmarshal empty_obj c (lookup repo s (cl_scope c) (cl_key c))" "s' = s"
      by (auto simp: idem_call_def lookup_def)
    with inv_drop [OF inv cl] get(2) ok show ?thesis by blast
  next
    case (PcReclaimFailed r)
    with reclaim_inv [OF ok inv] n call show ?thesis by simp
  next
    case (PcRun i)
    with call same inv ok show ?thesis by (simp add: idem_call_def)
  next
    case (PcSucceed i d body e)
    with finish_inv [OF ok inv n, of i] call show ?thesis by simp
  next
    case (PcFail i err reason b e)
    with finish_inv [OF ok inv n, of i] call show ?thesis by simp
  next
    case (PcDone r)
    with call same inv ok show ?thesis by (simp add: idem_call_def)
  qed
qed

lemma step_inv:
  assumes "idem_step repo cfg hash upper mp marshal redact unmarshal empty_obj lo hi w w'"
    and ok: "ok (wo_store w)" and inv: "idem_inv lo hi (lookup repo (wo_store w)) (wo_reqs w) (wo_log w)"
  shows "ok (wo_store w') \<and> idem_inv lo hi (lookup repo (wo_store w')) (wo_reqs w') (wo_log w')"
  using assms(1)
proof (cases rule: idem_step.cases)
  case (arrive n now opts c)
  with prepare_claim [OF arrive(5)] have "claim_inv lo hi c" by (auto simp: claim_inv_def)
  with inv_drop [OF inv, of c PcCreate n] ok arrive show ?thesis by (simp add: pc_inv_def)
next
  case (call n c pc pc' s)
  with call_inv [OF ok inv call(2,3)] show ?thesis by simp
next
  case (call_fails n c pc s)
  have cl: "claim_inv lo hi c" using inv call_fails(2) unfolding idem_inv_def reqs_inv_def by blast
  have e: "owner (call_error pc) = None" "pc_inv hi G c (call_error pc)" for G
    by (auto simp: call_error_def pc_inv_def split: idem_pc.splits)
  from call_fails(4) show ?thesis
  proof
    assume "s = wo_store w"
    with inv_drop [OF inv cl e] ok call_fails(1) show ?thesis by simp
  next
    assume s: "s = snd (idem_call repo cfg unmarshal empty_obj c pc (wo_store w))"
    obtain pc' s' where call: "idem_call repo cfg unmarshal empty_obj c pc (wo_store w) = (pc', s')" by (rule prod.exhaust)
    from call_inv [OF ok inv call_fails(2) call]
    have "ok s'" and "idem_inv lo hi (lookup repo s') ((wo_reqs w)(n \<mapsto> (c, pc'))) (wo_log w)" by simp_all
    from inv_drop [OF this(2) cl e, of n] \<open>ok s'\<close> s call call_fails(1) show ?thesis by simp
  qed
next
  case (run n c i later outcome timed)
  have cl: "claim_inv lo hi c" using inv run(2) unfolding idem_inv_def reqs_inv_def by blast
  note r = after_run_inv [OF cl inv_owner_row [OF inv run(2)] run(3), of i marshal redact cfg timed outcome]
  from inv_run [OF inv run(2), of "after_run marshal redact cfg timed c i later outcome"] r ok run(1)
  show ?thesis by simp
next
  case (renew n c pc i later)
  have cl: "claim_inv lo hi c" using inv renew(2) unfolding idem_inv_def reqs_inv_def by blast
  let ?hit = "renewable i (cl_fp c)" and ?f = "renewed_row (later + renew_lease cfg) (later + cl_ttl c)"
  have "lookup repo (wo_store w') = upd_rows ?hit ?f (lookup repo (wo_store w))" "ok (wo_store w')"
    using extend [OF ok] renew(1) by (auto intro!: lookup_update simp: lookup_def renew_once_def)
  moreover have "idem_inv lo hi (upd_rows ?hit ?f (lookup repo (wo_store w))) (wo_reqs w) (wo_log w)"
    by (rule inv_update [OF inv]) (use cl renew(4) in \<open>auto simp: idem_rows renewable_def claim_inv_def\<close>)
  ultimately show ?thesis using renew(1) by simp
next
  case (sweep now limit)
  have "lookup repo (wo_store w') sc k = lookup repo (wo_store w) sc k" for sc k
  proof -
    have "\<not> (\<exists>r. lookup repo (wo_store w) sc k = Some r \<and> ir_expires_at r \<le> now)"
      using inv sweep(2) unfolding idem_inv_def rows_inv_def by force
    with swept [OF ok, of now limit sc k] sweep(1) show ?thesis by (auto simp: lookup_def)
  qed
  then have "lookup repo (wo_store w') = lookup repo (wo_store w)" by (simp add: fun_eq_iff)
  with inv swept [OF ok, of now limit] sweep(1) show ?thesis by simp
qed

lemma reach_inv:
  assumes "idem_reach repo cfg hash upper mp marshal redact unmarshal empty_obj lo hi s0 w" "ok s0" "rows_inv hi (lookup repo s0)"
  shows "ok (wo_store w) \<and> idem_inv lo hi (lookup repo (wo_store w)) (wo_reqs w) (wo_log w)"
  using assms
proof (induction rule: idem_reach.induct)
  case init
  then show ?case by (simp add: idem_inv_def reqs_inv_def log_inv_def)
next
  case (step w w')
  with step_inv [OF step(2)] show ?case by blast
qed

text \<open>At most one success per key, and it is the key's last run; the runs of a key have the same fingerprint; and no two
  requests hold the same key.\<close>

lemma reach_once:
  assumes "idem_reach repo cfg hash upper mp marshal redact unmarshal empty_obj lo hi s0 w" "ok s0" "rows_inv hi (lookup repo s0)"
  shows "sorted_wrt (\<lambda>(key, fp, okay) (key', fp', okay'). key = key' \<longrightarrow> \<not> okay \<and> fp = fp') (wo_log w)"
    and "wo_reqs w n = Some (c, pc) \<Longrightarrow> wo_reqs w m = Some (c', pc') \<Longrightarrow> owner pc \<noteq> None \<Longrightarrow> owner pc' \<noteq> None
      \<Longrightarrow> cl_scope c = cl_scope c' \<Longrightarrow> cl_key c = cl_key c' \<Longrightarrow> n = m"
proof -
  let ?G = "lookup repo (wo_store w)"
  have inv: "idem_inv lo hi ?G (wo_reqs w) (wo_log w)" using reach_inv [OF assms] by blast
  have fp: "\<exists>q. ?G (fst key) (snd key) = Some q \<and> ir_fingerprint q = fp" if "(key, fp, okay) \<in> set (wo_log w)" for key fp okay
    using inv that unfolding idem_inv_def log_inv_def by fast
  have sorted: "sorted_wrt (\<lambda>(key, fp, okay) (key', fp', okay'). key = key' \<longrightarrow> \<not> okay) (wo_log w)"
    using inv by (simp add: idem_inv_def log_inv_def)
  have same: "fp1 = fp2" if "(key, fp1, o1) \<in> set (wo_log w)" "(key, fp2, o2) \<in> set (wo_log w)" for key fp1 o1 fp2 o2
    using fp [OF that(1)] fp [OF that(2)] by auto
  show "sorted_wrt (\<lambda>(key, fp, okay) (key', fp', okay'). key = key' \<longrightarrow> \<not> okay \<and> fp = fp') (wo_log w)"
    by (rule sorted_wrt_mono_rel [OF _ sorted]) (auto split: prod.splits dest: same)
  show "n = m" if "wo_reqs w n = Some (c, pc)" "wo_reqs w m = Some (c', pc')" "owner pc \<noteq> None" "owner pc' \<noteq> None"
    "cl_scope c = cl_scope c'" "cl_key c = cl_key c'"
  proof -
    from that(3,4) obtain i j where o: "owner pc = Some i" "owner pc' = Some j" by auto
    from inv_owner_row [OF inv that(1) o(1)] inv_owner_row [OF inv that(2) o(2)] that(5,6)
    have "i = j" by (auto simp: owns_def)
    with o inv that(1,2) show ?thesis unfolding idem_inv_def reqs_inv_def by (metis option.distinct(1))
  qed
qed

end

section \<open>The sequential function\<close>

text \<open>Up to the effect, a lone request keeps the record that it knows.\<close>

definition seq_inv :: "(string \<Rightarrow> string \<Rightarrow> idem_record option) \<Rightarrow> idem_claim \<Rightarrow> 'd idem_pc \<Rightarrow> bool" where
  "seq_inv G c pc \<longleftrightarrow>
     (case pc of PcReclaimExpired r \<Rightarrow> known G c (ir_id r) | PcReclaimFailed r \<Rightarrow> known G c (ir_id r)
      | PcRun i \<Rightarrow> known G c i | PcSucceed i d b e \<Rightarrow> False | PcFail i m r b e \<Rightarrow> False | _ \<Rightarrow> True)"

lemma calls_stop:
  "claim_calls n repo cfg unmarshal empty_obj c (PcRun i) s = (PcRun i, s)"
  "claim_calls n repo cfg unmarshal empty_obj c (PcDone r) s = (PcDone r, s)"
  by (induction n) (simp_all add: idem_call_def)

lemma known_update: "known G c i \<Longrightarrow> (\<And>r. ir_id (f r) = ir_id r \<and> ir_fingerprint (f r) = ir_fingerprint r) \<Longrightarrow> known (upd_rows hit f G) c i"
  by (fastforce simp: known_def upd_rows_Some)

text \<open>A request that finds no record, or one that no lease guards any more, runs its effect and stores the answer.\<close>

definition free_for :: "gotime \<Rightarrow> string \<Rightarrow> idem_record option \<Rightarrow> bool" where
  "free_for now fp existing \<longleftrightarrow> (case existing of None \<Rightarrow> True
     | Some r \<Rightarrow> ir_fingerprint r = fp \<and> (ir_expires_at r \<le> now \<or> ir_status r = status_failed)
         \<and> (case ir_locked_until r of None \<Rightarrow> True | Some l \<Rightarrow> l \<le> now))"

context idem_contract
begin

lemma seq_call:
  assumes ok: "ok s" and inv: "seq_inv (lookup repo s) c pc" and call: "idem_call repo cfg unmarshal empty_obj c pc s = (pc', s')"
  shows "ok s' \<and> seq_inv (lookup repo s') c pc'"
proof -
  have st: "seq_inv (lookup repo s) c (by_status unmarshal empty_obj (cl_now c) r)" if "known (lookup repo s) c (ir_id r)" for r
    using that by (auto simp: by_status_def seq_inv_def split: option.splits)
  have get: "seq_inv (lookup repo s) c (after_get unmarshal empty_obj c (lookup repo s (cl_scope c) (cl_key c)))"
    "seq_inv (lookup repo s) c (after_get_again unmarshal empty_obj c (lookup repo s (cl_scope c) (cl_key c)))"
    using st by (auto simp: after_get_def after_get_again_def seq_inv_def known_def split: option.splits)
  have run: "known (lookup repo t) c i \<Longrightarrow> seq_inv (lookup repo t) c (start_run i)" for t i by (simp add: start_run_def seq_inv_def)
  have recl: "ok (snd (TryReclaim repo i f n l e s)) \<and> (known (lookup repo s) c j \<longrightarrow> known (lookup repo (snd (TryReclaim repo i f n l e s))) c j)" for i f n l e j
    using reclaim [OF ok] lookup_update [of "snd (TryReclaim repo i f n l e s)" "reclaimable i f n" "claimed_row l e" s]
    by (auto simp: lookup_def idem_rows intro!: known_update)
  show ?thesis
  proof (cases pc)
    case PcCreate
    show ?thesis
    proof (cases "lookup repo s (cl_scope c) (cl_key c)")
      case (Some q)
      then have "CreateProcessing repo (cl_record c) s = (None, s)" by (intro create_old [OF ok]) (simp add: lookup_def)
      with call PcCreate ok show ?thesis by (auto simp: idem_call_def seq_inv_def)
    next
      case None
      then obtain i s1 where new: "CreateProcessing repo (cl_record c) s = (Some i, s1)" "ok s1"
        "lookup repo s1 (cl_scope c) (cl_key c) = Some (created_row i (cl_record c))"
        using create_new [OF ok, of "cl_record c"] unfolding lookup_def by fastforce
      then have "known (lookup repo s1) c i" by (simp add: known_def idem_rows)
      from run [OF this] call PcCreate new show ?thesis by (auto simp: idem_call_def)
    qed
  next
    case (PcReclaimExpired r)
    obtain taken s1 where t: "TryReclaim repo (ir_id r) (ir_status r) (cl_now c) (cl_locked cfg c) (cl_expires c) s = (taken, s1)"
      by (rule prod.exhaust)
    have "known (lookup repo s) c (ir_id r)" using inv PcReclaimExpired by (simp add: seq_inv_def)
    with recl [of "ir_id r" "ir_status r" "cl_now c" "cl_locked cfg c" "cl_expires c" "ir_id r"] t
    have s1: "ok s1" "known (lookup repo s1) c (ir_id r)" by simp_all
    from s1 run [OF s1(2)] call t PcReclaimExpired show ?thesis
      by (auto simp: idem_call_def seq_inv_def split: if_splits)
  next
    case (PcReclaimFailed r)
    obtain taken s1 where t: "TryReclaim repo (ir_id r) status_failed (cl_now c) (cl_locked cfg c) (cl_expires c) s = (taken, s1)"
      by (rule prod.exhaust)
    have "known (lookup repo s) c (ir_id r)" using inv PcReclaimFailed by (simp add: seq_inv_def)
    with recl [of "ir_id r" status_failed "cl_now c" "cl_locked cfg c" "cl_expires c" "ir_id r"] t
    have s1: "ok s1" "known (lookup repo s1) c (ir_id r)" by simp_all
    from s1 run [OF s1(2)] call t PcReclaimFailed show ?thesis
      by (auto simp: idem_call_def seq_inv_def split: if_splits)
  qed (use call inv ok get in \<open>auto simp: idem_call_def seq_inv_def lookup_def\<close>)
qed

lemma seq_calls:
  "ok s \<Longrightarrow> seq_inv (lookup repo s) c pc \<Longrightarrow> claim_calls n repo cfg unmarshal empty_obj c pc s = (pc', s') \<Longrightarrow>
     ok s' \<and> seq_inv (lookup repo s') c pc'"
proof (induction n arbitrary: pc s)
  case 0
  then show ?case by simp
next
  case (Suc n)
  obtain p u where u: "idem_call repo cfg unmarshal empty_obj c pc s = (p, u)" by (rule prod.exhaust)
  from seq_call [OF Suc.prems(1,2) u] Suc.IH [of u p] Suc.prems(3) u show ?case by simp
qed

lemma Execute_old:
  assumes "ok s" "prepare hash upper mp cfg True True now opts = Inr (Some c)" "lookup repo s (cl_scope c) (cl_key c) = Some r"
    and "after_get unmarshal empty_obj c (Some r) = PcDone res"
  shows "Execute hash upper mp marshal redact unmarshal empty_obj cfg repo now later outcome opts s = (res, s, False)"
proof -
  have "CreateProcessing repo (cl_record c) s = (None, s)" by (rule create_old) (use assms in \<open>simp_all add: lookup_def\<close>)
  moreover have "claim_calls 5 repo cfg unmarshal empty_obj c PcCreate s
      = claim_calls 3 repo cfg unmarshal empty_obj c (after_get unmarshal empty_obj c (lookup repo s (cl_scope c) (cl_key c))) s"
    using calculation by (simp add: eval_nat_numeral idem_call_def lookup_def)
  ultimately show ?thesis using assms by (simp add: Execute_def calls_stop)
qed

text \<open>What a repetition finds after a success: the stored body, decoded.\<close>

lemma seq_replay:
  assumes "ok s" "prepare hash upper mp cfg True True now opts = Inr (Some c)"
    and run: "Execute hash upper mp marshal redact unmarshal empty_obj cfg repo now later outcome opts s = (Inr (d, False), s', True)"
    and again: "prepare hash upper mp cfg True True now' opts' = Inr (Some c')" "cl_scope c' = cl_scope c" "cl_key c' = cl_key c" "cl_fp c' = cl_fp c"
    and soon: "now' < (if xo_timeout opts > 0 then later + cl_ttl c else cl_expires c)"
  shows "\<exists>body. marshalStoredResponse marshal redact cfg d = Some body
    \<and> Execute hash upper mp marshal redact unmarshal empty_obj cfg repo now' later' outcome' opts' s'
      = (case decodeStoredResponse unmarshal empty_obj (Some body) of None \<Rightarrow> Inl StoreUnavailable | Some a \<Rightarrow> Inr (a, True), s', False)"
proof -
  let ?pc = "\<lambda>i. after_run marshal redact cfg (xo_timeout opts > 0) c i later outcome"
  obtain pc u where u: "claim_calls 5 repo cfg unmarshal empty_obj c PcCreate s = (pc, u)" by (rule prod.exhaust)
  then obtain i where i: "pc = PcRun i" using run assms(2) by (cases pc) (auto simp: Execute_def)
  from seq_calls [OF assms(1) _ u] have ok: "ok u" and "known (lookup repo u) c i" by (simp_all add: seq_inv_def i)
  then obtain q where q: "lookup repo u (cl_scope c) (cl_key c) = Some q" "ir_id q = i" "ir_fingerprint q = cl_fp c" by (auto simp: known_def)
  obtain body where out: "outcome = Inr d" "marshalStoredResponse marshal redact cfg d = Some body"
    and s': "s' = MarkSucceeded repo i 200 body (if xo_timeout opts > 0 then later + cl_ttl c else cl_expires c) u"
    using run assms(2) u i by (auto simp: Execute_def after_run_def idem_call_def Let_def split: sum.splits option.splits)
  let ?r = "succeeded_row 200 body (if xo_timeout opts > 0 then later + cl_ttl c else cl_expires c) q"
  have "ok s'" and get: "lookup repo s' (cl_scope c') (cl_key c') = Some ?r"
    using succeeded [OF ok] q again s' by (simp_all add: lookup_def)
  have "cl_now c' = now'" using prepare_claim [OF again(1)] by simp
  then have "after_get unmarshal empty_obj c' (Some ?r) = PcDone (case decodeStoredResponse unmarshal empty_obj (Some body) of
      None \<Rightarrow> Inl StoreUnavailable | Some a \<Rightarrow> Inr (a, True))"
    using q(3) again(4) soon by (simp add: after_get_def by_status_def idem_rows split: option.split)
  from Execute_old [OF \<open>ok s'\<close> again(1) get this] out(2) show ?thesis by blast
qed

lemma seq_claim:
  assumes "ok s" "free_for (cl_now c) (cl_fp c) (lookup repo s (cl_scope c) (cl_key c))"
  shows "\<exists>i q u. claim_calls 5 repo cfg unmarshal empty_obj c PcCreate s = (PcRun i, u) \<and> ok u
    \<and> lookup repo u (cl_scope c) (cl_key c) = Some q \<and> ir_id q = i"
proof (cases "lookup repo s (cl_scope c) (cl_key c)")
  case None
  then obtain i u where new: "CreateProcessing repo (cl_record c) s = (Some i, u)" "ok u"
    "lookup repo u (cl_scope c) (cl_key c) = Some (created_row i (cl_record c))"
    using create_new [OF assms(1), of "cl_record c"] unfolding lookup_def by fastforce
  have "0 < i" using get_key [OF new(2), of "cl_scope c" "cl_key c" "created_row i (cl_record c)"] new(3) by (simp add: lookup_def idem_rows)
  then have "idem_call repo cfg unmarshal empty_obj c PcCreate s = (PcRun i, u)" using new(1) by (simp add: idem_call_def start_run_def)
  then have "claim_calls 5 repo cfg unmarshal empty_obj c PcCreate s = (PcRun i, u)" by (simp add: eval_nat_numeral calls_stop)
  with new(2,3) show ?thesis by (auto simp: idem_rows)
next
  case (Some r)
  let ?l = "cl_locked cfg c" and ?e = "cl_expires c"
  have r: "ir_fingerprint r = cl_fp c" "ir_expires_at r \<le> cl_now c \<or> ir_status r = status_failed"
    and free: "reclaimable (ir_id r) (ir_status r) (cl_now c) r"
    using assms(2) Some by (simp_all add: free_for_def reclaimable_def)
  obtain taken u where t: "TryReclaim repo (ir_id r) (ir_status r) (cl_now c) ?l ?e s = (taken, u)" by (rule prod.exhaust)
  have taken using reclaim_taken [OF assms(1), of "cl_scope c" "cl_key c" r "ir_status r" "cl_now c" ?l ?e] Some free t
    by (simp add: lookup_def)
  have u: "ok u" "lookup repo u (cl_scope c) (cl_key c) = Some (claimed_row ?l ?e r)"
    using reclaim [OF assms(1), of "ir_id r" "ir_status r" "cl_now c" ?l ?e "cl_scope c" "cl_key c"] Some free t by (simp_all add: lookup_def)
  have "0 < ir_id r" using get_key [OF assms(1), of "cl_scope c" "cl_key c" r] Some by (simp add: lookup_def)
  then have run: "start_run (ir_id r) = PcRun (ir_id r)" by (simp add: start_run_def)
  have "CreateProcessing repo (cl_record c) s = (None, s)" by (rule create_old [OF assms(1)]) (use Some in \<open>simp add: lookup_def\<close>)
  then have two: "claim_calls 5 repo cfg unmarshal empty_obj c PcCreate s = claim_calls 3 repo cfg unmarshal empty_obj c (after_get unmarshal empty_obj c (Some r)) s"
    using Some by (simp add: eval_nat_numeral idem_call_def lookup_def)
  have "claim_calls 5 repo cfg unmarshal empty_obj c PcCreate s = (PcRun (ir_id r), u)"
  proof (cases "ir_expires_at r \<le> cl_now c")
    case True
    then have get: "after_get unmarshal empty_obj c (Some r) = PcReclaimExpired r" using r(1) by (simp add: after_get_def)
    have "idem_call repo cfg unmarshal empty_obj c (PcReclaimExpired r) s = (PcRun (ir_id r), u)" using t \<open>taken\<close> run by (simp add: idem_call_def)
    then show ?thesis unfolding two get by (simp add: numeral_3_eq_3 calls_stop)
  next
    case False
    then have get: "after_get unmarshal empty_obj c (Some r) = PcReclaimFailed r" and failed: "ir_status r = status_failed"
      using r free by (auto simp: after_get_def by_status_def reclaimable_def split: option.splits)
    have "idem_call repo cfg unmarshal empty_obj c (PcReclaimFailed r) s = (PcRun (ir_id r), u)" using t \<open>taken\<close> run failed by (simp add: idem_call_def)
    then show ?thesis unfolding two get by (simp add: numeral_3_eq_3 calls_stop)
  qed
  with u show ?thesis by (auto simp: idem_rows)
qed

lemma seq_progress:
  assumes "ok s" "prepare hash upper mp cfg True True now opts = Inr (Some c)"
    and "free_for now (cl_fp c) (lookup repo s (cl_scope c) (cl_key c))" "marshalStoredResponse marshal redact cfg d = Some body"
  shows "\<exists>s' r. Execute hash upper mp marshal redact unmarshal empty_obj cfg repo now later (Inr d) opts s = (Inr (d, False), s', True)
    \<and> ok s' \<and> lookup repo s' (cl_scope c) (cl_key c) = Some r \<and> ir_status r = status_succeeded \<and> ir_response_body r = Some body"
proof -
  have "cl_now c = now" using prepare_claim [OF assms(2)] by simp
  with seq_claim [OF assms(1), of c cfg unmarshal empty_obj] assms(3) obtain i q u where
    u: "claim_calls 5 repo cfg unmarshal empty_obj c PcCreate s = (PcRun i, u)" "ok u"
      "lookup repo u (cl_scope c) (cl_key c) = Some q" "ir_id q = i" by blast
  let ?e = "if xo_timeout opts > 0 then later + cl_ttl c else cl_expires c"
  have "Execute hash upper mp marshal redact unmarshal empty_obj cfg repo now later (Inr d) opts s
      = (Inr (d, False), MarkSucceeded repo i 200 body ?e u, True)"
    using assms(2,4) u(1) by (simp add: Execute_def after_run_def idem_call_def Let_def)
  moreover have "ok (MarkSucceeded repo i 200 body ?e u)"
    "lookup repo (MarkSucceeded repo i 200 body ?e u) (cl_scope c) (cl_key c) = Some (succeeded_row 200 body ?e q)"
    using succeeded [OF u(2)] u(3,4) by (simp_all add: lookup_def)
  ultimately show ?thesis by (auto simp: idem_rows)
qed

end

section \<open>Properties\<close>

lemma reach_arrive:
  "idem_reach repo cfg hash upper mp marshal redact unmarshal empty_obj lo hi s0 \<lparr>wo_store = s, wo_reqs = q, wo_log = l\<rparr> \<Longrightarrow>
     q n = None \<Longrightarrow> lo \<le> now \<Longrightarrow> now < hi \<Longrightarrow> prepare hash upper mp cfg True True now opts = Inr (Some c) \<Longrightarrow> hi - lo \<le> cl_ttl c \<Longrightarrow>
     idem_reach repo cfg hash upper mp marshal redact unmarshal empty_obj lo hi s0 \<lparr>wo_store = s, wo_reqs = q(n \<mapsto> (c, PcCreate)), wo_log = l\<rparr>"
  by (erule idem_reach.step) (use idem_step.arrive [of "\<lparr>wo_store = s, wo_reqs = q, wo_log = l\<rparr>" n] in simp)

lemma reach_call:
  "idem_reach repo cfg hash upper mp marshal redact unmarshal empty_obj lo hi s0 \<lparr>wo_store = s, wo_reqs = q, wo_log = l\<rparr> \<Longrightarrow>
     q n = Some (c, pc) \<Longrightarrow> idem_call repo cfg unmarshal empty_obj c pc s = (pc', s') \<Longrightarrow>
     idem_reach repo cfg hash upper mp marshal redact unmarshal empty_obj lo hi s0 \<lparr>wo_store = s', wo_reqs = q(n \<mapsto> (c, pc')), wo_log = l\<rparr>"
  by (erule idem_reach.step) (use idem_step.call [of "\<lparr>wo_store = s, wo_reqs = q, wo_log = l\<rparr>" n c pc] in simp)

lemma reach_run:
  "idem_reach repo cfg hash upper mp marshal redact unmarshal empty_obj lo hi s0 \<lparr>wo_store = s, wo_reqs = q, wo_log = l\<rparr> \<Longrightarrow>
     q n = Some (c, PcRun i) \<Longrightarrow> lo \<le> later \<Longrightarrow> after_run marshal redact cfg False c i later outcome = pc \<Longrightarrow>
     idem_reach repo cfg hash upper mp marshal redact unmarshal empty_obj lo hi s0 \<lparr>wo_store = s, wo_reqs = q(n \<mapsto> (c, pc)),
       wo_log = l @ [((cl_scope c, cl_key c), cl_fp c, (case outcome of Inl reason \<Rightarrow> False | Inr d \<Rightarrow> True))]\<rparr>"
  by (erule idem_reach.step) (use idem_step.run [of "\<lparr>wo_store = s, wo_reqs = q, wo_log = l\<rparr>" n c i lo later] in fastforce)

text \<open>C3: Over the SQL store, however requests, lease renewals, clean-ups, failing calls and runs interleave during a period in
  which no record expires: once a run of the effect for a key has succeeded, no run of the same key follows it; all runs of a
  key have the same request fingerprint; and at no time do two requests hold the same key.\<close>

theorem effect_at_most_once:
  assumes "idem_reach NewIdempotencyRepository cfg hash upper mp marshal redact unmarshal empty_obj lo hi t w" "table_ok t"
    and "\<And>r. r \<in> set (it_rows t) \<Longrightarrow> hi \<le> ir_expires_at r"
  shows "sorted_wrt (\<lambda>(key, fp, okay) (key', fp', okay'). key = key' \<longrightarrow> \<not> okay \<and> fp = fp') (wo_log w)
    \<and> (\<forall>n m c pc c' pc'. wo_reqs w n = Some (c, pc) \<longrightarrow> wo_reqs w m = Some (c', pc') \<longrightarrow> owner pc \<noteq> None \<longrightarrow> owner pc' \<noteq> None
         \<longrightarrow> cl_scope c = cl_scope c' \<longrightarrow> cl_key c = cl_key c' \<longrightarrow> n = m)"
proof -
  have "rows_inv hi (lookup NewIdempotencyRepository t)"
    by (rule idem_sql.rows_inv_lookup [OF assms(2)])
      (use assms(3) sql_get_in in \<open>fastforce simp: lookup_def NewIdempotencyRepository_def\<close>)
  from idem_sql.reach_once [OF assms(1,2) this] show ?thesis by blast
qed

definition sample_opts :: "string idem_options" where
  "sample_opts = \<lparr>xo_scope = ''orders'', xo_actor = ''u1'', xo_method = ''POST'', xo_route = ''/r'', xo_key = ''k1'', xo_payload = ''{}'',
     xo_ttl = 0, xo_require_key = True, xo_timeout = 0\<rparr>"

definition sample_claim :: "gotime \<Rightarrow> idem_claim" where
  "sample_claim now = \<lparr>cl_record = \<lparr>ir_id = 0, ir_scope = ''orders'', ir_key_hash = ''k1'',
       ir_fingerprint = ''POST'' @ newline @ ''/r'' @ newline @ ''u1'' @ newline @ ''{}'', ir_status = status_processing,
       ir_response_status = None, ir_response_body = None, ir_error_reason = None, ir_locked_until = Some (now + 30 * sec),
       ir_expires_at = now + 24 * hour\<rparr>, cl_now = now, cl_ttl = 24 * hour\<rparr>"

lemma sample_key: "NormalizeIdempotencyKey ''k1'' = Inr ''k1''" by code_simp

lemma sample_prepare: "prepare (\<lambda>s. s) (\<lambda>s. s) Some DefaultIdempotencyConfig True True now sample_opts = Inr (Some (sample_claim now))"
  by (simp add: prepare_def BuildIdempotencyFingerprint_def sample_key sample_opts_def sample_claim_def DefaultIdempotencyConfig_def Let_def)

definition no_rows :: idem_table where "no_rows = \<lparr>it_rows = [], it_next = 1\<rparr>"

lemma no_rows_ok: "table_ok no_rows" by (simp add: table_ok_def no_rows_def)

definition sample_row :: idem_record where "sample_row = created_row 1 (cl_record (sample_claim 0))"

lemmas sample_simps = idem_call_def repository_methods sql_create_def sql_get_def update_rows_def idem_rows start_run_def
  after_get_def by_status_def reclaimable_def after_run_def marshalStoredResponse_def sample_row_def sample_claim_def
  cl_locked_def DefaultIdempotencyConfig_def no_rows_def

text \<open>A first run fails, a second one, after the back-off, succeeds.\<close>

lemma effect_at_most_once_witness:
  "\<exists>w :: (string, idem_table) idem_world.
     idem_reach NewIdempotencyRepository DefaultIdempotencyConfig (\<lambda>s. s) (\<lambda>s. s) (Some :: string \<Rightarrow> string option) Some (\<lambda>s. s) Some []
       0 hour no_rows w
   \<and> map (\<lambda>e. (fst e, snd (snd e))) (wo_log w) = [((''orders'', ''k1''), False), ((''orders'', ''k1''), True)]
   \<and> fst (snd (wo_log w ! 0)) = fst (snd (wo_log w ! 1))"
proof -
  let ?reach = "idem_reach NewIdempotencyRepository DefaultIdempotencyConfig (\<lambda>s. s) (\<lambda>s. s) (Some :: string \<Rightarrow> string option) Some (\<lambda>s. s) Some []
       0 hour no_rows :: (string, idem_table) idem_world \<Rightarrow> bool"
  let ?c = "sample_claim 0" and ?d = "sample_claim (10 * sec)"
  let ?t1 = "\<lparr>it_rows = [sample_row], it_next = 2\<rparr>"
  let ?f = "failed_row ''BOOM'' (5 * sec) (24 * hour) sample_row"
  let ?t2 = "\<lparr>it_rows = [?f], it_next = 2\<rparr>"
  let ?t3 = "\<lparr>it_rows = [claimed_row (40 * sec) (10 * sec + 24 * hour) ?f], it_next = 2\<rparr>"
  let ?l = "\<lambda>b. ((''orders'', ''k1''), cl_fp ?c, b)"
  note span = hour_def sec_def
  have "?reach \<lparr>wo_store = no_rows, wo_reqs = Map.empty, wo_log = []\<rparr>" by (rule idem_reach.init)
  from reach_arrive [OF this, of 0, OF _ _ _ sample_prepare [of 0]]
  have "?reach \<lparr>wo_store = no_rows, wo_reqs = [0 \<mapsto> (?c, PcCreate)], wo_log = []\<rparr>" by (simp add: sample_claim_def span)
  from reach_call [OF this, of 0 ?c PcCreate "PcRun 1" ?t1]
  have "?reach \<lparr>wo_store = ?t1, wo_reqs = [0 \<mapsto> (?c, PcRun 1)], wo_log = []\<rparr>" by (simp add: sample_simps)
  from reach_run [OF this, of 0 ?c 1 0 "Inl ''BOOM''"]
  have "?reach \<lparr>wo_store = ?t1, wo_reqs = [0 \<mapsto> (?c, PcFail 1 ''BOOM'' ''BOOM'' (5 * sec) (24 * hour))], wo_log = [?l False]\<rparr>"
    by (simp add: sample_simps)
  from reach_call [OF this, of 0 ?c _ "PcDone (Inl (ExecutionFailed ''BOOM''))" ?t2]
  have "?reach \<lparr>wo_store = ?t2, wo_reqs = [0 \<mapsto> (?c, PcDone (Inl (ExecutionFailed ''BOOM'')))], wo_log = [?l False]\<rparr>"
    by (simp add: sample_simps)
  from reach_arrive [OF this, of 1, OF _ _ _ sample_prepare [of "10 * sec"]]
  have "?reach \<lparr>wo_store = ?t2, wo_reqs = [0 \<mapsto> (?c, PcDone (Inl (ExecutionFailed ''BOOM''))), 1 \<mapsto> (?d, PcCreate)], wo_log = [?l False]\<rparr>"
    by (simp add: sample_claim_def span)
  from reach_call [OF this, of 1 ?d PcCreate PcGet ?t2]
  have "?reach \<lparr>wo_store = ?t2, wo_reqs = [0 \<mapsto> (?c, PcDone (Inl (ExecutionFailed ''BOOM''))), 1 \<mapsto> (?d, PcGet)], wo_log = [?l False]\<rparr>"
    by (simp add: sample_simps)
  from reach_call [OF this, of 1 ?d PcGet "PcReclaimFailed ?f" ?t2]
  have "?reach \<lparr>wo_store = ?t2, wo_reqs = [0 \<mapsto> (?c, PcDone (Inl (ExecutionFailed ''BOOM''))), 1 \<mapsto> (?d, PcReclaimFailed ?f)], wo_log = [?l False]\<rparr>"
    by (simp add: sample_simps span)
  from reach_call [OF this, of 1 ?d _ "PcRun 1" ?t3]
  have "?reach \<lparr>wo_store = ?t3, wo_reqs = [0 \<mapsto> (?c, PcDone (Inl (ExecutionFailed ''BOOM''))), 1 \<mapsto> (?d, PcRun 1)], wo_log = [?l False]\<rparr>"
    by (simp add: sample_simps span)
  from reach_run [OF this, of 1 ?d 1 "11 * sec" "Inr ''{}''"]
  obtain q where r: "?reach \<lparr>wo_store = ?t3, wo_reqs = q, wo_log = [?l False, ?l True]\<rparr>"
    by (simp add: span) (simp add: sample_claim_def)
  from effect_at_most_once [OF r no_rows_ok]
  have "\<not> snd (snd (?l False)) \<and> fst (snd (?l False)) = fst (snd (?l True))" by (simp add: no_rows_def)
  with r show ?thesis by (intro exI [of _ "\<lparr>wo_store = ?t3, wo_reqs = q, wo_log = [?l False, ?l True]\<rparr>"]) simp
qed

lemma prepare_keyed:
  assumes "prepare hash upper mp cfg True True now opts = Inr (Some c)"
  shows "\<exists>c'. prepare hash upper mp cfg True True now' (opts\<lparr>xo_ttl := ttl, xo_timeout := timeout, xo_require_key := need\<rparr>) = Inr (Some c')
    \<and> cl_scope c' = cl_scope c \<and> cl_key c' = cl_key c \<and> cl_fp c' = cl_fp c"
  using assms by (auto simp: prepare_def Let_def split: if_splits sum.splits)

lemma prepare_again:
  "prepare hash upper mp cfg True True now opts = Inr (Some c) \<Longrightarrow> \<exists>c'. prepare hash upper mp cfg True True now' opts = Inr (Some c')
    \<and> cl_scope c' = cl_scope c \<and> cl_key c' = cl_key c \<and> cl_fp c' = cl_fp c"
  by (auto simp: prepare_def Let_def split: if_splits sum.splits)

text \<open>C22: After a run of the effect that was stored, a repetition of the request before the record expires (with any clock, life,
  timeout or outcome of its own) leaves the store alone, does not run the effect, and returns the decoded stored answer, marked
  as replayed; a stored answer that the decoder refuses gives the error of an unavailable store.\<close>

theorem replay_stored_answer:
  assumes "table_ok t" "prepare hash upper mp cfg True True now opts = Inr (Some c)"
    and "Execute hash upper mp marshal redact unmarshal empty_obj cfg NewIdempotencyRepository now later outcome opts t = (Inr (d, False), t', True)"
    and "now' < (if xo_timeout opts > 0 then later + cl_ttl c else cl_expires c)"
  shows "\<exists>body. marshalStoredResponse marshal redact cfg d = Some body
    \<and> Execute hash upper mp marshal redact unmarshal empty_obj cfg NewIdempotencyRepository now' later' outcome'
        (opts\<lparr>xo_ttl := ttl, xo_timeout := timeout, xo_require_key := need\<rparr>) t'
      = (case decodeStoredResponse unmarshal empty_obj (Some body) of None \<Rightarrow> Inl StoreUnavailable | Some a \<Rightarrow> Inr (a, True), t', False)"
proof -
  obtain c' where c': "prepare hash upper mp cfg True True now' (opts\<lparr>xo_ttl := ttl, xo_timeout := timeout, xo_require_key := need\<rparr>) = Inr (Some c')"
    "cl_scope c' = cl_scope c" "cl_key c' = cl_key c" "cl_fp c' = cl_fp c"
    using prepare_keyed [OF assms(2)] by blast
  from idem_sql.seq_replay [OF assms(1,2,3) c' assms(4)] show ?thesis .
qed

lemma sample_run:
  "Execute (\<lambda>s. s) (\<lambda>s. s) Some Some (\<lambda>s. s) (Some :: string \<Rightarrow> string option) [] DefaultIdempotencyConfig NewIdempotencyRepository 0 later (Inr ''7'') sample_opts no_rows
    = (Inr (''7'', False), \<lparr>it_rows = [succeeded_row 200 ''7'' (24 * hour) sample_row], it_next = 2\<rparr>, True)"
proof -
  have "claim_calls 5 NewIdempotencyRepository DefaultIdempotencyConfig (Some :: string \<Rightarrow> string option) [] (sample_claim 0) PcCreate no_rows
      = (PcRun 1, \<lparr>it_rows = [sample_row], it_next = 2\<rparr>)"
    by (simp add: eval_nat_numeral calls_stop) (simp add: sample_simps)
  then show ?thesis unfolding Execute_def sample_prepare by (simp add: sample_opts_def) (simp add: sample_simps)
qed

lemma sample_decode: "decodeStoredResponse (Some :: string \<Rightarrow> string option) [] (Some ''7'') = Some ''7''" by code_simp

lemma replay_stored_answer_witness:
  "Execute (\<lambda>s. s) (\<lambda>s. s) Some Some (\<lambda>s. s) (Some :: string \<Rightarrow> string option) [] DefaultIdempotencyConfig NewIdempotencyRepository
     (20 * sec) 0 (Inl ''BOOM'') (sample_opts\<lparr>xo_ttl := 0, xo_timeout := 0, xo_require_key := False\<rparr>)
     \<lparr>it_rows = [succeeded_row 200 ''7'' (24 * hour) sample_row], it_next = 2\<rparr>
   = (Inr (''7'', True), \<lparr>it_rows = [succeeded_row 200 ''7'' (24 * hour) sample_row], it_next = 2\<rparr>, False)"
  using replay_stored_answer [OF no_rows_ok sample_prepare sample_run [of 0], where now' = "20 * sec" and later' = 0 and outcome' = "Inl ''BOOM''"
      and ttl = 0 and timeout = 0 and need = False] sample_decode
  by (simp add: sample_opts_def sample_claim_def hour_def sec_def marshalStoredResponse_def DefaultIdempotencyConfig_def)

text \<open>C23: A request that finds a record of its key never runs the effect and leaves the store as it is when the record belongs to
  another request (key conflict), when it is being processed (in progress, with the seconds to wait), or when its last run failed
  and the back-off lasts (retry later); the last two until the record expires.\<close>

theorem conflict_never_runs:
  assumes "table_ok t" "prepare hash upper mp cfg True True now opts = Inr (Some c)" "sql_get (cl_scope c) (cl_key c) t = Some r"
    and "ir_fingerprint r \<noteq> cl_fp c \<and> e = KeyConflict
      \<or> ir_fingerprint r = cl_fp c \<and> now < ir_expires_at r \<and> ir_status r = status_processing
          \<and> e = InProgress (retry_after (ir_locked_until r) now)
      \<or> ir_fingerprint r = cl_fp c \<and> now < ir_expires_at r \<and> ir_status r = status_failed
          \<and> (\<exists>l. ir_locked_until r = Some l \<and> now < l \<and> e = RetryBackoff (Some (max 1 (godiv (time_sub l now) sec))))"
  shows "Execute hash upper mp marshal redact unmarshal empty_obj cfg NewIdempotencyRepository now later outcome opts t = (Inl e, t, False)"
proof (rule idem_sql.Execute_old [OF assms(1,2)])
  show "lookup NewIdempotencyRepository t (cl_scope c) (cl_key c) = Some r"
    using assms(3) by (simp add: lookup_def NewIdempotencyRepository_def)
  have "cl_now c = now" using prepare_claim [OF assms(2)] by simp
  with assms(4) show "after_get unmarshal empty_obj c (Some r) = PcDone (Inl e)"
    by (auto simp: after_get_def by_status_def retry_after_def Let_def max_def)
qed

lemma conflict_never_runs_witness:
  "Execute (\<lambda>s. s) (\<lambda>s. s) Some Some (\<lambda>s. s) (Some :: string \<Rightarrow> string option) [] DefaultIdempotencyConfig NewIdempotencyRepository
     (20 * sec) 0 (Inr ''8'') sample_opts \<lparr>it_rows = [sample_row], it_next = 2\<rparr>
   = (Inl (InProgress (retry_after (Some (30 * sec)) (20 * sec))), \<lparr>it_rows = [sample_row], it_next = 2\<rparr>, False)"
  by (rule conflict_never_runs [OF _ sample_prepare, where r = sample_row])
    (simp_all add: table_ok_def sample_simps hour_def sec_def)

fun claim_rank :: "'d idem_pc \<Rightarrow> nat" where
  "claim_rank PcCreate = 5"
| "claim_rank PcGet = 4"
| "claim_rank (PcReclaimExpired r) = 3"
| "claim_rank PcGetAgain = 2"
| "claim_rank (PcReclaimFailed r) = 1"
| "claim_rank _ = 0"

definition claiming :: "'d idem_pc \<Rightarrow> bool" where
  "claiming pc \<longleftrightarrow> (case pc of PcRun i \<Rightarrow> i \<noteq> 0 | PcSucceed i d b e \<Rightarrow> False | PcFail i m r b e \<Rightarrow> False | _ \<Rightarrow> True)"

lemma by_status_rank: "claiming (by_status unmarshal empty_obj now r)" "claim_rank (by_status unmarshal empty_obj now r) \<le> 1"
  "claim_rank (by_status unmarshal empty_obj now r) \<le> 3"
  by (auto simp: by_status_def claiming_def split: option.split)

lemma claim_call_rank:
  assumes "claiming pc" "idem_call repo cfg unmarshal empty_obj c pc s = (pc', s')"
  shows "claiming pc' \<and> claim_rank pc' \<le> claim_rank pc - 1"
proof (cases pc)
  case PcGet
  with assms(2) by_status_rank [of unmarshal empty_obj "cl_now c"] show ?thesis
    by (auto simp: idem_call_def after_get_def claiming_def split: option.splits)
next
  case PcGetAgain
  with assms(2) by_status_rank [of unmarshal empty_obj "cl_now c"] show ?thesis
    by (auto simp: idem_call_def after_get_again_def claiming_def split: option.splits)
qed (use assms in \<open>auto simp: idem_call_def claiming_def start_run_def split: prod.splits option.splits if_splits\<close>)

lemma claim_calls_rank:
  "claiming pc \<Longrightarrow> claim_calls n repo cfg unmarshal empty_obj c pc s = (pc', s') \<Longrightarrow> claiming pc' \<and> claim_rank pc' \<le> claim_rank pc - n"
proof (induction n arbitrary: pc s)
  case 0
  then show ?case by simp
next
  case (Suc n)
  obtain p u where u: "idem_call repo cfg unmarshal empty_obj c pc s = (p, u)" by (rule prod.exhaust)
  from claim_call_rank [OF Suc.prems(1) u] Suc.IH [of p u] Suc.prems(2) u show ?case by auto
qed

lemma claim_calls_add:
  "claim_calls (m + n) repo cfg unmarshal empty_obj c pc s =
    (case claim_calls m repo cfg unmarshal empty_obj c pc s of (pc, s) \<Rightarrow> claim_calls n repo cfg unmarshal empty_obj c pc s)"
  by (induction m arbitrary: pc s) (simp_all split: prod.split)

text \<open>C36: Whatever the repository answers, five calls are enough to decide a request: after them it either owns a record and
  runs the effect, or it has its result; further calls change nothing.\<close>

theorem claim_calls_enough:
  "\<exists>pc s'. claim_calls 5 repo cfg unmarshal empty_obj c PcCreate s = (pc, s')
    \<and> claim_calls (5 + n) repo cfg unmarshal empty_obj c PcCreate s = (pc, s')
    \<and> (case pc of PcRun i \<Rightarrow> i \<noteq> 0 | PcDone r \<Rightarrow> True | _ \<Rightarrow> False)"
proof -
  obtain pc s' where p: "claim_calls 5 repo cfg unmarshal empty_obj c PcCreate s = (pc, s')" by (rule prod.exhaust)
  from claim_calls_rank [OF _ p] have "claiming pc" "claim_rank pc = 0" by (simp_all add: claiming_def)
  then have "(case pc of PcRun i \<Rightarrow> i \<noteq> 0 | PcDone r \<Rightarrow> True | _ \<Rightarrow> False) \<and> claim_calls n repo cfg unmarshal empty_obj c pc s' = (pc, s')"
    by (cases pc) (simp_all add: claiming_def calls_stop)
  with p show ?thesis by (simp add: claim_calls_add)
qed

text \<open>C38: An answer that is longer than the limit is stored cut, with a suffix that no decoder accepts: although the effect succeeded
  and the client has its answer, every repetition before the record expires gets the error of an unavailable store.\<close>

theorem truncated_answer_lost:
  assumes "\<And>s. unmarshal (s @ ''...(truncated)'') = None"
    and "table_ok t" "prepare hash upper mp cfg True True now opts = Inr (Some c)"
    and "Execute hash upper mp marshal redact unmarshal empty_obj cfg NewIdempotencyRepository now later outcome opts t = (Inr (d, False), t', True)"
    and "marshal d = Some raw" "0 < dc_max_stored cfg" "dc_max_stored cfg < int (length (redact raw))"
    and "now' < (if xo_timeout opts > 0 then later + cl_ttl c else cl_expires c)"
  shows "Execute hash upper mp marshal redact unmarshal empty_obj cfg NewIdempotencyRepository now' later' outcome' opts t'
    = (Inl StoreUnavailable, t', False)"
proof -
  have suffix: "trim_space (s @ ''...(truncated)'') \<noteq> []" for s 
    using trim_space_keeps [of "CHR '')''" "s @ ''...(truncated)''"] by (auto simp: ascii_space_def)
  let ?body = "truncateUTF8 (redact raw) (dc_max_stored cfg) @ ''...(truncated)''"
  have "marshalStoredResponse marshal redact cfg d = Some ?body" using assms by (simp add: marshalStoredResponse_def)
  moreover have "decodeStoredResponse unmarshal empty_obj (Some ?body) = None"
    using assms(1) suffix by (simp add: decodeStoredResponse_def del: append.simps)
  moreover obtain c' where "prepare hash upper mp cfg True True now' opts = Inr (Some c')"
    "cl_scope c' = cl_scope c" "cl_key c' = cl_key c" "cl_fp c' = cl_fp c"
    using prepare_again [OF assms(3)] by blast
  ultimately show ?thesis using idem_sql.seq_replay [OF assms(2,3,4) _ _ _ _ assms(8)] by fastforce
qed

lemma truncated_answer_lost_witness:
  "Execute (\<lambda>s. s) (\<lambda>s. s) Some Some (\<lambda>s. s) (\<lambda>s. if s \<noteq> [] \<and> last s = CHR '')'' then None else Some s) [] (DefaultIdempotencyConfig\<lparr>dc_max_stored := 4\<rparr>)
     NewIdempotencyRepository sec 0 (Inr ''1'') sample_opts
     \<lparr>it_rows = [succeeded_row 200 ''1234...(truncated)'' (24 * hour) sample_row], it_next = 2\<rparr>
   = (Inl StoreUnavailable, \<lparr>it_rows = [succeeded_row 200 ''1234...(truncated)'' (24 * hour) sample_row], it_next = 2\<rparr>, False)"
proof (rule truncated_answer_lost [OF _ no_rows_ok])
  let ?un = "\<lambda>s :: string. if s \<noteq> [] \<and> last s = CHR '')'' then None else Some s" and ?cfg = "DefaultIdempotencyConfig\<lparr>dc_max_stored := 4\<rparr>"
  show p: "prepare (\<lambda>s. s) (\<lambda>s. s) Some ?cfg True True 0 sample_opts = Inr (Some (sample_claim 0))"
    by (simp add: prepare_def BuildIdempotencyFingerprint_def sample_key sample_opts_def sample_claim_def DefaultIdempotencyConfig_def Let_def)
  have "claim_calls 5 NewIdempotencyRepository ?cfg ?un [] (sample_claim 0) PcCreate no_rows = (PcRun 1, \<lparr>it_rows = [sample_row], it_next = 2\<rparr>)"
    by (simp add: eval_nat_numeral calls_stop) (simp add: sample_simps)
  moreover have "truncateUTF8 ''12345678'' 4 = ''1234''" by code_simp
  ultimately show "Execute (\<lambda>s. s) (\<lambda>s. s) Some Some (\<lambda>s. s) ?un [] ?cfg NewIdempotencyRepository 0 0 (Inr ''12345678'') sample_opts no_rows
    = (Inr (''12345678'', False), \<lparr>it_rows = [succeeded_row 200 ''1234...(truncated)'' (24 * hour) sample_row], it_next = 2\<rparr>, True)"
    unfolding Execute_def p by (simp add: sample_opts_def) (simp add: sample_simps)
  show "Some ''12345678'' = Some ''12345678''" ..
qed (simp_all add: sample_opts_def sample_claim_def hour_def sec_def)

text \<open>C35: No key is stuck for good: a request whose key has no record, or has a record of the same request that has expired or whose
  last run failed, and that no lease guards any more, runs its effect; when the effect succeeds, the client gets its answer and
  the store has it.\<close>

theorem retry_makes_progress:
  assumes "table_ok t" "prepare hash upper mp cfg True True now opts = Inr (Some c)"
    and "free_for now (cl_fp c) (sql_get (cl_scope c) (cl_key c) t)" "marshalStoredResponse marshal redact cfg d = Some body"
  shows "\<exists>t' r. Execute hash upper mp marshal redact unmarshal empty_obj cfg NewIdempotencyRepository now later (Inr d) opts t = (Inr (d, False), t', True)
    \<and> table_ok t' \<and> sql_get (cl_scope c) (cl_key c) t' = Some r \<and> ir_status r = status_succeeded \<and> ir_response_body r = Some body"
  using idem_sql.seq_progress [OF assms(1,2) _ assms(4)] assms(3) by (simp add: lookup_def NewIdempotencyRepository_def)

text \<open>A crashed run: its record is still being processed, and has expired.\<close>

lemma retry_makes_progress_witness:
  "\<exists>t' r. Execute (\<lambda>s. s) (\<lambda>s. s) Some Some (\<lambda>s. s) (Some :: string \<Rightarrow> string option) [] DefaultIdempotencyConfig NewIdempotencyRepository
       (25 * hour) 0 (Inr ''7'') sample_opts \<lparr>it_rows = [sample_row], it_next = 2\<rparr> = (Inr (''7'', False), t', True)
     \<and> sql_get ''orders'' ''k1'' t' = Some r \<and> ir_response_body r = Some ''7''"
proof -
  have ok: "table_ok \<lparr>it_rows = [sample_row], it_next = 2\<rparr>" by (simp add: table_ok_def sample_simps)
  have free: "free_for (25 * hour) (cl_fp (sample_claim (25 * hour)))
      (sql_get (cl_scope (sample_claim (25 * hour))) (cl_key (sample_claim (25 * hour))) \<lparr>it_rows = [sample_row], it_next = 2\<rparr>)"
    by (simp add: free_for_def sample_simps hour_def sec_def)
  have body: "marshalStoredResponse Some (\<lambda>s. s) DefaultIdempotencyConfig ''7'' = Some ''7''" by (simp add: sample_simps)
  obtain t' r where
    "Execute (\<lambda>s. s) (\<lambda>s. s) Some Some (\<lambda>s. s) (Some :: string \<Rightarrow> string option) [] DefaultIdempotencyConfig NewIdempotencyRepository
       (25 * hour) 0 (Inr ''7'') sample_opts \<lparr>it_rows = [sample_row], it_next = 2\<rparr> = (Inr (''7'', False), t', True)"
    "sql_get (cl_scope (sample_claim (25 * hour))) (cl_key (sample_claim (25 * hour))) t' = Some r" "ir_response_body r = Some ''7''"
    using retry_makes_progress [OF ok sample_prepare free body] by blast
  then show ?thesis by (auto simp: sample_claim_def)
qed

end
