(* ===== verification/SystemLock.thy ===== *)
theory SystemLock
  imports Idempotency
begin

text \<open>
  The global lock of system operations such as updates and restarts (\<open>service/system_operation_lock_service.go\<close>): one
  record of the idempotency store, claimed by \<open>Acquire\<close> for a lease, renewed by \<open>renewLoop\<close> while the operation runs
  and marked as finished by \<open>Release\<close>. As for \<open>Execute\<close>, one call to the store is one step, so that concurrent calls of
  \<open>Acquire\<close> can interleave.
\<close>

section \<open>The service\<close>

record lock_service =
  sl_lease :: duration
  sl_renew :: duration
  sl_ttl :: duration

definition NewSystemOperationLockService :: "idem_config \<Rightarrow> lock_service" where
  "NewSystemOperationLockService cfg =
     (let lease = (if dc_processing_timeout cfg \<le> 0 then 30 * sec else dc_processing_timeout cfg);
          renew = (let i = godiv lease 3 in if i < sec then sec else i);
          ttl = (if dc_system_ttl cfg \<le> 0 then hour else dc_system_ttl cfg)
      in \<lparr>sl_lease = lease, sl_renew = renew, sl_ttl = ttl\<rparr>)"

definition systemOperationLockScope :: string where
  "systemOperationLockScope = ''admin.system.operations.global_lock''"

definition systemOperationLockKey :: string where
  "systemOperationLockKey = ''global-system-operation-lock''"

record system_lock =
  ol_record :: int
  ol_operation :: string

datatype lock_error = LockStoreUnavailable | OperationIDRequired | SystemOperationBusy "string option" "int option"

definition busyError :: "string \<Rightarrow> gotime option \<Rightarrow> gotime \<Rightarrow> lock_error" where
  "busyError operation locked now = SystemOperationBusy (if operation \<noteq> [] then Some operation else None) (retry_after locked now)"

section \<open>Acquire\<close>

definition lock_claim :: "(string \<Rightarrow> string) \<Rightarrow> lock_service \<Rightarrow> gotime \<Rightarrow> string \<Rightarrow> idem_record" where
  "lock_claim hash svc now operation = \<lparr>ir_id = 0, ir_scope = systemOperationLockScope, ir_key_hash = hash systemOperationLockKey,
     ir_fingerprint = operation, ir_status = status_processing, ir_response_status = None, ir_response_body = None, ir_error_reason = None,
     ir_locked_until = Some (now + sl_lease svc), ir_expires_at = now + sl_ttl svc\<rparr>"

datatype lock_pc = LkCreate | LkGet | LkReclaim idem_record | LkLatest | LkHeld int | LkDone lock_error

definition lk_start :: "int \<Rightarrow> lock_pc" where
  "lk_start i = (if i = 0 then LkDone LockStoreUnavailable else LkHeld i)"

definition lk_after_get :: "gotime \<Rightarrow> idem_record option \<Rightarrow> lock_pc" where
  "lk_after_get now existing =
     (case existing of None \<Rightarrow> LkDone LockStoreUnavailable
      | Some r \<Rightarrow>
          if ir_status r = status_processing \<and> (case ir_locked_until r of None \<Rightarrow> False | Some l \<Rightarrow> l > now)
          then LkDone (busyError (ir_fingerprint r) (ir_locked_until r) now) else LkReclaim r)"

definition lk_after_latest :: "gotime \<Rightarrow> idem_record option \<Rightarrow> lock_pc" where
  "lk_after_latest now latest =
     (case latest of None \<Rightarrow> LkDone (SystemOperationBusy None None)
      | Some r \<Rightarrow> LkDone (busyError (ir_fingerprint r) (ir_locked_until r) now))"

definition lock_call ::
    "'s idem_repository \<Rightarrow> (string \<Rightarrow> string) \<Rightarrow> lock_service \<Rightarrow> gotime \<Rightarrow> string \<Rightarrow> lock_pc \<Rightarrow> 's \<Rightarrow> lock_pc \<times> 's" where
  "lock_call repo hash svc now operation pc s =
     (case pc of
        LkCreate \<Rightarrow> (case CreateProcessing repo (lock_claim hash svc now operation) s of (Some i, s) \<Rightarrow> (lk_start i, s) | (None, s) \<Rightarrow> (LkGet, s))
      | LkGet \<Rightarrow> (lk_after_get now (GetByScopeAndKeyHash repo systemOperationLockScope (hash systemOperationLockKey) s), s)
      | LkReclaim r \<Rightarrow>
          (case TryReclaim repo (ir_id r) (ir_status r) now (now + sl_lease svc) (now + sl_ttl svc) s of
             (taken, s) \<Rightarrow> (if taken then lk_start (ir_id r) else LkLatest, s))
      | LkLatest \<Rightarrow> (lk_after_latest now (GetByScopeAndKeyHash repo systemOperationLockScope (hash systemOperationLockKey) s), s)
      | LkHeld i \<Rightarrow> (LkHeld i, s)
      | LkDone e \<Rightarrow> (LkDone e, s))"

text \<open>A call that reports an error; the error of the last look is ignored.\<close>

definition lock_call_error :: "lock_pc \<Rightarrow> lock_pc" where
  "lock_call_error pc = (case pc of LkLatest \<Rightarrow> LkDone (SystemOperationBusy None None) | LkHeld i \<Rightarrow> LkHeld i
     | LkDone e \<Rightarrow> LkDone e | _ \<Rightarrow> LkDone LockStoreUnavailable)"

fun lock_calls ::
    "nat \<Rightarrow> 's idem_repository \<Rightarrow> (string \<Rightarrow> string) \<Rightarrow> lock_service \<Rightarrow> gotime \<Rightarrow> string \<Rightarrow> lock_pc \<Rightarrow> 's \<Rightarrow> lock_pc \<times> 's" where
  "lock_calls 0 repo hash svc now operation pc s = (pc, s)"
| "lock_calls (Suc n) repo hash svc now operation pc s =
     (case lock_call repo hash svc now operation pc s of (pc, s) \<Rightarrow> lock_calls n repo hash svc now operation pc s)"

text \<open>Four calls decide: create, get, reclaim and the last look.\<close>

definition Acquire :: "(string \<Rightarrow> string) \<Rightarrow> lock_service \<Rightarrow> 's idem_repository \<Rightarrow> gotime \<Rightarrow> string \<Rightarrow> 's \<Rightarrow> (lock_error + system_lock) \<times> 's" where
  "Acquire hash svc repo now operation s =
     (if operation = [] then (Inl OperationIDRequired, s)
      else (case lock_calls 4 repo hash svc now operation LkCreate s of
              (LkHeld i, s) \<Rightarrow> (Inr \<lparr>ol_record = i, ol_operation = operation\<rparr>, s)
            | (LkDone e, s) \<Rightarrow> (Inl e, s)
            | (_, s) \<Rightarrow> (Inl LockStoreUnavailable, s)))"

section \<open>Release and renewal\<close>

definition released_body :: "string \<Rightarrow> string" where
  "released_body operation = ''{\"operation_id\":\"'' @ operation @ ''\",\"released\":true}''"

definition Release :: "lock_service \<Rightarrow> 's idem_repository \<Rightarrow> gotime \<Rightarrow> system_lock \<Rightarrow> bool \<Rightarrow> string \<Rightarrow> 's \<Rightarrow> 's" where
  "Release svc repo now lock succeeded reason s =
     (if succeeded then MarkSucceeded repo (ol_record lock) 200 (released_body (ol_operation lock)) (now + sl_ttl svc) s
      else MarkFailedRetryable repo (ol_record lock) (if reason = [] then ''SYSTEM_OPERATION_FAILED'' else reason) now (now + sl_ttl svc) s)"

definition renew_lock :: "lock_service \<Rightarrow> 's idem_repository \<Rightarrow> gotime \<Rightarrow> system_lock \<Rightarrow> 's \<Rightarrow> bool \<times> 's" where
  "renew_lock svc repo now lock = ExtendProcessingLock repo (ol_record lock) (ol_operation lock) (now + sl_lease svc) (now + sl_ttl svc)"

text \<open>The loop on the ticks of the renewal timer until the lock is released; a tick is a clock reading and whether the call fails.\<close>

fun renewLoop :: "lock_service \<Rightarrow> 's idem_repository \<Rightarrow> system_lock \<Rightarrow> (gotime \<times> bool) list \<Rightarrow> 's \<Rightarrow> 's" where
  "renewLoop svc repo lock [] s = s"
| "renewLoop svc repo lock ((now, fails) # ticks) s =
     (if fails then renewLoop svc repo lock ticks s
      else (case renew_lock svc repo now lock s of (held, s) \<Rightarrow> if held then renewLoop svc repo lock ticks s else s))"

section \<open>Concurrent operations\<close>

text \<open>
  The time of a lease. \<open>begun\<close> is the clock at its start and \<open>until\<close> its end: requests of this time read clocks below its end and
  renewals happen after its start. A step is one call of an \<open>Acquire\<close>, a renewal, a clean-up, or the work of
  other keys, which leaves this record alone.
\<close>

record 's lock_world =
  lw_store :: 's
  lw_reqs :: "nat \<Rightarrow> (gotime \<times> string \<times> lock_pc) option"

inductive lock_step for repo :: "'s idem_repository" and ok :: "'s \<Rightarrow> bool" and hash :: "string \<Rightarrow> string" and svc :: lock_service
    and begun until :: gotime where
  ask: "lw_reqs w n = None \<Longrightarrow> now < until \<Longrightarrow>
    lock_step repo ok hash svc begun until w (w\<lparr>lw_reqs := (lw_reqs w)(n \<mapsto> (now, operation, LkCreate))\<rparr>)"
| call: "lw_reqs w n = Some (now, operation, pc) \<Longrightarrow> lock_call repo hash svc now operation pc (lw_store w) = (pc', s) \<Longrightarrow>
    lock_step repo ok hash svc begun until w (w\<lparr>lw_store := s, lw_reqs := (lw_reqs w)(n \<mapsto> (now, operation, pc'))\<rparr>)"
| call_fails: "lw_reqs w n = Some (now, operation, pc) \<Longrightarrow>
    s = lw_store w \<or> s = snd (lock_call repo hash svc now operation pc (lw_store w)) \<Longrightarrow>
    lock_step repo ok hash svc begun until w (w\<lparr>lw_store := s, lw_reqs := (lw_reqs w)(n \<mapsto> (now, operation, lock_call_error pc))\<rparr>)"
| renew: "begun \<le> now \<Longrightarrow>
    lock_step repo ok hash svc begun until w (w\<lparr>lw_store := snd (renew_lock svc repo now lock (lw_store w))\<rparr>)"
| sweep: "now < until \<Longrightarrow>
    lock_step repo ok hash svc begun until w (w\<lparr>lw_store := snd (DeleteExpired repo now limit (lw_store w))\<rparr>)"
| others: "ok s \<Longrightarrow> GetByScopeAndKeyHash repo systemOperationLockScope (hash systemOperationLockKey) s
      = GetByScopeAndKeyHash repo systemOperationLockScope (hash systemOperationLockKey) (lw_store w) \<Longrightarrow>
    lock_step repo ok hash svc begun until w (w\<lparr>lw_store := s\<rparr>)"

inductive lock_reach for repo :: "'s idem_repository" and ok :: "'s \<Rightarrow> bool" and hash :: "string \<Rightarrow> string" and svc :: lock_service
    and begun until :: gotime and w0 :: "'s lock_world" where
  init: "lock_reach repo ok hash svc begun until w0 w0"
| step: "lock_reach repo ok hash svc begun until w0 w \<Longrightarrow> lock_step repo ok hash svc begun until w w' \<Longrightarrow>
    lock_reach repo ok hash svc begun until w0 w'"

text \<open>Requests that may already be under way when the lease begins: none holds the lock, and those about to reclaim saw its record.\<close>

definition lk_waiting :: "gotime \<Rightarrow> int \<Rightarrow> gotime \<times> string \<times> lock_pc \<Rightarrow> bool" where
  "lk_waiting until i req \<longleftrightarrow> (case req of (now, operation, pc) \<Rightarrow> now < until
     \<and> (case pc of LkReclaim r \<Rightarrow> ir_id r = i | LkHeld j \<Rightarrow> False | _ \<Rightarrow> True))"

definition lk_held :: "gotime \<Rightarrow> int \<Rightarrow> idem_record option \<Rightarrow> bool" where
  "lk_held until i row \<longleftrightarrow> (case row of None \<Rightarrow> False
     | Some r \<Rightarrow> ir_id r = i \<and> ir_status r = status_processing \<and> until \<le> ir_expires_at r
         \<and> (case ir_locked_until r of None \<Rightarrow> False | Some l \<Rightarrow> until \<le> l))"

section \<open>The lease is exclusive\<close>

abbreviation lock_row :: "'s idem_repository \<Rightarrow> (string \<Rightarrow> string) \<Rightarrow> 's \<Rightarrow> idem_record option" where
  "lock_row repo hash s \<equiv> GetByScopeAndKeyHash repo systemOperationLockScope (hash systemOperationLockKey) s"

lemma lock_claim_sel [simp]:
  "ir_scope (lock_claim hash svc now operation) = systemOperationLockScope"
  "ir_key_hash (lock_claim hash svc now operation) = hash systemOperationLockKey"
  by (simp_all add: lock_claim_def)

lemma lk_held_not_reclaimable: "lk_held until i row \<Longrightarrow> row = Some r \<Longrightarrow> now < until \<Longrightarrow> \<not> reclaimable i from now r"
  by (auto simp: lk_held_def reclaimable_def split: option.splits)

lemma lk_held_update:
  assumes "lk_held until i row" "\<And>r. row = Some r \<Longrightarrow> hit r \<Longrightarrow> lk_held until i (Some (f r))"
  shows "lk_held until i (map_option (\<lambda>r. if hit r then f r else r) row)"
  using assms by (cases row) simp_all

context idem_contract
begin

lemma lock_call_waiting:
  assumes "ok s" "lk_held until i (lock_row repo hash s)" "lk_waiting until i (now, operation, pc)"
    and call: "lock_call repo hash svc now operation pc s = (pc', s')"
  shows "ok s' \<and> lk_held until i (lock_row repo hash s') \<and> lk_waiting until i (now, operation, pc')"
proof -
  obtain r where r: "lock_row repo hash s = Some r" "ir_id r = i" using assms(2) by (auto simp: lk_held_def split: option.splits)
  have w: "now < until" using assms(3) by (simp add: lk_waiting_def)
  show ?thesis
  proof (cases pc)
    case LkCreate
    have "CreateProcessing repo (lock_claim hash svc now operation) s = (None, s)" by (rule create_old [OF assms(1)]) (use r in simp)
    with LkCreate call assms show ?thesis by (auto simp: lock_call_def lk_waiting_def)
  next
    case LkGet
    with call r assms show ?thesis by (auto simp: lock_call_def lk_after_get_def lk_waiting_def)
  next
    case (LkReclaim q)
    then have q: "ir_id q = ir_id r" using assms(3) r(2) by (simp add: lk_waiting_def)
    let ?t = "TryReclaim repo (ir_id q) (ir_status q) now (now + sl_lease svc) (now + sl_ttl svc) s"
    have no: "\<not> reclaimable (ir_id r) (ir_status q) now r" using lk_held_not_reclaimable [OF assms(2) r(1) w] r(2) by simp
    then have "lock_row repo hash (snd ?t) = lock_row repo hash s" "ok (snd ?t)" "\<not> fst ?t"
      using reclaim [OF assms(1)] reclaim_taken [OF assms(1) r(1)] r(1) by (simp_all add: q)
    with LkReclaim call assms(2) w show ?thesis by (cases ?t) (auto simp: lock_call_def lk_waiting_def)
  next
    case LkLatest
    with call assms show ?thesis by (auto simp: lock_call_def lk_after_latest_def lk_waiting_def split: option.splits)
  qed (use assms in \<open>auto simp: lock_call_def lk_waiting_def\<close>)
qed

lemma lock_step_waiting:
  assumes "lock_step repo ok hash svc begun until w w'" "until \<le> begun + sl_lease svc" "sl_lease svc \<le> sl_ttl svc"
    and "ok (lw_store w)" "lk_held until i (lock_row repo hash (lw_store w))" "\<forall>req \<in> ran (lw_reqs w). lk_waiting until i req"
  shows "ok (lw_store w') \<and> lk_held until i (lock_row repo hash (lw_store w')) \<and> (\<forall>req \<in> ran (lw_reqs w'). lk_waiting until i req)"
  using assms(1)
proof (cases rule: lock_step.cases)
  case (ask n now operation)
  with assms(4-6) show ?thesis by (auto simp: ran_def lk_waiting_def split: if_splits)
next
  case (call n now operation pc pc' s)
  then have "lk_waiting until i (now, operation, pc)" using assms(6) by (auto intro: ranI)
  from lock_call_waiting [where hash = hash and svc = svc, OF assms(4,5) this call(3)] call(1) assms(6) show ?thesis by (auto simp: ran_def split: if_splits)
next
  case (call_fails n now operation pc s)
  then have wait: "lk_waiting until i (now, operation, pc)" using assms(6) by (auto intro: ranI)
  then have "lk_waiting until i (now, operation, lock_call_error pc)" by (auto simp: lk_waiting_def lock_call_error_def split: lock_pc.splits)
  moreover have "ok s \<and> lk_held until i (lock_row repo hash s)"
    using call_fails(3) assms(4,5) lock_call_waiting [where hash = hash and svc = svc, OF assms(4,5) wait prod.collapse [symmetric]] by auto
  ultimately show ?thesis using call_fails(1) assms(6) by (auto simp: ran_def split: if_splits)
next
  case (renew now lock)
  have "lk_held until i (map_option (\<lambda>r. if renewable (ol_record lock) (ol_operation lock) r
      then renewed_row (now + sl_lease svc) (now + sl_ttl svc) r else r) (lock_row repo hash (lw_store w)))"
    by (rule lk_held_update [OF assms(5)]) (use assms(2,3,5) renew(2) in \<open>auto simp: lk_held_def idem_rows\<close>)
  with extend [OF assms(4)] renew(1) assms(6) show ?thesis by (simp add: renew_lock_def)
next
  case (sweep now limit)
  have "\<not> (\<exists>r. lock_row repo hash (lw_store w) = Some r \<and> ir_expires_at r \<le> now)"
    using assms(5) sweep(2) by (auto simp: lk_held_def split: option.splits)
  with swept [OF assms(4), of now limit] sweep(1) assms(5,6) show ?thesis by (metis lock_world.select_convs lock_world.surjective lock_world.update_convs(1))
next
  case (others s)
  with assms(5,6) show ?thesis by simp
qed

lemma lock_reach_waiting:
  assumes "lock_reach repo ok hash svc begun until w0 w" "until \<le> begun + sl_lease svc" "sl_lease svc \<le> sl_ttl svc"
    and "ok (lw_store w0)" "lk_held until i (lock_row repo hash (lw_store w0))" "\<forall>req \<in> ran (lw_reqs w0). lk_waiting until i req"
  shows "ok (lw_store w) \<and> lk_held until i (lock_row repo hash (lw_store w)) \<and> (\<forall>req \<in> ran (lw_reqs w). lk_waiting until i req)"
  using assms(1)
proof (induction rule: lock_reach.induct)
  case init
  with assms show ?case by blast
next
  case (step w w')
  with lock_step_waiting [OF step(2) assms(2,3)] show ?case by blast
qed

text \<open>What \<open>Acquire\<close> does when it takes the lock.\<close>

lemma lock_calls_stop:
  "lock_calls n repo hash svc now operation (LkHeld i) s = (LkHeld i, s)"
  "lock_calls n repo hash svc now operation (LkDone e) s = (LkDone e, s)"
  by (induction n) (simp_all add: lock_call_def)

lemma acquire_old:
  assumes "ok s" "lock_row repo hash s = Some r" "operation \<noteq> []"
    and t: "TryReclaim repo (ir_id r) (ir_status r) now (now + sl_lease svc) (now + sl_ttl svc) s = (taken, s1)"
  shows "Acquire hash svc repo now operation s =
    (if ir_status r = status_processing \<and> (case ir_locked_until r of None \<Rightarrow> False | Some l \<Rightarrow> l > now)
     then (Inl (busyError (ir_fingerprint r) (ir_locked_until r) now), s)
     else if taken then (Inr \<lparr>ol_record = ir_id r, ol_operation = operation\<rparr>, s1)
     else (Inl (case lock_row repo hash s1 of None \<Rightarrow> SystemOperationBusy None None
                | Some q \<Rightarrow> busyError (ir_fingerprint q) (ir_locked_until q) now), s1))"
proof -
  have "CreateProcessing repo (lock_claim hash svc now operation) s = (None, s)" by (rule create_old [OF assms(1)]) (use assms(2) in simp)
  then have calls: "lock_calls 4 repo hash svc now operation LkCreate s = lock_calls 2 repo hash svc now operation (lk_after_get now (Some r)) s"
    using assms(2) by (simp add: eval_nat_numeral lock_call_def)
  have two: "lock_calls 2 repo hash svc now operation (LkReclaim r) s
      = (if taken then (lk_start (ir_id r), s1) else (lk_after_latest now (lock_row repo hash s1), s1))"
    using t by (auto simp: numeral_2_eq_2 lock_call_def lk_start_def)
  have "0 < ir_id r" using get_key [OF assms(1,2)] by simp
  then have start: "lk_start (ir_id r) = LkHeld (ir_id r)" by (simp add: lk_start_def)
  show ?thesis
  proof (cases "ir_status r = status_processing \<and> (case ir_locked_until r of None \<Rightarrow> False | Some l \<Rightarrow> l > now)")
    case True
    then have "lk_after_get now (Some r) = LkDone (busyError (ir_fingerprint r) (ir_locked_until r) now)" by (simp add: lk_after_get_def)
    with calls assms(3) True show ?thesis by (simp add: Acquire_def lock_calls_stop)
  next
    case False
    then have "lk_after_get now (Some r) = LkReclaim r" unfolding lk_after_get_def by simp
    with calls assms(3) two start show ?thesis
      unfolding if_not_P [OF False] by (simp add: Acquire_def lk_after_latest_def split: option.split)
  qed
qed

text \<open>An existing record is taken over when nobody's lease on it lasts.\<close>

lemma acquire_free:
  assumes "ok s" "lock_row repo hash s = Some r" "operation \<noteq> []" "reclaimable (ir_id r) (ir_status r) now r"
  shows "\<exists>s'. Acquire hash svc repo now operation s = (Inr \<lparr>ol_record = ir_id r, ol_operation = operation\<rparr>, s')
    \<and> ok s' \<and> lock_row repo hash s' = Some (claimed_row (now + sl_lease svc) (now + sl_ttl svc) r)"
proof -
  obtain taken s1 where t: "TryReclaim repo (ir_id r) (ir_status r) now (now + sl_lease svc) (now + sl_ttl svc) s = (taken, s1)"
    by (rule prod.exhaust)
  have "taken" using reclaim_taken [OF assms(1,2), of "ir_status r" now "now + sl_lease svc" "now + sl_ttl svc"] t assms(4) by simp
  moreover have "\<not> (case ir_locked_until r of None \<Rightarrow> False | Some l \<Rightarrow> l > now)"
    using assms(4) by (auto simp: reclaimable_def split: option.splits)
  moreover have "ok s1 \<and> lock_row repo hash s1 = Some (claimed_row (now + sl_lease svc) (now + sl_ttl svc) r)"
    using reclaim [OF assms(1), of "ir_id r" "ir_status r" now "now + sl_lease svc" "now + sl_ttl svc"
        systemOperationLockScope "hash systemOperationLockKey"] t assms(2,4) by simp
  ultimately show ?thesis using acquire_old [where hash = hash and svc = svc and now = now, OF assms(1-3) t] by simp
qed

lemma acquire_takes:
  assumes "ok s" "lock_row repo hash s = Some r" "Acquire hash svc repo now operation s = (Inr lock, s')"
  shows "ok s' \<and> lock = \<lparr>ol_record = ir_id r, ol_operation = operation\<rparr>
    \<and> lock_row repo hash s' = Some (claimed_row (now + sl_lease svc) (now + sl_ttl svc) r)"
proof -
  obtain taken s1 where t: "TryReclaim repo (ir_id r) (ir_status r) now (now + sl_lease svc) (now + sl_ttl svc) s = (taken, s1)"
    by (rule prod.exhaust)
  have op: "operation \<noteq> []" using assms(3) by (auto simp: Acquire_def)
  from acquire_old [where hash = hash and svc = svc and now = now, OF assms(1,2) op t] assms(3) have taken by (auto split: if_splits)
  with reclaim_taken [OF assms(1,2), of "ir_status r" now "now + sl_lease svc" "now + sl_ttl svc"] t
  have "reclaimable (ir_id r) (ir_status r) now r" by simp
  from acquire_free [where hash = hash and svc = svc, OF assms(1,2) op this] assms(3) show ?thesis by auto
qed

lemma acquire_held:
  assumes "ok s" "Acquire hash svc repo now operation s = (Inr lock, s')" "sl_lease svc \<le> sl_ttl svc"
  shows "ok s' \<and> lk_held (now + sl_lease svc) (ol_record lock) (lock_row repo hash s')"
proof (cases "lock_row repo hash s")
  case None
  then obtain i s1 where new: "CreateProcessing repo (lock_claim hash svc now operation) s = (Some i, s1)" "ok s1"
    "lock_row repo hash s1 = Some (created_row i (lock_claim hash svc now operation))"
    using create_new [OF assms(1), of "lock_claim hash svc now operation"] by fastforce
  have "lock_calls 4 repo hash svc now operation LkCreate s = (lk_start i, s1)"
    using new(1) by (simp add: eval_nat_numeral lock_call_def lk_start_def)
  with new(2,3) assms(2,3) show ?thesis
    by (auto simp: Acquire_def lk_start_def lk_held_def idem_rows lock_claim_def split: if_splits)
next
  case (Some r)
  from acquire_takes [OF assms(1) Some assms(2)] assms(3) show ?thesis by (auto simp: lk_held_def idem_rows)
qed

end

section \<open>Properties\<close>


definition first_lock :: idem_table where
  "first_lock = \<lparr>it_rows = [created_row 1 (lock_claim (\<lambda>s. s) (NewSystemOperationLockService DefaultIdempotencyConfig) 0 ''op1'')], it_next = 2\<rparr>"

lemma lock_service_default: "NewSystemOperationLockService DefaultIdempotencyConfig = \<lparr>sl_lease = 30 * sec, sl_renew = 10 * sec, sl_ttl = hour\<rparr>"
  by code_simp

lemma first_acquire: "Acquire (\<lambda>s. s) (NewSystemOperationLockService DefaultIdempotencyConfig) NewIdempotencyRepository 0 ''op1'' no_rows
    = (Inr \<lparr>ol_record = 1, ol_operation = ''op1''\<rparr>, first_lock)"
  by (simp add: Acquire_def eval_nat_numeral lock_call_def NewIdempotencyRepository_def sql_create_def no_rows_def lk_start_def first_lock_def)

lemma lease_in_ttl: "sl_lease (NewSystemOperationLockService DefaultIdempotencyConfig) \<le> sl_ttl (NewSystemOperationLockService DefaultIdempotencyConfig)"
  by code_simp

lemma lock_reach_call:
  "lock_reach repo ok hash svc begun until w0 \<lparr>lw_store = s, lw_reqs = q\<rparr> \<Longrightarrow> q n = Some (now, operation, pc) \<Longrightarrow>
     lock_call repo hash svc now operation pc s = (pc', s') \<Longrightarrow>
     lock_reach repo ok hash svc begun until w0 \<lparr>lw_store = s', lw_reqs = q(n \<mapsto> (now, operation, pc'))\<rparr>"
  by (erule lock_reach.step) (use lock_step.call [of "\<lparr>lw_store = s, lw_reqs = q\<rparr>" n now operation pc repo hash svc pc' s'] in simp)


text \<open>C37: A lock that was acquired by taking over an older record is not renewed: the record keeps the older operation's id, so the first
  renewal that reaches the store ends the renewal loop without effect. When the lease has passed, another operation acquires the
  lock while the first still runs; and when the first then releases it, a third gets it at once.\<close>

theorem reclaimed_lock_lost:
  assumes "table_ok t" "sql_get systemOperationLockScope (hash systemOperationLockKey) t = Some r"
    and "ir_fingerprint r \<noteq> operation" "Acquire hash svc NewIdempotencyRepository now operation t = (Inr lock, t')"
    and "now + sl_lease svc \<le> now2" "operation2 \<noteq> []" "operation3 \<noteq> []"
  shows "renewLoop svc NewIdempotencyRepository lock ticks t' = t'
    \<and> (\<exists>t2. Acquire hash svc NewIdempotencyRepository now2 operation2 (renewLoop svc NewIdempotencyRepository lock ticks t')
          = (Inr \<lparr>ol_record = ol_record lock, ol_operation = operation2\<rparr>, t2)
        \<and> (\<exists>t3. Acquire hash svc NewIdempotencyRepository now2 operation3
              (Release svc NewIdempotencyRepository now2 lock succeeded reason t2)
            = (Inr \<lparr>ol_record = ol_record lock, ol_operation = operation3\<rparr>, t3)))"
proof -
  let ?R = NewIdempotencyRepository and ?i = "ir_id r"
  have r: "lock_row ?R hash t = Some r" using assms(2) by (simp add: NewIdempotencyRepository_def)
  let ?r1 = "claimed_row (now + sl_lease svc) (now + sl_ttl svc) r"
  let ?r2 = "claimed_row (now2 + sl_lease svc) (now2 + sl_ttl svc) ?r1"
  from idem_sql.acquire_takes [OF assms(1) r assms(4)]
  have ok1: "table_ok t'" and lock: "lock = \<lparr>ol_record = ?i, ol_operation = operation\<rparr>" and r1: "lock_row ?R hash t' = Some ?r1" by blast+
  have "renew_lock svc ?R later lock t' = (False, t')" for later
  proof -
    have "fst (renew_lock svc ?R later lock t') = False"
      using idem_sql.extend_held [OF ok1 r1] assms(3) by (simp add: renew_lock_def lock renewable_def idem_rows)
    moreover have "fst (update_rows hit f u) = False \<Longrightarrow> snd (update_rows hit f u) = u" for hit f u
      by (simp add: update_rows_def list_ex_iff map_idI)
    ultimately show ?thesis unfolding renew_lock_def NewIdempotencyRepository_def sql_extend_def
      by (simp add: prod_eq_iff)
  qed
  then have loop: "renewLoop svc ?R lock ticks t' = t'"
    by (induction ticks) (auto split: prod.split)
  obtain t2 where t2: "Acquire hash svc ?R now2 operation2 t' = (Inr \<lparr>ol_record = ?i, ol_operation = operation2\<rparr>, t2)" "table_ok t2"
    "lock_row ?R hash t2 = Some ?r2"
    using idem_sql.acquire_free [where hash = hash and svc = svc and now = now2, OF ok1 r1 assms(6)] assms(5) by (auto simp: reclaimable_def idem_rows)
  let ?u = "Release svc ?R now2 lock succeeded reason t2"
  have "table_ok ?u" and u: "\<exists>q. lock_row ?R hash ?u = Some q \<and> ir_id q = ?i \<and> reclaimable ?i (ir_status q) now2 q"
    using idem_sql.succeeded [OF t2(2)] idem_sql.failed [OF t2(2)] t2(3)
    by (auto simp: Release_def lock reclaimable_def idem_rows)
  then obtain t3 where "Acquire hash svc ?R now2 operation3 ?u = (Inr \<lparr>ol_record = ?i, ol_operation = operation3\<rparr>, t3)"
    using idem_sql.acquire_free [of ?u hash _ operation3 now2 svc] assms(7) by metis
  with loop t2(1) show ?thesis by (auto simp: lock)
qed

text \<open>The second operation of a server's life: the first has released the lock.\<close>

lemma reclaimed_lock_lost_witness:
  "\<exists>lock t t2. Acquire (\<lambda>s. s) (NewSystemOperationLockService DefaultIdempotencyConfig) NewIdempotencyRepository (60 * sec) ''op2''
       (Release (NewSystemOperationLockService DefaultIdempotencyConfig) NewIdempotencyRepository (20 * sec) \<lparr>ol_record = 1, ol_operation = ''op1''\<rparr>
          True [] first_lock) = (Inr lock, t)
     \<and> Acquire (\<lambda>s. s) (NewSystemOperationLockService DefaultIdempotencyConfig) NewIdempotencyRepository (90 * sec) ''op3''
         (renewLoop (NewSystemOperationLockService DefaultIdempotencyConfig) NewIdempotencyRepository lock [(70 * sec, False), (80 * sec, False)] t)
       = (Inr \<lparr>ol_record = ol_record lock, ol_operation = ''op3''\<rparr>, t2)"
proof -
  let ?svc = "NewSystemOperationLockService DefaultIdempotencyConfig"
  let ?u = "Release ?svc NewIdempotencyRepository (20 * sec) \<lparr>ol_record = 1, ol_operation = ''op1''\<rparr> True [] first_lock"
  let ?a = "Acquire (\<lambda>s. s) ?svc NewIdempotencyRepository (60 * sec) ''op2'' ?u"
  have "table_ok first_lock" using idem_sql.acquire_held [OF no_rows_ok first_acquire lease_in_ttl] by blast
  then have ok: "table_ok ?u" using idem_sql.succeeded by (simp add: Release_def)
  have row: "sql_get systemOperationLockScope systemOperationLockKey ?u
      = Some (succeeded_row 200 (released_body ''op1'') (20 * sec + sl_ttl ?svc) (created_row 1 (lock_claim (\<lambda>s. s) ?svc 0 ''op1'')))"
    by (simp add: Release_def repository_methods update_rows_def first_lock_def sql_get_def idem_rows)
  have "fst ?a = Inr \<lparr>ol_record = 1, ol_operation = ''op2''\<rparr>" by code_simp
  then have a: "?a = (Inr \<lparr>ol_record = 1, ol_operation = ''op2''\<rparr>, snd ?a)" by (metis prod.collapse)
  have late: "60 * sec + sl_lease ?svc \<le> 90 * sec" by code_simp
  have fp: "ir_fingerprint (succeeded_row 200 (released_body ''op1'') (20 * sec + sl_ttl ?svc) (created_row 1 (lock_claim (\<lambda>s. s) ?svc 0 ''op1'')))
      \<noteq> ''op2''" by (simp add: idem_rows lock_claim_def)
  note lost = reclaimed_lock_lost [where hash = "\<lambda>s. s", OF ok row fp a late, of "''op3''" "''op4''" "[(70 * sec, False), (80 * sec, False)]"]
  have "''op3'' \<noteq> []" "''op4'' \<noteq> []" by simp_all
  with lost obtain t2 where "Acquire (\<lambda>s. s) ?svc NewIdempotencyRepository (90 * sec) ''op3''
      (renewLoop ?svc NewIdempotencyRepository \<lparr>ol_record = 1, ol_operation = ''op2''\<rparr> [(70 * sec, False), (80 * sec, False)] (snd ?a))
    = (Inr \<lparr>ol_record = ol_record \<lparr>ol_record = 1, ol_operation = ''op2''\<rparr>, ol_operation = ''op3''\<rparr>, t2)"
    by blast
  with a show ?thesis by blast
qed

end
