(* ===== verification/KeywordMatcher.thy ===== *)
theory KeywordMatcher
  imports Prelude "HOL-Library.Sublist"
begin

text \<open>
  The keyword filter of the content moderation (\<open>service/content_moderation_keyword_matcher.go\<close>): an Aho-Corasick
  automaton in arrays. The constructor builds a trie whose edges are chained by sibling indices, links every node to the
  node of its longest proper suffix in breadth-first order, and flattens the edges into sorted slices; \<open>Match\<close> runs
  the automaton over the text and returns the earliest keyword of the list that occurs.

  Indices are natural numbers (the sums of the keyword lengths are far below the 32-bit limit of the indices), bytes
  are numbers below 256, and \<open>lower\<close> is \<open>strings.ToLower\<close>. A keyword index of -1 means none.
\<close>

section \<open>The data\<close>

record kw_node =
  kn_failure :: nat
  kn_best :: int
  kn_start :: nat
  kn_count :: nat

record kw_build_edge =
  kb_target :: nat
  kb_sibling :: int
  kb_label :: nat

record kw_edge =
  ke_target :: nat
  ke_label :: nat

record kw_matcher =
  km_nodes :: "kw_node list"
  km_edges :: "kw_edge list"
  km_root :: "nat list"
  km_keywords :: "string list"

definition bytes :: "string \<Rightarrow> nat list" where
  "bytes s = map of_char s"

definition new_node :: kw_node where
  "new_node = \<lparr>kn_failure = 0, kn_best = -1, kn_start = 0, kn_count = 0\<rparr>"

section \<open>The trie\<close>

text \<open>While building, \<open>kn_start\<close> is one more than the index of the node's youngest edge.\<close>

definition BuildFirstEdge :: "kw_node \<Rightarrow> int" where
  "BuildFirstEdge n = (if kn_start n = 0 then -1 else int (kn_start n) - 1)"

text \<open>The edges that a loop over siblings visits; their number bounds the loop.\<close>

fun sibling_chain :: "nat \<Rightarrow> kw_build_edge list \<Rightarrow> int \<Rightarrow> kw_build_edge list" where
  "sibling_chain 0 es i = []"
| "sibling_chain (Suc n) es i = (if i < 0 then [] else es ! nat i # sibling_chain n es (kb_sibling (es ! nat i)))"

definition edges_of :: "kw_node list \<Rightarrow> kw_build_edge list \<Rightarrow> nat \<Rightarrow> kw_build_edge list" where
  "edges_of nodes es s = sibling_chain (length es) es (BuildFirstEdge (nodes ! s))"

definition BuildTransition :: "kw_node list \<Rightarrow> kw_build_edge list \<Rightarrow> nat \<Rightarrow> nat \<Rightarrow> nat option" where
  "BuildTransition nodes es s label =
     (if s \<ge> length nodes then None else map_option kb_target (List.find (\<lambda>e. kb_label e = label) (edges_of nodes es s)))"

definition insert_byte :: "nat \<Rightarrow> kw_node list \<times> kw_build_edge list \<times> nat \<Rightarrow> kw_node list \<times> kw_build_edge list \<times> nat" where
  "insert_byte label = (\<lambda>(nodes, es, s).
     (case BuildTransition nodes es s label of Some t \<Rightarrow> (nodes, es, t)
      | None \<Rightarrow>
          (let t = length nodes; nodes = nodes @ [new_node];
               es = es @ [\<lparr>kb_target = t, kb_sibling = BuildFirstEdge (nodes ! s), kb_label = label\<rparr>]
           in (nodes[s := (nodes ! s)\<lparr>kn_start := length es\<rparr>], es, t))))"

definition insert_keyword ::
    "(string \<Rightarrow> string) \<Rightarrow> nat \<times> string \<Rightarrow> kw_node list \<times> kw_build_edge list \<Rightarrow> kw_node list \<times> kw_build_edge list" where
  "insert_keyword lower = (\<lambda>(i, keyword) (nodes, es).
     (if keyword = [] then (nodes, es)
      else (case fold insert_byte (bytes (lower keyword)) (nodes, es, 0) of (nodes, es, s) \<Rightarrow>
              (let current = kn_best (nodes ! s)
               in (if current < 0 \<or> int i < current then nodes[s := (nodes ! s)\<lparr>kn_best := int i\<rparr>] else nodes, es)))))"

definition build_trie :: "(string \<Rightarrow> string) \<Rightarrow> string list \<Rightarrow> kw_node list \<times> kw_build_edge list" where
  "build_trie lower keywords = fold (insert_keyword lower) (enumerate 0 keywords) ([new_node], [])"

section \<open>Failure links\<close>

definition minKeywordIndex :: "int \<Rightarrow> int \<Rightarrow> int" where
  "minKeywordIndex l r = (if l < 0 then r else if r < 0 \<or> l < r then l else r)"

text \<open>The loop over the failure links of a state until one of them has an edge.\<close>

fun find_fallback :: "nat \<Rightarrow> kw_node list \<Rightarrow> kw_build_edge list \<Rightarrow> nat \<Rightarrow> nat \<Rightarrow> nat option" where
  "find_fallback 0 nodes es failure label = None"
| "find_fallback (Suc n) nodes es failure label =
     (case BuildTransition nodes es failure label of Some t \<Rightarrow> Some t
      | None \<Rightarrow> if failure = 0 then None else find_fallback n nodes es (kn_failure (nodes ! failure)) label)"

definition link_edge :: "kw_build_edge list \<Rightarrow> nat \<Rightarrow> kw_build_edge \<Rightarrow> kw_node list \<Rightarrow> kw_node list" where
  "link_edge es s e nodes =
     (let t = kb_target e;
          nodes = (case find_fallback (length nodes) nodes es (kn_failure (nodes ! s)) (kb_label e) of
                     Some f \<Rightarrow> nodes[t := (nodes ! t)\<lparr>kn_failure := f\<rparr>] | None \<Rightarrow> nodes)
      in nodes[t := (nodes ! t)\<lparr>kn_best := minKeywordIndex (kn_best (nodes ! t)) (kn_best (nodes ! kn_failure (nodes ! t)))\<rparr>])"

text \<open>The breadth-first loop; the list holds the rest of the queue.\<close>

fun link_queue :: "nat \<Rightarrow> kw_build_edge list \<Rightarrow> nat list \<Rightarrow> kw_node list \<Rightarrow> kw_node list" where
  "link_queue 0 es queue nodes = nodes"
| "link_queue (Suc n) es queue nodes =
     (case queue of [] \<Rightarrow> nodes
      | s # queue \<Rightarrow> link_queue n es (queue @ map kb_target (edges_of nodes es s)) (fold (link_edge es s) (edges_of nodes es s) nodes))"

section \<open>Sorted edges\<close>

text \<open>The insertion sort of a node's edges in the buffer \<open>outgoing\<close>.\<close>

fun sift :: "nat \<Rightarrow> kw_edge \<Rightarrow> kw_edge list \<Rightarrow> kw_edge list" where
  "sift 0 current outgoing = outgoing[0 := current]"
| "sift (Suc i) current outgoing =
     (if ke_label current < ke_label (outgoing ! i) then sift i current (outgoing[Suc i := outgoing ! i])
      else outgoing[Suc i := current])"

definition sort_edges :: "kw_edge list \<Rightarrow> kw_edge list" where
  "sort_edges out = fold (\<lambda>i out. sift i (out ! i) out) [1..<length out] out"

definition flatten_node :: "kw_build_edge list \<Rightarrow> nat \<Rightarrow> kw_node list \<times> kw_edge list \<Rightarrow> kw_node list \<times> kw_edge list" where
  "flatten_node es i = (\<lambda>(nodes, edges).
     (let out = sort_edges (map (\<lambda>e. \<lparr>ke_target = kb_target e, ke_label = kb_label e\<rparr>) (edges_of nodes es i))
      in (nodes[i := (nodes ! i)\<lparr>kn_start := length edges, kn_count := length out\<rparr>], edges @ out)))"

definition newContentModerationKeywordMatcher :: "(string \<Rightarrow> string) \<Rightarrow> string list \<Rightarrow> kw_matcher option" where
  "newContentModerationKeywordMatcher lower keywords =
     (if keywords = [] then None
      else (case build_trie lower keywords of (nodes, es) \<Rightarrow>
        if length nodes = 1 then None
        else (let first = edges_of nodes es 0;
                  root = fold (\<lambda>e t. t[kb_label e := kb_target e]) first (replicate 256 0);
                  nodes = link_queue (length nodes) es (map kb_target first) nodes
              in (case fold (flatten_node es) [0..<length nodes] (nodes, []) of (nodes, edges) \<Rightarrow>
                    Some \<lparr>km_nodes = nodes, km_edges = edges, km_root = root, km_keywords = keywords\<rparr>))))"

section \<open>Matching\<close>

function lower_bound :: "kw_edge list \<Rightarrow> nat \<Rightarrow> nat \<Rightarrow> nat \<Rightarrow> nat" where
  "lower_bound edges label left right =
     (if left < right then
        (let middle = left + (right - left) div 2
         in if ke_label (edges ! middle) < label then lower_bound edges label (middle + 1) right
            else lower_bound edges label left middle)
      else left)"
  by pat_completeness auto
termination by (relation "measure (\<lambda>(edges, label, left, right). right - left)") auto

declare lower_bound.simps [simp del]

definition next_state :: "kw_matcher \<Rightarrow> nat \<Rightarrow> nat \<Rightarrow> nat" where
  "next_state m s label =
     (if s = 0 then km_root m ! label
      else if s \<ge> length (km_nodes m) then 0
      else (let node = km_nodes m ! s; end = kn_start node + kn_count node;
                left = lower_bound (km_edges m) label (kn_start node) end
            in if left < end \<and> ke_label (km_edges m ! left) = label then ke_target (km_edges m ! left) else 0))"

fun follow :: "nat \<Rightarrow> kw_matcher \<Rightarrow> nat \<Rightarrow> nat \<Rightarrow> nat" where
  "follow 0 m s label = 0"
| "follow (Suc n) m s label =
     (if next_state m s label \<noteq> 0 then next_state m s label
      else if s = 0 then s else follow n m (kn_failure (km_nodes m ! s)) label)"

fun scan_text :: "kw_matcher \<Rightarrow> nat list \<Rightarrow> nat \<Rightarrow> int \<Rightarrow> int" where
  "scan_text m [] s best = best"
| "scan_text m (label # text) s best =
     (let s = follow (length (km_nodes m)) m s label; best = minKeywordIndex best (kn_best (km_nodes m ! s))
      in if best = 0 then 0 else scan_text m text s best)"

definition Match :: "(string \<Rightarrow> string) \<Rightarrow> kw_matcher option \<Rightarrow> string \<Rightarrow> string option" where
  "Match lower m text =
     (case m of None \<Rightarrow> None
      | Some m \<Rightarrow>
          if text = [] \<or> km_nodes m = [] \<or> km_keywords m = [] then None
          else (let best = scan_text m (bytes (lower text)) 0 (-1)
                in if best < 0 \<or> best \<ge> int (length (km_keywords m)) then None else Some (km_keywords m ! nat best)))"

end
