(* ===== verification/KeywordTrie.thy ===== *)
theory KeywordTrie
  imports KeywordMatcher
begin

text \<open>
  The trie of the keyword filter: the sibling chains list the edges of a node, every node is reached by exactly one word, and
  after the insertion of the keywords the nodes are the prefixes of the keywords, each with the first keyword that ends there.
\<close>

section \<open>The first index with a property\<close>

definition first_index :: "nat \<Rightarrow> (nat \<Rightarrow> bool) \<Rightarrow> int" where
  "first_index n P = (case List.find P [0..<n] of None \<Rightarrow> -1 | Some i \<Rightarrow> int i)"

lemma find_upt_Some: "List.find P [0..<n] = Some i \<longleftrightarrow> i < n \<and> P i \<and> (\<forall>j < i. \<not> P j)"
  unfolding find_Some_iff by (auto intro: exI [of _ i] simp: less_trans)

lemma first_index_eq: "first_index n P = int i \<longleftrightarrow> i < n \<and> P i \<and> (\<forall>j < i. \<not> P j)"
proof -
  have "first_index n P = int i \<longleftrightarrow> List.find P [0..<n] = Some i"
    by (auto simp: first_index_def split: option.splits)
  then show ?thesis by (simp only: find_upt_Some)
qed

lemma first_index_less: "first_index n P < int n"
  by (auto simp: first_index_def find_upt_Some split: option.split)

lemma first_index_none: "first_index n P < 0 \<longleftrightarrow> (\<forall>i < n. \<not> P i)"
  by (auto simp: first_index_def find_None_iff find_upt_Some split: option.splits)

lemma first_index_neg: "first_index n P < 0 \<Longrightarrow> first_index n P = -1"
  by (auto simp: first_index_def split: option.splits)

lemma first_index_cong: "(\<And>i. i < n \<Longrightarrow> P i = Q i) \<Longrightarrow> first_index n P = first_index n Q"
  unfolding first_index_def by (metis (no_types, lifting) atLeastLessThan_iff find_cong set_upt)

lemma first_index_Suc: "first_index (Suc n) P = (if first_index n P < 0 \<and> P n then int n else first_index n P)"
proof (cases "first_index n P < 0")
  case True
  then have none: "\<forall>i < n. \<not> P i" by (simp add: first_index_none)
  then have "P n \<Longrightarrow> first_index (Suc n) P = int n" by (simp add: first_index_eq)
  moreover have "first_index (Suc n) P < 0" if "\<not> P n"
    using that none by (auto simp: first_index_none less_Suc_eq)
  ultimately show ?thesis using True first_index_neg by metis
next
  case False
  then obtain i where "first_index n P = int i" by (metis nonneg_int_cases not_less)
  moreover then have "first_index (Suc n) P = int i" by (auto simp: first_index_eq)
  ultimately show ?thesis by simp
qed

lemma minKeywordIndex_first: "minKeywordIndex (first_index n P) (first_index n Q) = first_index n (\<lambda>i. P i \<or> Q i)"
proof -
  consider "first_index n P < 0" | "first_index n Q < 0" "\<not> first_index n P < 0" | i j where "first_index n P = int i" "first_index n Q = int j"
    by (metis nonneg_int_cases not_less)
  then show ?thesis
  proof cases
    case 1
    then have "first_index n (\<lambda>i. P i \<or> Q i) = first_index n Q" by (intro first_index_cong) (simp add: first_index_none)
    with 1 show ?thesis by (simp add: minKeywordIndex_def)
  next
    case 2
    then have "first_index n (\<lambda>i. P i \<or> Q i) = first_index n P" by (intro first_index_cong) (simp add: first_index_none)
    with 2 show ?thesis by (simp add: minKeywordIndex_def)
  next
    case 3
    then have i: "i < n" "P i" "\<forall>k < i. \<not> P k" and j: "j < n" "Q j" "\<forall>k < j. \<not> Q k" by (simp_all add: first_index_eq)
    have "first_index n (\<lambda>i. P i \<or> Q i) = int (min i j)"
      using i j by (auto simp: first_index_eq min_def)
    with 3 show ?thesis by (simp add: minKeywordIndex_def)
  qed
qed

section \<open>The sibling chains\<close>

text \<open>\<open>src\<close> names the node of each edge. The youngest edge of a node is its greatest index.\<close>

fun last_edge :: "nat list \<Rightarrow> nat \<Rightarrow> nat \<Rightarrow> int" where
  "last_edge src 0 s = -1"
| "last_edge src (Suc k) s = (if src ! k = s then int k else last_edge src k s)"

lemma last_edge_append: "k \<le> length src \<Longrightarrow> last_edge (src @ [x]) k s = last_edge src k s"
  by (induction k) (simp_all add: nth_append)

definition trie_ok :: "kw_node list \<Rightarrow> kw_build_edge list \<Rightarrow> nat list \<Rightarrow> bool" where
  "trie_ok nodes es src \<longleftrightarrow> length nodes = Suc (length es) \<and> length src = length es
     \<and> (\<forall>k < length es. src ! k \<le> k \<and> kb_target (es ! k) = Suc k \<and> kb_sibling (es ! k) = last_edge src k (src ! k))
     \<and> (\<forall>s < length nodes. int (kn_start (nodes ! s)) = last_edge src (length es) s + 1)
     \<and> (\<forall>j < length es. \<forall>k < length es. src ! j = src ! k \<longrightarrow> kb_label (es ! j) = kb_label (es ! k) \<longrightarrow> j = k)"

lemma sibling_chain_edges:
  assumes "\<And>j. j < k \<Longrightarrow> kb_sibling (es ! j) = last_edge src j (src ! j)" "k \<le> n"
  shows "sibling_chain n es (last_edge src k s) = map ((!) es) (rev (filter (\<lambda>j. src ! j = s) [0..<k]))"
  using assms
proof (induction k arbitrary: n)
  case 0
  then show ?case by (cases n) simp_all
next
  case (Suc k)
  then obtain m where m: "n = Suc m" "k \<le> m" by (cases n) simp_all
  show ?case
  proof (cases "src ! k = s")
    case True
    with Suc.IH [of m] Suc.prems(1) m show ?thesis by simp
  next
    case False
    with Suc.IH [of n] Suc.prems m show ?thesis by simp
  qed
qed

lemma edges_of_src:
  assumes "trie_ok nodes es src" "s < length nodes"
  shows "edges_of nodes es s = map ((!) es) (rev (filter (\<lambda>j. src ! j = s) [0..<length es]))"
proof -
  have "BuildFirstEdge (nodes ! s) = last_edge src (length es) s"
    using assms unfolding trie_ok_def BuildFirstEdge_def by (smt (verit) of_nat_0)
  then show ?thesis unfolding edges_of_def
    using sibling_chain_edges [of "length es" es src "length es" s] assms by (simp add: trie_ok_def)
qed

lemma BuildTransition_edge:
  assumes "trie_ok nodes es src" "s < length nodes"
  shows "BuildTransition nodes es s c = Some t \<longleftrightarrow> (\<exists>k < length es. t = Suc k \<and> src ! k = s \<and> kb_label (es ! k) = c)"
proof -
  let ?out = "edges_of nodes es s"
  have out: "e \<in> set ?out \<longleftrightarrow> (\<exists>k < length es. e = es ! k \<and> src ! k = s)" for e
    by (auto simp: edges_of_src [OF assms])
  have target: "k < length es \<Longrightarrow> kb_target (es ! k) = Suc k" for k using assms(1) by (simp add: trie_ok_def)
  have same: "j < length es \<Longrightarrow> k < length es \<Longrightarrow> src ! j = src ! k \<Longrightarrow> kb_label (es ! j) = kb_label (es ! k) \<Longrightarrow> j = k" for j k
    using assms(1) unfolding trie_ok_def by blast
  show ?thesis
  proof
    assume "BuildTransition nodes es s c = Some t"
    then obtain e where e: "List.find (\<lambda>e. kb_label e = c) ?out = Some e" "t = kb_target e"
      using assms(2) by (auto simp: BuildTransition_def)
    then have "e \<in> set ?out" "kb_label e = c" by (auto simp: find_Some_iff)
    with e(2) target show "\<exists>k < length es. t = Suc k \<and> src ! k = s \<and> kb_label (es ! k) = c" by (auto simp: out)
  next
    assume "\<exists>k < length es. t = Suc k \<and> src ! k = s \<and> kb_label (es ! k) = c"
    then obtain k where k: "k < length es" "t = Suc k" "src ! k = s" "kb_label (es ! k) = c" by blast
    then have "List.find (\<lambda>e. kb_label e = c) ?out \<noteq> None" by (auto simp: find_None_iff out)
    then obtain e where e: "List.find (\<lambda>e. kb_label e = c) ?out = Some e" by blast
    then have "e \<in> set ?out" "kb_label e = c" by (auto simp: find_Some_iff)
    with out k same have "e = es ! k" by auto
    with e k target assms(2) show "BuildTransition nodes es s c = Some t" by (simp add: BuildTransition_def)
  qed
qed

section \<open>Paths\<close>

text \<open>The labels on the way from the root to a node.\<close>

function path :: "kw_build_edge list \<Rightarrow> nat list \<Rightarrow> nat \<Rightarrow> nat list" where
  "path es src 0 = []"
| "path es src (Suc k) = (if src ! k \<le> k then path es src (src ! k) @ [kb_label (es ! k)] else [])"
  by pat_completeness auto
termination by (relation "measure (\<lambda>(es, src, s). s)") auto

lemma path_length: "length (path es src s) \<le> s"
  by (induction es src s rule: path.induct) auto

lemma path_Nil:
  assumes "trie_ok nodes es src" "s < length nodes"
  shows "path es src s = [] \<longleftrightarrow> s = 0"
  using assms by (cases s) (auto simp: trie_ok_def)

lemma path_inj:
  assumes "trie_ok nodes es src"
  shows "s < length nodes \<Longrightarrow> t < length nodes \<Longrightarrow> path es src s = path es src t \<Longrightarrow> s = t"
proof (induction s arbitrary: t rule: less_induct)
  case (less s)
  show ?case
  proof (cases s)
    case 0
    with less.prems path_Nil [OF assms, of t] show ?thesis by auto
  next
    case (Suc j)
    with path_Nil [OF assms less.prems(1)] less.prems(3) have "path es src t \<noteq> []" by (metis nat.distinct(1))
    then obtain k where t: "t = Suc k" by (metis not0_implies_Suc path.simps(1))
    have jk: "j < length es" "k < length es" "src ! j \<le> j" "src ! k \<le> k"
      using assms less.prems Suc t by (auto simp: trie_ok_def)
    with less.prems(3) Suc t have "path es src (src ! j) = path es src (src ! k)" "kb_label (es ! j) = kb_label (es ! k)" by simp_all
    moreover from this(1) less.IH [of "src ! j" "src ! k"] jk Suc assms have "src ! j = src ! k" by (simp add: trie_ok_def)
    ultimately have "j = k" using assms jk unfolding trie_ok_def by blast
    with Suc t show ?thesis by simp
  qed
qed

lemma BuildTransition_path:
  assumes "trie_ok nodes es src" "s < length nodes"
  shows "BuildTransition nodes es s c = Some t \<longleftrightarrow> t < length nodes \<and> path es src t = path es src s @ [c]"
proof
  assume "BuildTransition nodes es s c = Some t"
  then obtain k where "k < length es" "t = Suc k" "src ! k = s" "kb_label (es ! k) = c"
    using BuildTransition_edge [OF assms] by blast
  with assms show "t < length nodes \<and> path es src t = path es src s @ [c]" by (auto simp: trie_ok_def)
next
  assume t: "t < length nodes \<and> path es src t = path es src s @ [c]"
  then obtain k where k: "t = Suc k" using path.simps(1) by (cases t) auto
  with t assms have l: "k < length es" "src ! k \<le> k" by (auto simp: trie_ok_def)
  with t k have "path es src (src ! k) = path es src s" "kb_label (es ! k) = c" by simp_all
  moreover from this(1) path_inj [OF assms(1), of "src ! k" s] l assms have "src ! k = s" by (simp add: trie_ok_def)
  ultimately show "BuildTransition nodes es s c = Some t" using BuildTransition_edge [OF assms] k l by blast
qed

lemma path_cong:
  "take (length src) src' = src \<Longrightarrow> take (length es) es' = es \<Longrightarrow> s \<le> length es \<Longrightarrow> length src = length es \<Longrightarrow>
     path es' src' s = path es src s"
proof (induction es src s rule: path.induct)
  case (2 es src k)
  then have "src' ! k = src ! k" "es' ! k = es ! k" by (metis Suc_le_lessD nth_take)+
  with 2 show ?case by simp
qed simp

section \<open>Inserting the keywords\<close>

text \<open>What the trie of a set of words looks like before the nodes are linked: \<open>ends i p\<close> says that the
  keyword \<open>i\<close> is the word \<open>p\<close>.\<close>

definition words :: "kw_build_edge list \<Rightarrow> nat list \<Rightarrow> nat list set" where
  "words es src = path es src ` {..length es}"

definition same_but_start :: "kw_node \<Rightarrow> kw_node \<Rightarrow> bool" where
  "same_but_start n n' \<longleftrightarrow> kn_failure n' = kn_failure n \<and> kn_best n' = kn_best n"

definition grown :: "kw_node list \<Rightarrow> kw_build_edge list \<Rightarrow> nat list \<Rightarrow> kw_node list \<Rightarrow> kw_build_edge list \<Rightarrow> nat list \<Rightarrow> bool" where
  "grown nodes es src nodes' es' src' \<longleftrightarrow> trie_ok nodes' es' src' \<and> length nodes \<le> length nodes'
     \<and> take (length es) es' = es \<and> take (length src) src' = src
     \<and> (\<forall>u < length nodes'. same_but_start (if u < length nodes then nodes ! u else new_node) (nodes' ! u))"

lemma grown_refl: "trie_ok nodes es src \<Longrightarrow> grown nodes es src nodes es src"
  by (simp add: grown_def same_but_start_def)

lemma grown_trans:
  assumes "grown n1 e1 s1 n2 e2 s2" "grown n2 e2 s2 n3 e3 s3"
  shows "grown n1 e1 s1 n3 e3 s3"
proof -
  have "take (length e1) e3 = e1" "take (length s1) s3 = s1"
    using assms unfolding grown_def by (metis length_take min.absorb_iff2 min.cobounded1 take_take)+
  moreover have "same_but_start (if u < length n1 then n1 ! u else new_node) (n3 ! u)" if "u < length n3" for u
    using assms that unfolding grown_def same_but_start_def by (cases "u < length n2") auto
  ultimately show ?thesis using assms by (simp add: grown_def)
qed

lemma grown_path:
  assumes "grown nodes es src nodes' es' src'" "trie_ok nodes es src" "s < length nodes"
  shows "path es' src' s = path es src s"
  by (rule path_cong) (use assms in \<open>auto simp: grown_def trie_ok_def\<close>)

lemma insert_byte_ok:
  assumes ok: "trie_ok nodes es src" and s: "s < length nodes" and ins: "insert_byte c (nodes, es, s) = (nodes', es', t)"
  shows "\<exists>src'. grown nodes es src nodes' es' src' \<and> t < length nodes' \<and> path es' src' t = path es src s @ [c]
    \<and> words es' src' = insert (path es src s @ [c]) (words es src)
    \<and> set (map kb_label es') \<subseteq> insert c (set (map kb_label es))"
proof (cases "BuildTransition nodes es s c")
  case (Some u)
  with BuildTransition_path [OF ok s] have u: "u < length nodes" "path es src u = path es src s @ [c]" by blast+
  moreover have "words es src = path es src ` {..< length nodes}" using ok by (auto simp: words_def trie_ok_def lessThan_Suc_atMost)
  ultimately have "insert (path es src s @ [c]) (words es src) = words es src" by (metis imageI insert_absorb lessThan_iff)
  moreover have "nodes' = nodes" "es' = es" "t = u" using Some ins by (simp_all add: insert_byte_def)
  ultimately show ?thesis using u ok by (intro exI [of _ src]) (auto simp: grown_refl)
next
  case None
  let ?n = "length es"
  let ?e = "\<lparr>kb_target = length nodes, kb_sibling = BuildFirstEdge (nodes ! s), kb_label = c\<rparr>"
  let ?src = "src @ [s]" and ?es = "es @ [?e]"
  have len: "length nodes = Suc ?n" "length src = ?n" using ok by (simp_all add: trie_ok_def)
  have n': "nodes' = (nodes @ [new_node])[s := (nodes ! s)\<lparr>kn_start := Suc ?n\<rparr>]" "es' = ?es" "t = length nodes"
    using ins None s by (auto simp: insert_byte_def Let_def nth_append)
  have first: "BuildFirstEdge (nodes ! s) = last_edge src ?n s"
    using ok s unfolding trie_ok_def BuildFirstEdge_def by (smt (verit) of_nat_0)
  have fresh: "k < ?n \<Longrightarrow> src ! k = s \<Longrightarrow> kb_label (es ! k) \<noteq> c" for k
    using None BuildTransition_edge [OF ok s, of c] by auto
  have old: "k < ?n \<Longrightarrow> src ! k \<le> k \<and> kb_target (es ! k) = Suc k \<and> kb_sibling (es ! k) = last_edge src k (src ! k)" for k
    using ok by (simp add: trie_ok_def)
  have none: "last_edge src ?n (length nodes) = -1"
  proof -
    have "src ! k \<noteq> length nodes" if "k < ?n" for k using old [OF that] len that by auto
    then have "last_edge src k (length nodes) = -1" if "k \<le> ?n" for k using that by (induction k) auto
    then show ?thesis by simp
  qed
  have start: "int (kn_start (nodes' ! u)) = last_edge ?src (length ?es) u + 1" if "u < length nodes'" for u
    using that ok len none s by (auto simp: n' nth_list_update nth_append trie_ok_def last_edge_append new_node_def less_Suc_eq)
  have ok': "trie_ok nodes' ?es ?src"
    unfolding trie_ok_def
  proof (intro conjI allI impI)
    fix k assume "k < length ?es"
    then consider "k < ?n" | "k = ?n" by (auto simp: less_Suc_eq)
    then show "?src ! k \<le> k" "kb_target (?es ! k) = Suc k" "kb_sibling (?es ! k) = last_edge ?src k (?src ! k)"
      using old len s first by (cases; simp add: nth_append last_edge_append)+
  next
    fix j k assume "j < length ?es" "k < length ?es" "?src ! j = ?src ! k" "kb_label (?es ! j) = kb_label (?es ! k)"
    moreover from this have "\<not> (j < ?n \<and> k = ?n)" "\<not> (k < ?n \<and> j = ?n)" using fresh [of j] fresh [of k] len by (auto simp: nth_append)
    moreover have "\<forall>j < ?n. \<forall>k < ?n. src ! j = src ! k \<longrightarrow> kb_label (es ! j) = kb_label (es ! k) \<longrightarrow> j = k"
      using ok by (simp add: trie_ok_def)
    ultimately show "j = k" using len by (auto simp: nth_append less_Suc_eq)
  qed (use n' len start in auto)
  have paths: "path ?es ?src u = path es src u" if "u \<le> ?n" for u
    by (rule path_cong) (use that len in auto)
  have new: "path ?es ?src (Suc ?n) = path es src s @ [c]"
    using paths [of s] s len by (simp add: nth_append)
  have "words ?es ?src = insert (path es src s @ [c]) (words es src)"
    using paths new by (auto simp: words_def atMost_Suc)
  with ok' new n' len s show ?thesis
    by (intro exI [of _ ?src]) (auto simp: grown_def same_but_start_def nth_list_update nth_append)
qed

lemma words_nodes: "trie_ok nodes es src \<Longrightarrow> words es src = path es src ` {..<length nodes}"
  by (simp add: words_def trie_ok_def lessThan_Suc_atMost)

lemma insert_bytes_ok:
  assumes "trie_ok nodes es src" "s < length nodes" "fold insert_byte cs (nodes, es, s) = (nodes', es', t)"
  shows "\<exists>src'. grown nodes es src nodes' es' src' \<and> t < length nodes' \<and> path es' src' t = path es src s @ cs
    \<and> words es' src' = words es src \<union> {path es src s @ p | p. prefix p cs}
    \<and> set (map kb_label es') \<subseteq> set cs \<union> set (map kb_label es)"
  using assms
proof (induction cs arbitrary: nodes es src s)
  case Nil
  have "path es src s \<in> words es src" using Nil.prems by (auto simp: words_def trie_ok_def)
  with Nil show ?case by (intro exI [of _ src]) (auto simp: grown_refl)
next
  case (Cons c cs)
  obtain n1 e1 s1 where ins: "insert_byte c (nodes, es, s) = (n1, e1, s1)" by (metis prod_cases3)
  from insert_byte_ok [OF Cons.prems(1,2) this] obtain r1 where
    r1: "grown nodes es src n1 e1 r1" "s1 < length n1" "path e1 r1 s1 = path es src s @ [c]"
      "words e1 r1 = insert (path es src s @ [c]) (words es src)" "set (map kb_label e1) \<subseteq> insert c (set (map kb_label es))"
    by blast
  from Cons.IH [of n1 e1 r1 s1] r1 Cons.prems(3) ins obtain r2 where
    r2: "grown n1 e1 r1 nodes' es' r2" "t < length nodes'" "path es' r2 t = path e1 r1 s1 @ cs"
      "words es' r2 = words e1 r1 \<union> {path e1 r1 s1 @ p | p. prefix p cs}" "set (map kb_label es') \<subseteq> set cs \<union> set (map kb_label e1)"
    by (auto simp: grown_def)
  have root: "path es src s \<in> words es src" using Cons.prems by (auto simp: words_def trie_ok_def)
  have "{path es src s @ p | p. prefix p (c # cs)} = insert (path es src s) {path es src s @ [c] @ p | p. prefix p cs}"
    by (auto simp: prefix_Cons)
  moreover have "path es src s @ [c] \<in> {path es src s @ [c] @ p | p. prefix p cs}" by auto
  ultimately have "words es' r2 = words es src \<union> {path es src s @ p | p. prefix p (c # cs)}"
    using r2(4) r1(3,4) root by auto
  moreover have "set (map kb_label es') \<subseteq> set (c # cs) \<union> set (map kb_label es)"
  proof -
    have "set cs \<union> set (map kb_label e1) \<subseteq> set (c # cs) \<union> set (map kb_label es)" using r1(5) by (simp del: set_map) blast
    with r2(5) show ?thesis by (rule subset_trans)
  qed
  moreover have "path es' r2 t = path es src s @ c # cs" using r2(3) r1(3) by simp
  ultimately show ?case using r2(2) grown_trans [OF r1(1) r2(1)] by blast
qed

text \<open>\<open>live\<close> and \<open>word\<close>: the keywords that count, and their bytes.\<close>

definition live :: "string list \<Rightarrow> nat \<Rightarrow> bool" where
  "live ks i \<longleftrightarrow> ks ! i \<noteq> []"

definition word :: "(string \<Rightarrow> string) \<Rightarrow> string list \<Rightarrow> nat \<Rightarrow> nat list" where
  "word lower ks i = bytes (lower (ks ! i))"

definition built :: "(string \<Rightarrow> string) \<Rightarrow> string list \<Rightarrow> nat \<Rightarrow> kw_node list \<Rightarrow> kw_build_edge list \<Rightarrow> nat list \<Rightarrow> bool" where
  "built lower ks m nodes es src \<longleftrightarrow> trie_ok nodes es src
     \<and> (\<forall>u < length nodes. kn_failure (nodes ! u) = 0
          \<and> kn_best (nodes ! u) = first_index m (\<lambda>i. live ks i \<and> word lower ks i = path es src u))
     \<and> words es src = insert [] {p. \<exists>i < m. live ks i \<and> prefix p (word lower ks i)}
     \<and> (\<forall>c \<in> set (map kb_label es). c < 256)"

lemma bytes_less: "c \<in> set (bytes s) \<Longrightarrow> c < 256"
proof -
  assume "c \<in> set (bytes s)"
  then obtain x where "c = of_char (x :: char)" by (auto simp: bytes_def)
  then show "c < 256" by simp
qed

lemma built_insert:
  assumes inv: "built lower ks m nodes es src" and ins: "insert_keyword lower (m, ks ! m) (nodes, es) = (nodes', es')"
  shows "\<exists>src'. built lower ks (Suc m) nodes' es' src'"
proof (cases "live ks m")
  case False
  then have "first_index (Suc m) (\<lambda>i. live ks i \<and> P i) = first_index m (\<lambda>i. live ks i \<and> P i)" for P
    by (simp add: first_index_Suc)
  with False inv ins show ?thesis by (intro exI [of _ src]) (auto simp: built_def insert_keyword_def live_def less_Suc_eq)
next
  case True
  have ok: "trie_ok nodes es src" using inv by (simp add: built_def)
  then have "0 < length nodes" by (simp add: trie_ok_def)
  let ?w = "word lower ks m" and ?P = "\<lambda>p i. live ks i \<and> word lower ks i = p"
  obtain n1 t where fold: "fold insert_byte ?w (nodes, es, 0) = (n1, es', t)"
    and n': "nodes' = (if kn_best (n1 ! t) < 0 \<or> int m < kn_best (n1 ! t) then n1[t := (n1 ! t)\<lparr>kn_best := int m\<rparr>] else n1)"
    using ins True by (auto simp: insert_keyword_def live_def word_def Let_def split: prod.splits)
  from insert_bytes_ok [OF ok \<open>0 < length nodes\<close> fold] obtain r where
    g: "grown nodes es src n1 es' r" and t: "t < length n1" "path es' r t = ?w"
    and w: "words es' r = words es src \<union> {p. prefix p ?w}" and l: "set (map kb_label es') \<subseteq> set ?w \<union> set (map kb_label es)" by auto
  have ok1: "trie_ok n1 es' r" using g by (simp add: grown_def)
  have best: "kn_failure (n1 ! u) = 0 \<and> kn_best (n1 ! u) = first_index m (?P (path es' r u))" if u: "u < length n1" for u
  proof (cases "u < length nodes")
    case True
    with inv g u grown_path [OF g ok True] show ?thesis by (auto simp: built_def grown_def same_but_start_def)
  next
    case False
    have "path es' r u \<notin> words es src"
    proof
      assume "path es' r u \<in> words es src"
      then obtain v where v: "v < length nodes" "path es' r u = path es src v" unfolding words_nodes [OF ok] by blast
      with path_inj [OF ok1 u, of v] grown_path [OF g ok v(1)] g False show False by (auto simp: grown_def)
    qed
    then have "first_index m (?P (path es' r u)) < 0" using inv by (auto simp: built_def first_index_none)
    with g u False show ?thesis using first_index_neg by (auto simp: grown_def same_but_start_def new_node_def)
  qed
  have below: "kn_best (n1 ! t) < int m"
  proof -
    have "kn_best (n1 ! t) = first_index m (?P ?w)" using best [OF t(1)] t(2) by simp
    then show ?thesis by (simp add: first_index_less)
  qed
  have step: "kn_failure (nodes' ! u) = 0 \<and> kn_best (nodes' ! u) = first_index (Suc m) (?P (path es' r u))" if u: "u < length n1" for u
  proof (cases "u = t")
    case True
    with best [OF u] t below \<open>live ks m\<close> show ?thesis by (simp add: n' first_index_Suc)
  next
    case False
    then have "path es' r u \<noteq> ?w" using path_inj [OF ok1 u t(1)] t(2) by auto
    with best [OF u] False show ?thesis by (auto simp: n' first_index_Suc)
  qed
  have ok': "trie_ok nodes' es' r" using ok1 t(1) by (auto simp: trie_ok_def n' nth_list_update)
  have "words es' r = insert [] {p. \<exists>i < Suc m. live ks i \<and> prefix p (word lower ks i)}"
    using w inv True by (auto simp: built_def less_Suc_eq)
  moreover have "\<forall>c \<in> set (map kb_label es'). c < 256"
  proof
    fix c assume "c \<in> set (map kb_label es')"
    with l have "c \<in> set ?w \<or> c \<in> set (map kb_label es)" by blast
    then show "c < 256" using inv bytes_less [of c "lower (ks ! m)"] by (auto simp: built_def word_def)
  qed
  moreover have "length nodes' = length n1" by (simp add: n')
  ultimately show ?thesis using ok' step unfolding built_def by (intro exI [of _ r]) auto
qed

lemma built_start: "built lower ks 0 [new_node] [] []"
  by (simp add: built_def trie_ok_def words_def new_node_def first_index_def)

lemma build_trie_ok:
  assumes "build_trie lower ks = (nodes, es)"
  shows "\<exists>src. built lower ks (length ks) nodes es src"
proof -
  have "built lower ks m n e s \<Longrightarrow> drop m ks = rest \<Longrightarrow> fold (insert_keyword lower) (enumerate m rest) (n, e) = (nodes, es)
      \<Longrightarrow> m \<le> length ks \<Longrightarrow> \<exists>src. built lower ks (length ks) nodes es src" for rest m n e s
  proof (induction rest arbitrary: m n e s)
    case Nil
    then show ?case by auto
  next
    case (Cons k rest)
    then have "m < length ks" by (auto intro: ccontr)
    with Cons.prems(2) have m: "m < length ks" "ks ! m = k" "drop (Suc m) ks = rest"
      using Cons_nth_drop_Suc [of m ks] by simp_all
    obtain n1 e1 where ins: "insert_keyword lower (m, ks ! m) (n, e) = (n1, e1)" by (rule prod.exhaust)
    from built_insert [OF Cons.prems(1) ins] obtain s1 where "built lower ks (Suc m) n1 e1 s1" by blast
    then show ?case
      by (rule Cons.IH) (use Cons.prems m ins in auto)
  qed
  from this [OF built_start, of ks] assms show ?thesis by (simp add: build_trie_def)
qed

end
