(* ===== verification/KeywordLinks.thy ===== *)
theory KeywordLinks
  imports KeywordTrie
begin

text \<open>
  The failure links of the keyword filter: after the breadth-first loop every node is linked to the node of its longest
  proper suffix in the trie, and its keyword index is the first keyword that is a suffix of its word.
\<close>

section \<open>Longest suffixes\<close>

definition longest :: "nat list set \<Rightarrow> nat list \<Rightarrow> nat list \<Rightarrow> bool" where
  "longest T w p \<longleftrightarrow> p \<in> T \<and> suffix p w \<and> (\<forall>q \<in> T. suffix q w \<longrightarrow> suffix q p)"

definition fail_of :: "nat list set \<Rightarrow> nat list \<Rightarrow> nat list \<Rightarrow> bool" where
  "fail_of T w p \<longleftrightarrow> p \<in> T \<and> strict_suffix p w \<and> (\<forall>q \<in> T. strict_suffix q w \<longrightarrow> suffix q p)"

text \<open>The loops over failure links, in the builder and in the matcher, as one search.\<close>

fun chase :: "(nat \<Rightarrow> nat \<Rightarrow> nat option) \<Rightarrow> (nat \<Rightarrow> nat) \<Rightarrow> nat \<Rightarrow> nat \<Rightarrow> nat \<Rightarrow> nat option" where
  "chase tr fl 0 s c = None"
| "chase tr fl (Suc n) s c = (case tr s c of Some t \<Rightarrow> Some t | None \<Rightarrow> if s = 0 then None else chase tr fl n (fl s) c)"

lemma find_fallback_chase: "find_fallback n nodes es f c = chase (BuildTransition nodes es) (\<lambda>s. kn_failure (nodes ! s)) n f c"
  by (induction n arbitrary: f) (simp_all split: option.split)

lemma words_closed:
  assumes "trie_ok nodes es src" "q @ [c] \<in> words es src"
  shows "q \<in> words es src"
proof -
  from assms(2) obtain t where t: "t \<le> length es" "path es src t = q @ [c]" by (auto simp: words_def)
  then obtain k where "t = Suc k" using path.simps(1) by (cases t) auto
  with t assms(1) have "q = path es src (src ! k)" "src ! k \<le> k" "k < length es" by (auto simp: trie_ok_def)
  then show ?thesis by (auto simp: words_def)
qed

lemma chase_longest:
  assumes ok: "trie_ok nodes es src"
    and tr: "\<And>s c. s \<le> length es \<Longrightarrow> tr s c = BuildTransition nodes es s c"
    and fl: "\<And>s. 0 < s \<Longrightarrow> s \<le> length es \<Longrightarrow> length (path es src s) \<le> d \<Longrightarrow>
      fl s \<le> length es \<and> fail_of (words es src) (path es src s) (path es src (fl s))"
    and "s \<le> length es" "length (path es src s) \<le> d" "length (path es src s) < n" "suffix (path es src s) w"
    and "\<And>q. q @ [c] \<in> words es src \<Longrightarrow> suffix q w \<Longrightarrow> suffix q (path es src s)"
  shows "(case chase tr fl n s c of
      Some t \<Rightarrow> 0 < t \<and> t \<le> length es \<and> longest (words es src) (w @ [c]) (path es src t) \<and> length (path es src t) \<le> Suc (length (path es src s))
    | None \<Rightarrow> longest (words es src) (w @ [c]) [])"
  using assms(4-)
proof (induction n arbitrary: s)
  case 0
  then show ?case by simp
next
  case (Suc n)
  let ?T = "words es src" and ?p = "path es src"
  have s: "s < length nodes" using Suc.prems(1) ok by (simp add: trie_ok_def)
  have nil: "[] \<in> ?T" by (force simp: words_def)
  show ?case
  proof (cases "tr s c")
    case (Some t)
    with BuildTransition_path [OF ok s] tr Suc.prems(1) have t: "t < length nodes" "?p t = ?p s @ [c]" by auto
    then have "t \<le> length es" "0 < t" using ok by (auto simp: trie_ok_def intro: gr0I)
    moreover have "longest ?T (w @ [c]) (?p t)"
    proof -
      have "?p t \<in> ?T" using \<open>t \<le> length es\<close> by (simp add: words_def)
      moreover have "suffix q (?p t)" if "q \<in> ?T" "suffix q (w @ [c])" for q
        using that Suc.prems(5) t(2) by (cases q rule: rev_cases) auto
      ultimately show ?thesis using Suc.prems(4) t(2) by (simp add: longest_def)
    qed
    ultimately show ?thesis using Some t(2) by simp
  next
    case None
    have no: "?p s @ [c] \<notin> ?T"
    proof
      assume "?p s @ [c] \<in> ?T"
      then obtain t where "t < length nodes" "?p t = ?p s @ [c]" unfolding words_nodes [OF ok] by (metis imageE lessThan_iff)
      then have "BuildTransition nodes es s c = Some t" using BuildTransition_path [OF ok s] by blast
      with None tr Suc.prems(1) show False by simp
    qed
    show ?thesis
    proof (cases "s = 0")
      case True
      have "q = []" if q: "q \<in> ?T" "suffix q (w @ [c])" for q
      proof (rule ccontr)
        assume "q \<noteq> []"
        with q(2) obtain r where r: "q = r @ [c]" "suffix r w" by (auto simp: suffix_snoc)
        with Suc.prems(5) [of r] q(1) have "suffix r (?p s)" by simp
        then have "r = ?p s" using True by simp
        with r q(1) no show False by simp
      qed
      with None True nil show ?thesis by (auto simp: longest_def)
    next
      case False
      let ?f = "fl s"
      from fl [OF _ Suc.prems(1,2)] False have f: "?f \<le> length es" "fail_of ?T (?p s) (?p ?f)" by simp_all
      then have sub: "strict_suffix (?p ?f) (?p s)" by (simp add: fail_of_def)
      then have len: "length (?p ?f) < length (?p s)" by (auto simp: strict_suffix_def suffix_def)
      have "suffix q (?p ?f)" if q: "q @ [c] \<in> ?T" "suffix q w" for q
      proof -
        have "suffix q (?p s)" "q \<noteq> ?p s" "q \<in> ?T" using Suc.prems(5) [OF q] no q(1) words_closed [OF ok] by auto
        with f(2) show ?thesis by (auto simp: fail_of_def strict_suffix_def)
      qed
      moreover have "suffix (?p ?f) w" using sub Suc.prems(4) by (meson strict_suffix_def suffix_order.trans)
      ultimately show ?thesis
        using Suc.IH [of ?f] f(1) len Suc.prems(2,3) None False by (auto split: option.splits)
    qed
  qed
qed

lemma longest_fail:
  assumes ok: "trie_ok nodes es src" and f: "fail_of (words es src) p f" and g: "longest (words es src) (f @ [c]) g"
  shows "fail_of (words es src) (p @ [c]) g"
proof -
  have "suffix g (f @ [c])" "strict_suffix f p" using f g by (simp_all add: fail_of_def longest_def)
  then have "strict_suffix g (p @ [c])"
    by (auto simp: strict_suffix_def suffix_snoc dest: suffix_order.trans)
  moreover have "suffix q g" if q: "q \<in> words es src" "strict_suffix q (p @ [c])" for q
  proof (cases q rule: rev_cases)
    case Nil
    then show ?thesis by simp
  next
    case (snoc r x)
    with q have "x = c" "strict_suffix r p" "r \<in> words es src" using words_closed [OF ok] by (auto simp: strict_suffix_def)
    with f g q snoc show ?thesis by (auto simp: fail_of_def longest_def)
  qed
  ultimately show ?thesis using g by (simp add: fail_of_def longest_def)
qed

section \<open>Linking one node\<close>

definition linked :: "(string \<Rightarrow> string) \<Rightarrow> string list \<Rightarrow> kw_build_edge list \<Rightarrow> nat list \<Rightarrow> kw_node list \<Rightarrow> nat \<Rightarrow> bool" where
  "linked lower ks es src nodes u \<longleftrightarrow>
     (0 < u \<longrightarrow> kn_failure (nodes ! u) \<le> length es \<and> fail_of (words es src) (path es src u) (path es src (kn_failure (nodes ! u))))
     \<and> kn_best (nodes ! u) = first_index (length ks) (\<lambda>i. live ks i \<and> suffix (word lower ks i) (path es src u))"

definition unlinked :: "(string \<Rightarrow> string) \<Rightarrow> string list \<Rightarrow> kw_build_edge list \<Rightarrow> nat list \<Rightarrow> kw_node list \<Rightarrow> nat \<Rightarrow> bool" where
  "unlinked lower ks es src nodes u \<longleftrightarrow> kn_failure (nodes ! u) = 0
     \<and> kn_best (nodes ! u) = first_index (length ks) (\<lambda>i. live ks i \<and> word lower ks i = path es src u)"

text \<open>The keywords are words of the trie and none is empty.\<close>

definition keyed :: "(string \<Rightarrow> string) \<Rightarrow> string list \<Rightarrow> kw_build_edge list \<Rightarrow> nat list \<Rightarrow> bool" where
  "keyed lower ks es src \<longleftrightarrow> (\<forall>i < length ks. live ks i \<longrightarrow> word lower ks i \<noteq> [] \<and> word lower ks i \<in> words es src)"

definition same_edges :: "kw_node list \<Rightarrow> kw_node list \<Rightarrow> bool" where
  "same_edges nodes nodes' \<longleftrightarrow> map kn_start nodes' = map kn_start nodes"

lemma same_edges_length: "same_edges nodes nodes' \<Longrightarrow> length nodes' = length nodes"
  unfolding same_edges_def by (metis length_map)

lemma same_edges_start: "same_edges nodes nodes' \<Longrightarrow> u < length nodes \<Longrightarrow> kn_start (nodes' ! u) = kn_start (nodes ! u)"
  unfolding same_edges_def by (metis length_map nth_map)

lemma same_edges_trie: "same_edges nodes nodes' \<Longrightarrow> trie_ok nodes es src \<Longrightarrow> trie_ok nodes' es src"
  using same_edges_length [of nodes nodes'] same_edges_start [of nodes nodes'] by (auto simp: trie_ok_def)

lemma same_edges_of: "same_edges nodes nodes' \<Longrightarrow> u < length nodes \<Longrightarrow> edges_of nodes' es u = edges_of nodes es u"
  by (simp add: edges_of_def BuildFirstEdge_def same_edges_start)

lemma first_index_fail:
  assumes "keyed lower ks es src" "fail_of (words es src) p g"
  shows "minKeywordIndex (first_index (length ks) (\<lambda>i. live ks i \<and> word lower ks i = p))
      (first_index (length ks) (\<lambda>i. live ks i \<and> suffix (word lower ks i) g))
    = first_index (length ks) (\<lambda>i. live ks i \<and> suffix (word lower ks i) p)"
proof -
  have "live ks i \<and> word lower ks i = p \<or> live ks i \<and> suffix (word lower ks i) g \<longleftrightarrow> live ks i \<and> suffix (word lower ks i) p"
    if "i < length ks" for i
  proof -
    have "suffix g p" using assms(2) by (simp add: fail_of_def strict_suffix_def)
    moreover have "suffix (word lower ks i) g" if "live ks i" "suffix (word lower ks i) p" "word lower ks i \<noteq> p"
      using assms that \<open>i < length ks\<close> by (simp add: fail_of_def keyed_def strict_suffix_def)
    ultimately show ?thesis by (metis suffix_order.order_refl suffix_order.trans)
  qed
  then show ?thesis unfolding minKeywordIndex_first by (intro first_index_cong)
qed

lemma link_edge_ok:
  assumes ok: "trie_ok nodes es src" and keys: "keyed lower ks es src"
    and k: "k < length es" "src ! k = s" "0 < s"
    and near: "\<And>u. u \<le> length es \<Longrightarrow> length (path es src u) \<le> length (path es src s) \<Longrightarrow> linked lower ks es src nodes u"
    and t: "unlinked lower ks es src nodes (Suc k)"
  shows "same_edges nodes (link_edge es s (es ! k) nodes) \<and> linked lower ks es src (link_edge es s (es ! k) nodes) (Suc k)
    \<and> (\<forall>u. u \<noteq> Suc k \<longrightarrow> link_edge es s (es ! k) nodes ! u = nodes ! u)"
proof -
  let ?T = "words es src" and ?p = "path es src" and ?c = "kb_label (es ! k)" and ?t = "Suc k"
  have N: "length nodes = Suc (length es)" using ok by (simp add: trie_ok_def)
  have sk: "s \<le> length es" and target: "kb_target (es ! k) = ?t" and pt: "?p ?t = ?p s @ [?c]"
    using ok k by (auto simp: trie_ok_def)
  let ?f = "kn_failure (nodes ! s)"
  from near [OF sk] k(3) have f: "?f \<le> length es" "fail_of ?T (?p s) (?p ?f)" by (simp_all add: linked_def)
  then have len: "length (?p ?f) < length (?p s)" by (auto simp: fail_of_def dest: suffix_length_less)
  let ?r = "find_fallback (length nodes) nodes es ?f ?c"
  define g where "g = (case ?r of None \<Rightarrow> 0 | Some t \<Rightarrow> t)"
  have "case ?r of Some t \<Rightarrow> 0 < t \<and> t \<le> length es \<and> longest ?T (?p ?f @ [?c]) (?p t) \<and> length (?p t) \<le> Suc (length (?p ?f))
    | None \<Rightarrow> longest ?T (?p ?f @ [?c]) []"
    unfolding find_fallback_chase
  proof (rule chase_longest [OF ok, where d = "length (?p s)"])
    show "kn_failure (nodes ! u) \<le> length es \<and> fail_of ?T (?p u) (?p (kn_failure (nodes ! u)))"
      if "0 < u" "u \<le> length es" "length (?p u) \<le> length (?p s)" for u
      using near [OF that(2,3)] that(1) by (simp add: linked_def)
    show "length (?p ?f) < length nodes" using path_length [of es src ?f] f(1) N by linarith
  qed (use f len in auto)
  then have g: "g \<le> length es" "longest ?T (?p ?f @ [?c]) (?p g)" "length (?p g) \<le> length (?p s)"
    using len by (auto simp: g_def split: option.splits)
  have fail: "fail_of ?T (?p ?t) (?p g)" unfolding pt by (rule longest_fail [OF ok f(2) g(2)])
  have gt: "g \<noteq> ?t" using g(3) pt by auto
  have link: "link_edge es s (es ! k) nodes = nodes[?t := (nodes ! ?t)\<lparr>kn_failure := g,
      kn_best := minKeywordIndex (kn_best (nodes ! ?t)) (kn_best (nodes ! g))\<rparr>]"
  proof (cases ?r)
    case None
    then have g0: "kn_failure (nodes ! ?t) = g" using t by (simp add: g_def unlinked_def)
    then have same: "(nodes ! ?t)\<lparr>kn_failure := g\<rparr> = nodes ! ?t" by (cases "nodes ! ?t") simp
    show ?thesis by (simp only: link_edge_def Let_def target None option.case same g0)
  next
    case (Some f)
    then have "f = g" by (simp add: g_def)
    with Some gt k(1) N show ?thesis by (simp add: link_edge_def target Let_def)
  qed
  have "kn_best (nodes ! g) = first_index (length ks) (\<lambda>i. live ks i \<and> suffix (word lower ks i) (?p g))"
    using near [OF g(1,3)] by (simp add: linked_def)
  with first_index_fail [OF keys fail] t
  have "linked lower ks es src (link_edge es s (es ! k) nodes) ?t"
    using g(1) fail k(1) N by (simp add: linked_def link unlinked_def)
  moreover have "same_edges nodes (link_edge es s (es ! k) nodes)"
    unfolding link same_edges_def using k(1) N by (auto intro!: nth_equalityI simp: nth_list_update)
  ultimately show ?thesis by (simp add: link)
qed

lemma linked_cong: "nodes ! u = nodes' ! u \<Longrightarrow> linked lower ks es src nodes u = linked lower ks es src nodes' u"
  by (simp add: linked_def)

lemma unlinked_cong: "nodes ! u = nodes' ! u \<Longrightarrow> unlinked lower ks es src nodes u = unlinked lower ks es src nodes' u"
  by (simp add: unlinked_def)

section \<open>Linking the edges of a node\<close>

lemma link_edges_ok:
  assumes "trie_ok nodes es src" "keyed lower ks es src" "0 < s" "distinct js" "\<forall>k \<in> set js. k < length es \<and> src ! k = s"
    and "\<And>u. u \<le> length es \<Longrightarrow> length (path es src u) \<le> length (path es src s) \<Longrightarrow> linked lower ks es src nodes u"
    and "\<forall>k \<in> set js. unlinked lower ks es src nodes (Suc k)"
  shows "same_edges nodes (fold (link_edge es s) (map ((!) es) js) nodes)
    \<and> (\<forall>k \<in> set js. linked lower ks es src (fold (link_edge es s) (map ((!) es) js) nodes) (Suc k))
    \<and> (\<forall>u. u \<notin> Suc ` set js \<longrightarrow> fold (link_edge es s) (map ((!) es) js) nodes ! u = nodes ! u)"
  using assms
proof (induction js arbitrary: nodes)
  case Nil
  then show ?case by (simp add: same_edges_def)
next
  case (Cons k js)
  let ?n = "link_edge es s (es ! k) nodes"
  have k: "k < length es" "src ! k = s" and t: "unlinked lower ks es src nodes (Suc k)" using Cons.prems(5,7) by auto
  from link_edge_ok [OF Cons.prems(1,2) k Cons.prems(3,6) t]
  have one: "same_edges nodes ?n" "linked lower ks es src ?n (Suc k)" "\<And>u. u \<noteq> Suc k \<Longrightarrow> ?n ! u = nodes ! u" by blast+
  have deep: "length (path es src (Suc k)) = Suc (length (path es src s))"
    using Cons.prems(1) k by (auto simp: trie_ok_def)
  have "same_edges ?n (fold (link_edge es s) (map ((!) es) js) ?n)
      \<and> (\<forall>k \<in> set js. linked lower ks es src (fold (link_edge es s) (map ((!) es) js) ?n) (Suc k))
      \<and> (\<forall>u. u \<notin> Suc ` set js \<longrightarrow> fold (link_edge es s) (map ((!) es) js) ?n ! u = ?n ! u)"
  proof (rule Cons.IH)
    show "trie_ok ?n es src" using same_edges_trie [OF one(1)] Cons.prems(1) by blast
    show "linked lower ks es src ?n u" if "u \<le> length es" "length (path es src u) \<le> length (path es src s)" for u
      using Cons.prems(6) [OF that] one(3) [of u] deep that linked_cong [of ?n u nodes] by fastforce
    show "\<forall>j \<in> set js. unlinked lower ks es src ?n (Suc j)"
    proof
      fix j assume j: "j \<in> set js"
      with Cons.prems(4) have "Suc j \<noteq> Suc k" by auto
      with j Cons.prems(7) one(3) [of "Suc j"] show "unlinked lower ks es src ?n (Suc j)"
        using unlinked_cong [of ?n "Suc j" nodes] by simp
    qed
  qed (use Cons.prems in auto)
  then have rest: "same_edges ?n (fold (link_edge es s) (map ((!) es) js) ?n)"
    "\<And>k. k \<in> set js \<Longrightarrow> linked lower ks es src (fold (link_edge es s) (map ((!) es) js) ?n) (Suc k)"
    "\<And>u. u \<notin> Suc ` set js \<Longrightarrow> fold (link_edge es s) (map ((!) es) js) ?n ! u = ?n ! u" by blast+
  have "Suc k \<notin> Suc ` set js" using Cons.prems(4) by auto
  from linked_cong [OF rest(3) [OF this]] one(2)
  have "linked lower ks es src (fold (link_edge es s) (map ((!) es) js) ?n) (Suc k)" by blast
  moreover have "same_edges nodes (fold (link_edge es s) (map ((!) es) js) ?n)" using one(1) rest(1) by (simp add: same_edges_def)
  ultimately show ?case using one(3) rest(2,3) by simp
qed

section \<open>The breadth-first loop\<close>

definition children :: "kw_build_edge list \<Rightarrow> nat list \<Rightarrow> nat \<Rightarrow> nat list" where
  "children es src s = map Suc (rev (filter (\<lambda>j. src ! j = s) [0..<length es]))"

lemma children_targets:
  assumes "trie_ok nodes es src" "s < length nodes"
  shows "map kb_target (edges_of nodes es s) = children es src s"
  using assms by (auto simp: children_def edges_of_src [OF assms] trie_ok_def)

lemma set_children: "set (children es src s) = {Suc k | k. k < length es \<and> src ! k = s}"
  by (auto simp: children_def)

lemma distinct_children: "distinct (children es src s)"
  by (simp add: children_def distinct_map)

text \<open>\<open>seen\<close> are the nodes whose children are queued, \<open>queue\<close> the others; together they are in the order of their depths.\<close>

definition queue_ok :: "(string \<Rightarrow> string) \<Rightarrow> string list \<Rightarrow> kw_build_edge list \<Rightarrow> nat list \<Rightarrow> nat list \<Rightarrow> nat list \<Rightarrow> kw_node list \<Rightarrow> bool" where
  "queue_ok lower ks es src seen queue nodes \<longleftrightarrow> trie_ok nodes es src
     \<and> distinct (seen @ queue) \<and> sorted (map (\<lambda>u. length (path es src u)) (seen @ queue))
     \<and> set (seen @ queue) = set (children es src 0) \<union> (\<Union>s \<in> set seen. set (children es src s))
     \<and> (\<forall>u \<le> length es. if u = 0 \<or> u \<in> set (seen @ queue) then linked lower ks es src nodes u else unlinked lower ks es src nodes u)"

lemma child_depth: "trie_ok nodes es src \<Longrightarrow> u \<in> set (children es src s) \<Longrightarrow>
    length (path es src u) = Suc (length (path es src s)) \<and> 0 < u \<and> u \<le> length es \<and> s < u"
  by (auto simp: set_children trie_ok_def)

text \<open>Every node that is not deeper than the head of the queue has been queued.\<close>

lemma queued_before:
  assumes q: "queue_ok lower ks es src seen queue nodes"
    and d: "\<And>s. s \<in> set queue \<Longrightarrow> d \<le> length (path es src s)"
  shows "u \<le> length es \<Longrightarrow> length (path es src u) \<le> d \<Longrightarrow> u = 0 \<or> u \<in> set (seen @ queue)"
proof (induction u rule: less_induct)
  case (less u)
  show ?case
  proof (cases u)
    case (Suc k)
    have ok: "trie_ok nodes es src" using q by (simp add: queue_ok_def)
    let ?p = "src ! k"
    have u: "u \<in> set (children es src ?p)" using Suc less.prems(1) by (auto simp: set_children)
    note dp = child_depth [OF ok u]
    with less.IH [of ?p] less.prems have "?p = 0 \<or> ?p \<in> set (seen @ queue)" by auto
    moreover have "?p \<notin> set queue" using d [of ?p] dp less.prems(2) by auto
    ultimately have "?p = 0 \<or> ?p \<in> set seen" by auto
    then have "u \<in> set (children es src 0) \<union> (\<Union>s \<in> set seen. set (children es src s))" using u by auto
    then show ?thesis using q unfolding queue_ok_def by blast
  qed simp
qed

lemma queue_step:
  assumes q: "queue_ok lower ks es src seen (s # queue) nodes" and keys: "keyed lower ks es src"
  shows "queue_ok lower ks es src (seen @ [s]) (queue @ map kb_target (edges_of nodes es s)) (fold (link_edge es s) (edges_of nodes es s) nodes)
    \<and> same_edges nodes (fold (link_edge es s) (edges_of nodes es s) nodes)"
proof -
  let ?d = "\<lambda>u. length (path es src u)" and ?n = "fold (link_edge es s) (edges_of nodes es s) nodes" and ?c = "children es src s"
  have ok: "trie_ok nodes es src" and dist: "distinct (seen @ s # queue)" and sorted: "sorted (map ?d (seen @ s # queue))"
    and members: "set (seen @ s # queue) = set (children es src 0) \<union> (\<Union>s \<in> set seen. set (children es src s))"
    and state: "\<And>u. u \<le> length es \<Longrightarrow> if u = 0 \<or> u \<in> set (seen @ s # queue) then linked lower ks es src nodes u else unlinked lower ks es src nodes u"
    using q unfolding queue_ok_def by blast+
  have N: "length nodes = Suc (length es)" using ok by (simp add: trie_ok_def)
  have "\<exists>p. s \<in> set (children es src p)" using members by auto
  then have s: "0 < s" "s \<le> length es" using child_depth [OF ok] by blast+
  have targets: "map kb_target (edges_of nodes es s) = ?c" by (rule children_targets [OF ok]) (use s N in simp)
  have front: "?d s \<le> ?d u" if "u \<in> set (s # queue)" for u using sorted that by (auto simp: sorted_append)
  have behind: "?d u \<le> Suc (?d s)" if "u \<in> set (seen @ s # queue)" for u
  proof -
    from that members obtain p where p: "u \<in> set (children es src p)" "p = 0 \<or> p \<in> set seen" by blast
    then have "?d p \<le> ?d s" using sorted by (auto simp: sorted_append)
    with child_depth [OF ok p(1)] show ?thesis by simp
  qed
  have new: "u \<notin> set (seen @ s # queue)" if u: "u \<in> set ?c" for u
  proof
    assume "u \<in> set (seen @ s # queue)"
    with members obtain p where p: "u \<in> set (children es src p)" "p = 0 \<or> p \<in> set seen" by blast
    with u have "p = s" by (auto simp: set_children)
    with p(2) s(1) dist show False by auto
  qed
  let ?js = "rev (filter (\<lambda>j. src ! j = s) [0..<length es])"
  have edges: "edges_of nodes es s = map ((!) es) ?js" by (rule edges_of_src [OF ok]) (use s N in simp)
  have c: "set ?c = Suc ` set ?js" by (auto simp: children_def)
  have link: "same_edges nodes ?n" "\<And>u. u \<in> set ?c \<Longrightarrow> linked lower ks es src ?n u" "\<And>u. u \<notin> set ?c \<Longrightarrow> ?n ! u = nodes ! u"
  proof -
    have "linked lower ks es src nodes u" if u: "u \<le> length es" "?d u \<le> ?d s" for u
      using state [OF u(1)] queued_before [OF q front u] by (auto split: if_splits)
    moreover have "\<forall>k \<in> set ?js. unlinked lower ks es src nodes (Suc k)"
    proof
      fix k assume k: "k \<in> set ?js"
      then have "Suc k \<in> set ?c" using c by blast
      with new have "Suc k \<notin> set (seen @ s # queue)" by blast
      moreover have "Suc k \<le> length es" using k by auto
      ultimately show "unlinked lower ks es src nodes (Suc k)" using state [of "Suc k"] by (simp split: if_splits)
    qed
    ultimately have "same_edges nodes ?n \<and> (\<forall>k \<in> set ?js. linked lower ks es src ?n (Suc k)) \<and> (\<forall>u. u \<notin> Suc ` set ?js \<longrightarrow> ?n ! u = nodes ! u)"
      unfolding edges by (intro link_edges_ok [OF ok keys s(1)]) auto
    then show "same_edges nodes ?n" "\<And>u. u \<in> set ?c \<Longrightarrow> linked lower ks es src ?n u" "\<And>u. u \<notin> set ?c \<Longrightarrow> ?n ! u = nodes ! u"
      unfolding c by blast+
  qed
  have "queue_ok lower ks es src (seen @ [s]) (queue @ ?c) ?n"
    unfolding queue_ok_def
  proof (intro conjI)
    show "trie_ok ?n es src" by (rule same_edges_trie [OF link(1) ok])
    show "distinct ((seen @ [s]) @ queue @ ?c)" using dist new distinct_children [of es src s] by auto
    show "sorted (map ?d ((seen @ [s]) @ queue @ ?c))"
    proof -
      have "?d (?c ! i) = Suc (?d s)" if "i < length ?c" for i using child_depth [OF ok nth_mem [OF that]] by simp
      then have "sorted (map ?d ?c)" by (simp add: sorted_iff_nth_mono)
      moreover have "?d u \<le> ?d v" if "u \<in> set (seen @ s # queue)" "v \<in> set ?c" for u v
        using behind [OF that(1)] child_depth [OF ok that(2)] by simp
      then have "\<forall>x \<in> set (map ?d (seen @ s # queue)). \<forall>y \<in> set (map ?d ?c). x \<le> y" unfolding set_map by blast
      ultimately have "sorted (map ?d (seen @ s # queue) @ map ?d ?c)" using sorted unfolding sorted_append by blast
      then show ?thesis by simp
    qed
    show "set ((seen @ [s]) @ queue @ ?c) = set (children es src 0) \<union> (\<Union>s \<in> set (seen @ [s]). set (children es src s))"
      using members by auto
    show "\<forall>u \<le> length es. if u = 0 \<or> u \<in> set ((seen @ [s]) @ queue @ ?c) then linked lower ks es src ?n u else unlinked lower ks es src ?n u"
    proof (intro allI impI)
      fix u assume u: "u \<le> length es"
      have "0 \<notin> set ?c" using child_depth [OF ok] by blast
      then show "if u = 0 \<or> u \<in> set ((seen @ [s]) @ queue @ ?c) then linked lower ks es src ?n u else unlinked lower ks es src ?n u"
        using state [OF u] link(2,3) [of u] linked_cong [of ?n u nodes] unlinked_cong [of ?n u nodes]
        by (cases "u \<in> set ?c") (auto split: if_splits)
    qed
  qed
  with link(1) show ?thesis by (simp only: targets)
qed

lemma queue_bound:
  assumes "queue_ok lower ks es src seen queue nodes"
  shows "length (seen @ queue) \<le> length es"
proof -
  have ok: "trie_ok nodes es src" and dist: "distinct (seen @ queue)"
    and members: "set (seen @ queue) = set (children es src 0) \<union> (\<Union>s \<in> set seen. set (children es src s))"
    using assms unfolding queue_ok_def by blast+
  have "set (seen @ queue) \<subseteq> {1..length es}"
    unfolding members using child_depth [OF ok] by fastforce
  then have "card (set (seen @ queue)) \<le> length es" using card_mono [of "{1..length es}"] by fastforce
  with distinct_card [OF dist] show ?thesis by simp
qed

lemma queue_done:
  assumes q: "queue_ok lower ks es src seen [] nodes" and u: "u \<le> length es"
  shows "linked lower ks es src nodes u"
proof -
  have "u = 0 \<or> u \<in> set (seen @ [])" by (rule queued_before [OF q _ u order_refl]) simp
  with q u show ?thesis unfolding queue_ok_def by metis
qed

text \<open>The number of nodes bounds the loop, since no node is queued twice.\<close>

lemma link_queue_ok:
  assumes "queue_ok lower ks es src seen queue nodes" "keyed lower ks es src" "length es \<le> n + length seen"
  shows "same_edges nodes (link_queue n es queue nodes) \<and> (\<forall>u \<le> length es. linked lower ks es src (link_queue n es queue nodes) u)"
  using assms
proof (induction n arbitrary: seen queue nodes)
  case 0
  have "length queue = 0" using queue_bound [OF 0(1)] 0(3) unfolding length_append by linarith
  with 0(1) queue_done show ?case by (auto simp: same_edges_def)
next
  case (Suc n)
  show ?case
  proof (cases queue)
    case Nil
    with Suc.prems(1) queue_done show ?thesis by (auto simp: same_edges_def)
  next
    case (Cons s queue')
    let ?n = "fold (link_edge es s) (edges_of nodes es s) nodes"
    from queue_step [OF _ Suc.prems(2)] Suc.prems(1) Cons
    have q: "queue_ok lower ks es src (seen @ [s]) (queue' @ map kb_target (edges_of nodes es s)) ?n" and "same_edges nodes ?n" by blast+
    moreover have "length es \<le> n + length (seen @ [s])" using Suc.prems(3) by simp
    ultimately show ?thesis using Suc.IH [OF q Suc.prems(2)] Cons by (simp add: same_edges_def)
  qed
qed

text \<open>The loop on a freshly built trie.\<close>

lemma link_all_ok:
  assumes b: "built lower ks (length ks) nodes es src" and "\<And>i. i < length ks \<Longrightarrow> live ks i \<Longrightarrow> word lower ks i \<noteq> []"
    and nodes': "nodes' = link_queue (length nodes) es (map kb_target (edges_of nodes es 0)) nodes"
  shows "same_edges nodes nodes' \<and> keyed lower ks es src \<and> (\<forall>u \<le> length es. linked lower ks es src nodes' u)"
proof -
  have ok: "trie_ok nodes es src" using b by (simp add: built_def)
  then have N: "length nodes = Suc (length es)" by (simp add: trie_ok_def)
  have w: "words es src = insert [] {p. \<exists>i < length ks. live ks i \<and> prefix p (word lower ks i)}" using b by (simp add: built_def)
  then have keys: "keyed lower ks es src" using assms(2) by (auto simp: keyed_def)
  have fresh: "kn_failure (nodes ! u) = 0 \<and> kn_best (nodes ! u) = first_index (length ks) (\<lambda>i. live ks i \<and> word lower ks i = path es src u)"
    if "u \<le> length es" for u using b that N by (simp add: built_def)
  have "linked lower ks es src nodes u" if u: "u = 0 \<or> u \<in> set (children es src 0)" for u
  proof -
    have le: "u \<le> length es" using u child_depth [OF ok] by auto
    have short: "length (path es src u) \<le> 1" using u child_depth [OF ok, of u 0] by auto
    then have "suffix (word lower ks i) (path es src u) \<longleftrightarrow> word lower ks i = path es src u" if "i < length ks" "live ks i" for i
      using assms(2) [OF that] by (cases "path es src u") (auto simp: suffix_Cons)
    then have "first_index (length ks) (\<lambda>i. live ks i \<and> word lower ks i = path es src u)
        = first_index (length ks) (\<lambda>i. live ks i \<and> suffix (word lower ks i) (path es src u))"
      by (intro first_index_cong) auto
    moreover have "fail_of (words es src) (path es src u) []" if "0 < u"
    proof -
      have "path es src u \<noteq> []" using path_Nil [OF ok, of u] le N that by simp
      with short obtain c where "path es src u = [c]" by (cases "path es src u") auto
      then show ?thesis using w by (auto simp: fail_of_def strict_suffix_def suffix_Cons)
    qed
    ultimately show ?thesis using fresh [OF le] by (simp add: linked_def)
  qed
  then have "queue_ok lower ks es src [] (children es src 0) nodes"
    using ok fresh distinct_children [of es src 0] child_depth [OF ok, of _ 0]
    by (auto simp: queue_ok_def unlinked_def sorted_iff_nth_mono)
  from link_queue_ok [OF this keys, of "length nodes"] keys N children_targets [OF ok, of 0] show ?thesis
    by (simp add: nodes')
qed

end
