(* ===== verification/KeywordSearch.thy ===== *)
theory KeywordSearch
  imports KeywordLinks
begin

text \<open>
  The matcher of the keyword filter: the insertion sort and the binary search find the edges of the trie, the root table
  those of the root, and the run over a text keeps the longest suffix that the trie knows. The filter as a whole is
  the linear scan \<open>first keyword that occurs in the text\<close>.
\<close>

section \<open>Sorting the edges of a node\<close>

text \<open>\<open>sift\<close> on the reversed sorted part.\<close>

fun insert_down :: "kw_edge \<Rightarrow> kw_edge list \<Rightarrow> kw_edge list" where
  "insert_down c [] = [c]"
| "insert_down c (x # xs) = (if ke_label c < ke_label x then x # insert_down c xs else c # x # xs)"

lemma sift_insert: "sift (length xs) c (xs @ y # ys) = rev (insert_down c (rev xs)) @ ys"
  by (induction xs arbitrary: y ys rule: rev_induct) (auto simp: nth_append list_update_append)

lemma insert_down_set [simp]: "set (insert_down c xs) = insert c (set xs)" "length (insert_down c xs) = Suc (length xs)"
  by (induction xs) auto

lemma insert_down_sorted:
  "sorted_wrt (\<lambda>a b. ke_label b \<le> ke_label a) xs \<Longrightarrow> sorted_wrt (\<lambda>a b. ke_label b \<le> ke_label a) (insert_down c xs)"
  by (induction xs) auto

lemma sort_edges_ok:
  "set (sort_edges out) = set out \<and> length (sort_edges out) = length out \<and> sorted_wrt (\<lambda>a b. ke_label a \<le> ke_label b) (sort_edges out)"
proof (cases "out = []")
  case False
  have "\<exists>p. fold (\<lambda>i o'. sift i (o' ! i) o') [1..<k] out = p @ drop k out \<and> length p = k \<and> set p = set (take k out)
      \<and> sorted_wrt (\<lambda>a b. ke_label a \<le> ke_label b) p" if "1 \<le> k" "k \<le> length out" for k
    using that
  proof (induction k rule: nat_induct_at_least)
    case base
    then show ?case using False by (intro exI [of _ "take 1 out"]) (cases out; simp)
  next
    case (Suc k)
    then obtain p where p: "fold (\<lambda>i o'. sift i (o' ! i) o') [1..<k] out = p @ drop k out" "length p = k" "set p = set (take k out)"
      "sorted_wrt (\<lambda>a b. ke_label a \<le> ke_label b) p" by auto
    have d: "drop k out = out ! k # drop (Suc k) out" using Suc.prems by (simp add: Cons_nth_drop_Suc)
    let ?q = "rev (insert_down (out ! k) (rev p))"
    have "sift k ((p @ drop k out) ! k) (p @ drop k out) = ?q @ drop (Suc k) out"
      using sift_insert [of p "out ! k" "out ! k" "drop (Suc k) out"] p(2) by (simp add: d nth_append)
    moreover have "sorted_wrt (\<lambda>a b. ke_label a \<le> ke_label b) ?q"
      using insert_down_sorted [of "rev p" "out ! k"] p(4) by (simp add: sorted_wrt_rev)
    ultimately show ?case using p Suc by (intro exI [of _ ?q]) (simp add: take_Suc_conv_app_nth)
  qed
  from this [of "length out"] False show ?thesis by (auto simp: sort_edges_def Suc_le_eq)
qed (simp add: sort_edges_def)

section \<open>The flat edges\<close>

definition out_edges :: "kw_node list \<Rightarrow> kw_build_edge list \<Rightarrow> nat \<Rightarrow> kw_edge list" where
  "out_edges nodes es i = sort_edges (map (\<lambda>e. \<lparr>ke_target = kb_target e, ke_label = kb_label e\<rparr>) (edges_of nodes es i))"

lemma flatten_ok:
  assumes "n \<le> length nodes" "fold (flatten_node es) [0..<n] (nodes, []) = (nodes', edges)"
  shows "length nodes' = length nodes
    \<and> (\<forall>i < n. kn_start (nodes' ! i) + kn_count (nodes' ! i) \<le> length edges
         \<and> take (kn_count (nodes' ! i)) (drop (kn_start (nodes' ! i)) edges) = out_edges nodes es i
         \<and> kn_failure (nodes' ! i) = kn_failure (nodes ! i) \<and> kn_best (nodes' ! i) = kn_best (nodes ! i))
    \<and> (\<forall>i \<ge> n. nodes' ! i = nodes ! i)"
  using assms
proof (induction n arbitrary: nodes' edges)
  case 0
  then show ?case by simp
next
  case (Suc n)
  obtain n1 e1 where one: "fold (flatten_node es) [0..<n] (nodes, []) = (n1, e1)" by (rule prod.exhaust)
  with Suc.IH [of n1 e1] Suc.prems(1)
  have len: "length n1 = length nodes"
    and before: "\<And>i. i < n \<Longrightarrow> kn_start (n1 ! i) + kn_count (n1 ! i) \<le> length e1 \<and> take (kn_count (n1 ! i)) (drop (kn_start (n1 ! i)) e1) = out_edges nodes es i
         \<and> kn_failure (n1 ! i) = kn_failure (nodes ! i) \<and> kn_best (n1 ! i) = kn_best (nodes ! i)"
    and after: "\<And>i. n \<le> i \<Longrightarrow> n1 ! i = nodes ! i" by auto
  have "edges_of n1 es n = edges_of nodes es n" using after by (simp add: edges_of_def)
  then have "flatten_node es n (n1, e1)
      = (n1[n := (n1 ! n)\<lparr>kn_start := length e1, kn_count := length (out_edges nodes es n)\<rparr>], e1 @ out_edges nodes es n)"
    by (simp add: flatten_node_def out_edges_def Let_def)
  with Suc.prems(2) one have res: "nodes' = n1[n := (n1 ! n)\<lparr>kn_start := length e1, kn_count := length (out_edges nodes es n)\<rparr>]"
    "edges = e1 @ out_edges nodes es n" by simp_all
  show ?case
  proof (intro conjI allI impI)
    fix i assume "i < Suc n"
    then consider "i < n" | "i = n" by linarith
    then show "kn_start (nodes' ! i) + kn_count (nodes' ! i) \<le> length edges"
      "take (kn_count (nodes' ! i)) (drop (kn_start (nodes' ! i)) edges) = out_edges nodes es i"
      "kn_failure (nodes' ! i) = kn_failure (nodes ! i)" "kn_best (nodes' ! i) = kn_best (nodes ! i)"
      using before [of i] after [of i] len Suc.prems(1) by (cases; simp add: res)+
  qed (use len after in \<open>auto simp: res\<close>)
qed

section \<open>Binary search\<close>

lemma lower_bound_ok:
  assumes "left \<le> right" "\<And>i j. left \<le> i \<Longrightarrow> i \<le> j \<Longrightarrow> j < right \<Longrightarrow> ke_label (edges ! i) \<le> ke_label (edges ! j)"
  shows "left \<le> lower_bound edges c left right \<and> lower_bound edges c left right \<le> right
    \<and> (\<forall>i. left \<le> i \<and> i < lower_bound edges c left right \<longrightarrow> ke_label (edges ! i) < c)
    \<and> (\<forall>i. lower_bound edges c left right \<le> i \<and> i < right \<longrightarrow> c \<le> ke_label (edges ! i))"
  using assms
proof (induction edges c left right rule: lower_bound.induct)
  case (1 edges c left right)
  let ?m = "left + (right - left) div 2"
  show ?case
  proof (cases "left < right")
    case False
    then have "lower_bound edges c left right = left" by (simp add: lower_bound.simps [of edges c left right])
    with 1(3) False show ?thesis by simp
  next
    case True
    then have m: "left \<le> ?m" "?m < right" by auto
    show ?thesis
    proof (cases "ke_label (edges ! ?m) < c")
      case True
      have low: "ke_label (edges ! i) < c" if "left \<le> i" "i < ?m + 1" for i
        using 1(4) [of i ?m] that m True by simp
      let ?p = "lower_bound edges c (?m + 1) right"
      have eq: "lower_bound edges c left right = ?p" using True \<open>left < right\<close> by (simp add: lower_bound.simps [of edges c left right] Let_def)
      have ih: "?m + 1 \<le> ?p \<and> ?p \<le> right \<and> (\<forall>i. ?m + 1 \<le> i \<and> i < ?p \<longrightarrow> ke_label (edges ! i) < c)
          \<and> (\<forall>i. ?p \<le> i \<and> i < right \<longrightarrow> c \<le> ke_label (edges ! i))"
        by (rule 1(1) [OF \<open>left < right\<close> refl True]) (use m 1(4) in auto)
      have "ke_label (edges ! i) < c" if "left \<le> i" "i < ?p" for i
        using low [OF that(1)] ih that(2) by (cases "i < ?m + 1") auto
      with ih m show ?thesis unfolding eq by auto
    next
      case False
      have high: "c \<le> ke_label (edges ! i)" if "?m \<le> i" "i < right" for i
        using 1(4) [of ?m i] that m False by simp
      let ?p = "lower_bound edges c left ?m"
      have eq: "lower_bound edges c left right = ?p" using False \<open>left < right\<close> by (simp add: lower_bound.simps [of edges c left right] Let_def)
      have ih: "left \<le> ?p \<and> ?p \<le> ?m \<and> (\<forall>i. left \<le> i \<and> i < ?p \<longrightarrow> ke_label (edges ! i) < c)
          \<and> (\<forall>i. ?p \<le> i \<and> i < ?m \<longrightarrow> c \<le> ke_label (edges ! i))"
        by (rule 1(2) [OF \<open>left < right\<close> refl False]) (use m 1(4) in auto)
      have "c \<le> ke_label (edges ! i)" if "?p \<le> i" "i < right" for i
        using high [OF _ that(2)] ih that(1) by (cases "i < ?m") auto
      with ih m show ?thesis unfolding eq by auto
    qed
  qed
qed

section \<open>The states of the matcher\<close>

text \<open>What the matcher knows of the linked trie \<open>nodes\<close>, \<open>es\<close>: its transitions, links and keyword indices.\<close>

definition matcher_ok :: "kw_node list \<Rightarrow> kw_build_edge list \<Rightarrow> kw_matcher \<Rightarrow> bool" where
  "matcher_ok nodes es m \<longleftrightarrow> length (km_nodes m) = length nodes
     \<and> (\<forall>s < length nodes. \<forall>c < 256. next_state m s c = (case BuildTransition nodes es s c of None \<Rightarrow> 0 | Some t \<Rightarrow> t))
     \<and> (\<forall>s < length nodes. kn_failure (km_nodes m ! s) = kn_failure (nodes ! s) \<and> kn_best (km_nodes m ! s) = kn_best (nodes ! s))"

lemma out_edges_set:
  assumes "trie_ok nodes es src" "s < length nodes"
  shows "e \<in> set (out_edges nodes es s) \<longleftrightarrow> BuildTransition nodes es s (ke_label e) = Some (ke_target e)"
proof -
  have "set (out_edges nodes es s) = (\<lambda>e. \<lparr>ke_target = kb_target e, ke_label = kb_label e\<rparr>) ` set (edges_of nodes es s)"
    using sort_edges_ok by (simp add: out_edges_def)
  moreover have "set (edges_of nodes es s) = {es ! k | k. k < length es \<and> src ! k = s}"
    by (auto simp: edges_of_src [OF assms])
  ultimately have "e \<in> set (out_edges nodes es s) \<longleftrightarrow> (\<exists>k < length es. src ! k = s \<and> e = \<lparr>ke_target = kb_target (es ! k), ke_label = kb_label (es ! k)\<rparr>)"
    by auto
  also have "\<dots> \<longleftrightarrow> (\<exists>k < length es. ke_target e = Suc k \<and> src ! k = s \<and> kb_label (es ! k) = ke_label e)"
  proof -
    have "kb_target (es ! k) = Suc k" if "k < length es" for k using assms(1) that by (simp add: trie_ok_def)
    then show ?thesis by (cases e) auto
  qed
  finally show ?thesis using BuildTransition_edge [OF assms] by blast
qed

lemma slice_nth: "l + n \<le> length xs \<Longrightarrow> take n (drop l xs) = ys \<Longrightarrow> l \<le> i \<Longrightarrow> i < l + n \<Longrightarrow> xs ! i = ys ! (i - l)"
  by (auto simp: nth_take add.commute)

lemma slice_length: "l + n \<le> length xs \<Longrightarrow> length (take n (drop l xs)) = n"
  by simp

lemma next_state_found:
  assumes ok: "trie_ok nodes es src" and s: "s < length nodes" "0 < s" "length (km_nodes m) = length nodes"
    and slice: "kn_start (km_nodes m ! s) + kn_count (km_nodes m ! s) \<le> length (km_edges m)"
      "take (kn_count (km_nodes m ! s)) (drop (kn_start (km_nodes m ! s)) (km_edges m)) = out_edges nodes es s"
  shows "next_state m s c = (case BuildTransition nodes es s c of None \<Rightarrow> 0 | Some t \<Rightarrow> t)"
proof -
  let ?l = "kn_start (km_nodes m ! s)" and ?n = "kn_count (km_nodes m ! s)" and ?out = "out_edges nodes es s"
  let ?r = "?l + ?n" and ?E = "km_edges m"
  let ?p = "lower_bound ?E c ?l ?r"
  have nth: "?l \<le> i \<Longrightarrow> i < ?r \<Longrightarrow> ?E ! i = ?out ! (i - ?l)" for i by (rule slice_nth [OF slice])
  have len: "length ?out = ?n" using slice_length [OF slice(1)] slice(2) by simp
  have sorted: "sorted_wrt (\<lambda>a b. ke_label a \<le> ke_label b) ?out" using sort_edges_ok by (simp add: out_edges_def)
  have mono: "ke_label (?E ! i) \<le> ke_label (?E ! j)" if "?l \<le> i" "i \<le> j" "j < ?r" for i j
  proof (cases "i = j")
    case False
    with that len sorted_wrt_nth_less [OF sorted, of "i - ?l" "j - ?l"] nth [of i] nth [of j] show ?thesis by simp
  qed simp
  have lb: "?l \<le> ?p \<and> ?p \<le> ?r \<and> (\<forall>i. ?l \<le> i \<and> i < ?p \<longrightarrow> ke_label (?E ! i) < c) \<and> (\<forall>i. ?p \<le> i \<and> i < ?r \<longrightarrow> c \<le> ke_label (?E ! i))"
    by (rule lower_bound_ok) (simp, rule mono)
  show ?thesis
  proof (cases "?p < ?r \<and> ke_label (?E ! ?p) = c")
    case True
    then have "?E ! ?p \<in> set ?out" using nth [of ?p] lb len by (auto intro!: nth_mem)
    then have "BuildTransition nodes es s c = Some (ke_target (?E ! ?p))" using out_edges_set [OF ok s(1)] True by auto
    with True s show ?thesis by (simp add: next_state_def Let_def)
  next
    case False
    have "BuildTransition nodes es s c \<noteq> Some t" for t
    proof
      assume "BuildTransition nodes es s c = Some t"
      then have "\<lparr>ke_target = t, ke_label = c\<rparr> \<in> set ?out" using out_edges_set [OF ok s(1)] by simp
      then obtain j where j: "j < ?n" "?out ! j = \<lparr>ke_target = t, ke_label = c\<rparr>" using len by (auto simp: in_set_conv_nth)
      then have e: "?l + j < ?r" "ke_label (?E ! (?l + j)) = c" using nth [of "?l + j"] by simp_all
      then have "?p \<le> ?l + j" using lb by (metis le_add1 not_le order_less_irrefl)
      then have "?p < ?r" "ke_label (?E ! ?p) \<le> c" "c \<le> ke_label (?E ! ?p)" using e lb mono [of ?p "?l + j"] by auto
      with False show False by simp
    qed
    then have "BuildTransition nodes es s c = None" by (metis option.exhaust)
    moreover have "next_state m s c = 0" using False s by (auto simp: next_state_def Let_def)
    ultimately show ?thesis by simp
  qed
qed

lemma root_table:
  assumes "distinct (map kb_label out)" "\<forall>e \<in> set out. kb_label e < 256" "length t = 256" "c < 256"
  shows "fold (\<lambda>e t. t[kb_label e := kb_target e]) out t ! c = (case List.find (\<lambda>e. kb_label e = c) out of None \<Rightarrow> t ! c | Some e \<Rightarrow> kb_target e)"
  using assms
proof (induction out arbitrary: t)
  case (Cons e out)
  show ?case
  proof (cases "kb_label e = c")
    case True
    have "kb_label e \<notin> kb_label ` set out" using Cons.prems(1) by simp
    with True have "List.find (\<lambda>e. kb_label e = c) out = None" unfolding find_None_iff by (metis image_eqI)
    with Cons True show ?thesis by simp
  next
    case False
    with Cons show ?thesis by (simp split: option.split)
  qed
qed simp

lemma root_found:
  assumes ok: "trie_ok nodes es src" and labels: "\<forall>c \<in> set (map kb_label es). c < 256" and c: "c < 256"
  shows "fold (\<lambda>e t. t[kb_label e := kb_target e]) (edges_of nodes es 0) (replicate 256 0) ! c
    = (case BuildTransition nodes es 0 c of None \<Rightarrow> 0 | Some t \<Rightarrow> t)"
proof -
  have z: "0 < length nodes" using ok by (simp add: trie_ok_def)
  let ?js = "rev (filter (\<lambda>j. src ! j = 0) [0..<length es])"
  have e: "edges_of nodes es 0 = map ((!) es) ?js" by (rule edges_of_src [OF ok z])
  have "inj_on (\<lambda>k. kb_label (es ! k)) (set ?js)"
    using ok unfolding trie_ok_def inj_on_def by fastforce
  then have "distinct (map kb_label (edges_of nodes es 0))" unfolding e by (simp add: distinct_map comp_def)
  moreover have "\<forall>e \<in> set (edges_of nodes es 0). kb_label e < 256" using labels by (auto simp: e)
  ultimately show ?thesis using root_table [of "edges_of nodes es 0" "replicate 256 0" c] c z
    by (simp add: BuildTransition_def split: option.split)
qed

section \<open>Running over a text\<close>

lemma follow_chase:
  assumes m: "matcher_ok nodes es m" and ok: "trie_ok nodes es src" and c: "c < 256"
    and fl: "\<And>s. 0 < s \<Longrightarrow> s \<le> length es \<Longrightarrow> kn_failure (nodes ! s) \<le> length es"
  shows "s \<le> length es \<Longrightarrow> follow n m s c
    = (case chase (BuildTransition nodes es) (\<lambda>s. kn_failure (nodes ! s)) n s c of None \<Rightarrow> 0 | Some t \<Rightarrow> t)"
proof (induction n arbitrary: s)
  case 0
  then show ?case by simp
next
  case (Suc n)
  then have s: "s < length nodes" using ok by (simp add: trie_ok_def)
  have nx: "next_state m s c = (case BuildTransition nodes es s c of None \<Rightarrow> 0 | Some t \<Rightarrow> t)"
    and f: "kn_failure (km_nodes m ! s) = kn_failure (nodes ! s)" using m s c by (simp_all add: matcher_ok_def)
  show ?case
  proof (cases "BuildTransition nodes es s c")
    case None
    with nx f Suc.IH [of "kn_failure (nodes ! s)"] fl [of s] Suc.prems show ?thesis by (cases "s = 0") simp_all
  next
    case (Some t)
    then have "0 < t" using BuildTransition_edge [OF ok s] by auto
    with Some nx show ?thesis by simp
  qed
qed

lemma first_index_zero: "first_index n P = 0 \<longleftrightarrow> 0 < n \<and> P 0"
  using first_index_eq [of n P 0] by simp

lemma scan_text_ok:
  assumes m: "matcher_ok nodes es m" and ok: "trie_ok nodes es src" and keys: "keyed lower ks es src"
    and links: "\<And>u. u \<le> length es \<Longrightarrow> linked lower ks es src nodes u"
  shows "s \<le> length es \<Longrightarrow> longest (words es src) w (path es src s) \<Longrightarrow> \<forall>c \<in> set cs. c < 256 \<Longrightarrow>
    best = first_index (length ks) (\<lambda>i. live ks i \<and> sublist (word lower ks i) w) \<Longrightarrow>
    scan_text m cs s best = first_index (length ks) (\<lambda>i. live ks i \<and> sublist (word lower ks i) (w @ cs))"
proof (induction cs arbitrary: s w best)
  case Nil
  then show ?case by simp
next
  case (Cons c cs)
  let ?T = "words es src" and ?p = "path es src" and ?N = "length ks"
  have N: "length nodes = Suc (length es)" and Nm: "length (km_nodes m) = length nodes" using ok m by (simp_all add: trie_ok_def matcher_ok_def)
  have fl: "kn_failure (nodes ! u) \<le> length es \<and> fail_of ?T (?p u) (?p (kn_failure (nodes ! u)))" if "0 < u" "u \<le> length es" for u
    using links [OF that(2)] that(1) by (simp add: linked_def)
  let ?s = "follow (length (km_nodes m)) m s c"
  let ?r = "chase (BuildTransition nodes es) (\<lambda>s. kn_failure (nodes ! s)) (length nodes) s c"
  have long: "case ?r of Some t \<Rightarrow> 0 < t \<and> t \<le> length es \<and> longest ?T (w @ [c]) (?p t) \<and> length (?p t) \<le> Suc (length (?p s))
    | None \<Rightarrow> longest ?T (w @ [c]) []"
  proof (rule chase_longest [OF ok, where d = "length (?p s) + length es"])
    show "length (?p s) < length nodes" using path_length [of es src s] Cons.prems(1) N by simp
    show "suffix (?p s) w" using Cons.prems(2) by (simp add: longest_def)
    show "suffix q (?p s)" if "q @ [c] \<in> ?T" "suffix q w" for q
      using Cons.prems(2) that words_closed [OF ok that(1)] by (simp add: longest_def)
  qed (use fl Cons.prems(1) in auto)
  have "?s = (case ?r of None \<Rightarrow> 0 | Some t \<Rightarrow> t)"
    unfolding Nm by (rule follow_chase [OF m ok _ _ Cons.prems(1)]) (use Cons.prems(3) fl in auto)
  with long have s: "?s \<le> length es" "longest ?T (w @ [c]) (?p ?s)" by (auto split: option.splits)
  have "suffix (word lower ks i) (?p ?s) \<longleftrightarrow> suffix (word lower ks i) (w @ [c])" if "i < ?N" "live ks i" for i
    using keys that s(2) unfolding keyed_def longest_def by (meson suffix_order.trans)
  then have "first_index ?N (\<lambda>i. live ks i \<and> sublist (word lower ks i) w \<or> live ks i \<and> suffix (word lower ks i) (?p ?s))
      = first_index ?N (\<lambda>i. live ks i \<and> sublist (word lower ks i) (w @ [c]))"
    by (intro first_index_cong) (auto simp: sublist_snoc)
  moreover have "kn_best (km_nodes m ! ?s) = first_index ?N (\<lambda>i. live ks i \<and> suffix (word lower ks i) (?p ?s))"
    using m links [OF s(1)] s(1) N by (simp add: matcher_ok_def linked_def)
  ultimately have best: "minKeywordIndex best (kn_best (km_nodes m ! ?s)) = first_index ?N (\<lambda>i. live ks i \<and> sublist (word lower ks i) (w @ [c]))"
    using Cons.prems(4) by (simp add: minKeywordIndex_first)
  show ?case
  proof (cases "minKeywordIndex best (kn_best (km_nodes m ! ?s)) = 0")
    case True
    with best have "0 < ?N" "live ks 0" "sublist (word lower ks 0) (w @ [c])" by (simp_all add: first_index_zero)
    moreover from this(3) have "sublist (word lower ks 0) (w @ c # cs)"
      unfolding sublist_def by (metis append.assoc append_Cons append_Nil)
    ultimately have "first_index ?N (\<lambda>i. live ks i \<and> sublist (word lower ks i) (w @ c # cs)) = 0" by (simp add: first_index_zero)
    with True show ?thesis by (simp add: Let_def)
  next
    case False
    with Cons.IH [OF s, of "minKeywordIndex best (kn_best (km_nodes m ! ?s))"] best Cons.prems(3) show ?thesis by (simp add: Let_def)
  qed
qed

section \<open>The filter as a whole\<close>

lemma matcher_of_trie:
  assumes b: "built lower ks (length ks) nodes es src" and n: "\<And>i. i < length ks \<Longrightarrow> live ks i \<Longrightarrow> word lower ks i \<noteq> []"
    and l: "nodes' = link_queue (length nodes) es (map kb_target (edges_of nodes es 0)) nodes"
    and f: "fold (flatten_node es) [0..<length nodes'] (nodes', []) = (nodes'', edges)"
  shows "matcher_ok nodes' es \<lparr>km_nodes = nodes'', km_edges = edges,
      km_root = fold (\<lambda>e t. t[kb_label e := kb_target e]) (edges_of nodes es 0) (replicate 256 0), km_keywords = ks\<rparr>"
    (is "matcher_ok _ _ ?m")
proof -
  from link_all_ok [OF b n l] have same: "same_edges nodes nodes'" by blast
  have ok: "trie_ok nodes es src" and labels: "\<forall>c \<in> set (map kb_label es). c < 256" using b by (simp_all add: built_def)
  note ok' = same_edges_trie [OF same ok]
  have z: "0 < length nodes'" using ok' by (simp add: trie_ok_def)
  from flatten_ok [OF order_refl f] have flat: "length nodes'' = length nodes'"
    "\<And>i. i < length nodes' \<Longrightarrow> kn_start (nodes'' ! i) + kn_count (nodes'' ! i) \<le> length edges"
    "\<And>i. i < length nodes' \<Longrightarrow> take (kn_count (nodes'' ! i)) (drop (kn_start (nodes'' ! i)) edges) = out_edges nodes' es i"
    "\<And>i. i < length nodes' \<Longrightarrow> kn_failure (nodes'' ! i) = kn_failure (nodes' ! i) \<and> kn_best (nodes'' ! i) = kn_best (nodes' ! i)" by simp_all
  have "next_state ?m s c = (case BuildTransition nodes' es s c of None \<Rightarrow> 0 | Some t \<Rightarrow> t)" if s: "s < length nodes'" and c: "c < 256" for s c
  proof (cases "s = 0")
    case True
    have "edges_of nodes' es 0 = edges_of nodes es 0" by (rule same_edges_of [OF same]) (use z same_edges_length [OF same] in simp)
    with True root_found [OF ok' labels c] show ?thesis by (simp add: next_state_def)
  next
    case False
    with next_state_found [OF ok' s, of ?m c] flat s show ?thesis by simp
  qed
  with flat show ?thesis by (simp add: matcher_ok_def)
qed

lemma find_index: "List.find P xs = map_option ((!) xs) (List.find (\<lambda>i. P (xs ! i)) [0..<length xs])"
proof (cases "List.find (\<lambda>i. P (xs ! i)) [0..<length xs]")
  case None
  then have "List.find P xs = None" by (force simp: find_None_iff in_set_conv_nth)
  with None show ?thesis by simp
next
  case (Some i)
  then have "List.find P xs = Some (xs ! i)" by (auto simp: find_upt_Some find_Some_iff)
  with Some show ?thesis by simp
qed

lemma first_index_find: "(if first_index (length xs) (\<lambda>i. P (xs ! i)) < 0 then None else Some (xs ! nat (first_index (length xs) (\<lambda>i. P (xs ! i)))))
    = List.find P xs"
  unfolding find_index [of P xs] by (auto simp: first_index_def split: option.split)

lemma inj_map_of_char: "map (of_char :: char \<Rightarrow> nat) a = map of_char b \<longleftrightarrow> a = b"
  by (rule inj_map_eq_map) (simp add: inj_on_def)

lemma sublist_bytes: "sublist (bytes a) (bytes b) \<longleftrightarrow> sublist a b"
proof
  assume "sublist (bytes a) (bytes b)"
  then obtain a' where "sublist a' b" "bytes a = map of_char a'" unfolding bytes_def by (metis sublist_map_rightE)
  moreover then have "a = a'" unfolding bytes_def by (metis inj_map_of_char)
  ultimately show "sublist a b" by simp
next
  assume "sublist a b"
  then show "sublist (bytes a) (bytes b)" unfolding bytes_def sublist_def by (metis map_append)
qed

text \<open>C13: The keyword filter does what a linear scan does: for every list of keywords and every text, the automaton that the
  constructor builds reports the first keyword of the list (the empty ones apart) that occurs, in lower case, in the lower-cased
  text, and nothing when none occurs. The one hypothesis on lower-casing is that it keeps empty strings, and only them, empty.\<close>

theorem matcher_finds_first_keyword:
  assumes "\<And>s. lower s = [] \<longleftrightarrow> s = []"
  shows "Match lower (newContentModerationKeywordMatcher lower keywords) text
    = List.find (\<lambda>k. k \<noteq> [] \<and> sublist (lower k) (lower text)) keywords"
proof -
  let ?P = "\<lambda>k. k \<noteq> [] \<and> sublist (lower k) (lower text)"
  obtain nodes es where trie: "build_trie lower keywords = (nodes, es)" by (rule prod.exhaust)
  from build_trie_ok [OF this] obtain src where b: "built lower keywords (length keywords) nodes es src" by blast
  then have ok: "trie_ok nodes es src" by (simp add: built_def)
  have nonempty: "word lower keywords i \<noteq> []" if "live keywords i" for i using that assms by (simp add: word_def live_def bytes_def)
  consider "keywords = []" | "keywords \<noteq> []" "length nodes = 1" | "keywords \<noteq> []" "length nodes \<noteq> 1" "text = []"
    | "keywords \<noteq> []" "length nodes \<noteq> 1" "text \<noteq> []" by blast
  then show ?thesis
  proof cases
    case 1
    then show ?thesis by (simp add: newContentModerationKeywordMatcher_def Match_def)
  next
    case 2
    have "words es src = {[]}" using 2 ok by (auto simp: words_def trie_ok_def)
    moreover have "word lower keywords i \<in> words es src" if "i < length keywords" "live keywords i" for i
      using b that by (auto simp: built_def)
    ultimately have "\<not> live keywords i" if "i < length keywords" for i using nonempty that by fastforce
    then have "List.find ?P keywords = None" by (auto simp: find_None_iff in_set_conv_nth live_def)
    with 2 trie show ?thesis by (simp add: newContentModerationKeywordMatcher_def Match_def)
  next
    case 3
    have "\<not> ?P k" for k
    proof -
      have "sublist (lower k) (lower text) \<longleftrightarrow> lower k = []" using assms [of "text"] 3(3) by simp
      then show ?thesis using assms [of k] by simp
    qed
    then have "List.find ?P keywords = None" by (simp add: find_None_iff)
    with 3 show ?thesis by (auto simp: Match_def split: option.split)
  next
    case 4
    define nodes' where "nodes' = link_queue (length nodes) es (map kb_target (edges_of nodes es 0)) nodes"
    obtain nodes'' edges where f: "fold (flatten_node es) [0..<length nodes'] (nodes', []) = (nodes'', edges)" by (rule prod.exhaust)
    define m where "m = \<lparr>km_nodes = nodes'', km_edges = edges,
      km_root = fold (\<lambda>e t. t[kb_label e := kb_target e]) (edges_of nodes es 0) (replicate 256 0), km_keywords = keywords\<rparr>"
    have new: "newContentModerationKeywordMatcher lower keywords = Some m"
      using 4 trie f by (simp add: newContentModerationKeywordMatcher_def Let_def nodes'_def m_def)
    have mk: "matcher_ok nodes' es m" unfolding m_def by (rule matcher_of_trie [OF b nonempty nodes'_def f])
    from link_all_ok [OF b nonempty nodes'_def] have same: "same_edges nodes nodes'" and keys: "keyed lower keywords es src"
      and links: "\<And>u. u \<le> length es \<Longrightarrow> linked lower keywords es src nodes' u" by blast+
    note ok' = same_edges_trie [OF same ok]
    have none: "first_index (length keywords) (\<lambda>i. live keywords i \<and> sublist (word lower keywords i) []) = -1"
      using nonempty by (intro first_index_neg) (auto simp: first_index_none)
    have "[] \<in> words es src" using b by (simp add: built_def)
    then have root: "longest (words es src) [] (path es src 0)" by (simp add: longest_def)
    have "scan_text m (bytes (lower text)) 0 (-1)
        = first_index (length keywords) (\<lambda>i. live keywords i \<and> sublist (word lower keywords i) (bytes (lower text)))"
      using scan_text_ok [OF mk ok' keys links _ root _ none [symmetric], of "bytes (lower text)"] bytes_less by simp
    also have "\<dots> = first_index (length keywords) (\<lambda>i. ?P (keywords ! i))"
      by (rule first_index_cong) (simp add: live_def word_def sublist_bytes)
    finally have scan: "scan_text m (bytes (lower text)) 0 (-1) = first_index (length keywords) (\<lambda>i. ?P (keywords ! i))" .
    have "first_index (length keywords) (\<lambda>i. ?P (keywords ! i)) < int (length keywords)"
      by (rule first_index_less)
    moreover have "km_nodes m \<noteq> []" "km_keywords m = keywords" using mk ok' by (auto simp: matcher_ok_def trie_ok_def m_def)
    ultimately show ?thesis
      unfolding first_index_find [of "keywords" ?P, symmetric] using 4 scan by (simp add: new Match_def Let_def)
  qed
qed

lemma ascii_lower_empty: "ascii_lower s = [] \<longleftrightarrow> s = []"
  by (simp add: ascii_lower_def)

lemma matcher_finds_first_keyword_witness:
  "Match ascii_lower (newContentModerationKeywordMatcher ascii_lower [''hers'', [], ''She'', ''he'']) ''uSHER'' = Some ''She''"
  using matcher_finds_first_keyword [OF ascii_lower_empty, of "[''hers'', [], ''She'', ''he'']" "''uSHER''"] by (simp, code_simp)

end
