(* ===== verification/AdminPolicy.thy ===== *)
theory AdminPolicy
  imports Prelude
begin

text \<open>
  Explicit grants of restricted management keys (\<open>pkg/adminaccess/policy.go\<close>, \<open>catalog.go\<close>): rules that
  tie permissions to groups, account types and platforms, the catalogue of permissions with the routes
  they open, validation of a policy, and the admission of a request by method and route.
\<close>

named_theorems admin_defs "unfolding facts of the policy decisions"

section \<open>Rules and policies\<close>

record rule =
  Permissions :: "string list"
  GroupIDs :: "int list"
  AllGroups :: bool
  IncludeUngrouped :: bool
  AccountTypes :: "string list"
  Platforms :: "string list"

record policy =
  Rules :: "rule list"
  GlobalPermissions :: "string list"

text \<open>The resource a decision is about. The caller's identity (\<open>Principal\<close>) contributes its policy only.\<close>

record account =
  acc_ID :: int
  acc_GroupIDs :: "int list"
  acc_Type :: string
  acc_Platform :: string

definition Matches :: "rule \<Rightarrow> account \<Rightarrow> bool" where
  "Matches r a =
     (if acc_Type a \<notin> set (AccountTypes r) \<or> (Platforms r \<noteq> [] \<and> acc_Platform a \<notin> set (Platforms r))
      then False
      else if acc_GroupIDs a = [] then IncludeUngrouped r
      else if AllGroups r then True
      else list_ex (\<lambda>g. g > 0 \<and> g \<in> set (GroupIDs r)) (acc_GroupIDs a))"

definition RulesFor :: "policy \<Rightarrow> string \<Rightarrow> rule list" where
  "RulesFor p permission = filter (\<lambda>r. permission \<in> set (Permissions r)) (Rules p)"

definition AllowsAccount :: "policy \<Rightarrow> string \<Rightarrow> account \<Rightarrow> bool" where
  "AllowsAccount p permission a = list_ex (\<lambda>r. Matches r a) (RulesFor p permission)"

definition AllowsGroup :: "policy \<Rightarrow> string \<Rightarrow> account \<Rightarrow> int \<Rightarrow> bool" where
  "AllowsGroup p permission a g =
     (if g \<le> 0 then False
      else list_ex (\<lambda>r. Matches r a \<and> (AllGroups r \<or> g \<in> set (GroupIDs r))) (RulesFor p permission))"

definition AllowsGroupConfig :: "policy \<Rightarrow> string \<Rightarrow> int \<Rightarrow> string \<Rightarrow> bool" where
  "AllowsGroupConfig p permission g platform =
     (if g \<le> 0 then False
      else list_ex (\<lambda>r. (AllGroups r \<or> g \<in> set (GroupIDs r)) \<and>
                        (Platforms r = [] \<or> platform \<in> set (Platforms r))) (RulesFor p permission))"

section \<open>The catalogue\<close>

text \<open>
  The label and the category of a permission are texts of the operator's page and take no part in a
  decision; they are left out.
\<close>

record permission_definition =
  ID :: string
  Scope :: string
  Routes :: "string list"

definition definitions :: "permission_definition list" where
  "definitions = [
   \<lparr>ID = ''accounts.read'', Scope = ''account'',
     Routes = [''GET /accounts'', ''GET /accounts/:id'', ''GET /accounts/:id/models'']\<rparr>,
   \<lparr>ID = ''accounts.create'', Scope = ''account'',
     Routes = [''POST /accounts'', ''POST /accounts/import/codex-session'']\<rparr>,
   \<lparr>ID = ''accounts.update'', Scope = ''account'',
     Routes = [''PUT /accounts/:id'']\<rparr>,
   \<lparr>ID = ''accounts.credentials'', Scope = ''account'',
     Routes = [''PUT /accounts/:id'']\<rparr>,
   \<lparr>ID = ''accounts.models.write'', Scope = ''account'',
     Routes = [''PUT /accounts/:id'', ''POST /accounts/bulk-update'']\<rparr>,
   \<lparr>ID = ''accounts.network'', Scope = ''account'',
     Routes = [''PUT /accounts/:id'']\<rparr>,
   \<lparr>ID = ''accounts.status'', Scope = ''account'',
     Routes = [''PUT /accounts/:id'', ''POST /accounts/:id/schedulable'']\<rparr>,
   \<lparr>ID = ''accounts.schedule'', Scope = ''account'',
     Routes = [''PUT /accounts/:id'']\<rparr>,
   \<lparr>ID = ''accounts.refresh'', Scope = ''account'',
     Routes = [''POST /accounts/:id/refresh'']\<rparr>,
   \<lparr>ID = ''accounts.recover'', Scope = ''account'',
     Routes = [''POST /accounts/:id/clear-error'']\<rparr>,
   \<lparr>ID = ''accounts.delete'', Scope = ''account'',
     Routes = [''DELETE /accounts/:id'']\<rparr>,
   \<lparr>ID = ''accounts.groups'', Scope = ''account'',
     Routes = [''PUT /accounts/:id'']\<rparr>,
   \<lparr>ID = ''groups.models.read'', Scope = ''group'',
     Routes = [''GET /groups'', ''GET /groups/all'', ''GET /groups/:id'',
       ''GET /groups/:id/model-allowlist-candidates'']\<rparr>,
   \<lparr>ID = ''groups.models.write'', Scope = ''group'',
     Routes = [''PUT /groups/:id'']\<rparr>,
   \<lparr>ID = ''proxies.read'', Scope = ''global'',
     Routes = [''GET /proxies'', ''GET /proxies/all'', ''GET /proxies/:id'']\<rparr>,
   \<lparr>ID = ''models.defaults.read'', Scope = ''global'',
     Routes = [''GET /accounts/antigravity/default-model-mapping'',
       ''GET /groups/:id/model-allowlist-candidates'']\<rparr>,
   \<lparr>ID = ''dashboard.read'', Scope = ''global'',
     Routes = [''GET /dashboard/snapshot-v2'', ''GET /dashboard/stats'', ''GET /dashboard/realtime'',
       ''GET /dashboard/trend'', ''GET /dashboard/models'', ''GET /dashboard/groups'',
       ''GET /dashboard/api-keys-trend'', ''GET /dashboard/users-trend'',
       ''GET /dashboard/users-ranking'', ''POST /dashboard/users-usage'',
       ''POST /dashboard/api-keys-usage'', ''GET /dashboard/user-breakdown'']\<rparr>,
   \<lparr>ID = ''users.read'', Scope = ''global'',
     Routes = [''GET /users'', ''GET /users/:id'', ''GET /users/:id/rpm-status'', ''GET /users/:id/attributes'']\<rparr>,
   \<lparr>ID = ''users.balance.read'', Scope = ''global'',
     Routes = [''GET /users/:id/balance-history'']\<rparr>,
   \<lparr>ID = ''users.balance.write'', Scope = ''global'',
     Routes = [''POST /users/:id/balance'']\<rparr>,
   \<lparr>ID = ''users.quotas.read'', Scope = ''global'',
     Routes = [''GET /users/:id/platform-quotas'']\<rparr>,
   \<lparr>ID = ''users.quotas.write'', Scope = ''global'',
     Routes = [''PUT /users/:id/platform-quotas'', ''POST /users/:id/platform-quotas/reset'']\<rparr>,
   \<lparr>ID = ''groups.read'', Scope = ''global'',
     Routes = [''GET /groups'', ''GET /groups/all'', ''GET /groups/:id'', ''GET /groups/:id/rate-multipliers'',
       ''GET /groups/:id/composite-routes'', ''GET /groups/:id/model-allowlist-candidates'']\<rparr>,
   \<lparr>ID = ''usage.read'', Scope = ''global'',
     Routes = [''GET /usage'', ''GET /usage/stats'', ''GET /users/:id/usage'']\<rparr>,
   \<lparr>ID = ''payment.read'', Scope = ''global'',
     Routes = [''GET /payment/dashboard'', ''GET /payment/orders'', ''GET /payment/orders/:id'']\<rparr>,
   \<lparr>ID = ''payment.cancel'', Scope = ''global'',
     Routes = [''POST /payment/orders/:id/cancel'']\<rparr>,
   \<lparr>ID = ''payment.fulfill'', Scope = ''global'',
     Routes = [''POST /payment/orders/:id/retry'']\<rparr>,
   \<lparr>ID = ''payment.refund'', Scope = ''global'',
     Routes = [''POST /payment/orders/:id/refund'', ''POST /payment/orders/:id/refund/query'']\<rparr>,
   \<lparr>ID = ''payment.plans.read'', Scope = ''global'',
     Routes = [''GET /payment/plans'']\<rparr>,
   \<lparr>ID = ''payment.plans.write'', Scope = ''global'',
     Routes = [''POST /payment/plans'', ''PUT /payment/plans/:id'', ''DELETE /payment/plans/:id'']\<rparr>,
   \<lparr>ID = ''subscriptions.read'', Scope = ''global'',
     Routes = [''GET /subscriptions'', ''GET /subscriptions/:id'', ''GET /subscriptions/:id/progress'',
       ''GET /groups/:id/subscriptions'', ''GET /users/:id/subscriptions'']\<rparr>,
   \<lparr>ID = ''subscriptions.assign'', Scope = ''global'',
     Routes = [''POST /subscriptions/assign'', ''POST /subscriptions/bulk-assign'']\<rparr>,
   \<lparr>ID = ''subscriptions.extend'', Scope = ''global'',
     Routes = [''POST /subscriptions/:id/extend'']\<rparr>,
   \<lparr>ID = ''subscriptions.revoke'', Scope = ''global'',
     Routes = [''POST /subscriptions/:id/revoke'', ''DELETE /subscriptions/:id'']\<rparr>,
   \<lparr>ID = ''subscriptions.restore'', Scope = ''global'',
     Routes = [''POST /subscriptions/:id/restore'']\<rparr>,
   \<lparr>ID = ''subscriptions.reset'', Scope = ''global'',
     Routes = [''POST /subscriptions/:id/reset-quota'']\<rparr>,
   \<lparr>ID = ''announcements.read'', Scope = ''global'',
     Routes = [''GET /announcements'', ''GET /announcements/:id'', ''GET /announcements/:id/read-status'']\<rparr>,
   \<lparr>ID = ''announcements.write'', Scope = ''global'',
     Routes = [''POST /announcements'', ''PUT /announcements/:id'']\<rparr>,
   \<lparr>ID = ''announcements.delete'', Scope = ''global'',
     Routes = [''DELETE /announcements/:id'']\<rparr>,
   \<lparr>ID = ''promo.read'', Scope = ''global'',
     Routes = [''GET /promo-codes'', ''GET /promo-codes/:id'', ''GET /promo-codes/:id/usages'']\<rparr>,
   \<lparr>ID = ''promo.write'', Scope = ''global'',
     Routes = [''POST /promo-codes'', ''PUT /promo-codes/:id'']\<rparr>,
   \<lparr>ID = ''promo.delete'', Scope = ''global'',
     Routes = [''DELETE /promo-codes/:id'']\<rparr>,
   \<lparr>ID = ''ops.read'', Scope = ''global'',
     Routes = [''GET /ops/concurrency'', ''GET /ops/user-concurrency'', ''GET /ops/account-availability'',
       ''GET /ops/realtime-traffic'', ''GET /ops/ingress-rejections'',
       ''GET /ops/ingress-rejections/health'', ''GET /ops/auth-cache-invalidation/health'',
       ''GET /ops/dashboard/snapshot-v2'', ''GET /ops/dashboard/overview'',
       ''GET /ops/dashboard/throughput-trend'', ''GET /ops/dashboard/latency-histogram'',
       ''GET /ops/dashboard/error-trend'', ''GET /ops/dashboard/error-distribution'',
       ''GET /ops/dashboard/openai-token-stats'']\<rparr>,
   \<lparr>ID = ''ops.errors.read'', Scope = ''global'',
     Routes = [''GET /ops/errors'', ''GET /ops/errors/:id'', ''GET /ops/request-errors'',
       ''GET /ops/request-errors/:id'', ''GET /ops/request-errors/:id/upstream-errors'',
       ''GET /ops/upstream-errors'', ''GET /ops/upstream-errors/:id'', ''GET /ops/requests'']\<rparr>,
   \<lparr>ID = ''ops.errors.resolve'', Scope = ''global'',
     Routes = [''PUT /ops/errors/:id/resolve'', ''PUT /ops/request-errors/:id/resolve'',
       ''PUT /ops/upstream-errors/:id/resolve'']\<rparr>,
   \<lparr>ID = ''ops.alerts.read'', Scope = ''global'',
     Routes = [''GET /ops/alert-rules'', ''GET /ops/alert-events'', ''GET /ops/alert-events/:id'']\<rparr>,
   \<lparr>ID = ''ops.alerts.write'', Scope = ''global'',
     Routes = [''POST /ops/alert-rules'', ''PUT /ops/alert-rules/:id'', ''DELETE /ops/alert-rules/:id'',
       ''PUT /ops/alert-events/:id/status'', ''POST /ops/alert-silences'']\<rparr>,
   \<lparr>ID = ''system.read'', Scope = ''global'',
     Routes = [''GET /system/version'', ''GET /system/check-updates'', ''GET /system/rollback-versions'']\<rparr>]"

definition PermissionCatalog :: "(string \<times> string) list" where
  "PermissionCatalog = map (\<lambda>d. (ID d, Scope d)) definitions"

section \<open>Validation\<close>

datatype policy_error =
    TooManyRules
  | BadGlobalPermission string
  | ScopeTooLarge
  | BadResourcePermission string
  | BadGroupID
  | BadAccountType string
  | BadPlatform

text \<open>A loop that returns at the first element with an error, and two such steps in sequence.\<close>

fun first_error :: "('a \<Rightarrow> 'e option) \<Rightarrow> 'a list \<Rightarrow> 'e option" where
  "first_error f [] = None"
| "first_error f (x # xs) = (case f x of Some e \<Rightarrow> Some e | None \<Rightarrow> first_error f xs)"

definition and_then :: "'e option \<Rightarrow> 'e option \<Rightarrow> 'e option" where
  "and_then a b = (case a of Some e \<Rightarrow> Some e | None \<Rightarrow> b)"

text \<open>\<open>catalog[permission]\<close>: later entries overwrite earlier ones, a missing key reads as the empty string.\<close>

definition catalog_scope :: "string \<Rightarrow> string" where
  "catalog_scope permission =
     (case map_of (rev PermissionCatalog) permission of None \<Rightarrow> [] | Some scope \<Rightarrow> scope)"

definition account_types :: "string list" where
  "account_types = [''oauth'', ''setup-token'', ''apikey'', ''upstream'', ''bedrock'', ''service_account'']"

definition validate_rule :: "rule \<Rightarrow> policy_error option" where
  "validate_rule r =
     (if length (Permissions r) > 64 \<or> length (GroupIDs r) > 1000 \<or> length (AccountTypes r) > 32 \<or>
         length (Platforms r) > 64
      then Some ScopeTooLarge
      else and_then (first_error (\<lambda>p. if catalog_scope p \<noteq> ''account'' \<and> catalog_scope p \<noteq> ''group''
                                      then Some (BadResourcePermission p) else None) (Permissions r))
          (and_then (first_error (\<lambda>g. if g \<le> 0 then Some BadGroupID else None) (GroupIDs r))
          (and_then (first_error (\<lambda>k. if k \<notin> set account_types then Some (BadAccountType k) else None)
                                 (AccountTypes r))
                    (first_error (\<lambda>f. if trim_space f \<noteq> f \<or> f = [] \<or> length f > 64 \<or> f = ''*''
                                      then Some BadPlatform else None) (Platforms r)))))"

definition ValidatePolicy :: "policy \<Rightarrow> policy_error option" where
  "ValidatePolicy p =
     (if length (Rules p) > 32 \<or> length (GlobalPermissions p) > 128 then Some TooManyRules
      else and_then (first_error (\<lambda>q. if catalog_scope q \<noteq> ''global'' then Some (BadGlobalPermission q) else None)
                                 (GlobalPermissions p))
                    (first_error validate_rule (Rules p)))"

section \<open>Admission by route\<close>

text \<open>\<open>for i, ch := range route\<close>: the text before and after the first blank, if there is one.\<close>

fun split_blank :: "string \<Rightarrow> (string \<times> string) option" where
  "split_blank [] = None"
| "split_blank (c # cs) =
     (if c = CHR '' '' then Some ([], cs)
      else map_option (\<lambda>(m, rest). (c # m, rest)) (split_blank cs))"

definition admin_prefix :: string where
  "admin_prefix = ''/api/v1/admin''"

definition route_matches :: "string \<Rightarrow> string \<Rightarrow> bool" where
  "route_matches target route =
     (case split_blank route of None \<Rightarrow> False
      | Some (m, rest) \<Rightarrow> target = m @ CHR '' '' # admin_prefix @ rest)"

text \<open>What the entry of a matching route still asks of the policy.\<close>

definition entry_granted :: "policy \<Rightarrow> permission_definition \<Rightarrow> bool" where
  "entry_granted p d \<longleftrightarrow>
     (Scope d = ''global'' \<and> ID d \<in> set (GlobalPermissions p)) \<or>
     ((Scope d = ''account'' \<or> Scope d = ''group'') \<and> RulesFor p (ID d) \<noteq> [])"

definition RouteAllowed :: "policy \<Rightarrow> string \<Rightarrow> string \<Rightarrow> bool" where
  "RouteAllowed p method path =
     (let target = method @ CHR '' '' # path
      in list_ex (\<lambda>d. list_ex (route_matches target) (Routes d) \<and> entry_granted p d) definitions)"

section \<open>Facts about validation\<close>

lemma first_error_None [simp]: "first_error f xs = None \<longleftrightarrow> (\<forall>x \<in> set xs. f x = None)"
  by (induction xs) (auto split: option.splits)

lemma and_then_None [simp]: "and_then a b = None \<longleftrightarrow> a = None \<and> b = None"
  by (cases a) (simp_all add: and_then_def)

lemma valid_group_ids:
  assumes "ValidatePolicy p = None" "r \<in> set (Rules p)" "g \<in> set (GroupIDs r)"
  shows "0 < g"
proof -
  from assms(1,2) have "validate_rule r = None" by (simp add: ValidatePolicy_def split: if_splits)
  with assms(3) show ?thesis by (force simp: validate_rule_def split: if_splits)
qed

lemma RulesFor_set [simp]: "r \<in> set (RulesFor p q) \<longleftrightarrow> r \<in> set (Rules p) \<and> q \<in> set (Permissions r)"
  by (auto simp: RulesFor_def)

lemma AllowsAccount_iff [admin_defs]:
  "AllowsAccount p q a \<longleftrightarrow> (\<exists>r \<in> set (Rules p). q \<in> set (Permissions r) \<and> Matches r a)"
  by (auto simp: AllowsAccount_def list_ex_iff)

lemma AllowsGroup_iff [admin_defs]:
  "AllowsGroup p q a g \<longleftrightarrow> 0 < g \<and>
     (\<exists>r \<in> set (Rules p). q \<in> set (Permissions r) \<and> Matches r a \<and> (AllGroups r \<or> g \<in> set (GroupIDs r)))"
  by (auto simp: AllowsGroup_def list_ex_iff)

lemma AllowsGroupConfig_iff [admin_defs]:
  "AllowsGroupConfig p q g f \<longleftrightarrow> 0 < g \<and>
     (\<exists>r \<in> set (Rules p). q \<in> set (Permissions r) \<and> (AllGroups r \<or> g \<in> set (GroupIDs r)) \<and>
        (Platforms r = [] \<or> f \<in> set (Platforms r)))"
  by (auto simp: AllowsGroupConfig_def list_ex_iff)

lemma allowed_group_needs_account: "AllowsGroup p q a g \<Longrightarrow> AllowsAccount p q a"
  by (auto simp: admin_defs)

section \<open>Facts about routes\<close>

lemma split_blank_append [simp]:
  "CHR '' '' \<notin> set m \<Longrightarrow> split_blank (m @ CHR '' '' # rest) = Some (m, rest)"
  by (induction m) auto

lemma split_blank_SomeD: "split_blank s = Some (m, rest) \<Longrightarrow> s = m @ CHR '' '' # rest \<and> CHR '' '' \<notin> set m"
  by (induction s arbitrary: m) (auto split: if_splits)

lemma route_matches_iff:
  assumes "CHR '' '' \<notin> set method"
  shows "route_matches (method @ CHR '' '' # path) route \<longleftrightarrow>
           (\<exists>rest. route = method @ CHR '' '' # rest \<and> path = admin_prefix @ rest)"
proof
  assume "route_matches (method @ CHR '' '' # path) route"
  then have "\<exists>m rest. split_blank route = Some (m, rest) \<and> method @ CHR '' '' # path = m @ CHR '' '' # admin_prefix @ rest"
    by (auto simp: route_matches_def split: option.splits)
  then obtain m rest where sp: "split_blank route = Some (m, rest)"
    and eq: "method @ CHR '' '' # path = m @ CHR '' '' # admin_prefix @ rest"
    by blast
  from split_blank_SomeD [OF sp] have m: "route = m @ CHR '' '' # rest" "CHR '' '' \<notin> set m" by simp_all
  from split_blank_append [OF assms, of path] eq
  have "split_blank (m @ CHR '' '' # admin_prefix @ rest) = Some (method, path)" by simp
  then have "m = method" "admin_prefix @ rest = path" using split_blank_append [OF m(2)] by simp_all
  with m show "\<exists>rest. route = method @ CHR '' '' # rest \<and> path = admin_prefix @ rest" by auto
next
  assume "\<exists>rest. route = method @ CHR '' '' # rest \<and> path = admin_prefix @ rest"
  with assms show "route_matches (method @ CHR '' '' # path) route" by (auto simp: route_matches_def)
qed

lemma entry_granted_iff:
  "entry_granted p d \<longleftrightarrow> (Scope d = ''global'' \<and> ID d \<in> set (GlobalPermissions p)) \<or>
     (Scope d \<in> {''account'', ''group''} \<and> (\<exists>r \<in> set (Rules p). ID d \<in> set (Permissions r)))"
  by (auto simp: entry_granted_def filter_empty_conv RulesFor_def)

lemma RouteAllowed_iff:
  "CHR '' '' \<notin> set method \<Longrightarrow>
   RouteAllowed p method path \<longleftrightarrow>
     (\<exists>d \<in> set definitions. \<exists>rest. method @ CHR '' '' # rest \<in> set (Routes d) \<and>
        path = admin_prefix @ rest \<and> entry_granted p d)"
  by (fastforce simp: RouteAllowed_def Let_def list_ex_iff route_matches_iff)

text \<open>A restricted key is admitted to a request exactly when the catalogue lists the method and the
  full route in an entry that the policy grants: a global entry only through the list of global permissions, an
  account or group entry only through a rule that names it. Nothing is inherited by prefix or by
  method, and no rule opens a global entry.\<close>

theorem route_allowed_exact:
  assumes "CHR '' '' \<notin> set method"
  shows "RouteAllowed p method path \<longleftrightarrow>
     (\<exists>d \<in> set definitions. \<exists>rest. method @ CHR '' '' # rest \<in> set (Routes d) \<and>
        path = admin_prefix @ rest \<and>
        ((Scope d = ''global'' \<and> ID d \<in> set (GlobalPermissions p)) \<or>
         (Scope d \<in> {''account'', ''group''} \<and> (\<exists>r \<in> set (Rules p). ID d \<in> set (Permissions r)))))"
  unfolding RouteAllowed_iff [OF assms] entry_granted_iff ..

definition sample_policy :: policy where
  "sample_policy =
     \<lparr>Rules = [\<lparr>Permissions = [''accounts.read'', ''accounts.update'', ''accounts.groups'', ''groups.models.write''],
                GroupIDs = [1, 2], AllGroups = False, IncludeUngrouped = False,
                AccountTypes = [''oauth''], Platforms = [''openai'']\<rparr>],
      GlobalPermissions = []\<rparr>"

lemma sample_policy_valid: "ValidatePolicy sample_policy = None"
  by code_simp

lemma route_allowed_exact_witness:
  "\<not> RouteAllowed sample_policy ''DELETE'' ''/api/v1/admin/accounts/:id'' \<and>
   (\<exists>d \<in> set definitions. \<exists>rest. ''PUT'' @ CHR '' '' # rest \<in> set (Routes d) \<and>
      ''/api/v1/admin/accounts/:id'' = admin_prefix @ rest \<and>
      ((Scope d = ''global'' \<and> ID d \<in> set (GlobalPermissions sample_policy)) \<or>
       (Scope d \<in> {''account'', ''group''} \<and> (\<exists>r \<in> set (Rules sample_policy). ID d \<in> set (Permissions r)))))"
proof
  show "\<not> RouteAllowed sample_policy ''DELETE'' ''/api/v1/admin/accounts/:id''" by code_simp
  have "CHR '' '' \<notin> set ''PUT''" by simp
  moreover have "RouteAllowed sample_policy ''PUT'' ''/api/v1/admin/accounts/:id''" by code_simp
  ultimately show "\<exists>d \<in> set definitions. \<exists>rest. ''PUT'' @ CHR '' '' # rest \<in> set (Routes d) \<and>
      ''/api/v1/admin/accounts/:id'' = admin_prefix @ rest \<and>
      ((Scope d = ''global'' \<and> ID d \<in> set (GlobalPermissions sample_policy)) \<or>
       (Scope d \<in> {''account'', ''group''} \<and> (\<exists>r \<in> set (Rules sample_policy). ID d \<in> set (Permissions r))))"
    by (rule iffD1 [OF route_allowed_exact])
qed

end
