(* ===== verification/AdminScope.thy ===== *)
theory AdminScope
  imports AdminPolicy
begin

text \<open>
  What a restricted key sees and binds in the database (\<open>repository/custom_admin_key_scope.go\<close>,
  \<open>repository/custom_admin_key_group_models.go\<close>): the translation of rules to query predicates, the
  pages of accounts and groups, the write of one group's model list, and the incremental update of the
  groups of an account. The predicates of the query builder are a datatype with their SQL meaning.
\<close>

section \<open>JSON values and rows\<close>

text \<open>
  A decoded JSON value. \<open>Raw\<close> is a \<open>json.RawMessage\<close>: the value with the length of its text. The keys of
  an object are distinct, in the order in which a Go map would be visited.
\<close>

datatype raw = Raw (raw_len: nat) (raw_val: json)
  and json = JNull | JBool bool | JInt int | JFrac string | JStr string | JArr "json list" | JObj "(string \<times> raw) list"

record account_row =
  ar_id :: int
  ar_name :: string
  ar_notes :: "string option"
  ar_platform :: string
  ar_type :: string
  ar_status :: string
  ar_schedulable :: bool
  ar_concurrency :: int
  ar_priority :: int
  ar_rate_limit_reset :: "gotime option"
  ar_temp_unschedulable :: "gotime option"
  ar_credentials :: "(string \<times> raw) list"
  ar_deleted :: bool

record group_link =
  gl_account :: int
  gl_group :: int
  gl_priority :: int

record allowlist =
  al_enabled :: bool
  al_models :: "string list"

record group_row =
  gr_id :: int
  gr_name :: string
  gr_platform :: string
  gr_status :: string
  gr_allowlist :: allowlist
  gr_deleted :: bool

record outbox_event =
  oe_type :: string
  oe_account :: "int option"
  oe_group :: "int option"
  oe_payload :: "int list"

text \<open>An outbox entry is an event and whether its deduplication key is still set.\<close>

record admin_db =
  db_accounts :: "account_row list"
  db_links :: "group_link list"
  db_groups :: "group_row list"
  db_outbox :: "(outbox_event \<times> bool) list"

text \<open>\<open>loadAccountGroupIDs\<close>, and the resource a decision about a row is made on.\<close>

definition loadAccountGroupIDs :: "group_link list \<Rightarrow> int \<Rightarrow> int list" where
  "loadAccountGroupIDs links a = map gl_group (filter (\<lambda>l. gl_account l = a) links)"

definition row_resource :: "group_link list \<Rightarrow> account_row \<Rightarrow> account" where
  "row_resource links row =
     \<lparr>acc_ID = ar_id row, acc_GroupIDs = loadAccountGroupIDs links (ar_id row),
      acc_Type = ar_type row, acc_Platform = ar_platform row\<rparr>"

section \<open>Account predicates\<close>

datatype account_pred =
    TypeIn "string list"
  | PlatformIn "string list"
  | HasAccountGroups
  | HasAccountGroupsWith "int list"
  | NotP account_pred
  | AndP "account_pred list"
  | OrP "account_pred list"

fun sql_holds :: "group_link list \<Rightarrow> account_row \<Rightarrow> account_pred \<Rightarrow> bool" where
  "sql_holds links row (TypeIn ts) = (ar_type row \<in> set ts)"
| "sql_holds links row (PlatformIn ps) = (ar_platform row \<in> set ps)"
| "sql_holds links row HasAccountGroups = list_ex (\<lambda>l. gl_account l = ar_id row) links"
| "sql_holds links row (HasAccountGroupsWith gs) =
     list_ex (\<lambda>l. gl_account l = ar_id row \<and> gl_group l \<in> set gs) links"
| "sql_holds links row (NotP q) = (\<not> sql_holds links row q)"
| "sql_holds links row (AndP qs) = list_all (sql_holds links row) qs"
| "sql_holds links row (OrP qs) = list_ex (sql_holds links row) qs"

text \<open>One pass of the loop: \<open>continue\<close> yields no alternative.\<close>

definition group_terms :: "rule \<Rightarrow> account_pred list" where
  "group_terms r =
     (if GroupIDs r \<noteq> [] then [HasAccountGroupsWith (GroupIDs r)] else []) @
     (if IncludeUngrouped r then [NotP HasAccountGroups] else [])"

definition account_alternative :: "rule \<Rightarrow> account_pred option" where
  "account_alternative r =
     (if AccountTypes r = [] then None
      else
        let terms = [TypeIn (AccountTypes r)] @
                    (if Platforms r \<noteq> [] then [PlatformIn (Platforms r)] else []) @
                    (if AllGroups r \<and> \<not> IncludeUngrouped r then [HasAccountGroups] else [])
        in if \<not> AllGroups r then
             (if group_terms r = [] then None else Some (AndP (terms @ [OrP (group_terms r)])))
           else Some (AndP terms))"

definition scopedAdminAccountPredicates :: "policy \<Rightarrow> string \<Rightarrow> account_pred list" where
  "scopedAdminAccountPredicates p permission = List.map_filter account_alternative (RulesFor p permission)"

section \<open>Group predicates\<close>

datatype group_pred =
    GIDGT int
  | GIDIn "int list"
  | GPlatformIn "string list"
  | GAnd "group_pred list"

fun group_holds :: "group_row \<Rightarrow> group_pred \<Rightarrow> bool" where
  "group_holds row (GIDGT n) = (gr_id row > n)"
| "group_holds row (GIDIn gs) = (gr_id row \<in> set gs)"
| "group_holds row (GPlatformIn ps) = (gr_platform row \<in> set ps)"
| "group_holds row (GAnd qs) = list_all (group_holds row) qs"

definition group_alternative :: "rule \<Rightarrow> group_pred option" where
  "group_alternative r =
     (if \<not> AllGroups r \<and> GroupIDs r = [] then None
      else Some (GAnd ([GIDGT 0] @ (if \<not> AllGroups r then [GIDIn (GroupIDs r)] else []) @
                       (if Platforms r \<noteq> [] then [GPlatformIn (Platforms r)] else []))))"

section \<open>A query built from rules\<close>

text \<open>
  Both queries join one alternative per rule with \<open>OR\<close> and skip rules that grant nothing. The contract
  of one alternative is enough for the whole query.
\<close>

locale rule_query =
  fixes alternative :: "rule \<Rightarrow> 'q option"
    and sat :: "'row \<Rightarrow> 'q \<Rightarrow> bool"
    and grants :: "rule \<Rightarrow> 'row \<Rightarrow> bool"
    and admissible :: "rule \<Rightarrow> bool"
  assumes skipped: "admissible r \<Longrightarrow> alternative r = None \<Longrightarrow> \<not> grants r row"
    and translated: "admissible r \<Longrightarrow> alternative r = Some q \<Longrightarrow> sat row q \<longleftrightarrow> grants r row"
begin

lemma any_alternative:
  assumes "\<And>r. r \<in> set rs \<Longrightarrow> admissible r"
  shows "list_ex (sat row) (List.map_filter alternative rs) \<longleftrightarrow> (\<exists>r \<in> set rs. grants r row)"
  using assms
proof (induction rs)
  case Nil
  show ?case by (simp add: List.map_filter_def)
next
  case (Cons r rs)
  from Cons.prems have "admissible r" by simp
  then show ?case using Cons skipped [of r row] translated [of r _ row]
    by (cases "alternative r") (simp_all add: List.map_filter_simps)
qed

lemma no_alternative:
  assumes "\<And>r. r \<in> set rs \<Longrightarrow> admissible r" "List.map_filter alternative rs = []"
  shows "\<not> (\<exists>r \<in> set rs. grants r row)"
  using any_alternative [of rs row] assms by simp

end

definition positive_groups :: "rule \<Rightarrow> bool" where
  "positive_groups r \<longleftrightarrow> (\<forall>g \<in> set (GroupIDs r). 0 < g)"

lemma valid_positive: "ValidatePolicy p = None \<Longrightarrow> r \<in> set (Rules p) \<Longrightarrow> positive_groups r"
  by (auto simp: positive_groups_def intro: valid_group_ids)

lemma row_groups_empty: "loadAccountGroupIDs links a = [] \<longleftrightarrow> \<not> list_ex (\<lambda>l. gl_account l = a) links"
  by (auto simp: loadAccountGroupIDs_def filter_empty_conv list_ex_iff)

lemma row_groups_any:
  "list_ex P (loadAccountGroupIDs links a) \<longleftrightarrow> list_ex (\<lambda>l. gl_account l = a \<and> P (gl_group l)) links"
  by (auto simp: loadAccountGroupIDs_def list_ex_iff)

lemma account_alternative_exact:
  assumes "positive_groups r"
  shows "account_alternative r = None \<Longrightarrow> \<not> Matches r (row_resource links row)"
    and "account_alternative r = Some q \<Longrightarrow>
           sql_holds links row q \<longleftrightarrow> Matches r (row_resource links row)"
proof -
  let ?gs = "loadAccountGroupIDs links (ar_id row)"
  have pos: "list_ex (\<lambda>g. g > 0 \<and> g \<in> set (GroupIDs r)) ?gs \<longleftrightarrow>
      list_ex (\<lambda>l. gl_account l = ar_id row \<and> gl_group l \<in> set (GroupIDs r)) links"
    using assms by (fastforce simp: loadAccountGroupIDs_def positive_groups_def list_ex_iff)
  have none: "\<not> list_ex (\<lambda>l. gl_account l = ar_id row \<and> gl_group l \<in> set (GroupIDs r)) links"
    if "?gs = [] \<or> GroupIDs r = []"
    using that by (auto simp: row_groups_empty list_ex_iff)
  show "account_alternative r = None \<Longrightarrow> \<not> Matches r (row_resource links row)"
    using pos none
    by (auto simp: account_alternative_def group_terms_def Matches_def row_resource_def Let_def split: if_splits)
  show "sql_holds links row q \<longleftrightarrow> Matches r (row_resource links row)" if "account_alternative r = Some q"
    using that pos none
    by (cases "?gs = []"; cases "AllGroups r"; cases "Platforms r = []"; cases "IncludeUngrouped r"; cases "GroupIDs r = []")
       (auto simp: account_alternative_def group_terms_def Matches_def row_resource_def Let_def row_groups_empty
             split: if_splits)
qed

interpretation account_query: rule_query account_alternative "\<lambda>(links, row) q. sql_holds links row q"
  "\<lambda>r (links, row). Matches r (row_resource links row)" positive_groups
  by unfold_locales (auto dest: account_alternative_exact)

definition grants_group :: "rule \<Rightarrow> group_row \<Rightarrow> bool" where
  "grants_group r row \<longleftrightarrow> 0 < gr_id row \<and> (AllGroups r \<or> gr_id row \<in> set (GroupIDs r)) \<and>
     (Platforms r = [] \<or> gr_platform row \<in> set (Platforms r))"

interpretation group_query: rule_query group_alternative group_holds grants_group "\<lambda>r. True"
  by unfold_locales (auto simp: group_alternative_def grants_group_def split: if_splits)

lemma AllowsGroupConfig_grants:
  "AllowsGroupConfig p q (gr_id row) (gr_platform row) \<longleftrightarrow> (\<exists>r \<in> set (RulesFor p q). grants_group r row)"
  by (auto simp: admin_defs grants_group_def)

lemma AllowsAccount_matches:
  "AllowsAccount p q a \<longleftrightarrow> (\<exists>r \<in> set (RulesFor p q). Matches r a)"
  by (auto simp: admin_defs)

lemma account_query_allows:
  assumes "ValidatePolicy p = None"
  shows "sql_holds links row (OrP (scopedAdminAccountPredicates p q)) \<longleftrightarrow>
         AllowsAccount p q (row_resource links row)"
  using account_query.any_alternative [of "RulesFor p q" "(links, row)"] valid_positive [OF assms]
  by (simp add: scopedAdminAccountPredicates_def AllowsAccount_matches)

lemma group_query_allows:
  "list_ex (group_holds row) (List.map_filter group_alternative (RulesFor p q)) \<longleftrightarrow>
   AllowsGroupConfig p q (gr_id row) (gr_platform row)"
  using group_query.any_alternative [of "RulesFor p q" row] by (simp add: AllowsGroupConfig_grants)

section \<open>Listing accounts\<close>

definition max_int :: int where "max_int = 2 ^ 63 - 1"

definition Limit :: "int \<Rightarrow> int" where
  "Limit psize = (if psize < 1 then 20 else if psize > 1000 then 1000 else psize)"

definition Offset :: "int \<Rightarrow> int \<Rightarrow> int" where
  "Offset page psize =
     (let page = (if page < 1 then 1 else page); limit = Limit psize;
          page = (if page > godiv max_int limit then godiv max_int limit else page)
      in i64 ((page - 1) * limit))"

text \<open>
  \<open>accountListFilteredQuery\<close> with neither a group nor a privacy mode, as the scoped list calls it;
  deleted rows are removed by the query interceptor. \<open>now\<close> is the process clock, \<open>db_now\<close> is \<open>NOW()\<close>, and
  \<open>contains_fold\<close> is the case-insensitive search of the database.
\<close>

definition null_or_le :: "gotime option \<Rightarrow> gotime \<Rightarrow> bool" where
  "null_or_le t now = (case t of None \<Rightarrow> True | Some u \<Rightarrow> u \<le> now)"

definition status_filter :: "gotime \<Rightarrow> gotime \<Rightarrow> string \<Rightarrow> account_row \<Rightarrow> bool" where
  "status_filter now db_now status row =
     (if status = ''active'' then
        ar_status row = status \<and> ar_schedulable row \<and> null_or_le (ar_rate_limit_reset row) now \<and>
        null_or_le (ar_temp_unschedulable row) db_now
      else if status = ''rate_limited'' then
        ar_status row = ''active'' \<and> \<not> null_or_le (ar_rate_limit_reset row) now \<and>
        null_or_le (ar_temp_unschedulable row) db_now
      else if status = ''temp_unschedulable'' then
        ar_status row = ''active'' \<and> \<not> null_or_le (ar_temp_unschedulable row) db_now
      else if status = ''unschedulable'' then
        ar_status row = ''active'' \<and> \<not> ar_schedulable row \<and> null_or_le (ar_rate_limit_reset row) now \<and>
        null_or_le (ar_temp_unschedulable row) db_now
      else ar_status row = status)"

record list_query =
  lq_platform :: string
  lq_type :: string
  lq_status :: string
  lq_search :: string

definition accountListFilteredQuery ::
    "(string \<Rightarrow> string \<Rightarrow> bool) \<Rightarrow> gotime \<Rightarrow> gotime \<Rightarrow> list_query \<Rightarrow> account_row \<Rightarrow> bool" where
  "accountListFilteredQuery contains_fold now db_now q row \<longleftrightarrow>
     \<not> ar_deleted row \<and>
     (lq_platform q \<noteq> [] \<longrightarrow> ar_platform row = lq_platform q) \<and>
     (lq_type q \<noteq> [] \<longrightarrow> ar_type row = lq_type q) \<and>
     (lq_status q \<noteq> [] \<longrightarrow> status_filter now db_now (lq_status q) row) \<and>
     (lq_search q \<noteq> [] \<longrightarrow> contains_fold (ar_name row) (lq_search q))"

text \<open>The projection: of the credentials only string targets of \<open>model_mapping\<close> leave the database.\<close>

record list_item =
  li_id :: int
  li_name :: string
  li_notes :: "string option"
  li_platform :: string
  li_type :: string
  li_status :: string
  li_schedulable :: bool
  li_concurrency :: int
  li_priority :: int
  li_groups :: "int list"
  li_mapping :: "(string \<times> string) list option"

fun string_target :: "string \<times> raw \<Rightarrow> (string \<times> string) option" where
  "string_target (k, Raw n (JStr v)) = Some (k, v)"
| "string_target _ = None"

definition model_mapping_of :: "(string \<times> raw) list \<Rightarrow> (string \<times> string) list" where
  "model_mapping_of credentials =
     (case map_of credentials ''model_mapping'' of
        Some (Raw n (JObj targets)) \<Rightarrow> List.map_filter string_target targets
      | _ \<Rightarrow> [])"

definition to_list_item :: "group_link list \<Rightarrow> account_row \<Rightarrow> list_item" where
  "to_list_item links row =
     (let mapping = model_mapping_of (ar_credentials row)
      in \<lparr>li_id = ar_id row, li_name = ar_name row, li_notes = ar_notes row, li_platform = ar_platform row,
          li_type = ar_type row, li_status = ar_status row, li_schedulable = ar_schedulable row,
          li_concurrency = ar_concurrency row, li_priority = ar_priority row,
          li_groups = loadAccountGroupIDs links (ar_id row),
          li_mapping = (if mapping = [] then None else Some mapping)\<rparr>)"

text \<open>Without a who the list is an error (\<open>None\<close>).\<close>

definition ScopedAdminList ::
    "(string \<Rightarrow> string \<Rightarrow> bool) \<Rightarrow> gotime \<Rightarrow> gotime \<Rightarrow> admin_db \<Rightarrow> policy option \<Rightarrow> int \<Rightarrow> int \<Rightarrow> list_query
     \<Rightarrow> (list_item list \<times> int) option" where
  "ScopedAdminList contains_fold now db_now db who page psize q =
     (case who of None \<Rightarrow> None
      | Some p \<Rightarrow>
          let alternatives = scopedAdminAccountPredicates p ''accounts.read''
          in if alternatives = [] then Some ([], 0)
             else
               let found = filter (\<lambda>row. accountListFilteredQuery contains_fold now db_now q row \<and>
                                          sql_holds (db_links db) row (OrP alternatives)) (db_accounts db);
                   rows = take (nat (Limit psize)) (drop (nat (Offset page psize)) (sort_key ar_id found))
               in Some (map (to_list_item (db_links db)) rows, int (length found)))"

definition readable_rows ::
    "(string \<Rightarrow> string \<Rightarrow> bool) \<Rightarrow> gotime \<Rightarrow> gotime \<Rightarrow> admin_db \<Rightarrow> policy \<Rightarrow> list_query \<Rightarrow> account_row list" where
  "readable_rows contains_fold now db_now db p q =
     filter (\<lambda>row. accountListFilteredQuery contains_fold now db_now q row \<and>
                   AllowsAccount p ''accounts.read'' (row_resource (db_links db) row)) (db_accounts db)"

lemma ScopedAdminList_valid:
  assumes "ValidatePolicy p = None"
  shows "ScopedAdminList contains_fold now db_now db (Some p) page psize q =
    (let found = readable_rows contains_fold now db_now db p q
     in Some (map (to_list_item (db_links db))
               (take (nat (Limit psize)) (drop (nat (Offset page psize)) (sort_key ar_id found))), int (length found)))"
proof (cases "scopedAdminAccountPredicates p ''accounts.read'' = []")
  case True
  then have "readable_rows contains_fold now db_now db p q = []"
    using account_query_allows [OF assms, of "db_links db" _ "''accounts.read''"]
    by (simp add: readable_rows_def filter_empty_conv)
  with True show ?thesis by (simp add: ScopedAdminList_def)
next
  case False
  then show ?thesis
    by (simp add: ScopedAdminList_def readable_rows_def Let_def account_query_allows [OF assms] del: sql_holds.simps)
qed

lemma concat_pages: "concat (map (\<lambda>k. take m (drop (k * m) xs)) [0..<n]) = take (n * m) xs"
proof (induction n)
  case (Suc n)
  have "Suc n * m = n * m + m" by simp
  with Suc show ?case by (simp add: take_add del: mult_Suc)
qed simp

lemma page_bounds:
  assumes "0 < psize" "psize \<le> 1000" "(int k + 1) * psize < 2 ^ 63 - 1"
  shows "Limit psize = psize" and "Offset (int k + 1) psize = int k * psize"
proof -
  show l: "Limit psize = psize" using assms(1,2) by (simp add: Limit_def)
  have "int k + 1 \<le> max_int div psize"
    using zdiv_mono1 [of "(int k + 1) * psize" max_int psize] assms(1,3) by (simp add: max_int_def)
  moreover have "godiv max_int psize = max_int div psize"
    using assms(1) by (simp add: godiv_nonneg max_int_def)
  moreover have "i64 (int k * psize) = int k * psize"
    using assms(1,3) by (intro i64_small) (auto simp: algebra_simps)
  ultimately show "Offset (int k + 1) psize = int k * psize" using l by (simp add: Offset_def Let_def)
qed

text \<open>C14: For a policy that passed validation, the database predicates of a restricted key select exactly the
  accounts, and the groups, that the policy allows in memory: no row more by the OR over rules, by an empty
  list or by the join with the links, and no row less.\<close>

theorem scope_queries_exact:
  assumes "ValidatePolicy p = None"
  shows "((\<exists>q \<in> set (scopedAdminAccountPredicates p permission). sql_holds (db_links db) row q) \<longleftrightarrow>
           AllowsAccount p permission (row_resource (db_links db) row)) \<and>
         ((\<exists>q \<in> set (List.map_filter group_alternative (RulesFor p permission)). group_holds g q) \<longleftrightarrow>
           AllowsGroupConfig p permission (gr_id g) (gr_platform g))"
  using account_query_allows [OF assms, of "db_links db" row permission] group_query_allows [of g p permission]
  by (simp add: list_ex_iff)

text \<open>The pages of the account list, put together, are all accounts that match the filters and
  that the policy lets the key read, in the order of their ids and each once; every page reports their number.\<close>

theorem scoped_list_pages:
  assumes "ValidatePolicy p = None" "0 < psize" "psize \<le> 1000"
    and found: "found = readable_rows contains_fold now db_now db p q"
    and "length found \<le> n * nat psize" "int n * psize < 2 ^ 63 - 1"
  shows "\<exists>pages. length pages = n \<and> concat pages = map (to_list_item (db_links db)) (sort_key ar_id found) \<and>
    (\<forall>k < n. ScopedAdminList contains_fold now db_now db (Some p) (int k + 1) psize q =
             Some (pages ! k, int (length found)))"
proof (intro exI conjI allI impI)
  let ?all = "sort_key ar_id found"
  let ?pages = "map (\<lambda>k. map (to_list_item (db_links db)) (take (nat psize) (drop (k * nat psize) ?all))) [0..<n]"
  show "length ?pages = n" by simp
  have "concat ?pages = map (to_list_item (db_links db)) (concat (map (\<lambda>k. take (nat psize) (drop (k * nat psize) ?all)) [0..<n]))"
    by (simp add: map_concat comp_def)
  then show "concat ?pages = map (to_list_item (db_links db)) ?all" using assms(5) by (simp add: concat_pages)
  fix k assume "k < n"
  then have "(int k + 1) * psize \<le> int n * psize" using assms(2) by (intro mult_right_mono) auto
  with assms(6) have "(int k + 1) * psize < 2 ^ 63 - 1" by simp
  from page_bounds [OF assms(2,3) this] \<open>k < n\<close> assms(2)
  show "ScopedAdminList contains_fold now db_now db (Some p) (int k + 1) psize q = Some (?pages ! k, int (length found))"
    by (simp add: ScopedAdminList_valid [OF assms(1)] found nat_mult_distrib Let_def)
qed

section \<open>Binding groups\<close>

datatype scope_error = NoTransaction | GroupNotFound | DuplicateLink | NoPrincipal | ScopedGroupNotFound

text \<open>
  \<open>enqueueSchedulerOutbox\<close>: an event of a kind that supports deduplication is dropped while an equal one
  still holds its key (the key is a digest of exactly these fields).
\<close>

definition schedulerOutboxEventSupportsDedup :: "string \<Rightarrow> bool" where
  "schedulerOutboxEventSupportsDedup kind \<longleftrightarrow> kind \<in> {''account_changed'', ''group_changed'', ''full_rebuild''}"

definition enqueueSchedulerOutbox :: "outbox_event \<Rightarrow> (outbox_event \<times> bool) list \<Rightarrow> (outbox_event \<times> bool) list" where
  "enqueueSchedulerOutbox ev box =
     (if schedulerOutboxEventSupportsDedup (oe_type ev)
      then (if (ev, True) \<in> set box then box else box @ [(ev, True)])
      else box @ [(ev, False)])"

text \<open>\<open>SELECT id FROM groups WHERE id = ANY(ids) AND deleted_at IS NULL FOR SHARE\<close>: every wanted group must be live.\<close>

definition lockLiveGroups :: "group_row list \<Rightarrow> int list \<Rightarrow> bool" where
  "lockLiveGroups groups ids \<longleftrightarrow>
     ids = [] \<or> length (filter (\<lambda>g. gr_id g \<in> set ids \<and> \<not> gr_deleted g) groups) = length (remdups ids)"

fun new_groups :: "int list \<Rightarrow> int list \<Rightarrow> int list \<Rightarrow> int list" where
  "new_groups existing [] added = added"
| "new_groups existing (g # gs) added =
     new_groups existing gs (if g \<notin> set existing \<and> g \<notin> set added then added @ [g] else added)"

definition gone_groups :: "int list \<Rightarrow> int list \<Rightarrow> int list" where
  "gone_groups existing wanted = filter (\<lambda>g. g \<notin> set wanted) existing"

text \<open>\<open>slices.Index\<close>\<close>

fun index_of :: "int \<Rightarrow> int list \<Rightarrow> int" where
  "index_of g [] = -1"
| "index_of g (x # xs) = (if x = g then 0 else let i = index_of g xs in if i < 0 then -1 else i + 1)"

text \<open>Inserts under the primary key (account, group); a duplicate aborts the transaction.\<close>

fun create_links :: "int \<Rightarrow> int list \<Rightarrow> int list \<Rightarrow> group_link list \<Rightarrow> group_link list option" where
  "create_links a wanted [] links = Some links"
| "create_links a wanted (g # gs) links =
     (if list_ex (\<lambda>l. gl_account l = a \<and> gl_group l = g) links then None
      else create_links a wanted gs
             (links @ [\<lparr>gl_account = a, gl_group = g, gl_priority = index_of g wanted + 1\<rparr>]))"

definition mergeGroupIDs :: "int list \<Rightarrow> int list \<Rightarrow> int list" where
  "mergeGroupIDs a b = new_groups [] (filter (\<lambda>g. 0 < g) (a @ b)) []"

definition scopedAdminBindGroups :: "bool \<Rightarrow> int \<Rightarrow> int list \<Rightarrow> admin_db \<Rightarrow> scope_error + admin_db" where
  "scopedAdminBindGroups in_tx a wanted db =
     (if \<not> in_tx then Inl NoTransaction
      else
        let existing = loadAccountGroupIDs (db_links db) a;
            added = new_groups existing wanted [];
            removed = gone_groups existing wanted
        in if added = [] \<and> removed = [] then Inr db
           else if \<not> lockLiveGroups (db_groups db) added then Inl GroupNotFound
           else
             let kept = (if removed \<noteq> []
                         then filter (\<lambda>l. \<not> (gl_account l = a \<and> gl_group l \<in> set removed)) (db_links db)
                         else db_links db)
             in case create_links a wanted added kept of
                  None \<Rightarrow> Inl DuplicateLink
                | Some links \<Rightarrow> Inr (db\<lparr>db_links := links,
                    db_outbox := enqueueSchedulerOutbox
                      \<lparr>oe_type = ''account_groups_changed'', oe_account = Some a, oe_group = None,
                       oe_payload = mergeGroupIDs existing wanted\<rparr> (db_outbox db)\<rparr>))"

lemma set_new_groups: "set (new_groups existing gs added) = set added \<union> (set gs - set existing)"
  by (induction gs arbitrary: added) auto

lemma distinct_new_groups: "distinct added \<Longrightarrow> distinct (new_groups existing gs added)"
  by (induction gs arbitrary: added) auto

definition link_for :: "int \<Rightarrow> int list \<Rightarrow> int \<Rightarrow> group_link" where
  "link_for a wanted g = \<lparr>gl_account = a, gl_group = g, gl_priority = index_of g wanted + 1\<rparr>"

lemma create_links_new:
  assumes "distinct gs" "\<And>g. g \<in> set gs \<Longrightarrow> g \<notin> set (loadAccountGroupIDs links a)"
  shows "create_links a wanted gs links = Some (links @ map (link_for a wanted) gs)"
  using assms
proof (induction gs arbitrary: links)
  case (Cons g gs)
  have "\<not> list_ex (\<lambda>l. gl_account l = a \<and> gl_group l = g) links"
    using Cons.prems(2) [of g] by (auto simp: loadAccountGroupIDs_def list_ex_iff)
  moreover have "create_links a wanted gs (links @ [link_for a wanted g]) =
      Some ((links @ [link_for a wanted g]) @ map (link_for a wanted) gs)"
    using Cons.prems by (intro Cons.IH) (auto simp: loadAccountGroupIDs_def link_for_def)
  ultimately show ?case by (simp add: link_for_def)
qed simp

text \<open>What a successful update leaves in the link table.\<close>

definition bound_links :: "int \<Rightarrow> int list \<Rightarrow> group_link list \<Rightarrow> group_link list" where
  "bound_links a wanted links =
     filter (\<lambda>l. gl_account l = a \<longrightarrow> gl_group l \<in> set wanted) links @
     map (link_for a wanted) (new_groups (loadAccountGroupIDs links a) wanted [])"

lemma nothing_gone:
  "gone_groups (loadAccountGroupIDs links a) wanted = [] \<Longrightarrow>
   filter (\<lambda>l. gl_account l = a \<longrightarrow> gl_group l \<in> set wanted) links = links"
  by (rule filter_True) (auto simp: gone_groups_def loadAccountGroupIDs_def filter_empty_conv)

lemma bound_links_same:
  "new_groups (loadAccountGroupIDs links a) wanted [] = [] \<Longrightarrow>
   gone_groups (loadAccountGroupIDs links a) wanted = [] \<Longrightarrow> bound_links a wanted links = links"
  unfolding bound_links_def by (simp only: nothing_gone list.map append_Nil2)

lemma bind_links:
  assumes "scopedAdminBindGroups in_tx a wanted db = Inr db'"
  shows "db_links db' = bound_links a wanted (db_links db)"
    and "db_accounts db' = db_accounts db" "db_groups db' = db_groups db"
    and "lockLiveGroups (db_groups db) (new_groups (loadAccountGroupIDs (db_links db) a) wanted [])"
proof -
  let ?ex = "loadAccountGroupIDs (db_links db) a"
  let ?add = "new_groups ?ex wanted []"
  let ?kept = "filter (\<lambda>l. gl_account l = a \<longrightarrow> gl_group l \<in> set wanted) (db_links db)"
  have kept: "(if gone_groups ?ex wanted \<noteq> []
      then filter (\<lambda>l. \<not> (gl_account l = a \<and> gl_group l \<in> set (gone_groups ?ex wanted))) (db_links db)
      else db_links db) = ?kept"
    by (auto simp: gone_groups_def loadAccountGroupIDs_def filter_empty_conv intro!: filter_cong [OF refl] filter_True [symmetric])
  have "g \<notin> set (loadAccountGroupIDs ?kept a)" if "g \<in> set ?add" for g
    using that by (auto simp: set_new_groups loadAccountGroupIDs_def)
  then have new: "create_links a wanted ?add ?kept = Some (?kept @ map (link_for a wanted) ?add)"
    by (intro create_links_new) (simp_all add: distinct_new_groups)

  have "db_links db' = bound_links a wanted (db_links db) \<and> db_accounts db' = db_accounts db \<and>
      db_groups db' = db_groups db \<and> lockLiveGroups (db_groups db) ?add"
  proof (cases "?add = [] \<and> gone_groups ?ex wanted = []")
    case True
    with assms have "db' = db" by (simp add: scopedAdminBindGroups_def split: if_splits)
    with True show ?thesis by (simp add: lockLiveGroups_def bound_links_same)
  next
    case False
    with assms new show ?thesis
      unfolding scopedAdminBindGroups_def Let_def kept by (auto simp: bound_links_def split: if_splits)
  qed
  then show "db_links db' = bound_links a wanted (db_links db)" "db_accounts db' = db_accounts db"
      "db_groups db' = db_groups db" "lockLiveGroups (db_groups db) ?add" by simp_all
qed

section \<open>Group model lists\<close>

record group_list_query =
  gq_platform :: string
  gq_status :: string
  gq_search :: string

text \<open>\<open>all\<close> drops the paging; the caller sees id, name, platform and model list of a group, nothing else.\<close>

definition group_row_view :: "group_row \<Rightarrow> int \<times> string \<times> string \<times> allowlist" where
  "group_row_view g = (gr_id g, gr_name g, gr_platform g, gr_allowlist g)"

definition groupFilter :: "(string \<Rightarrow> string \<Rightarrow> bool) \<Rightarrow> group_list_query \<Rightarrow> group_row \<Rightarrow> bool" where
  "groupFilter contains_fold q g \<longleftrightarrow>
     \<not> gr_deleted g \<and> (gq_platform q \<noteq> [] \<longrightarrow> gr_platform g = gq_platform q) \<and>
     (gq_status q \<noteq> [] \<longrightarrow> gr_status g = gq_status q) \<and>
     (gq_search q \<noteq> [] \<longrightarrow> contains_fold (gr_name g) (gq_search q))"

definition ScopedAdminListGroupModels ::
    "(string \<Rightarrow> string \<Rightarrow> bool) \<Rightarrow> admin_db \<Rightarrow> policy option \<Rightarrow> int \<Rightarrow> int \<Rightarrow> bool \<Rightarrow> group_list_query
     \<Rightarrow> scope_error + ((int \<times> string \<times> string \<times> allowlist) list \<times> int)" where
  "ScopedAdminListGroupModels contains_fold db who page psize every q =
     (case who of None \<Rightarrow> Inl NoPrincipal
      | Some p \<Rightarrow>
          let alternatives = List.map_filter group_alternative (RulesFor p ''groups.models.read'')
          in if alternatives = [] then Inr ([], 0)
             else
               let found = filter (\<lambda>g. groupFilter contains_fold q g \<and> list_ex (group_holds g) alternatives)
                             (db_groups db);
                   sorted = sort_key gr_id found;
                   rows = (if every then sorted
                           else take (nat (Limit psize)) (drop (nat (Offset page psize)) sorted))
               in Inr (map group_row_view rows, int (length found)))"

text \<open>\<open>normalizeGroupModelAllowlist\<close>: trimmed names, the first of each spelling up to case; an enabled list must not be empty.\<close>

fun unique_models :: "(string \<Rightarrow> string) \<Rightarrow> string list \<Rightarrow> string list \<Rightarrow> string list" where
  "unique_models lower seen [] = []"
| "unique_models lower seen (m # rest) =
     (let model = trim_space m
      in if model = [] then unique_models lower seen rest
         else if lower model \<in> set seen then unique_models lower seen rest
         else model # unique_models lower (lower model # seen) rest)"

definition normalizeGroupModelAllowlist :: "(string \<Rightarrow> string) \<Rightarrow> allowlist \<Rightarrow> allowlist option" where
  "normalizeGroupModelAllowlist lower cfg =
     (let models = unique_models lower [] (al_models cfg)
      in if models = [] \<and> al_enabled cfg then None
         else Some \<lparr>al_enabled = al_enabled cfg, al_models = models\<rparr>)"

datatype group_write_error =
    SimpleModeUnsupported | TooManyModels | BadModelID | EmptyEnabledList | StoreRefused scope_error

text \<open>The repository's transaction: lock the live group, check the policy on it, write this one column.\<close>

definition updateGroupModels :: "policy option \<Rightarrow> int \<Rightarrow> allowlist \<Rightarrow> admin_db \<Rightarrow> scope_error + admin_db" where
  "updateGroupModels who gid cfg db =
     (case who of None \<Rightarrow> Inl NoPrincipal
      | Some p \<Rightarrow>
          (case List.find (\<lambda>g. gr_id g = gid \<and> \<not> gr_deleted g) (db_groups db) of
             None \<Rightarrow> Inl GroupNotFound
           | Some row \<Rightarrow>
               if \<not> AllowsGroupConfig p ''groups.models.write'' (gr_id row) (gr_platform row)
               then Inl ScopedGroupNotFound
               else Inr (db\<lparr>
                 db_groups := map (\<lambda>g. if gr_id g = gid \<and> \<not> gr_deleted g then g\<lparr>gr_allowlist := cfg\<rparr> else g)
                                (db_groups db),
                 db_outbox := enqueueSchedulerOutbox
                   \<lparr>oe_type = ''group_changed'', oe_account = None, oe_group = Some gid, oe_payload = []\<rparr>
                   (db_outbox db)\<rparr>)))"

definition ScopedAdminUpdateGroupModels ::
    "(string \<Rightarrow> string) \<Rightarrow> bool \<Rightarrow> policy option \<Rightarrow> int \<Rightarrow> allowlist \<Rightarrow> admin_db \<Rightarrow> group_write_error + admin_db" where
  "ScopedAdminUpdateGroupModels lower simple_mode who gid cfg db =
     (if simple_mode then Inl SimpleModeUnsupported
      else if length (al_models cfg) > 1024 then Inl TooManyModels
      else if list_ex (\<lambda>m. trim_space m = [] \<or> length m > 512) (al_models cfg) then Inl BadModelID
      else case normalizeGroupModelAllowlist lower cfg of
             None \<Rightarrow> Inl EmptyEnabledList
           | Some normalized \<Rightarrow>
               (case updateGroupModels who gid normalized db of
                  Inl e \<Rightarrow> Inl (StoreRefused e)
                | Inr db' \<Rightarrow> Inr db'))"

lemma unique_models_set:
  "m \<in> set (unique_models lower seen ms') \<Longrightarrow> m \<in> trim_space ` set ms' \<and> m \<noteq> [] \<and> lower m \<notin> set seen"
  by (induction lower seen ms' rule: unique_models.induct) (auto simp: Let_def split: if_splits)

lemma unique_models_distinct: "distinct (map lower (unique_models lower seen ms'))"
  by (induction lower seen ms' rule: unique_models.induct)
     (auto simp: Let_def dest: unique_models_set)

lemma unique_models_complete:
  "m \<in> set ms' \<Longrightarrow> trim_space m \<noteq> [] \<Longrightarrow>
   lower (trim_space m) \<in> set seen \<or> lower (trim_space m) \<in> lower ` set (unique_models lower seen ms')"
proof (induction lower seen ms' rule: unique_models.induct)
  case (2 lower seen x rest)
  show ?case
  proof (cases "m = x")
    case True
    with "2.prems" show ?thesis by (simp add: Let_def)
  next
    case False
    with "2.prems" have "m \<in> set rest" by simp
    with 2 show ?thesis
      by (cases "trim_space x = []"; cases "lower (trim_space x) \<in> set seen") (auto simp: Let_def)
  qed
qed simp

text \<open>A restricted write of a group's model list changes nothing but the list of the one live group
  it names, which a single rule of the policy allows by id and platform; what is stored has each
  requested model once up to case, trimmed, and an enabled list is not empty.\<close>

theorem group_models_write_safe:
  assumes "ScopedAdminUpdateGroupModels lower simple_mode who gid cfg db = Inr db'"
  shows "\<exists>p models. who = Some p \<and>
     (\<exists>g \<in> set (db_groups db). gr_id g = gid \<and> \<not> gr_deleted g \<and>
        (\<exists>r \<in> set (Rules p). ''groups.models.write'' \<in> set (Permissions r) \<and>
           (AllGroups r \<or> gid \<in> set (GroupIDs r)) \<and> (Platforms r = [] \<or> gr_platform g \<in> set (Platforms r)))) \<and>
     db_groups db' = map (\<lambda>g. if gr_id g = gid \<and> \<not> gr_deleted g
        then g\<lparr>gr_allowlist := \<lparr>al_enabled = al_enabled cfg, al_models = models\<rparr>\<rparr> else g) (db_groups db) \<and>
     db_accounts db' = db_accounts db \<and> db_links db' = db_links db \<and>
     distinct (map lower models) \<and> lower ` set models = lower ` trim_space ` set (al_models cfg) \<and>
     (al_enabled cfg \<longrightarrow> models \<noteq> [])"
proof -
  let ?models = "unique_models lower [] (al_models cfg)"
  from assms have ok: "list_all (\<lambda>m. trim_space m \<noteq> []) (al_models cfg)"
    by (auto simp: ScopedAdminUpdateGroupModels_def list_ex_iff list_all_iff split: if_splits)
  from assms have norm: "\<not> (?models = [] \<and> al_enabled cfg)"
    and up: "updateGroupModels who gid \<lparr>al_enabled = al_enabled cfg, al_models = ?models\<rparr> db = Inr db'"
    by (auto simp: ScopedAdminUpdateGroupModels_def normalizeGroupModelAllowlist_def Let_def
             split: if_splits sum.splits)
  from up obtain p row where p: "who = Some p"
    and row: "List.find (\<lambda>g. gr_id g = gid \<and> \<not> gr_deleted g) (db_groups db) = Some row"
    and allowed: "AllowsGroupConfig p ''groups.models.write'' (gr_id row) (gr_platform row)"
    and db': "db_groups db' = map (\<lambda>g. if gr_id g = gid \<and> \<not> gr_deleted g
        then g\<lparr>gr_allowlist := \<lparr>al_enabled = al_enabled cfg, al_models = ?models\<rparr>\<rparr> else g) (db_groups db)"
      "db_accounts db' = db_accounts db" "db_links db' = db_links db"
    by (auto simp: updateGroupModels_def split: option.splits if_splits)
  from row have "row \<in> set (db_groups db)" "gr_id row = gid" "\<not> gr_deleted row"
    by (auto simp: find_Some_iff)
  moreover have "lower ` set ?models = lower ` trim_space ` set (al_models cfg)"
    using ok unique_models_complete [of _ "al_models cfg" lower "[]"] unique_models_set [of _ lower "[]" "al_models cfg"]
    by (fastforce simp: list_all_iff)
  ultimately show ?thesis
    using p allowed db' norm unique_models_distinct [of lower "[]" "al_models cfg"]
    by (intro exI [of _ p] exI [of _ ?models]) (auto simp: admin_defs intro: bexI [of _ row])
qed

section \<open>Witnesses\<close>

definition sample_account :: "int \<Rightarrow> string \<Rightarrow> account_row" where
  "sample_account i kind =
     \<lparr>ar_id = i, ar_name = ''a'', ar_notes = None, ar_platform = ''openai'', ar_type = kind, ar_status = ''active'',
      ar_schedulable = True, ar_concurrency = 1, ar_priority = 1, ar_rate_limit_reset = None,
      ar_temp_unschedulable = None, ar_credentials = [], ar_deleted = False\<rparr>"

definition sample_db :: admin_db where
  "sample_db =
     \<lparr>db_accounts = [sample_account 5 ''oauth'', sample_account 3 ''oauth'', sample_account 4 ''apikey''],
      db_links = [\<lparr>gl_account = 5, gl_group = 1, gl_priority = 7\<rparr>, \<lparr>gl_account = 3, gl_group = 2, gl_priority = 1\<rparr>,
                  \<lparr>gl_account = 5, gl_group = 9, gl_priority = 2\<rparr>],
      db_groups = [\<lparr>gr_id = 1, gr_name = ''g'', gr_platform = ''openai'', gr_status = ''active'',
                    gr_allowlist = \<lparr>al_enabled = False, al_models = []\<rparr>, gr_deleted = False\<rparr>,
                   \<lparr>gr_id = 2, gr_name = ''h'', gr_platform = ''openai'', gr_status = ''active'',
                    gr_allowlist = \<lparr>al_enabled = False, al_models = []\<rparr>, gr_deleted = False\<rparr>],
      db_outbox = []\<rparr>"

definition sample_query :: list_query where
  "sample_query = \<lparr>lq_platform = [], lq_type = [], lq_status = [], lq_search = []\<rparr>"

lemma scope_queries_exact_witness:
  "AllowsAccount sample_policy ''accounts.read'' (row_resource (db_links sample_db) (sample_account 5 ''oauth''))"
proof -
  have "\<exists>q \<in> set (scopedAdminAccountPredicates sample_policy ''accounts.read'').
      sql_holds (db_links sample_db) (sample_account 5 ''oauth'') q"
    by code_simp
  then show ?thesis by (rule iffD1 [OF conjunct1 [OF scope_queries_exact [OF sample_policy_valid]]])
qed

lemma scoped_list_pages_witness:
  "\<exists>pages :: list_item list list. length pages = 2 \<and> map li_id (concat pages) = [3, 5] \<and> map li_id (pages ! 0) = [3]"
proof -
  let ?found = "readable_rows (\<lambda>_ _. True) 0 0 sample_db sample_policy sample_query"
  have len: "length ?found \<le> 2 * nat 1" by code_simp
  have ids: "map li_id (map (to_list_item (db_links sample_db)) (sort_key ar_id ?found)) = [3, 5]" by code_simp
  have first: "map_option (\<lambda>r. map li_id (fst r))
      (ScopedAdminList (\<lambda>_ _. True) 0 0 sample_db (Some sample_policy) 1 1 sample_query) = Some [3]"
    by code_simp
  have "\<exists>pages. length pages = 2 \<and> concat pages = map (to_list_item (db_links sample_db)) (sort_key ar_id ?found) \<and>
      (\<forall>k < 2. ScopedAdminList (\<lambda>_ _. True) 0 0 sample_db (Some sample_policy) (int k + 1) 1 sample_query =
               Some (pages ! k, int (length ?found)))"
    by (rule scoped_list_pages [OF sample_policy_valid _ _ refl len]) simp_all
  then obtain pages where pages: "length pages = 2"
    "concat pages = map (to_list_item (db_links sample_db)) (sort_key ar_id ?found)"
    "\<forall>k < 2. ScopedAdminList (\<lambda>_ _. True) 0 0 sample_db (Some sample_policy) (int k + 1) 1 sample_query =
             Some (pages ! k, int (length ?found))" by blast
  from spec [OF pages(3), of 0] first have "map li_id (pages ! 0) = [3]" by simp
  moreover have "map li_id (concat pages) = [3, 5]" using pages(2) ids by simp
  ultimately show ?thesis using pages(1) by (intro exI [of _ pages] conjI)
qed

lemma group_models_write_safe_witness:
  "\<exists>models. distinct models \<and> set models = {''x''} \<and> (\<exists>g \<in> set (db_groups sample_db). gr_id g = 1)"
proof -
  let ?cfg = "\<lparr>al_enabled = True, al_models = [''x'', '' x '']\<rparr>"
  let ?r = "ScopedAdminUpdateGroupModels (\<lambda>s. s) False (Some sample_policy) 1 ?cfg sample_db"
  have trim: "trim_space ''x'' = ''x''" "trim_space '' x '' = ''x''" by code_simp+
  have allowed: "AllowsGroupConfig sample_policy ''groups.models.write'' 1 ''openai''" by code_simp
  obtain db' where "?r = Inr db'"
    using allowed
    by (simp add: ScopedAdminUpdateGroupModels_def normalizeGroupModelAllowlist_def updateGroupModels_def trim sample_db_def)
  from group_models_write_safe [OF this] show ?thesis by (auto simp: trim)
qed

end
