(* ===== verification/AdminWrite.thy ===== *)
theory AdminWrite
  imports AdminScope ModelPlatforms "HOL-Library.Monad_Syntax"
begin

text \<open>
  Writes of a restricted management key to accounts (\<open>service/custom_admin_key_accounts.go\<close>,
  \<open>custom_admin_key_proxy_selection.go\<close>, \<open>repository/custom_account_proxy_selection.go\<close>): which permission every
  submitted field needs, the choice of a proxy, the merge of groups the key may not touch, and the whole of
  \<open>ScopedAdminWrite\<close> up to the call that performs the write, which is the value of the function.
\<close>

section \<open>Errors and decoding\<close>

datatype admin_error = BadRequest string | Forbidden string | NotFound string | Unavailable

text \<open>\<open>json.Unmarshal\<close> into a string, a boolean, an integer, a map; \<open>null\<close> leaves the zero value.\<close>

fun as_string :: "json \<Rightarrow> string option" where
  "as_string (JStr s) = Some s"
| "as_string JNull = Some []"
| "as_string _ = None"

fun as_bool :: "json \<Rightarrow> bool option" where
  "as_bool (JBool b) = Some b"
| "as_bool JNull = Some False"
| "as_bool _ = None"

fun as_int :: "json \<Rightarrow> int option" where
  "as_int (JInt i) = (if in_i64 i then Some i else None)"
| "as_int JNull = Some 0"
| "as_int _ = None"

fun as_object :: "json \<Rightarrow> (string \<times> raw) list option" where
  "as_object (JObj kvs) = Some kvs"
| "as_object JNull = Some []"
| "as_object _ = None"

fun all_some :: "'a option list \<Rightarrow> 'a list option" where
  "all_some [] = Some []"
| "all_some (x # xs) = (case x of None \<Rightarrow> None | Some y \<Rightarrow> map_option (Cons y) (all_some xs))"

fun as_ints :: "json \<Rightarrow> int list option" where
  "as_ints (JArr vs) = all_some (map as_int vs)"
| "as_ints JNull = Some []"
| "as_ints _ = None"

text \<open>
  A request body is a Go map from field names to raw values; its list order is the order of iteration.
  A field of a struct is decoded to its zero value when absent, a pointer to \<open>nil\<close> when absent or \<open>null\<close>.
\<close>

type_synonym fields = "(string \<times> raw) list"

definition value_field :: "(json \<Rightarrow> 'a option) \<Rightarrow> 'a \<Rightarrow> fields \<Rightarrow> string \<Rightarrow> 'a option" where
  "value_field decode zero fs k = (case map_of fs k of None \<Rightarrow> Some zero | Some r \<Rightarrow> decode (raw_val r))"

definition pointer_field :: "(json \<Rightarrow> 'a option) \<Rightarrow> fields \<Rightarrow> string \<Rightarrow> 'a option option" where
  "pointer_field decode fs k =
     (case map_of fs k of None \<Rightarrow> Some None
      | Some r \<Rightarrow> if raw_val r = JNull then Some None else map_option Some (decode (raw_val r)))"

section \<open>Permissions of fields\<close>

text \<open>A loop over a map that returns at the first error and appends to one list otherwise.\<close>

fun collect :: "('a \<Rightarrow> 'e + 'b list) \<Rightarrow> 'a list \<Rightarrow> 'e + 'b list" where
  "collect f [] = Inr []"
| "collect f (x # xs) =
     (case f x of Inl e \<Rightarrow> Inl e
      | Inr ys \<Rightarrow> (case collect f xs of Inl e \<Rightarrow> Inl e | Inr zs \<Rightarrow> Inr (ys @ zs)))"

definition bad_models :: admin_error where "bad_models = BadRequest ''SCOPED_ACCOUNT_MODELS''"
definition bad_credentials :: admin_error where "bad_credentials = BadRequest ''SCOPED_ACCOUNT_CREDENTIALS''"
definition bad_field :: admin_error where "bad_field = BadRequest ''SCOPED_ACCOUNT_FIELD''"
definition bad_input :: admin_error where "bad_input = BadRequest ''SCOPED_ACCOUNT_INPUT''"

definition bad_model_target :: "string \<times> raw \<Rightarrow> bool" where
  "bad_model_target = (\<lambda>(source, target). trim_space source = [] \<or>
     (case as_string (raw_val target) of None \<Rightarrow> True | Some model \<Rightarrow> trim_space model = []))"

definition model_mapping_ok :: "raw \<Rightarrow> bool" where
  "model_mapping_ok v \<longleftrightarrow> raw_len v \<le> 65536 \<and>
     (case as_object (raw_val v) of None \<Rightarrow> False | Some mapping \<Rightarrow> \<not> list_ex bad_model_target mapping)"

definition secret_names :: "string list" where
  "secret_names = [''api_key'', ''access_token'', ''refresh_token'', ''id_token'', ''session_key'']"

definition credential_permission :: "string \<times> raw \<Rightarrow> admin_error + string list" where
  "credential_permission = (\<lambda>(name, v).
     if name = ''model_mapping'' then
       (if model_mapping_ok v then Inr [''accounts.models.write''] else Inl bad_models)
     else case as_string (raw_val v) of
            None \<Rightarrow> Inl bad_credentials
          | Some txt \<Rightarrow>
              if length txt > 65536 then Inl bad_credentials
              else if name \<in> set secret_names then Inr [''accounts.credentials'']
              else if name = ''base_url'' then Inr [''accounts.network'']
              else Inl bad_field)"

definition status_values :: "string list" where
  "status_values = [''active'', ''inactive'', ''error'']"

definition schedule_fields :: "string list" where
  "schedule_fields = [''concurrency'', ''priority'', ''load_factor'', ''expires_at'', ''auto_pause_on_expired'']"

definition network_fields :: "string list" where
  "network_fields = [''proxy_id'', ''proxy_mode'', ''random_proxy'']"

text \<open>The end of one pass of the loop, once the permission of the field is known.\<close>

definition grant_field :: "bool \<Rightarrow> string \<Rightarrow> string \<Rightarrow> admin_error + string list" where
  "grant_field create key permission =
     (if \<not> create \<or> permission = ''accounts.schedule'' \<or> permission = ''accounts.network'' then Inr [permission]
      else if key = ''status'' \<or> key = ''schedulable'' then Inl bad_input
      else Inr [])"

definition field_permission :: "bool \<Rightarrow> string \<times> raw \<Rightarrow> admin_error + string list" where
  "field_permission create = (\<lambda>(key, v).
     if key = ''name'' \<or> key = ''notes'' then grant_field create key ''accounts.update''
     else if key = ''status'' then
       (case as_string (raw_val v) of
          None \<Rightarrow> Inl (BadRequest ''SCOPED_ACCOUNT_STATUS'')
        | Some s \<Rightarrow> if s \<in> set status_values then grant_field create key ''accounts.status''
                    else Inl (BadRequest ''SCOPED_ACCOUNT_STATUS''))
     else if key = ''schedulable'' then grant_field create key ''accounts.status''
     else if key \<in> set schedule_fields then grant_field create key ''accounts.schedule''
     else if key \<in> set network_fields then grant_field create key ''accounts.network''
     else if key = ''group_ids'' then grant_field create key ''accounts.groups''
     else if key = ''platform'' \<or> key = ''type'' then (if create then Inr [] else Inl bad_input)
     else if key = ''credentials'' then
       (case as_object (raw_val v) of
          None \<Rightarrow> Inl bad_credentials
        | Some cs \<Rightarrow> if cs = [] then Inl bad_credentials else collect credential_permission cs)
     else Inl bad_field)"

definition scopedAccountFieldPermissions :: "fields \<Rightarrow> bool \<Rightarrow> admin_error + string list" where
  "scopedAccountFieldPermissions fs create = collect (field_permission create) fs"

section \<open>Choice of a proxy\<close>

definition NormalizeAccountProxyMode :: "string \<Rightarrow> int option \<Rightarrow> bool \<Rightarrow> admin_error + string" where
  "NormalizeAccountProxyMode mode pid random =
     (let invalid = Inl (BadRequest ''PROXY_SELECTION_INVALID'');
          conflict = Inl (BadRequest ''PROXY_SELECTION_CONFLICT'');
          other = (case pid of None \<Rightarrow> False | Some i \<Rightarrow> i \<noteq> 0)
      in if (case pid of None \<Rightarrow> False | Some i \<Rightarrow> i < 0) then invalid
         else if random \<and> mode \<noteq> [] \<and> mode \<noteq> ''random'' then conflict
         else
           let mode = (if random then ''random'' else mode)
           in if mode = [] then Inr []
              else if mode = ''specified'' then
                (case pid of None \<Rightarrow> invalid | Some i \<Rightarrow> if i \<le> 0 then invalid else Inr mode)
              else if mode = ''direct'' \<or> mode = ''random'' \<or> mode = ''least_used'' then
                (if other then conflict else Inr mode)
              else invalid)"

record proxy_row =
  px_id :: int
  px_active :: bool
  px_deleted :: bool
  px_expires :: "gotime option"

text \<open>The database as \<open>SelectAccountProxy\<close> reads it: proxies, and the proxy of every live account.\<close>

record proxy_pool =
  pp_proxies :: "proxy_row list"
  pp_bindings :: "int list"

definition eligible_proxies :: "gotime \<Rightarrow> proxy_pool \<Rightarrow> int list" where
  "eligible_proxies db_now pool =
     map px_id (filter (\<lambda>p. \<not> px_deleted p \<and> px_active p \<and>
                            (case px_expires p of None \<Rightarrow> True | Some t \<Rightarrow> t > db_now)) (pp_proxies pool))"

definition binding_count :: "proxy_pool \<Rightarrow> int \<Rightarrow> nat" where
  "binding_count pool i = length (filter (\<lambda>b. b = i) (pp_bindings pool))"

definition less_used :: "proxy_pool \<Rightarrow> int \<Rightarrow> int \<Rightarrow> bool" where
  "less_used pool i j \<longleftrightarrow>
     binding_count pool i < binding_count pool j \<or> (binding_count pool i = binding_count pool j \<and> i < j)"

text \<open>\<open>die\<close> is the choice of \<open>ORDER BY random() LIMIT 1\<close>; no row reads as the id 0.\<close>

definition SelectAccountProxy :: "nat \<Rightarrow> gotime \<Rightarrow> proxy_pool \<Rightarrow> string \<Rightarrow> admin_error + int" where
  "SelectAccountProxy die db_now pool mode =
     (let ids = eligible_proxies db_now pool
      in if mode = ''random'' then Inr (if ids = [] then 0 else ids ! (die mod length ids))
         else if mode = ''least_used'' then
           Inr (case pick (less_used pool) ids of None \<Rightarrow> 0 | Some i \<Rightarrow> i)
         else Inl Unavailable)"

text \<open>Inside the transaction of the write; the automatic modes ask the database.\<close>

definition scopedAccountProxySelection ::
    "(string \<Rightarrow> admin_error + int) \<Rightarrow> string \<Rightarrow> int option \<Rightarrow> admin_error + int option" where
  "scopedAccountProxySelection select mode pid =
     (case NormalizeAccountProxyMode mode pid False of
        Inl e \<Rightarrow> Inl e
      | Inr normalized \<Rightarrow>
          if normalized = [] \<or> normalized = ''specified'' then Inr pid
          else if normalized = ''direct'' then Inr (Some 0)
          else (case select normalized of
                  Inl e \<Rightarrow> Inl e
                | Inr selected \<Rightarrow>
                    if selected \<le> 0 then Inl (BadRequest ''PROXY_POOL_EMPTY'') else Inr (Some selected)))"

section \<open>Merge of groups\<close>

fun add_requested :: "policy \<Rightarrow> account \<Rightarrow> int list \<Rightarrow> int list \<Rightarrow> admin_error + int list" where
  "add_requested p resource [] groups = Inr groups"
| "add_requested p resource (g # gs) groups =
     (if \<not> AllowsGroup p ''accounts.groups'' resource g then Inl (Forbidden ''SCOPED_ACCOUNT_GROUP'')
      else add_requested p resource gs (if g \<notin> set groups then groups @ [g] else groups))"

definition scopedAdminMergeGroups :: "policy \<Rightarrow> account \<Rightarrow> int list \<Rightarrow> int list \<Rightarrow> admin_error + int list" where
  "scopedAdminMergeGroups p resource existing requested =
     add_requested p resource requested
       (filter (\<lambda>g. \<not> AllowsGroup p ''accounts.groups'' resource g) existing)"

section \<open>ScopedAdminWrite\<close>

text \<open>The locked account as the repository returns it.\<close>

record service_account =
  sa_id :: int
  sa_groups :: "int list"
  sa_type :: string
  sa_platform :: string
  sa_credentials :: fields
  sa_parent :: "int option"

definition scopedAccountResource :: "service_account \<Rightarrow> account" where
  "scopedAccountResource a =
     \<lparr>acc_ID = sa_id a, acc_GroupIDs = sa_groups a, acc_Type = sa_type a, acc_Platform = sa_platform a\<rparr>"

definition IsShadow :: "service_account \<Rightarrow> bool" where
  "IsShadow a \<longleftrightarrow> sa_parent a \<noteq> None"

record update_input =
  ui_proxy_id :: "int option"
  ui_name :: string
  ui_notes :: "string option"
  ui_credentials :: "fields option"
  ui_concurrency :: "int option"
  ui_priority :: "int option"
  ui_load_factor :: "int option"
  ui_status :: string
  ui_groups :: "int list option"
  ui_expires :: "int option"
  ui_auto_pause :: "bool option"

text \<open>The decoded body of an update: the input above with the fields that never reach it.\<close>

record update_body =
  ub_input :: update_input
  ub_proxy_mode :: string
  ub_random :: bool
  ub_schedulable :: "bool option"

definition decode_update :: "fields \<Rightarrow> update_body option" where
  "decode_update fs =
     do {
       pid \<leftarrow> pointer_field as_int fs ''proxy_id'';
       mode \<leftarrow> value_field as_string [] fs ''proxy_mode'';
       random \<leftarrow> value_field as_bool False fs ''random_proxy'';
       name \<leftarrow> value_field as_string [] fs ''name'';
       notes \<leftarrow> pointer_field as_string fs ''notes'';
       credentials \<leftarrow> pointer_field as_object fs ''credentials'';
       concurrency \<leftarrow> pointer_field as_int fs ''concurrency'';
       priority \<leftarrow> pointer_field as_int fs ''priority'';
       load_factor \<leftarrow> pointer_field as_int fs ''load_factor'';
       status \<leftarrow> value_field as_string [] fs ''status'';
       groups \<leftarrow> pointer_field as_ints fs ''group_ids'';
       expires \<leftarrow> pointer_field as_int fs ''expires_at'';
       auto_pause \<leftarrow> pointer_field as_bool fs ''auto_pause_on_expired'';
       schedulable \<leftarrow> pointer_field as_bool fs ''schedulable'';
       Some \<lparr>ub_input = \<lparr>ui_proxy_id = pid, ui_name = name, ui_notes = notes, ui_credentials = credentials,
                         ui_concurrency = concurrency, ui_priority = priority, ui_load_factor = load_factor,
                         ui_status = status, ui_groups = groups, ui_expires = expires,
                         ui_auto_pause = auto_pause\<rparr>,
             ub_proxy_mode = mode, ub_random = random, ub_schedulable = schedulable\<rparr>
     }"

record create_input =
  ci_proxy_id :: "int option"
  ci_name :: string
  ci_notes :: "string option"
  ci_platform :: string
  ci_type :: string
  ci_credentials :: fields
  ci_groups :: "int list"
  ci_concurrency :: int
  ci_priority :: int
  ci_load_factor :: "int option"
  ci_expires :: "int option"
  ci_auto_pause :: "bool option"

record create_body =
  cb_input :: create_input
  cb_proxy_mode :: string
  cb_random :: bool

definition decode_create :: "fields \<Rightarrow> create_body option" where
  "decode_create fs =
     do {
       pid \<leftarrow> pointer_field as_int fs ''proxy_id'';
       mode \<leftarrow> value_field as_string [] fs ''proxy_mode'';
       random \<leftarrow> value_field as_bool False fs ''random_proxy'';
       name \<leftarrow> value_field as_string [] fs ''name'';
       notes \<leftarrow> pointer_field as_string fs ''notes'';
       platform \<leftarrow> value_field as_string [] fs ''platform'';
       kind \<leftarrow> value_field as_string [] fs ''type'';
       credentials \<leftarrow> value_field as_object [] fs ''credentials'';
       groups \<leftarrow> value_field as_ints [] fs ''group_ids'';
       concurrency \<leftarrow> value_field as_int 0 fs ''concurrency'';
       priority \<leftarrow> value_field as_int 0 fs ''priority'';
       load_factor \<leftarrow> pointer_field as_int fs ''load_factor'';
       expires \<leftarrow> pointer_field as_int fs ''expires_at'';
       auto_pause \<leftarrow> pointer_field as_bool fs ''auto_pause_on_expired'';
       Some \<lparr>cb_input = \<lparr>ci_proxy_id = pid, ci_name = name, ci_notes = notes, ci_platform = platform,
                         ci_type = kind, ci_credentials = credentials, ci_groups = groups,
                         ci_concurrency = concurrency, ci_priority = priority, ci_load_factor = load_factor,
                         ci_expires = expires, ci_auto_pause = auto_pause\<rparr>,
             cb_proxy_mode = mode, cb_random = random\<rparr>
     }"

text \<open>\<open>utf8.RuneCountInString\<close> of a decoded JSON string, which is valid UTF-8: the bytes that do not continue a rune
  (the top bits of a continuation byte are 10).\<close>

definition rune_count :: "string \<Rightarrow> nat" where
  "rune_count s = length (filter (\<lambda>c. \<not> (digit7 c \<and> \<not> digit6 c)) s)"

text \<open>
  What the function calls in the end, inside the transaction. \<open>ApplyUpdate\<close> carries the optional call of
  \<open>SetAccountSchedulable\<close> after the update; \<open>RunCallback\<close> hands the locked account to the caller's function.
\<close>

datatype write_effect =
    ApplyCreate create_input
  | ApplyUpdate int update_input "bool option"
  | ApplyDelete int
  | ApplyRecover int
  | RunCallback service_account

text \<open>What the transaction reads: the account, its shadows (\<open>None\<close> is a failed query), the choice of a proxy.\<close>

record write_env =
  we_account :: "service_account option"
  we_shadows :: "int list option"
  we_select :: "string \<Rightarrow> admin_error + int"

definition forbidden :: admin_error where "forbidden = Forbidden ''SCOPED_ACCOUNT_FORBIDDEN''"
definition hidden :: admin_error where "hidden = NotFound ''SCOPED_ACCOUNT_NOT_FOUND''"

text \<open>\<open>strings.HasPrefix\<close>\<close>

definition has_prefix :: "string \<Rightarrow> string \<Rightarrow> bool" where
  "has_prefix s p \<longleftrightarrow> take (length p) s = p"

definition in_scope :: "policy \<Rightarrow> account \<Rightarrow> bool" where
  "in_scope p resource =
     list_ex (\<lambda>r. list_ex (\<lambda>q. has_prefix q ''accounts.'') (Permissions r) \<and> Matches r resource) (Rules p)"

text \<open>The create path, with \<open>scopedAdminCreateTransaction\<close>: 0 as a direct connection is stored as \<open>NULL\<close>.\<close>

definition scopedAdminCreateTransaction :: "write_env \<Rightarrow> string \<Rightarrow> create_input \<Rightarrow> admin_error + write_effect" where
  "scopedAdminCreateTransaction env mode input =
     (case scopedAccountProxySelection (we_select env) mode (ci_proxy_id input) of
        Inl e \<Rightarrow> Inl e
      | Inr pid \<Rightarrow> Inr (ApplyCreate (input\<lparr>ci_proxy_id := (if pid = Some 0 then None else pid)\<rparr>)))"

definition create_resource :: "create_input \<Rightarrow> account" where
  "create_resource input =
     \<lparr>acc_ID = 0, acc_GroupIDs = ci_groups input, acc_Type = ci_type input, acc_Platform = ci_platform input\<rparr>"

definition scoped_create :: "policy \<Rightarrow> write_env \<Rightarrow> fields \<Rightarrow> string list \<Rightarrow> admin_error + write_effect" where
  "scoped_create p env fs permissions =
     (case decode_create fs of
        None \<Rightarrow> Inl bad_input
      | Some body \<Rightarrow>
          let input = cb_input body;
              resource = create_resource input
          in if trim_space (ci_name input) = [] \<or> rune_count (ci_name input) > 100 \<or>
                ci_credentials input = [] \<or> map_of fs ''group_ids'' = None then Inl bad_input
             else if ci_type input \<notin> set account_types then Inl bad_input
             else if ci_platform input \<notin> set ConcretePlatformIDs \<or> ci_concurrency input < 0 \<or>
                     ci_priority input < 0 then Inl bad_input
             else if ci_type input = [] \<or> ci_platform input = [] \<or>
                     \<not> AllowsAccount p ''accounts.create'' resource then Inl forbidden
             else if list_ex (\<lambda>g. \<not> AllowsGroup p ''accounts.create'' resource g) (ci_groups input)
                  then Inl forbidden
             else if list_ex (\<lambda>q. \<not> AllowsAccount p q resource) permissions then Inl forbidden
             else case NormalizeAccountProxyMode (cb_proxy_mode body) (ci_proxy_id input) (cb_random body) of
                    Inl e \<Rightarrow> Inl e
                  | Inr mode \<Rightarrow> scopedAdminCreateTransaction env mode input)"

text \<open>The last part of the update: groups, proxy, credentials.\<close>

definition scoped_update :: "policy \<Rightarrow> write_env \<Rightarrow> int \<Rightarrow> service_account \<Rightarrow> fields \<Rightarrow> admin_error + write_effect" where
  "scoped_update p env i a fs =
     (case decode_update fs of
        None \<Rightarrow> Inl bad_input
      | Some body \<Rightarrow>
          let input = ub_input body
          in case (case ui_groups input of
                     None \<Rightarrow> Inr None
                   | Some requested \<Rightarrow>
                       (case scopedAdminMergeGroups p (scopedAccountResource a) (sa_groups a) requested of
                          Inl e \<Rightarrow> Inl e | Inr groups \<Rightarrow> Inr (Some groups))) of
               Inl e \<Rightarrow> Inl e
             | Inr groups \<Rightarrow>
                 (case NormalizeAccountProxyMode (ub_proxy_mode body) (ui_proxy_id input) (ub_random body) of
                    Inl e \<Rightarrow> Inl e
                  | Inr mode \<Rightarrow>
                      (case scopedAccountProxySelection (we_select env) mode (ui_proxy_id input) of
                         Inl e \<Rightarrow> Inl e
                       | Inr pid \<Rightarrow>
                           Inr (ApplyUpdate i
                                  (input\<lparr>ui_proxy_id := pid, ui_groups := groups,
                                         ui_credentials := (case ui_credentials input of None \<Rightarrow> None
                                           | Some cs \<Rightarrow> Some (AList.merge (sa_credentials a) cs))\<rparr>)
                                  (ub_schedulable body)))))"

definition ScopedAdminWrite ::
    "policy option \<Rightarrow> write_env \<Rightarrow> int \<Rightarrow> string \<Rightarrow> fields \<Rightarrow> bool \<Rightarrow> admin_error + write_effect" where
  "ScopedAdminWrite who env i action fs has_run =
     (case who of None \<Rightarrow> Inl forbidden
      | Some p \<Rightarrow>
          (case scopedAccountFieldPermissions fs (i = 0) of
             Inl e \<Rightarrow> Inl e
           | Inr permissions \<Rightarrow>
               if i \<noteq> 0 \<and> action = [] \<and> permissions = [] then Inl bad_input
               else if i = 0 then scoped_create p env fs permissions
               else
                 (case we_account env of None \<Rightarrow> Inl hidden
                  | Some a \<Rightarrow>
                      let resource = scopedAccountResource a
                      in if \<not> in_scope p resource then Inl hidden
                         else if action \<noteq> [] \<and> \<not> AllowsAccount p action resource then Inl hidden
                         else if list_ex (\<lambda>q. \<not> AllowsAccount p q resource) permissions then Inl forbidden
                         else if IsShadow a then Inl forbidden
                         else (case we_shadows env of
                                 None \<Rightarrow> Inl Unavailable
                               | Some shadows \<Rightarrow>
                                   if shadows \<noteq> [] then Inl forbidden
                                   else if has_run then Inr (RunCallback a)
                                   else if action = ''accounts.delete'' then Inr (ApplyDelete i)
                                   else if action = ''accounts.recover'' then Inr (ApplyRecover i)
                                   else scoped_update p env i a fs))))"

section \<open>Every written field is authorised\<close>

lemma collect_member:
  "collect f xs = Inr ps \<Longrightarrow> x \<in> set xs \<Longrightarrow> \<exists>qs. f x = Inr qs \<and> set qs \<subseteq> set ps"
  by (induction xs arbitrary: ps) (fastforce split: sum.splits)+

lemma grant_update [simp]: "grant_field False key permission = Inr [permission]"
  by (simp add: grant_field_def)

lemma credential_permission_cases:
  assumes "credential_permission (n, v) = Inr qs"
  shows "(n = ''model_mapping'' \<and> ''accounts.models.write'' \<in> set qs) \<or>
         (n = ''base_url'' \<and> ''accounts.network'' \<in> set qs) \<or>
         (n \<in> set secret_names \<and> ''accounts.credentials'' \<in> set qs)"
  using assms by (auto simp: credential_permission_def split: if_splits option.splits)

text \<open>What the permissions collected for a body say about a field that is present.\<close>

lemma field_needs:
  assumes ps: "scopedAccountFieldPermissions fs False = Inr ps" and k: "map_of fs k = Some v"
  shows "k \<in> {''name'', ''notes''} \<Longrightarrow> ''accounts.update'' \<in> set ps"
    and "k \<in> {''status'', ''schedulable''} \<Longrightarrow> ''accounts.status'' \<in> set ps"
    and "k \<in> set schedule_fields \<Longrightarrow> ''accounts.schedule'' \<in> set ps"
    and "k \<in> set network_fields \<Longrightarrow> ''accounts.network'' \<in> set ps"
    and "k = ''group_ids'' \<Longrightarrow> ''accounts.groups'' \<in> set ps"
proof -
  from collect_member [OF ps [unfolded scopedAccountFieldPermissions_def] map_of_SomeD [OF k]]
  obtain qs where qs: "field_permission False (k, v) = Inr qs" "set qs \<subseteq> set ps" by blast
  show "k \<in> {''name'', ''notes''} \<Longrightarrow> ''accounts.update'' \<in> set ps"
    using qs by (auto simp: field_permission_def)
  show "k \<in> {''status'', ''schedulable''} \<Longrightarrow> ''accounts.status'' \<in> set ps"
    using qs by (auto simp: field_permission_def split: option.splits if_splits)
  show "k \<in> set schedule_fields \<Longrightarrow> ''accounts.schedule'' \<in> set ps"
    using qs by (auto simp: field_permission_def schedule_fields_def)
  show "k \<in> set network_fields \<Longrightarrow> ''accounts.network'' \<in> set ps"
    using qs by (auto simp: field_permission_def schedule_fields_def network_fields_def)
  show "k = ''group_ids'' \<Longrightarrow> ''accounts.groups'' \<in> set ps"
    using qs by (auto simp: field_permission_def schedule_fields_def network_fields_def)
qed

lemma status_field:
  assumes ps: "scopedAccountFieldPermissions fs False = Inr ps" and k: "map_of fs ''status'' = Some v"
  shows "\<exists>s \<in> set status_values. as_string (raw_val v) = Some s"
proof -
  from collect_member [OF ps [unfolded scopedAccountFieldPermissions_def] map_of_SomeD [OF k]]
  obtain qs where "field_permission False (''status'', v) = Inr qs" by blast
  then show ?thesis by (auto simp: field_permission_def split: option.splits if_splits)
qed

lemma credential_fields:
  assumes ps: "scopedAccountFieldPermissions fs create = Inr ps" and k: "map_of fs ''credentials'' = Some v"
  shows "\<exists>cs. as_object (raw_val v) = Some cs \<and> cs \<noteq> [] \<and> (\<forall>(n, c) \<in> set cs.
     (n = ''model_mapping'' \<and> ''accounts.models.write'' \<in> set ps) \<or>
     (n = ''base_url'' \<and> ''accounts.network'' \<in> set ps) \<or>
     (n \<in> set secret_names \<and> ''accounts.credentials'' \<in> set ps))"
proof -
  from collect_member [OF ps [unfolded scopedAccountFieldPermissions_def] map_of_SomeD [OF k]]
  obtain qs where qs: "field_permission create (''credentials'', v) = Inr qs" "set qs \<subseteq> set ps" by blast
  then obtain cs where cs: "as_object (raw_val v) = Some cs" "cs \<noteq> []" "collect credential_permission cs = Inr qs"
    by (auto simp: field_permission_def schedule_fields_def network_fields_def split: option.splits if_splits)
  have "(n = ''model_mapping'' \<and> ''accounts.models.write'' \<in> set ps) \<or>
     (n = ''base_url'' \<and> ''accounts.network'' \<in> set ps) \<or>
     (n \<in> set secret_names \<and> ''accounts.credentials'' \<in> set ps)" if "(n, c) \<in> set cs" for n c
    using collect_member [OF cs(3) that] qs(2) credential_permission_cases [of n c] by blast
  with cs show ?thesis by blast
qed

lemma add_requested_spec:
  "add_requested p resource gs groups = Inr out \<Longrightarrow>
     (\<forall>g \<in> set gs. AllowsGroup p ''accounts.groups'' resource g) \<and> set out = set groups \<union> set gs"
  by (induction p resource gs groups rule: add_requested.induct) (auto split: if_splits)

lemma merge_groups_spec:
  assumes "scopedAdminMergeGroups p resource existing requested = Inr out"
  shows "set out = {g \<in> set existing. \<not> AllowsGroup p ''accounts.groups'' resource g} \<union> set requested"
    and "\<And>g. g \<in> set requested \<Longrightarrow> AllowsGroup p ''accounts.groups'' resource g"
  using add_requested_spec [of p resource requested _ out] assms by (auto simp: scopedAdminMergeGroups_def)

text \<open>C16: A group update by a restricted key, merged and bound in its transaction, leaves every link of the
  account to a group the key may not touch as it was, with its priority, makes the groups it may touch exactly the
  requested ones, touches no other account, and links only to live groups.\<close>

theorem scoped_groups_exact:
  assumes "scopedAdminMergeGroups p resource (loadAccountGroupIDs (db_links db) a) requested = Inr wanted"
    and "scopedAdminBindGroups True a wanted db = Inr db'"
  shows "filter (\<lambda>l. gl_account l = a \<and> \<not> AllowsGroup p ''accounts.groups'' resource (gl_group l)) (db_links db') =
         filter (\<lambda>l. gl_account l = a \<and> \<not> AllowsGroup p ''accounts.groups'' resource (gl_group l)) (db_links db) \<and>
     {g \<in> set (loadAccountGroupIDs (db_links db') a). AllowsGroup p ''accounts.groups'' resource g} = set requested \<and>
     filter (\<lambda>l. gl_account l \<noteq> a) (db_links db') = filter (\<lambda>l. gl_account l \<noteq> a) (db_links db) \<and>
     lockLiveGroups (db_groups db) (new_groups (loadAccountGroupIDs (db_links db) a) wanted []) \<and>
     db_accounts db' = db_accounts db \<and> db_groups db' = db_groups db"
proof -
  let ?may = "AllowsGroup p ''accounts.groups'' resource"
  let ?new = "new_groups (loadAccountGroupIDs (db_links db) a) wanted []"
  note merged = merge_groups_spec [OF assms(1)]
  note bound = bind_links [OF assms(2)]
  have new: "?may g" "g \<in> set requested" if "g \<in> set ?new" for g
    using that merged by (auto simp: set_new_groups)
  have keep: "gl_group l \<in> set wanted" if "l \<in> set (db_links db)" "gl_account l = a" "\<not> ?may (gl_group l)" for l
    using that merged(1) by (auto simp: loadAccountGroupIDs_def)
  have "filter (\<lambda>l. gl_account l = a \<and> \<not> ?may (gl_group l)) (db_links db') =
        filter (\<lambda>l. gl_account l = a \<and> \<not> ?may (gl_group l)) (db_links db)"
    using new(1) keep
    by (auto simp: bound(1) bound_links_def link_for_def filter_empty_conv intro!: filter_cong [OF refl])
  moreover have "filter (\<lambda>l. gl_account l \<noteq> a) (db_links db') = filter (\<lambda>l. gl_account l \<noteq> a) (db_links db)"
    by (auto simp: bound(1) bound_links_def link_for_def filter_empty_conv intro!: filter_cong [OF refl])
  moreover have "set (loadAccountGroupIDs (db_links db') a) = set wanted"
  proof -
    have "set (loadAccountGroupIDs (bound_links a wanted (db_links db)) a) =
      (set (loadAccountGroupIDs (db_links db) a) \<inter> set wanted) \<union> set ?new"
      by (auto simp: bound_links_def loadAccountGroupIDs_def link_for_def)
    then show ?thesis by (auto simp: bound(1) set_new_groups)
  qed
  ultimately show ?thesis using bound(2-4) merged by auto
qed

text \<open>
  What a policy must allow on the locked account for an update with these contents: every part that would change
  something asks for its own permission, and groups and credentials only change where they may.
\<close>

definition update_authorised :: "policy \<Rightarrow> service_account \<Rightarrow> update_input \<Rightarrow> bool option \<Rightarrow> bool" where
  "update_authorised p a u schedulable \<longleftrightarrow>
     (let may = (\<lambda>q. AllowsAccount p q (scopedAccountResource a))
      in (ui_name u \<noteq> [] \<or> ui_notes u \<noteq> None \<longrightarrow> may ''accounts.update'') \<and>
         (ui_status u \<noteq> [] \<longrightarrow> may ''accounts.status'' \<and> ui_status u \<in> set status_values) \<and>
         (schedulable \<noteq> None \<longrightarrow> may ''accounts.status'') \<and>
         (ui_concurrency u \<noteq> None \<or> ui_priority u \<noteq> None \<or> ui_load_factor u \<noteq> None \<or> ui_expires u \<noteq> None \<or>
            ui_auto_pause u \<noteq> None \<longrightarrow> may ''accounts.schedule'') \<and>
         (ui_proxy_id u \<noteq> None \<longrightarrow> may ''accounts.network'') \<and>
         (\<forall>gs. ui_groups u = Some gs \<longrightarrow> may ''accounts.groups'' \<and>
            (\<forall>g. \<not> AllowsGroup p ''accounts.groups'' (scopedAccountResource a) g \<longrightarrow>
                 (g \<in> set gs \<longleftrightarrow> g \<in> set (sa_groups a)))) \<and>
         (\<forall>cs n. ui_credentials u = Some cs \<longrightarrow> map_of cs n \<noteq> map_of (sa_credentials a) n \<longrightarrow>
            (n = ''model_mapping'' \<and> may ''accounts.models.write'') \<or>
            (n = ''base_url'' \<and> may ''accounts.network'') \<or>
            (n \<in> set secret_names \<and> may ''accounts.credentials'')))"

lemma value_field_absent: "value_field d z fs k = Some x \<Longrightarrow> x \<noteq> z \<Longrightarrow> \<exists>v. map_of fs k = Some v"
  by (auto simp: value_field_def split: option.splits)

lemma pointer_field_absent: "pointer_field d fs k = Some (Some x) \<Longrightarrow> \<exists>v. map_of fs k = Some v"
  by (auto simp: pointer_field_def split: option.splits)

lemma pointer_field_value: "pointer_field d fs k = Some (Some x) \<Longrightarrow> \<exists>v. map_of fs k = Some v \<and> d (raw_val v) = Some x"
  by (auto simp: pointer_field_def split: option.splits if_splits)

lemma proxy_selection_none:
  assumes "NormalizeAccountProxyMode mode0 pid random = Inr mode"
    and "scopedAccountProxySelection select mode pid = Inr (Some i)"
  shows "pid \<noteq> None \<or> mode0 \<noteq> [] \<or> random"
  using assms
  by (auto simp: NormalizeAccountProxyMode_def scopedAccountProxySelection_def Let_def split: if_splits option.splits)

lemma scoped_update_authorised:
  assumes ps: "scopedAccountFieldPermissions fs False = Inr ps"
    and may: "\<And>q. q \<in> set ps \<Longrightarrow> AllowsAccount p q (scopedAccountResource a)"
    and up: "scoped_update p env i a fs = Inr eff"
  shows "\<exists>u sched. eff = ApplyUpdate i u sched \<and> update_authorised p a u sched"
proof -
  from up obtain body groups mode pid where body: "decode_update fs = Some body"
    and groups: "(case ui_groups (ub_input body) of None \<Rightarrow> Inr None
        | Some requested \<Rightarrow> (case scopedAdminMergeGroups p (scopedAccountResource a) (sa_groups a) requested of
             Inl e \<Rightarrow> Inl e | Inr groups \<Rightarrow> Inr (Some groups))) = (Inr groups :: admin_error + int list option)"
    and mode: "NormalizeAccountProxyMode (ub_proxy_mode body) (ui_proxy_id (ub_input body)) (ub_random body) = Inr mode"
    and pid: "scopedAccountProxySelection (we_select env) mode (ui_proxy_id (ub_input body)) = Inr pid"
    and eff: "eff = ApplyUpdate i ((ub_input body)\<lparr>ui_proxy_id := pid, ui_groups := groups,
        ui_credentials := (case ui_credentials (ub_input body) of None \<Rightarrow> None
          | Some cs \<Rightarrow> Some (AList.merge (sa_credentials a) cs))\<rparr>) (ub_schedulable body)"
    by (auto simp: scoped_update_def Let_def split: option.splits sum.splits)
  have fields:
    "pointer_field as_int fs ''proxy_id'' = Some (ui_proxy_id (ub_input body))"
    "value_field as_string [] fs ''proxy_mode'' = Some (ub_proxy_mode body)"
    "value_field as_bool False fs ''random_proxy'' = Some (ub_random body)"
    "value_field as_string [] fs ''name'' = Some (ui_name (ub_input body))"
    "pointer_field as_string fs ''notes'' = Some (ui_notes (ub_input body))"
    "pointer_field as_object fs ''credentials'' = Some (ui_credentials (ub_input body))"
    "pointer_field as_int fs ''concurrency'' = Some (ui_concurrency (ub_input body))"
    "pointer_field as_int fs ''priority'' = Some (ui_priority (ub_input body))"
    "pointer_field as_int fs ''load_factor'' = Some (ui_load_factor (ub_input body))"
    "value_field as_string [] fs ''status'' = Some (ui_status (ub_input body))"
    "pointer_field as_ints fs ''group_ids'' = Some (ui_groups (ub_input body))"
    "pointer_field as_int fs ''expires_at'' = Some (ui_expires (ub_input body))"
    "pointer_field as_bool fs ''auto_pause_on_expired'' = Some (ui_auto_pause (ub_input body))"
    "pointer_field as_bool fs ''schedulable'' = Some (ub_schedulable body)"
    using body by (auto simp: decode_update_def bind_eq_Some_conv)
  note needs = field_needs [OF ps]
  show ?thesis
  proof (intro exI conjI)
    show "eff = ApplyUpdate i ((ub_input body)\<lparr>ui_proxy_id := pid, ui_groups := groups,
        ui_credentials := (case ui_credentials (ub_input body) of None \<Rightarrow> None
          | Some cs \<Rightarrow> Some (AList.merge (sa_credentials a) cs))\<rparr>) (ub_schedulable body)" by (rule eff)
    let ?may = "\<lambda>q. AllowsAccount p q (scopedAccountResource a)"
    have "?may ''accounts.update''" if "ui_name (ub_input body) \<noteq> [] \<or> ui_notes (ub_input body) \<noteq> None"
      using that value_field_absent [OF fields(4)] fields(5) needs(1)
      by (intro may) (auto dest!: pointer_field_absent)
    moreover have "?may ''accounts.status'' \<and> ui_status (ub_input body) \<in> set status_values"
      if nonempty: "ui_status (ub_input body) \<noteq> []"
    proof -
      obtain v where v: "map_of fs ''status'' = Some v" using value_field_absent [OF fields(10) nonempty] by blast
      with fields(10) have "as_string (raw_val v) = Some (ui_status (ub_input body))" by (simp add: value_field_def)
      with status_field [OF ps v] needs(2) [OF v] may show ?thesis by auto
    qed
    moreover have "?may ''accounts.status''" if "ub_schedulable body \<noteq> None"
      using that fields(14) needs(2) by (intro may) (auto dest!: pointer_field_absent)
    moreover have "?may ''accounts.schedule''"
      if "ui_concurrency (ub_input body) \<noteq> None \<or> ui_priority (ub_input body) \<noteq> None \<or>
          ui_load_factor (ub_input body) \<noteq> None \<or> ui_expires (ub_input body) \<noteq> None \<or>
          ui_auto_pause (ub_input body) \<noteq> None"
      using that fields(7-9,12,13) needs(3)
      by (intro may) (auto dest!: pointer_field_absent simp: schedule_fields_def)
    moreover have "?may ''accounts.network''" if some: "pid \<noteq> None"
    proof -
      from some pid have "ui_proxy_id (ub_input body) \<noteq> None \<or> ub_proxy_mode body \<noteq> [] \<or> ub_random body"
        by (auto dest: proxy_selection_none [OF mode])
      then show ?thesis
        using fields(1) value_field_absent [OF fields(2)] value_field_absent [OF fields(3)] needs(4)
        by (intro may) (auto dest!: pointer_field_absent simp: network_fields_def)
    qed
    moreover have "?may ''accounts.groups'' \<and>
        (\<forall>g. \<not> AllowsGroup p ''accounts.groups'' (scopedAccountResource a) g \<longrightarrow>
             (g \<in> set gs \<longleftrightarrow> g \<in> set (sa_groups a)))" if gs: "groups = Some gs" for gs
    proof -
      from groups gs obtain requested where req: "ui_groups (ub_input body) = Some requested"
        and merged: "scopedAdminMergeGroups p (scopedAccountResource a) (sa_groups a) requested = Inr gs"
        by (auto split: option.splits sum.splits)
      obtain v where "map_of fs ''group_ids'' = Some v" using fields(11) req pointer_field_absent by force
      from may [OF needs(5) [OF this refl]] merge_groups_spec [OF merged] show ?thesis by auto
    qed
    moreover have "(n = ''model_mapping'' \<and> ?may ''accounts.models.write'') \<or>
        (n = ''base_url'' \<and> ?may ''accounts.network'') \<or> (n \<in> set secret_names \<and> ?may ''accounts.credentials'')"
      if cs: "ui_credentials (ub_input body) = Some cs"
        and diff: "map_of (AList.merge (sa_credentials a) cs) n \<noteq> map_of (sa_credentials a) n" for cs n
    proof -
      obtain v where v: "map_of fs ''credentials'' = Some v" "as_object (raw_val v) = Some cs"
        using fields(6) cs pointer_field_value by force
      from diff obtain c where "(n, c) \<in> set cs"
        by (auto simp: merge_conv' map_add_def split: option.splits dest: map_of_SomeD)
      with credential_fields [OF ps v(1)] v(2) may show ?thesis by fastforce
    qed
    ultimately show "update_authorised p a ((ub_input body)\<lparr>ui_proxy_id := pid, ui_groups := groups,
        ui_credentials := (case ui_credentials (ub_input body) of None \<Rightarrow> None
          | Some cs \<Rightarrow> Some (AList.merge (sa_credentials a) cs))\<rparr>) (ub_schedulable body)"
      unfolding update_authorised_def Let_def by (auto split: option.splits)
  qed
qed

text \<open>An existing account: the checks in their order, then one of the four effects.\<close>

lemma existing_write_authorised:
  assumes "ScopedAdminWrite who env i action fs has_run = Inr eff" "i \<noteq> 0"
  shows "\<exists>p a. who = Some p \<and> we_account env = Some a \<and> sa_parent a = None \<and> we_shadows env = Some [] \<and>
     (\<exists>r \<in> set (Rules p). Matches r (scopedAccountResource a) \<and>
        (\<exists>q \<in> set (Permissions r). has_prefix q ''accounts.'')) \<and>
     (action \<noteq> [] \<longrightarrow> AllowsAccount p action (scopedAccountResource a)) \<and>
     (eff = RunCallback a \<or> (eff = ApplyDelete i \<and> action = ''accounts.delete'') \<or>
      (eff = ApplyRecover i \<and> action = ''accounts.recover'') \<or>
      (\<exists>u schedulable. eff = ApplyUpdate i u schedulable \<and> update_authorised p a u schedulable))"
proof -
  from assms obtain p ps a where p: "who = Some p" and ps: "scopedAccountFieldPermissions fs False = Inr ps"
    and a: "we_account env = Some a" "in_scope p (scopedAccountResource a)" "\<not> IsShadow a" "we_shadows env = Some []"
    and act: "action \<noteq> [] \<longrightarrow> AllowsAccount p action (scopedAccountResource a)"
    and may: "\<And>q. q \<in> set ps \<Longrightarrow> AllowsAccount p q (scopedAccountResource a)"
    and eff: "eff = RunCallback a \<or> (eff = ApplyDelete i \<and> action = ''accounts.delete'') \<or>
      (eff = ApplyRecover i \<and> action = ''accounts.recover'') \<or> scoped_update p env i a fs = Inr eff"
    by (auto simp: ScopedAdminWrite_def Let_def list_ex_iff split: option.splits sum.splits if_splits)
  from a(2) have "\<exists>r \<in> set (Rules p). Matches r (scopedAccountResource a) \<and>
      (\<exists>q \<in> set (Permissions r). has_prefix q ''accounts.'')"
    by (auto simp: in_scope_def list_ex_iff)
  with p a(1,3,4) act eff scoped_update_authorised [OF ps may] show ?thesis by (auto simp: IsShadow_def)
qed

lemma field_needs_always:
  assumes ps: "scopedAccountFieldPermissions fs create = Inr ps" and k: "map_of fs k = Some v"
  shows "k \<in> set schedule_fields \<Longrightarrow> ''accounts.schedule'' \<in> set ps"
    and "k \<in> set network_fields \<Longrightarrow> ''accounts.network'' \<in> set ps"
proof -
  from collect_member [OF ps [unfolded scopedAccountFieldPermissions_def] map_of_SomeD [OF k]]
  obtain qs where qs: "field_permission create (k, v) = Inr qs" "set qs \<subseteq> set ps" by blast
  show "k \<in> set schedule_fields \<Longrightarrow> ''accounts.schedule'' \<in> set ps"
    using qs by (auto simp: field_permission_def schedule_fields_def grant_field_def)
  show "k \<in> set network_fields \<Longrightarrow> ''accounts.network'' \<in> set ps"
    using qs by (auto simp: field_permission_def schedule_fields_def network_fields_def grant_field_def)
qed

text \<open>
  What a policy must allow for a new account with these contents: creation for its type and platform and for every
  requested group; each credential, a proxy and the scheduling values by their own permissions on the same resource.
  No proxy id 0 is stored.
\<close>

definition create_authorised :: "policy \<Rightarrow> create_input \<Rightarrow> bool" where
  "create_authorised p input \<longleftrightarrow>
     ci_type input \<in> set account_types \<and> ci_platform input \<in> set ConcretePlatformIDs \<and> ci_credentials input \<noteq> [] \<and>
     (let may = (\<lambda>q. AllowsAccount p q (create_resource input))
      in may ''accounts.create'' \<and>
         (\<forall>g \<in> set (ci_groups input). AllowsGroup p ''accounts.create'' (create_resource input) g) \<and>
         (\<forall>(n, c) \<in> set (ci_credentials input). (n = ''model_mapping'' \<and> may ''accounts.models.write'') \<or>
            (n = ''base_url'' \<and> may ''accounts.network'') \<or> (n \<in> set secret_names \<and> may ''accounts.credentials'')) \<and>
         (ci_proxy_id input \<noteq> None \<longrightarrow> may ''accounts.network'' \<and> ci_proxy_id input \<noteq> Some 0) \<and>
         (ci_concurrency input \<noteq> 0 \<or> ci_priority input \<noteq> 0 \<or> ci_load_factor input \<noteq> None \<or>
            ci_expires input \<noteq> None \<or> ci_auto_pause input \<noteq> None \<longrightarrow> may ''accounts.schedule''))"

lemma new_write_authorised:
  assumes "ScopedAdminWrite who env 0 action fs has_run = Inr eff"
  shows "\<exists>p input. who = Some p \<and> eff = ApplyCreate input \<and> create_authorised p input"
proof -
  from assms obtain p ps where p: "who = Some p" and ps: "scopedAccountFieldPermissions fs True = Inr ps"
    and create: "scoped_create p env fs ps = Inr eff"
    by (auto simp: ScopedAdminWrite_def split: option.splits sum.splits if_splits)
  from create obtain body where body: "decode_create fs = Some body" by (auto simp: scoped_create_def split: option.splits)
  let ?in = "cb_input body"
  let ?may = "\<lambda>q. AllowsAccount p q (create_resource ?in)"
  from create body obtain mode pid where
    checks: "ci_type ?in \<in> set account_types" "ci_platform ?in \<in> set ConcretePlatformIDs" "ci_credentials ?in \<noteq> []"
      "?may ''accounts.create''" "\<And>g. g \<in> set (ci_groups ?in) \<Longrightarrow> AllowsGroup p ''accounts.create'' (create_resource ?in) g"
      "\<And>q. q \<in> set ps \<Longrightarrow> ?may q"
    and mode: "NormalizeAccountProxyMode (cb_proxy_mode body) (ci_proxy_id ?in) (cb_random body) = Inr mode"
    and pid: "scopedAccountProxySelection (we_select env) mode (ci_proxy_id ?in) = Inr pid"
    and eff: "eff = ApplyCreate (?in\<lparr>ci_proxy_id := (if pid = Some 0 then None else pid)\<rparr>)"
    by (auto simp: scoped_create_def scopedAdminCreateTransaction_def Let_def list_ex_iff
             split: option.splits sum.splits if_splits)
  have fields:
    "pointer_field as_int fs ''proxy_id'' = Some (ci_proxy_id ?in)"
    "value_field as_string [] fs ''proxy_mode'' = Some (cb_proxy_mode body)"
    "value_field as_bool False fs ''random_proxy'' = Some (cb_random body)"
    "value_field as_object [] fs ''credentials'' = Some (ci_credentials ?in)"
    "value_field as_int 0 fs ''concurrency'' = Some (ci_concurrency ?in)"
    "value_field as_int 0 fs ''priority'' = Some (ci_priority ?in)"
    "pointer_field as_int fs ''load_factor'' = Some (ci_load_factor ?in)"
    "pointer_field as_int fs ''expires_at'' = Some (ci_expires ?in)"
    "pointer_field as_bool fs ''auto_pause_on_expired'' = Some (ci_auto_pause ?in)"
    using body by (auto simp: decode_create_def bind_eq_Some_conv)
  note needs = field_needs_always [OF ps]
  have network: "?may ''accounts.network''" if some: "pid \<noteq> None"
  proof -
    from some pid have "ci_proxy_id ?in \<noteq> None \<or> cb_proxy_mode body \<noteq> [] \<or> cb_random body"
      by (auto dest: proxy_selection_none [OF mode])
    then show ?thesis
      using fields(1) value_field_absent [OF fields(2)] value_field_absent [OF fields(3)] needs(2)
      by (intro checks(6)) (auto dest!: pointer_field_absent simp: network_fields_def)
  qed
  have schedule: "?may ''accounts.schedule''"
    if "ci_concurrency ?in \<noteq> 0 \<or> ci_priority ?in \<noteq> 0 \<or> ci_load_factor ?in \<noteq> None \<or>
        ci_expires ?in \<noteq> None \<or> ci_auto_pause ?in \<noteq> None"
    using that fields(7-9) value_field_absent [OF fields(5)] value_field_absent [OF fields(6)] needs(1)
    by (intro checks(6)) (auto dest!: pointer_field_absent simp: schedule_fields_def)
  obtain v where v: "map_of fs ''credentials'' = Some v" using value_field_absent [OF fields(4) checks(3)] by blast
  with fields(4) have "as_object (raw_val v) = Some (ci_credentials ?in)" by (simp add: value_field_def)
  with credential_fields [OF ps v] checks(6)
  have "\<forall>(n, c) \<in> set (ci_credentials ?in). (n = ''model_mapping'' \<and> ?may ''accounts.models.write'') \<or>
      (n = ''base_url'' \<and> ?may ''accounts.network'') \<or> (n \<in> set secret_names \<and> ?may ''accounts.credentials'')"
    by fastforce
  with p eff checks network schedule show ?thesis
    by (intro exI [of _ p] exI [of _ "?in\<lparr>ci_proxy_id := (if pid = Some 0 then None else pid)\<rparr>"])
       (auto simp: create_authorised_def create_resource_def Let_def)
qed

text \<open>C5: A write by a restricted key goes through only with its permissions. An existing account must be there, be no shadow and
  have none, and match a rule with an account permission; the action, if any, is allowed on it, and every field of
  an update that would change something has its own permission on the same account: credentials change only under names
  the key may write, groups only where it may. A new account needs creation for its type, platform and every group.\<close>

theorem scoped_write_authorised:
  assumes "ScopedAdminWrite who env i action fs has_run = Inr eff"
  shows "\<exists>p. who = Some p \<and>
     (if i = 0 then \<exists>input. eff = ApplyCreate input \<and> create_authorised p input
      else \<exists>a. we_account env = Some a \<and> sa_parent a = None \<and> we_shadows env = Some [] \<and>
        (\<exists>r \<in> set (Rules p). Matches r (scopedAccountResource a) \<and>
           (\<exists>q \<in> set (Permissions r). has_prefix q ''accounts.'')) \<and>
        (action \<noteq> [] \<longrightarrow> AllowsAccount p action (scopedAccountResource a)) \<and>
        (eff = RunCallback a \<or> (eff = ApplyDelete i \<and> action = ''accounts.delete'') \<or>
         (eff = ApplyRecover i \<and> action = ''accounts.recover'') \<or>
         (\<exists>u schedulable. eff = ApplyUpdate i u schedulable \<and> update_authorised p a u schedulable)))"
proof (cases "i = 0")
  case True
  with assms show ?thesis by (auto dest: new_write_authorised)
next
  case False
  with existing_write_authorised [OF assms False] show ?thesis by auto
qed

section \<open>Witnesses\<close>

lemma scoped_groups_exact_witness:
  "\<exists>db' :: admin_db. set (loadAccountGroupIDs (db_links db') 5) \<inter> {1, 2} = {2} \<and>
     filter (\<lambda>l. gl_account l \<noteq> 5) (db_links db') = filter (\<lambda>l. gl_account l \<noteq> 5) (db_links sample_db)"
proof -
  let ?res = "row_resource (db_links sample_db) (sample_account 5 ''oauth'')"
  have merged: "scopedAdminMergeGroups sample_policy ?res (loadAccountGroupIDs (db_links sample_db) 5) [2] = Inr [9, 2]"
    by code_simp
  have "\<not> isl (scopedAdminBindGroups True 5 [9, 2] sample_db)" by code_simp
  then obtain db' where bind: "scopedAdminBindGroups True 5 [9, 2] sample_db = Inr db'"
    by (cases "scopedAdminBindGroups True 5 [9, 2] sample_db") auto
  have one: "AllowsGroup sample_policy ''accounts.groups'' ?res 1" and two: "AllowsGroup sample_policy ''accounts.groups'' ?res 2"
    by code_simp+
  note exact = scoped_groups_exact [OF merged bind]
  from exact one two have "set (loadAccountGroupIDs (db_links db') 5) \<inter> {1, 2} = {2}" by auto
  moreover from exact have "filter (\<lambda>l. gl_account l \<noteq> 5) (db_links db') = filter (\<lambda>l. gl_account l \<noteq> 5) (db_links sample_db)"
    by (elim conjE)
  ultimately show ?thesis by (intro exI [of _ db'] conjI)
qed

definition sample_env :: write_env where
  "sample_env =
     \<lparr>we_account = Some \<lparr>sa_id = 5, sa_groups = [1, 9], sa_type = ''oauth'', sa_platform = ''openai'',
                          sa_credentials = [(''access_token'', Raw 3 (JStr ''t''))], sa_parent = None\<rparr>,
      we_shadows = Some [], we_select = SelectAccountProxy 0 0 \<lparr>pp_proxies = [], pp_bindings = []\<rparr>\<rparr>"

definition sample_fields :: fields where
  "sample_fields = [(''group_ids'', Raw 3 (JArr [JInt 2])), (''name'', Raw 3 (JStr ''b''))]"

lemma scoped_write_authorised_witness:
  "\<exists>u a. update_authorised sample_policy a u None \<and> ui_name u = ''b'' \<and> ui_groups u = Some [9, 2]"
proof -
  let ?w = "ScopedAdminWrite (Some sample_policy) sample_env 5 [] sample_fields False"
  have run: "(case ?w of Inr (ApplyUpdate i u None) \<Rightarrow> i = 5 \<and> ui_name u = ''b'' \<and> ui_groups u = Some [9, 2] | _ \<Rightarrow> False)"
    by code_simp
  then obtain u where w: "?w = Inr (ApplyUpdate 5 u None)" "ui_name u = ''b''" "ui_groups u = Some [9, 2]"
    by (auto split: sum.splits write_effect.splits option.splits)
  from scoped_write_authorised [OF w(1)] obtain a where "update_authorised sample_policy a u None" by auto
  with w(2,3) show ?thesis by (intro exI conjI)
qed

definition creating_policy :: policy where
  "creating_policy =
     \<lparr>Rules = [\<lparr>Permissions = [''accounts.create'', ''accounts.credentials''], GroupIDs = [1], AllGroups = False,
                IncludeUngrouped = False, AccountTypes = [''apikey''], Platforms = []\<rparr>],
      GlobalPermissions = []\<rparr>"

definition creating_fields :: fields where
  "creating_fields =
     [(''type'', Raw 8 (JStr ''apikey'')), (''platform'', Raw 8 (JStr ''openai'')), (''name'', Raw 3 (JStr ''n'')),
      (''group_ids'', Raw 3 (JArr [JInt 1])),
      (''credentials'', Raw 20 (JObj [(''api_key'', Raw 5 (JStr ''key''))]))]"

lemma creating_example:
  "\<exists>input. ScopedAdminWrite (Some creating_policy) sample_env 0 [] creating_fields False = Inr (ApplyCreate input) \<and>
     create_authorised creating_policy input"
proof -
  let ?w = "ScopedAdminWrite (Some creating_policy) sample_env 0 [] creating_fields False"
  have "scopedAccountFieldPermissions creating_fields True = Inr [''accounts.credentials'']"
    by (simp add: scopedAccountFieldPermissions_def creating_fields_def field_permission_def grant_field_def
        schedule_fields_def network_fields_def credential_permission_def secret_names_def)
  moreover have "\<not> isl (scoped_create creating_policy sample_env creating_fields [''accounts.credentials''])"
    by code_simp
  ultimately have "\<not> isl ?w" by (simp add: ScopedAdminWrite_def)
  then obtain eff where w: "?w = Inr eff" by (cases ?w) auto
  from new_write_authorised [OF w] w show ?thesis by auto
qed

section \<open>The least used proxy\<close>

interpretation less_used: strict_order "less_used pool"
  by unfold_locales (auto simp: less_used_def)

lemma least_used_minimal:
  assumes "SelectAccountProxy die db_now pool ''least_used'' = Inr i" "0 < i"
  shows "i \<in> set (eligible_proxies db_now pool)"
    and "j \<in> set (eligible_proxies db_now pool) \<Longrightarrow> binding_count pool i \<le> binding_count pool j"
proof -
  from assms have "pick (less_used pool) (eligible_proxies db_now pool) = Some i"
    by (cases "pick (less_used pool) (eligible_proxies db_now pool)") (simp_all add: SelectAccountProxy_def)
  then have best: "i \<in> set (eligible_proxies db_now pool)"
    "\<And>j. j \<in> set (eligible_proxies db_now pool) \<Longrightarrow> \<not> less_used pool j i"
    unfolding less_used.pick_unique by blast+
  show "i \<in> set (eligible_proxies db_now pool)" by (rule best(1))
  show "binding_count pool i \<le> binding_count pool j" if "j \<in> set (eligible_proxies db_now pool)"
    using best(2) [OF that] by (simp add: less_used_def)
qed

lemma random_proxy_eligible:
  "SelectAccountProxy die db_now pool ''random'' = Inr i \<Longrightarrow> 0 < i \<Longrightarrow> i \<in> set (eligible_proxies db_now pool)"
  by (auto simp: SelectAccountProxy_def Let_def split: if_splits)

text \<open>An automatic choice that is written is a live, active and unexpired proxy; direct stores the instruction 0.\<close>

lemma selected_proxy_eligible:
  assumes "scopedAccountProxySelection (SelectAccountProxy die db_now pool) mode pid = Inr (Some i)"
    and "mode \<in> {''random'', ''least_used''}"
  shows "i \<in> set (eligible_proxies db_now pool)"
proof -
  let ?sel = "SelectAccountProxy die db_now pool"
  from assms obtain normalized where n: "NormalizeAccountProxyMode mode pid False = Inr normalized"
    and auto_mode: "mode = ''random'' \<or> mode = ''least_used''"
    by (auto simp: scopedAccountProxySelection_def split: sum.splits)
  then have "normalized = mode" by (auto simp: NormalizeAccountProxyMode_def Let_def split: if_splits)
  with assms(1) n auto_mode have "?sel mode = Inr i" "0 < i"
    by (auto simp: scopedAccountProxySelection_def split: sum.splits if_splits)
  with auto_mode show ?thesis using least_used_minimal(1) random_proxy_eligible by metis
qed

end
