(* ===== verification/AdminKeys.thy ===== *)
theory AdminKeys
  imports AdminPolicy "HOL-Library.Word"
begin

text \<open>
  The life of restricted management keys (\<open>service/custom_admin_keys.go\<close>, \<open>repository/custom_admin_keys.go\<close>):
  the table and its conditional statements, creation, update, rotation and revocation, the address
  allow-list, and authentication, which reads the row once and claims it again with its version.
\<close>

unbundle bit_operations_syntax

section \<open>Addresses\<close>

text \<open>
  \<open>netip.Addr\<close>: 32 bits, or 128 bits with a zone. An IPv4 address inside IPv6 has the top 96 bits \<open>0xffff\<close>. A prefix
  never has a zone and its length is at most the length of the address; the parsers of the text forms
  are arguments.
\<close>

datatype addr = V4 "32 word" | V6 "128 word" string

definition Is4 :: "addr \<Rightarrow> bool" where
  "Is4 a = (case a of V4 _ \<Rightarrow> True | V6 _ _ \<Rightarrow> False)"

definition Is4In6 :: "addr \<Rightarrow> bool" where
  "Is4In6 a = (case a of V4 _ \<Rightarrow> False | V6 w _ \<Rightarrow> drop_bit 32 w = 0xffff)"

definition Unmap :: "addr \<Rightarrow> addr" where
  "Unmap a = (case a of V4 _ \<Rightarrow> a | V6 w _ \<Rightarrow> if Is4In6 a then V4 (ucast w) else a)"

text \<open>\<open>AddrFrom16(addr.As16())\<close>\<close>

definition mapped :: "addr \<Rightarrow> addr" where
  "mapped a = (case a of V4 w \<Rightarrow> V6 (push_bit 32 0xffff OR ucast w) [] | V6 w _ \<Rightarrow> V6 w [])"

definition prefix_contains :: "addr \<times> nat \<Rightarrow> addr \<Rightarrow> bool" where
  "prefix_contains = (\<lambda>(base, bits) a.
     case (base, a) of
       (V4 p, V4 w) \<Rightarrow> drop_bit (32 - bits) (w XOR p) = 0
     | (V6 p _, V6 w zone) \<Rightarrow> zone = [] \<and> drop_bit (128 - bits) (w XOR p) = 0
     | _ \<Rightarrow> False)"

definition entry_admits ::
    "(string \<Rightarrow> addr option) \<Rightarrow> (string \<Rightarrow> (addr \<times> nat) option) \<Rightarrow> addr \<Rightarrow> string \<Rightarrow> bool" where
  "entry_admits ParseAddr ParsePrefix a s \<longleftrightarrow>
     (case ParseAddr s of Some b \<Rightarrow> Unmap b = a | None \<Rightarrow> False) \<or>
     (case ParsePrefix s of None \<Rightarrow> False
      | Some p \<Rightarrow> prefix_contains p (if Is4In6 (fst p) \<and> Is4 a then mapped a else a))"

definition scopedAdminIPAllowed ::
    "(string \<Rightarrow> addr option) \<Rightarrow> (string \<Rightarrow> (addr \<times> nat) option) \<Rightarrow> string list \<Rightarrow> string \<Rightarrow> bool" where
  "scopedAdminIPAllowed ParseAddr ParsePrefix allowed ip =
     (if allowed = [] then True
      else case ParseAddr ip of None \<Rightarrow> False
           | Some a \<Rightarrow> list_ex (entry_admits ParseAddr ParsePrefix (Unmap a)) allowed)"

section \<open>The table\<close>

record key_input =
  ki_name :: string
  ki_description :: string
  ki_enabled :: bool
  ki_expires :: "gotime option"
  ki_ips :: "string list"
  ki_policy :: policy

record key_row =
  kr_id :: string
  kr_input :: key_input
  kr_prefix :: string
  kr_hash :: string
  kr_created_by :: int
  kr_created_at :: gotime
  kr_updated_at :: gotime
  kr_last_used :: "(gotime \<times> string) option"
  kr_revoked_at :: "gotime option"
  kr_deleted_at :: "gotime option"

type_synonym key_table = "key_row list"

definition GetScopedAdminKey :: "string \<Rightarrow> key_table \<Rightarrow> key_row option" where
  "GetScopedAdminKey i rows = List.find (\<lambda>r. kr_id r = i) rows"

definition ListScopedAdminKeys :: "key_table \<Rightarrow> key_row list" where
  "ListScopedAdminKeys rows = sort_key (\<lambda>r. - kr_created_at r) (filter (\<lambda>r. kr_deleted_at r = None) rows)"

text \<open>The primary key refuses a second row; columns the statement does not name start out empty.\<close>

definition InsertScopedAdminKey :: "key_row \<Rightarrow> key_table \<Rightarrow> key_table option" where
  "InsertScopedAdminKey k rows =
     (if list_ex (\<lambda>r. kr_id r = kr_id k) rows then None
      else Some (rows @ [k\<lparr>kr_last_used := None, kr_revoked_at := None, kr_deleted_at := None\<rparr>]))"

text \<open>\<open>UPDATE ... WHERE\<close> with \<open>scopedAdminKeyResult\<close>: no affected row is an error.\<close>

definition sql_update :: "(key_row \<Rightarrow> bool) \<Rightarrow> (key_row \<Rightarrow> key_row) \<Rightarrow> key_table \<Rightarrow> key_table option" where
  "sql_update cond f rows =
     (if list_ex cond rows then Some (map (\<lambda>r. if cond r then f r else r) rows) else None)"

definition UpdateKeyRow :: "string \<Rightarrow> key_input \<Rightarrow> gotime \<Rightarrow> key_table \<Rightarrow> key_table option" where
  "UpdateKeyRow i input at =
     sql_update (\<lambda>r. kr_id r = i \<and> kr_revoked_at r = None) (\<lambda>r. r\<lparr>kr_input := input, kr_updated_at := at\<rparr>)"

definition TouchScopedAdminKey ::
    "string \<Rightarrow> string \<Rightarrow> gotime \<Rightarrow> string \<Rightarrow> gotime \<Rightarrow> key_table \<Rightarrow> key_table option" where
  "TouchScopedAdminKey i expected_hash expected_updated ip now =
     sql_update (\<lambda>r. kr_id r = i \<and> kr_hash r = expected_hash \<and> kr_updated_at r = expected_updated \<and>
                     kr_revoked_at r = None \<and> ki_enabled (kr_input r) \<and>
                     (case ki_expires (kr_input r) of None \<Rightarrow> True | Some t \<Rightarrow> t > now))
                (\<lambda>r. r\<lparr>kr_last_used := Some (now, ip)\<rparr>)"

definition RevokeKeyRow :: "string \<Rightarrow> gotime \<Rightarrow> key_table \<Rightarrow> key_table option" where
  "RevokeKeyRow i now =
     sql_update (\<lambda>r. kr_id r = i \<and> kr_revoked_at r = None)
                (\<lambda>r. r\<lparr>kr_revoked_at := Some now, kr_input := (kr_input r)\<lparr>ki_enabled := False\<rparr>,
                       kr_updated_at := now\<rparr>)"

definition DeleteKeyRecord :: "string \<Rightarrow> gotime \<Rightarrow> key_table \<Rightarrow> key_table option" where
  "DeleteKeyRecord i now =
     sql_update (\<lambda>r. kr_id r = i \<and> kr_revoked_at r \<noteq> None \<and> kr_deleted_at r = None)
                (\<lambda>r. r\<lparr>kr_deleted_at := Some now, kr_updated_at := now\<rparr>)"

definition RotateKeyHash :: "string \<Rightarrow> string \<Rightarrow> string \<Rightarrow> gotime \<Rightarrow> key_table \<Rightarrow> key_table option" where
  "RotateKeyHash i expected_hash hash at =
     sql_update (\<lambda>r. kr_id r = i \<and> kr_hash r = expected_hash \<and> kr_revoked_at r = None)
                (\<lambda>r. r\<lparr>kr_hash := hash, kr_updated_at := at\<rparr>)"

section \<open>Operations\<close>

datatype key_error = KeyInvalid | KeyConflict | KeyNotFound | BadKeyInput string | DuplicateID

definition validateScopedAdminKeyInput ::
    "(string \<Rightarrow> addr option) \<Rightarrow> (string \<Rightarrow> (addr \<times> nat) option) \<Rightarrow> gotime \<Rightarrow> key_input \<Rightarrow> key_error + key_input" where
  "validateScopedAdminKeyInput ParseAddr ParsePrefix now input =
     (let name = trim_space (ki_name input)
      in if name = [] \<or> length name > 100 \<or> length (ki_description input) > 1000 \<or> length (ki_ips input) > 100
         then Inl (BadKeyInput ''INVALID_ADMIN_KEY_INPUT'')
         else if (case ki_expires input of None \<Rightarrow> False | Some t \<Rightarrow> \<not> t > now)
         then Inl (BadKeyInput ''INVALID_ADMIN_KEY_EXPIRY'')
         else if list_ex (\<lambda>s. ParseAddr s = None \<and> ParsePrefix s = None) (ki_ips input)
         then Inl (BadKeyInput ''INVALID_ADMIN_KEY_IP'')
         else if ValidatePolicy (ki_policy input) \<noteq> None then Inl (BadKeyInput ''INVALID_ADMIN_KEY_POLICY'')
         else Inr (input\<lparr>ki_name := name\<rparr>))"

text \<open>An update may keep an expiry that has passed, but not set a new one in the past.\<close>

definition validateScopedAdminKeyInputForUpdate ::
    "(string \<Rightarrow> addr option) \<Rightarrow> (string \<Rightarrow> (addr \<times> nat) option) \<Rightarrow> gotime \<Rightarrow> gotime option \<Rightarrow> key_input
     \<Rightarrow> key_error + key_input" where
  "validateScopedAdminKeyInputForUpdate ParseAddr ParsePrefix now existing input =
     (if (case ki_expires input of None \<Rightarrow> False | Some t \<Rightarrow> \<not> t > now \<and> existing \<noteq> Some t)
      then Inl (BadKeyInput ''INVALID_ADMIN_KEY_EXPIRY'')
      else map_sum id (\<lambda>checked. checked\<lparr>ki_expires := ki_expires input\<rparr>)
             (validateScopedAdminKeyInput ParseAddr ParsePrefix now (input\<lparr>ki_expires := None\<rparr>)))"

text \<open>\<open>hex.EncodeToString\<close>\<close>

definition hex_digit :: "nat \<Rightarrow> char" where
  "hex_digit n = ''0123456789abcdef'' ! n"

definition hex_encode :: "nat list \<Rightarrow> string" where
  "hex_encode bs = concat (map (\<lambda>b. [hex_digit (b div 16 mod 16), hex_digit (b mod 16)]) bs)"

text \<open>\<open>sha\<close> is the hexadecimal SHA-256 of a string; \<open>secret\<close> are the 32 random bytes.\<close>

definition generateScopedAdminKey :: "(string \<Rightarrow> string) \<Rightarrow> string \<Rightarrow> nat list \<Rightarrow> string \<times> string" where
  "generateScopedAdminKey sha i secret =
     (let key = ''adm_sc_'' @ i @ ''_'' @ hex_encode secret in (key, sha key))"

definition CreateScopedAdminKey ::
    "(string \<Rightarrow> string) \<Rightarrow> (string \<Rightarrow> addr option) \<Rightarrow> (string \<Rightarrow> (addr \<times> nat) option) \<Rightarrow> nat list \<Rightarrow> nat list \<Rightarrow> gotime \<Rightarrow>
     gotime \<Rightarrow> key_input \<Rightarrow> int \<Rightarrow> key_table \<Rightarrow> key_error + (string \<times> key_row \<times> key_table)" where
  "CreateScopedAdminKey sha ParseAddr ParsePrefix id_bytes secret now1 now2 input creator rows =
     (case validateScopedAdminKeyInput ParseAddr ParsePrefix now1 input of
        Inl e \<Rightarrow> Inl e
      | Inr checked \<Rightarrow>
          let i = hex_encode id_bytes;
              (key, hash) = generateScopedAdminKey sha i secret;
              item = \<lparr>kr_id = i, kr_input = checked, kr_prefix = ''adm_sc_'' @ i, kr_hash = hash,
                      kr_created_by = creator, kr_created_at = now2, kr_updated_at = now2,
                      kr_last_used = None, kr_revoked_at = None, kr_deleted_at = None\<rparr>
          in (case InsertScopedAdminKey item rows of
                None \<Rightarrow> Inl DuplicateID
              | Some rows' \<Rightarrow> Inr (key, item, rows')))"

text \<open>
  The operations that read and then write take the two tables apart: \<open>seen\<close> is the table at the read, \<open>rows\<close>
  the one the statement meets.
\<close>

definition UpdateScopedAdminKey ::
    "(string \<Rightarrow> addr option) \<Rightarrow> (string \<Rightarrow> (addr \<times> nat) option) \<Rightarrow> gotime \<Rightarrow> gotime \<Rightarrow> string \<Rightarrow> key_input \<Rightarrow>
     key_table \<Rightarrow> key_table \<Rightarrow> key_error + (key_row \<times> key_table)" where
  "UpdateScopedAdminKey ParseAddr ParsePrefix now1 now2 i input seen rows =
     (case GetScopedAdminKey i seen of
        None \<Rightarrow> Inl KeyNotFound
      | Some item \<Rightarrow>
          if kr_revoked_at item \<noteq> None then Inl KeyNotFound
          else (case validateScopedAdminKeyInputForUpdate ParseAddr ParsePrefix now1 (ki_expires (kr_input item)) input of
                  Inl e \<Rightarrow> Inl e
                | Inr checked \<Rightarrow>
                    (case UpdateKeyRow (kr_id item) checked now2 rows of
                       None \<Rightarrow> Inl KeyNotFound
                     | Some rows' \<Rightarrow> Inr (item\<lparr>kr_input := checked, kr_updated_at := now2\<rparr>, rows'))))"

definition RotateScopedAdminKey ::
    "(string \<Rightarrow> string) \<Rightarrow> nat list \<Rightarrow> gotime \<Rightarrow> string \<Rightarrow> key_table \<Rightarrow> key_table
     \<Rightarrow> key_error + (string \<times> key_row \<times> key_table)" where
  "RotateScopedAdminKey sha secret now i seen rows =
     (case GetScopedAdminKey i seen of
        None \<Rightarrow> Inl KeyNotFound
      | Some item \<Rightarrow>
          if kr_revoked_at item \<noteq> None then Inl KeyNotFound
          else let (key, hash) = generateScopedAdminKey sha i secret
               in (case RotateKeyHash (kr_id item) (kr_hash item) hash now rows of
                     None \<Rightarrow> Inl KeyConflict
                   | Some rows' \<Rightarrow> Inr (key, item\<lparr>kr_hash := hash, kr_updated_at := now\<rparr>, rows')))"

definition RevokeScopedAdminKey :: "string \<Rightarrow> gotime \<Rightarrow> key_table \<Rightarrow> key_error + key_table" where
  "RevokeScopedAdminKey i now rows =
     (case RevokeKeyRow i now rows of None \<Rightarrow> Inl KeyNotFound | Some rows' \<Rightarrow> Inr rows')"

definition DeleteScopedAdminKeyRecord :: "string \<Rightarrow> gotime \<Rightarrow> key_table \<Rightarrow> key_error + key_table" where
  "DeleteScopedAdminKeyRecord i now rows =
     (case DeleteKeyRecord i now rows of None \<Rightarrow> Inl KeyNotFound | Some rows' \<Rightarrow> Inr rows')"

text \<open>\<open>strings.Split(key, "_")\<close>\<close>

fun split_underscore :: "string \<Rightarrow> string list" where
  "split_underscore [] = [[]]"
| "split_underscore (c # cs) =
     (if c = CHR ''_'' then [] # split_underscore cs
      else (case split_underscore cs of [] \<Rightarrow> [[c]] | p # ps \<Rightarrow> (c # p) # ps))"

text \<open>The id of a well-formed key.\<close>

definition key_id :: "string \<Rightarrow> string option" where
  "key_id key =
     (let parts = split_underscore key
      in if length parts \<noteq> 4 \<or> parts ! 0 \<noteq> ''adm'' \<or> parts ! 1 \<noteq> ''sc'' \<or> length (parts ! 2) \<noteq> 24 \<or>
            length (parts ! 3) \<noteq> 64
         then None else Some (parts ! 2))"

definition verifyScopedAdminKey :: "(string \<Rightarrow> string) \<Rightarrow> string \<Rightarrow> string \<Rightarrow> bool" where
  "verifyScopedAdminKey sha key hash \<longleftrightarrow> sha key = hash"

definition AuthenticateScopedAdminKey ::
    "(string \<Rightarrow> string) \<Rightarrow> (string \<Rightarrow> addr option) \<Rightarrow> (string \<Rightarrow> (addr \<times> nat) option) \<Rightarrow> gotime \<Rightarrow> gotime \<Rightarrow> string \<Rightarrow>
     string \<Rightarrow> key_table \<Rightarrow> key_table \<Rightarrow> key_error + (key_row \<times> key_table)" where
  "AuthenticateScopedAdminKey sha ParseAddr ParsePrefix now1 now2 key ip seen rows =
     (case key_id key of
        None \<Rightarrow> Inl KeyInvalid
      | Some i \<Rightarrow>
          (case GetScopedAdminKey i seen of
             None \<Rightarrow> Inl KeyInvalid
           | Some item \<Rightarrow>
               if \<not> verifyScopedAdminKey sha key (kr_hash item) then Inl KeyInvalid
               else if \<not> ki_enabled (kr_input item) \<or> kr_revoked_at item \<noteq> None \<or>
                       (case ki_expires (kr_input item) of None \<Rightarrow> False | Some t \<Rightarrow> \<not> t > now1) \<or>
                       \<not> scopedAdminIPAllowed ParseAddr ParsePrefix (ki_ips (kr_input item)) ip
               then Inl KeyInvalid
               else (case TouchScopedAdminKey (kr_id item) (kr_hash item) (kr_updated_at item) ip now2 rows of
                       None \<Rightarrow> Inl KeyInvalid
                     | Some rows' \<Rightarrow> Inr (item, rows'))))"

section \<open>Histories of the table\<close>

text \<open>A successful statement of any operation; a history is a list of them, in the order the database applied them.\<close>

datatype key_event =
    Inserted key_row
  | Updated string key_input gotime
  | Rotated string string string gotime
  | Touched string string gotime string gotime
  | Revoked string gotime
  | Removed string gotime

fun apply_event :: "key_event \<Rightarrow> key_table \<Rightarrow> key_table option" where
  "apply_event (Inserted k) rows = InsertScopedAdminKey k rows"
| "apply_event (Updated i input at) rows = UpdateKeyRow i input at rows"
| "apply_event (Rotated i old new at) rows = RotateKeyHash i old new at rows"
| "apply_event (Touched i hash upd ip now) rows = TouchScopedAdminKey i hash upd ip now rows"
| "apply_event (Revoked i now) rows = RevokeKeyRow i now rows"
| "apply_event (Removed i now) rows = DeleteKeyRecord i now rows"

fun run_events :: "key_event list \<Rightarrow> key_table \<Rightarrow> key_table option" where
  "run_events [] rows = Some rows"
| "run_events (e # es) rows = (case apply_event e rows of None \<Rightarrow> None | Some rows' \<Rightarrow> run_events es rows')"

definition keys_wf :: "key_table \<Rightarrow> bool" where
  "keys_wf rows \<longleftrightarrow> distinct (map kr_id rows) \<and>
     (\<forall>r \<in> set rows. (kr_revoked_at r \<noteq> None \<longrightarrow> \<not> ki_enabled (kr_input r)) \<and>
                     (kr_deleted_at r \<noteq> None \<longrightarrow> kr_revoked_at r \<noteq> None))"

text \<open>A statement that updates rows in place, through one of them, and keeps the ids.\<close>

lemma sql_update_Some:
  "sql_update cond f rows = Some rows' \<longleftrightarrow>
     (\<exists>r \<in> set rows. cond r) \<and> rows' = map (\<lambda>r. if cond r then f r else r) rows"
  by (auto simp: sql_update_def list_ex_iff)

lemma sql_update_ids:
  "sql_update cond f rows = Some rows' \<Longrightarrow> (\<And>r. kr_id (f r) = kr_id r) \<Longrightarrow> map kr_id rows' = map kr_id rows"
  by (auto simp: sql_update_Some)

lemma get_row: "GetScopedAdminKey i rows = Some r \<Longrightarrow> r \<in> set rows \<and> kr_id r = i"
  by (auto simp: GetScopedAdminKey_def find_Some_iff)

lemma get_iff:
  "distinct (map kr_id rows) \<Longrightarrow> GetScopedAdminKey i rows = Some r \<longleftrightarrow> r \<in> set rows \<and> kr_id r = i"
  by (induction rows) (auto simp: GetScopedAdminKey_def)

lemma get_map:
  "(\<And>r. kr_id (f r) = kr_id r) \<Longrightarrow> GetScopedAdminKey i (map f rows) = map_option f (GetScopedAdminKey i rows)"
  by (induction rows) (auto simp: GetScopedAdminKey_def)

lemma get_update:
  assumes "sql_update cond f rows = Some rows'" "\<And>r. kr_id (f r) = kr_id r"
  shows "GetScopedAdminKey i rows' = map_option (\<lambda>r. if cond r then f r else r) (GetScopedAdminKey i rows)"
  using assms by (auto simp: sql_update_Some intro!: get_map)

lemma get_append: "GetScopedAdminKey i rows = Some r \<Longrightarrow> GetScopedAdminKey i (rows @ later) = Some r"
  by (induction rows) (auto simp: GetScopedAdminKey_def)

lemma get_insert:
  assumes "InsertScopedAdminKey k rows = Some rows'" "GetScopedAdminKey i rows = Some r"
  shows "GetScopedAdminKey i rows' = Some r"
  using assms by (auto simp: InsertScopedAdminKey_def get_append split: if_splits)

lemmas key_statements = UpdateKeyRow_def RotateKeyHash_def TouchScopedAdminKey_def RevokeKeyRow_def DeleteKeyRecord_def

lemma apply_event_ids:
  assumes "apply_event e rows = Some rows'" "distinct (map kr_id rows)"
  shows "distinct (map kr_id rows')"
proof (cases e)
  case (Inserted k)
  with assms show ?thesis by (force simp: InsertScopedAdminKey_def list_ex_iff split: if_splits)
qed (use assms in \<open>auto simp: key_statements dest!: sql_update_ids\<close>)

text \<open>What one statement does to a row: the id and the origin stay, a revocation and a removal stay.\<close>

definition row_kept :: "key_row \<Rightarrow> key_row \<Rightarrow> bool" where
  "row_kept r r' \<longleftrightarrow>
     kr_id r' = kr_id r \<and> kr_prefix r' = kr_prefix r \<and> kr_created_by r' = kr_created_by r \<and>
     kr_created_at r' = kr_created_at r \<and>
     (kr_revoked_at r \<noteq> None \<longrightarrow> kr_revoked_at r' = kr_revoked_at r \<and> kr_hash r' = kr_hash r \<and>
        kr_input r' = kr_input r \<and> kr_last_used r' = kr_last_used r) \<and>
     (kr_deleted_at r \<noteq> None \<longrightarrow> kr_deleted_at r' = kr_deleted_at r)"

lemma row_kept_refl [simp]: "row_kept r r"
  by (simp add: row_kept_def)

lemma row_kept_trans: "row_kept r r' \<Longrightarrow> row_kept r' r'' \<Longrightarrow> row_kept r r''"
  by (auto simp: row_kept_def)

lemma apply_event_kept:
  assumes "apply_event e rows = Some rows'" "GetScopedAdminKey i rows = Some r"
  shows "\<exists>r'. GetScopedAdminKey i rows' = Some r' \<and> row_kept r r'"
proof (cases e)
  case (Inserted k)
  with assms get_insert show ?thesis by fastforce
qed (use assms in \<open>auto simp: key_statements row_kept_def dest!: get_update [of _ _ _ _ i]\<close>)

lemma apply_event_wf:
  assumes "apply_event e rows = Some rows'" "keys_wf rows"
  shows "keys_wf rows'"
proof -
  have "distinct (map kr_id rows')" using assms apply_event_ids by (auto simp: keys_wf_def)
  moreover have "(kr_revoked_at r' \<noteq> None \<longrightarrow> \<not> ki_enabled (kr_input r')) \<and>
      (kr_deleted_at r' \<noteq> None \<longrightarrow> kr_revoked_at r' \<noteq> None)" if r': "r' \<in> set rows'" for r'
  proof -
    have wf: "\<And>r. r \<in> set rows \<Longrightarrow> (kr_revoked_at r \<noteq> None \<longrightarrow> \<not> ki_enabled (kr_input r)) \<and>
        (kr_deleted_at r \<noteq> None \<longrightarrow> kr_revoked_at r \<noteq> None)"
      using assms(2) by (auto simp: keys_wf_def)
    show ?thesis
    proof (cases e)
      case (Inserted k)
      with assms(1) r' wf show ?thesis by (auto simp: InsertScopedAdminKey_def split: if_splits)
    qed (use assms(1) r' wf in \<open>fastforce simp: key_statements sql_update_Some split: if_splits\<close>)+
  qed
  ultimately show ?thesis by (simp add: keys_wf_def)
qed

lemma run_events_kept:
  "run_events es rows = Some rows' \<Longrightarrow> GetScopedAdminKey i rows = Some r \<Longrightarrow>
   \<exists>r'. GetScopedAdminKey i rows' = Some r' \<and> row_kept r r'"
proof (induction es arbitrary: rows r)
  case (Cons e es)
  then obtain mid where mid: "apply_event e rows = Some mid" "run_events es mid = Some rows'"
    by (auto split: option.splits)
  from apply_event_kept [OF mid(1) Cons.prems(2)] obtain r1
    where r1: "GetScopedAdminKey i mid = Some r1" "row_kept r r1" by blast
  from Cons.IH [OF mid(2) r1(1)] r1(2) show ?case by (blast intro: row_kept_trans)
qed auto

lemma run_events_wf: "run_events es rows = Some rows' \<Longrightarrow> keys_wf rows \<Longrightarrow> keys_wf rows'"
  by (induction es arbitrary: rows) (auto split: option.splits dest: apply_event_wf)

text \<open>C40: Along every history of the key table ids stay unique, a revoked key stays disabled, only revoked keys are
  removed from the list, no row vanishes, its origin never changes, and once it is revoked neither its revocation, its
  hash, its settings nor its last use change again.\<close>

theorem key_table_wf:
  assumes "run_events es rows = Some rows'" "keys_wf rows"
  shows "keys_wf rows' \<and> (\<forall>i r. GetScopedAdminKey i rows = Some r \<longrightarrow>
           (\<exists>r'. GetScopedAdminKey i rows' = Some r' \<and> row_kept r r'))"
  using run_events_wf [OF assms] run_events_kept [OF assms(1)] by blast

lemma no_update:
  assumes "distinct (map kr_id rows)" "GetScopedAdminKey i rows = Some r" "\<And>r. cond r \<Longrightarrow> kr_id r = i" "\<not> cond r"
  shows "sql_update cond f rows = None"
  using assms by (auto simp: sql_update_def list_ex_iff get_iff) (metis distinct_map inj_on_eq_iff)

lemma touch_revoked:
  assumes "distinct (map kr_id rows)" "GetScopedAdminKey i rows = Some r" "kr_revoked_at r \<noteq> None"
  shows "TouchScopedAdminKey i hash upd ip now rows = None"
    and "UpdateKeyRow i input at rows = None" and "RotateKeyHash i old new at rows = None"
  using assms by (auto simp: key_statements intro!: no_update [OF assms(1,2)])

lemma auth_touch:
  assumes "key_id key = Some i"
    and "AuthenticateScopedAdminKey sha ParseAddr ParsePrefix now1 now2 key ip seen rows = Inr (item, rows')"
  shows "GetScopedAdminKey i seen = Some item" "kr_id item = i" "sha key = kr_hash item"
    and "TouchScopedAdminKey i (kr_hash item) (kr_updated_at item) ip now2 rows = Some rows'"
    and "scopedAdminIPAllowed ParseAddr ParsePrefix (ki_ips (kr_input item)) ip"
    and "ki_enabled (kr_input item)" "kr_revoked_at item = None"
  using assms
  by (auto simp: AuthenticateScopedAdminKey_def verifyScopedAdminKey_def dest!: get_row
           split: option.splits if_splits)

text \<open>C4: Once a key is revoked, no request authenticates with it again, whatever statements other requests run and even
  when the row was read before the revocation; nor can an update or a rotation that read it earlier still go through.\<close>

theorem revocation_final:
  assumes "keys_wf rows" "GetScopedAdminKey i rows = Some r" "kr_revoked_at r \<noteq> None"
    and "run_events es rows = Some rows'" "key_id key = Some i"
  shows "AuthenticateScopedAdminKey sha ParseAddr ParsePrefix now1 now2 key ip seen rows' = Inl KeyInvalid \<and>
     isl (UpdateScopedAdminKey ParseAddr ParsePrefix now1 now2 i input seen rows') \<and>
     isl (RotateScopedAdminKey sha secret now1 i seen rows')"
proof -
  from run_events_kept [OF assms(4,2)] obtain r' where r': "GetScopedAdminKey i rows' = Some r'" "row_kept r r'" by blast
  have dist: "distinct (map kr_id rows')" using run_events_wf [OF assms(4,1)] by (simp add: keys_wf_def)
  have rev: "kr_revoked_at r' \<noteq> None" using r'(2) assms(3) by (auto simp: row_kept_def)
  note none = touch_revoked [OF dist r'(1) rev]
  have id: "kr_id item = i" if "GetScopedAdminKey i seen = Some item" for item using get_row [OF that] by simp
  show ?thesis using assms(5) id none
    by (auto simp: AuthenticateScopedAdminKey_def UpdateScopedAdminKey_def RotateScopedAdminKey_def
             generateScopedAdminKey_def Let_def split: option.splits sum.splits)
qed

section \<open>The version a request was admitted on\<close>

fun stamp_of :: "key_event \<Rightarrow> gotime option" where
  "stamp_of (Updated i input at) = Some at"
| "stamp_of (Rotated i old new at) = Some at"
| "stamp_of (Revoked i at) = Some at"
| "stamp_of (Removed i at) = Some at"
| "stamp_of _ = None"

definition same_version :: "key_row \<Rightarrow> key_row \<Rightarrow> bool" where
  "same_version r r' \<longleftrightarrow> r'\<lparr>kr_last_used := None\<rparr> = r\<lparr>kr_last_used := None\<rparr>"

lemma apply_event_version:
  assumes "apply_event e rows = Some rows'" "GetScopedAdminKey i rows = Some r" "stamp_of e \<noteq> Some u"
    and "same_version item r \<or> kr_updated_at r \<noteq> u"
  shows "\<exists>r'. GetScopedAdminKey i rows' = Some r' \<and> (same_version item r' \<or> kr_updated_at r' \<noteq> u)"
proof (cases e)
  case (Inserted k)
  with assms get_insert show ?thesis by fastforce
qed (use assms in \<open>auto simp: key_statements same_version_def dest!: get_update [of _ _ _ _ i]\<close>)

lemma run_events_version:
  "run_events es rows = Some rows' \<Longrightarrow> GetScopedAdminKey i rows = Some r \<Longrightarrow>
   (\<And>e. e \<in> set es \<Longrightarrow> stamp_of e \<noteq> Some u) \<Longrightarrow> same_version item r \<or> kr_updated_at r \<noteq> u \<Longrightarrow>
   \<exists>r'. GetScopedAdminKey i rows' = Some r' \<and> (same_version item r' \<or> kr_updated_at r' \<noteq> u)"
proof (induction es arbitrary: rows r)
  case (Cons e es)
  then obtain mid where mid: "apply_event e rows = Some mid" "run_events es mid = Some rows'"
    by (auto split: option.splits)
  from apply_event_version [OF mid(1) Cons.prems(2) Cons.prems(3) Cons.prems(4)] obtain r1
    where "GetScopedAdminKey i mid = Some r1" "same_version item r1 \<or> kr_updated_at r1 \<noteq> u" by auto
  from Cons.IH [OF mid(2) this(1) _ this(2)] Cons.prems(3) show ?case by simp
qed auto

lemma touch_row:
  assumes "TouchScopedAdminKey i hash upd ip now rows = Some rows'" "distinct (map kr_id rows)"
  shows "\<exists>r. GetScopedAdminKey i rows = Some r \<and> kr_hash r = hash \<and> kr_updated_at r = upd \<and> kr_revoked_at r = None \<and>
     ki_enabled (kr_input r) \<and> (\<forall>t. ki_expires (kr_input r) = Some t \<longrightarrow> now < t)"
  using assms(1) by (auto simp: TouchScopedAdminKey_def sql_update_Some get_iff [OF assms(2)] split: option.splits)

text \<open>C15: A request is admitted only on the version of its key that it read: if every statement in between stamps the
  row with another time than the one read, then at the moment of admission the row has the same settings, policy and
  addresses, its hash is the digest of the presented key, and it is enabled, not revoked and not expired.\<close>

theorem admission_not_stale:
  assumes "keys_wf seen" "run_events es seen = Some rows"
    and "AuthenticateScopedAdminKey sha ParseAddr ParsePrefix now1 now2 key ip seen rows = Inr (item, rows')"
    and "\<And>e. e \<in> set es \<Longrightarrow> stamp_of e \<noteq> Some (kr_updated_at item)"
  shows "\<exists>i r. key_id key = Some i \<and> GetScopedAdminKey i rows = Some r \<and> same_version item r \<and> sha key = kr_hash r \<and>
     kr_revoked_at r = None \<and> ki_enabled (kr_input r) \<and> (\<forall>t. ki_expires (kr_input r) = Some t \<longrightarrow> now2 < t) \<and>
     scopedAdminIPAllowed ParseAddr ParsePrefix (ki_ips (kr_input r)) ip"
proof -
  from assms(3) obtain i where i: "key_id key = Some i"
    by (auto simp: AuthenticateScopedAdminKey_def split: option.splits)
  note auth = auth_touch [OF i assms(3)]
  have "distinct (map kr_id rows)" using run_events_wf [OF assms(2,1)] by (simp add: keys_wf_def)
  from touch_row [OF auth(4) this] obtain r where r: "GetScopedAdminKey i rows = Some r" "kr_hash r = kr_hash item"
    "kr_updated_at r = kr_updated_at item" "kr_revoked_at r = None" "ki_enabled (kr_input r)"
    "\<forall>t. ki_expires (kr_input r) = Some t \<longrightarrow> now2 < t" by blast
  have "\<exists>r'. GetScopedAdminKey i rows = Some r' \<and> (same_version item r' \<or> kr_updated_at r' \<noteq> kr_updated_at item)"
    by (rule run_events_version [OF assms(2) auth(1) assms(4)]) (simp_all add: same_version_def)
  with r have same: "same_version item r" by auto
  have "kr_input (r\<lparr>kr_last_used := None\<rparr>) = kr_input (item\<lparr>kr_last_used := None\<rparr>)"
    using same by (simp add: same_version_def)
  then have "kr_input r = kr_input item" by simp
  with i r same auth(3,5) show ?thesis by auto
qed

section \<open>Rotation\<close>

fun new_hash :: "key_event \<Rightarrow> string option" where
  "new_hash (Rotated i old new at) = Some new"
| "new_hash _ = None"

lemma apply_event_hash:
  assumes "apply_event e rows = Some rows'" "GetScopedAdminKey i rows = Some r" "new_hash e \<noteq> Some h" "kr_hash r \<noteq> h"
  shows "\<exists>r'. GetScopedAdminKey i rows' = Some r' \<and> kr_hash r' \<noteq> h"
proof (cases e)
  case (Inserted k)
  with assms get_insert show ?thesis by fastforce
qed (use assms in \<open>auto simp: key_statements dest!: get_update [of _ _ _ _ i]\<close>)

lemma run_events_hash:
  "run_events es rows = Some rows' \<Longrightarrow> GetScopedAdminKey i rows = Some r \<Longrightarrow>
   (\<And>e. e \<in> set es \<Longrightarrow> new_hash e \<noteq> Some h) \<Longrightarrow> kr_hash r \<noteq> h \<Longrightarrow>
   \<exists>r'. GetScopedAdminKey i rows' = Some r' \<and> kr_hash r' \<noteq> h"
proof (induction es arbitrary: rows r)
  case (Cons e es)
  then obtain mid where mid: "apply_event e rows = Some mid" "run_events es mid = Some rows'"
    by (auto split: option.splits)
  from apply_event_hash [OF mid(1) Cons.prems(2) Cons.prems(3) Cons.prems(4)] obtain r1
    where "GetScopedAdminKey i mid = Some r1" "kr_hash r1 \<noteq> h" by auto
  from Cons.IH [OF mid(2) this(1) _ this(2)] Cons.prems(3) show ?case by simp
qed auto

lemma rotated_row:
  assumes "keys_wf rows" "RotateScopedAdminKey sha secret now i seen rows = Inr (new_key, item', rows1)"
  shows "\<exists>item r1. GetScopedAdminKey i seen = Some item \<and> GetScopedAdminKey i rows1 = Some r1 \<and> kr_hash r1 = sha new_key \<and>
     keys_wf rows1 \<and> kr_hash item' = sha new_key"
proof -
  from assms(2) obtain item where item: "GetScopedAdminKey i seen = Some item"
    and rot: "RotateKeyHash i (kr_hash item) (sha new_key) now rows = Some rows1" and "kr_hash item' = sha new_key"
    by (auto simp: RotateScopedAdminKey_def generateScopedAdminKey_def Let_def dest: get_row split: option.splits if_splits)
  have dist: "distinct (map kr_id rows)" using assms(1) by (simp add: keys_wf_def)
  from rot obtain r where "r \<in> set rows" "kr_id r = i" "kr_hash r = kr_hash item" "kr_revoked_at r = None"
    by (auto simp: RotateKeyHash_def sql_update_Some)
  with dist have "GetScopedAdminKey i rows = Some r" by (simp add: get_iff)
  with rot have "GetScopedAdminKey i rows1 = Some (r\<lparr>kr_hash := sha new_key, kr_updated_at := now\<rparr>)"
    using \<open>kr_id r = i\<close> \<open>kr_hash r = kr_hash item\<close> \<open>kr_revoked_at r = None\<close>
    by (auto simp: RotateKeyHash_def dest!: get_update [of _ _ _ _ i])
  moreover have "keys_wf rows1" using apply_event_wf [of "Rotated i (kr_hash item) (sha new_key) now"] rot assms(1) by simp
  ultimately show ?thesis using item \<open>kr_hash item' = sha new_key\<close> by auto
qed

text \<open>After a rotation, as long as no new digest equals the old one, the old key is dead, even for a request that had
  read the row before, and of several rotations that read the same version only one succeeds; the others get a
  conflict.\<close>

theorem rotation_retires_old_key:
  assumes "keys_wf rows" "RotateScopedAdminKey sha secret now i seen rows = Inr (new_key, item', rows1)"
    and "GetScopedAdminKey i seen = Some item" "run_events es rows1 = Some rows2"
    and "sha new_key \<noteq> kr_hash item" "\<And>e. e \<in> set es \<Longrightarrow> new_hash e \<noteq> Some (kr_hash item)"
  shows "(\<forall>old_key seen2. key_id old_key = Some i \<longrightarrow> sha old_key = kr_hash item \<longrightarrow>
            AuthenticateScopedAdminKey sha ParseAddr ParsePrefix now1 now2 old_key ip seen2 rows2 = Inl KeyInvalid) \<and>
         (\<forall>secret2 seen2 item2. GetScopedAdminKey i seen2 = Some item2 \<longrightarrow> kr_hash item2 = kr_hash item \<longrightarrow>
            kr_revoked_at item2 = None \<longrightarrow> RotateScopedAdminKey sha secret2 now2 i seen2 rows2 = Inl KeyConflict)"
proof -
  from rotated_row [OF assms(1,2)] obtain r1 where r1: "GetScopedAdminKey i rows1 = Some r1" "kr_hash r1 = sha new_key"
    and wf1: "keys_wf rows1" by blast
  from run_events_hash [OF assms(4) r1(1) assms(6)] r1(2) assms(5) obtain r2
    where r2: "GetScopedAdminKey i rows2 = Some r2" "kr_hash r2 \<noteq> kr_hash item" by auto
  have dist: "distinct (map kr_id rows2)" using run_events_wf [OF assms(4) wf1] by (simp add: keys_wf_def)
  have touch: "TouchScopedAdminKey i (kr_hash item) upd ip now rows2 = None" for upd ip now
    using r2 by (auto simp: TouchScopedAdminKey_def intro!: no_update [OF dist r2(1)])
  have rotate: "RotateKeyHash i (kr_hash item) new at rows2 = None" for new at
    using r2 by (auto simp: RotateKeyHash_def intro!: no_update [OF dist r2(1)])
  show ?thesis
    using touch rotate
    by (auto simp: AuthenticateScopedAdminKey_def verifyScopedAdminKey_def RotateScopedAdminKey_def
             generateScopedAdminKey_def Let_def dest: get_row split: option.splits)
qed

section \<open>A created key works\<close>

lemma length_hex [simp]: "length (hex_encode bs) = 2 * length bs"
  by (induction bs) (simp_all add: hex_encode_def)

lemma hex_digit_plain: "n < 16 \<Longrightarrow> hex_digit n \<noteq> CHR ''_''"
proof -
  assume "n < 16"
  moreover have "\<forall>n \<in> set [0..<16]. hex_digit n \<noteq> CHR ''_''" by code_simp
  ultimately show ?thesis by simp
qed

lemma hex_no_underscore: "CHR ''_'' \<notin> set (hex_encode bs)"
proof -
  have "hex_digit (b mod 16) \<noteq> CHR ''_''" for b by (simp add: hex_digit_plain)
  then show ?thesis by (auto simp: hex_encode_def) metis+
qed

lemma split_underscore_append:
  "CHR ''_'' \<notin> set s \<Longrightarrow> split_underscore (s @ CHR ''_'' # t) = s # split_underscore t"
  by (induction s) auto

lemma split_underscore_plain: "CHR ''_'' \<notin> set s \<Longrightarrow> split_underscore s = [s]"
  by (induction s) auto

lemma key_id_generated:
  assumes "CHR ''_'' \<notin> set i" "length i = 24" "length secret = 32"
  shows "key_id (''adm_sc_'' @ i @ ''_'' @ hex_encode secret) = Some i"
proof -
  have "split_underscore (''adm_sc_'' @ i @ ''_'' @ hex_encode secret) = [''adm'', ''sc'', i, hex_encode secret]"
    using assms(1) hex_no_underscore by (simp add: split_underscore_append split_underscore_plain)
  with assms(2,3) show ?thesis by (simp add: key_id_def)
qed

lemma inserted_row:
  assumes "keys_wf rows" "InsertScopedAdminKey k rows = Some rows'"
  shows "keys_wf rows' \<and> GetScopedAdminKey (kr_id k) rows' =
    Some (k\<lparr>kr_last_used := None, kr_revoked_at := None, kr_deleted_at := None\<rparr>)"
proof -
  have wf: "keys_wf rows'" using apply_event_wf [of "Inserted k"] assms by simp
  then have "distinct (map kr_id rows')" by (simp add: keys_wf_def)
  with wf assms(2) show ?thesis by (auto simp: InsertScopedAdminKey_def get_iff split: if_splits)
qed

lemma touch_succeeds:
  assumes "GetScopedAdminKey i rows = Some r" "kr_revoked_at r = None" "ki_enabled (kr_input r)"
    and "\<And>t. ki_expires (kr_input r) = Some t \<Longrightarrow> now < t"
  shows "\<exists>rows'. TouchScopedAdminKey i (kr_hash r) (kr_updated_at r) ip now rows = Some rows'"
  using get_row [OF assms(1)] assms(2-4)
  by (auto simp: TouchScopedAdminKey_def sql_update_def list_ex_iff split: option.splits)


section \<open>Prefixes in mapped form\<close>

lemma drop_bit_zero: "drop_bit n (w :: 'a :: len word) = 0 \<longleftrightarrow> (\<forall>j. n \<le> j \<longrightarrow> \<not> bit w j)"
proof
  assume zero: "drop_bit n w = 0"
  show "\<forall>j. n \<le> j \<longrightarrow> \<not> bit w j"
  proof (intro allI impI)
    fix j assume "n \<le> j"
    then have "bit w j = bit (drop_bit n w) (j - n)" by (simp add: bit_drop_bit_eq)
    with zero show "\<not> bit w j" by simp
  qed
next
  assume "\<forall>j. n \<le> j \<longrightarrow> \<not> bit w j"
  then show "drop_bit n w = 0" by (intro bit_word_eqI) (simp add: bit_drop_bit_eq)
qed

text \<open>An IPv6 prefix over mapped addresses admits an IPv4 address as the IPv4 prefix it stands for does; with at most 96 bits it
  admits all of them.\<close>

lemma mapped_prefix:
  assumes "drop_bit 32 p = (0xffff :: 128 word)" "bits \<le> 128"
  shows "prefix_contains (V6 p zone, bits) (mapped (V4 w)) \<longleftrightarrow>
    bits \<le> 96 \<or> prefix_contains (V4 (ucast p), bits - 96) (V4 w)"
proof -
  define f :: "128 word" where "f = 0xffff"
  let ?m = "push_bit 32 f OR ucast w :: 128 word"
  have short4: "\<not> bit x j" if "32 \<le> j" for x :: "32 word" and j
    using bit_imp_le_length [of x j] that by auto
  have high: "bit ?m j = bit p j" if "32 \<le> j" "j < 128" for j
  proof -
    have "bit p j = bit (drop_bit 32 p) (j - 32)" using that by (simp add: bit_drop_bit_eq)
    also have "\<dots> = bit f (j - 32)" by (simp only: assms(1) f_def)
    also have "\<dots> = bit (push_bit 32 f) j" using that by (simp add: bit_push_bit_iff)
    also have "\<dots> = bit ?m j"
      using that short4 [of j w] by (simp add: bit_or_iff bit_ucast_iff)
    finally show ?thesis by simp
  qed
  have low: "bit ?m j = bit w j" if "j < 32" for j
    using that by (simp add: bit_or_iff bit_push_bit_iff bit_ucast_iff)
  have short: "\<not> bit x j" if "128 \<le> j" for x :: "128 word" and j
    using bit_imp_le_length [of x j] that by auto
  have each: "bit (?m XOR p) j \<longleftrightarrow> j < 32 \<and> bit w j \<noteq> bit p j" for j
    using high [of j] low [of j] short [of j ?m] short [of j p]
    by (cases "j < 32"; cases "j < 128") (simp_all add: bit_xor_iff not_less)
  have each4: "bit (w XOR ucast p) j \<longleftrightarrow> j < 32 \<and> bit w j \<noteq> bit p j" for j
    using short4 [of j w] by (cases "j < 32") (simp_all add: bit_xor_iff bit_ucast_iff not_less)
  have "drop_bit (128 - bits) (?m XOR p) = 0 \<longleftrightarrow> (\<forall>j. 128 - bits \<le> j \<longrightarrow> j < 32 \<longrightarrow> bit w j = bit p j)"
    unfolding drop_bit_zero each by blast
  also have "\<dots> \<longleftrightarrow> bits \<le> 96 \<or> (\<forall>j. 32 - (bits - 96) \<le> j \<longrightarrow> j < 32 \<longrightarrow> bit w j = bit p j)"
    using assms(2) by auto
  also have "(\<forall>j. 32 - (bits - 96) \<le> j \<longrightarrow> j < 32 \<longrightarrow> bit w j = bit p j) \<longleftrightarrow>
      drop_bit (32 - (bits - 96)) (w XOR ucast p) = 0"
    unfolding drop_bit_zero each4 by blast
  finally show ?thesis by (simp only: prefix_contains_def mapped_def f_def prod.case addr.case simp_thms)
qed

section \<open>Witnesses\<close>

definition sample_input :: key_input where
  "sample_input = \<lparr>ki_name = ''k'', ki_description = [], ki_enabled = True, ki_expires = None, ki_ips = [],
     ki_policy = sample_policy\<rparr>"

definition sample_sha :: "string \<Rightarrow> string" where
  "sample_sha s = CHR ''h'' # s"

definition sample_id :: string where "sample_id = hex_encode (replicate 12 10)"
definition sample_key :: "nat \<Rightarrow> string" where
  "sample_key b = fst (generateScopedAdminKey sample_sha sample_id (replicate 32 b))"

definition sample_row :: "nat \<Rightarrow> gotime \<Rightarrow> key_row" where
  "sample_row b at = \<lparr>kr_id = sample_id, kr_input = sample_input, kr_prefix = ''adm_sc_'' @ sample_id,
     kr_hash = sample_sha (sample_key b), kr_created_by = 1, kr_created_at = 5, kr_updated_at = at,
     kr_last_used = None, kr_revoked_at = None, kr_deleted_at = None\<rparr>"

definition revoked_row :: key_row where
  "revoked_row = (sample_row 1 7)\<lparr>kr_revoked_at := Some 7, kr_input := sample_input\<lparr>ki_enabled := False\<rparr>\<rparr>"

lemma sample_key_id: "key_id (sample_key b) = Some sample_id"
  unfolding sample_key_def generateScopedAdminKey_def sample_id_def Let_def fst_conv
  by (rule key_id_generated) (simp_all add: hex_no_underscore)

lemma key_table_wf_witness: "keys_wf [revoked_row\<lparr>kr_deleted_at := Some 9, kr_updated_at := 9\<rparr>]"
proof -
  have wf: "keys_wf [revoked_row]" by (simp add: keys_wf_def revoked_row_def sample_row_def)
  have run: "run_events [Removed sample_id 9] [revoked_row] =
      Some [revoked_row\<lparr>kr_deleted_at := Some 9, kr_updated_at := 9\<rparr>]"
    by (simp add: DeleteKeyRecord_def sql_update_def revoked_row_def sample_row_def)
  from key_table_wf [OF run wf] show ?thesis by (elim conjE)
qed

lemma revocation_final_witness:
  "AuthenticateScopedAdminKey sample_sha (\<lambda>_. None) (\<lambda>_. None) 6 8 (sample_key 1) ''ip'' [sample_row 1 5]
     [revoked_row\<lparr>kr_deleted_at := Some 9, kr_updated_at := 9\<rparr>] = Inl KeyInvalid"
proof -
  have wf: "keys_wf [revoked_row]" by (simp add: keys_wf_def revoked_row_def sample_row_def)
  have get: "GetScopedAdminKey sample_id [revoked_row] = Some revoked_row"
    by (simp add: GetScopedAdminKey_def revoked_row_def sample_row_def)
  have rev: "kr_revoked_at revoked_row \<noteq> None" by (simp add: revoked_row_def)
  have run: "run_events [Removed sample_id 9] [revoked_row] =
      Some [revoked_row\<lparr>kr_deleted_at := Some 9, kr_updated_at := 9\<rparr>]"
    by (simp add: DeleteKeyRecord_def sql_update_def revoked_row_def sample_row_def)
  from revocation_final [OF wf get rev run sample_key_id] show ?thesis by blast
qed

lemma admission_not_stale_witness:
  "\<exists>r. GetScopedAdminKey sample_id [sample_row 1 5] = Some r \<and> sample_sha (sample_key 1) = kr_hash r"
proof -
  have wf: "keys_wf [sample_row 1 5]" by (simp add: keys_wf_def sample_row_def)
  have auth: "AuthenticateScopedAdminKey sample_sha (\<lambda>_. None) (\<lambda>_. None) 6 8 (sample_key 1) ''ip'' [sample_row 1 5]
      [sample_row 1 5] = Inr (sample_row 1 5, [(sample_row 1 5)\<lparr>kr_last_used := Some (8, ''ip'')\<rparr>])"
    by (simp add: AuthenticateScopedAdminKey_def sample_key_id GetScopedAdminKey_def sample_row_def
        verifyScopedAdminKey_def sample_input_def scopedAdminIPAllowed_def TouchScopedAdminKey_def sql_update_def)
  have "\<exists>i r. key_id (sample_key 1) = Some i \<and> GetScopedAdminKey i [sample_row 1 5] = Some r \<and>
     same_version (sample_row 1 5) r \<and> sample_sha (sample_key 1) = kr_hash r \<and>
     kr_revoked_at r = None \<and> ki_enabled (kr_input r) \<and> (\<forall>t. ki_expires (kr_input r) = Some t \<longrightarrow> 8 < t) \<and>
     scopedAdminIPAllowed (\<lambda>_. None) (\<lambda>_. None) (ki_ips (kr_input r)) ''ip''"
    by (rule admission_not_stale [OF wf _ auth, of "[]"]) simp_all
  then show ?thesis by (auto simp: sample_key_id)
qed

lemma rotation_retires_old_key_witness:
  "AuthenticateScopedAdminKey sample_sha (\<lambda>_. None) (\<lambda>_. None) 6 8 (sample_key 1) ''ip'' [sample_row 1 5] [sample_row 2 6] =
     Inl KeyInvalid"
proof -
  have wf: "keys_wf [sample_row 1 5]" by (simp add: keys_wf_def sample_row_def)
  have get: "GetScopedAdminKey sample_id [sample_row 1 5] = Some (sample_row 1 5)"
    by (simp add: GetScopedAdminKey_def sample_row_def)
  have key: "fst (generateScopedAdminKey sample_sha sample_id (replicate 32 2)) = sample_key 2" by (simp add: sample_key_def)
  have rot: "RotateScopedAdminKey sample_sha (replicate 32 2) 6 sample_id [sample_row 1 5] [sample_row 1 5] =
      Inr (sample_key 2, sample_row 2 6, [sample_row 2 6])"
    using get key
    by (simp add: RotateScopedAdminKey_def generateScopedAdminKey_def Let_def RotateKeyHash_def sql_update_def
        sample_row_def)
  have run: "run_events [] [sample_row 2 6] = Some [sample_row 2 6]" by simp
  have "sample_key 1 \<noteq> sample_key 2" by code_simp
  then have new: "sample_sha (sample_key 2) \<noteq> kr_hash (sample_row 1 5)" by (simp add: sample_row_def sample_sha_def)
  have old: "sample_sha (sample_key 1) = kr_hash (sample_row 1 5)" by (simp add: sample_row_def)
  from rotation_retires_old_key [OF wf rot get run new] old sample_key_id show ?thesis by simp
qed


end
