(* ===== verification/AdminRequest.thy ===== *)
theory AdminRequest
  imports AdminKeys AdminWrite
begin

text \<open>
  A request with a restricted management key from the header to its effect: \<open>authenticateScopedAdminRequest\<close>
  (\<open>server/middleware/admin_auth.go\<close>), then the two handlers that take the request over before the full ones,
  \<open>ScopedAdminKeyAccounts\<close> (\<open>handler/admin/custom_admin_key_accounts.go\<close>) and \<open>ScopedAdminKeyGroupModels\<close>
  (\<open>custom_admin_key_group_models.go\<close>), with the writes they start.
\<close>

section \<open>Requests\<close>

text \<open>
  \<open>rq_path\<close> is the route pattern (\<open>FullPath\<close>), \<open>rq_id\<close> the path parameter as an integer, if it is one, \<open>rq_body\<close> the JSON body,
  if it can be read, \<open>rq_page\<close> and \<open>rq_size\<close> the query values as \<open>strconv.Atoi\<close> reads them (0 when it fails).
\<close>

record request =
  rq_method :: string
  rq_path :: string
  rq_key :: string
  rq_ip :: string
  rq_id :: "int option"
  rq_body :: "json option"
  rq_platform :: string
  rq_page :: int
  rq_size :: int

record user =
  us_active :: bool
  us_admin :: bool

definition accounts_base :: string where "accounts_base = admin_prefix @ ''/accounts''"
definition groups_base :: string where "groups_base = admin_prefix @ ''/groups''"

section \<open>Account requests\<close>

datatype account_branch =
    AcMapping | AcMappingDenied | AcImport | AcList | AcGet | AcModels | AcBulk
  | AcCreate | AcUpdate | AcDelete | AcSchedulable | AcClearError | AcRefresh | AcRefused

definition account_branch_of :: "policy \<Rightarrow> string \<Rightarrow> string \<Rightarrow> account_branch" where
  "account_branch_of p method path =
     (if path = accounts_base @ ''/antigravity/default-model-mapping'' \<and> method = ''GET'' then
        (if RouteAllowed p method path then AcMapping else AcMappingDenied)
      else if path = accounts_base @ ''/import/codex-session'' \<and> method = ''POST'' then AcImport
      else if path = accounts_base \<and> method = ''GET'' then AcList
      else if path = accounts_base @ ''/:id'' \<and> method = ''GET'' then AcGet
      else if path = accounts_base @ ''/:id/models'' \<and> method = ''GET'' then AcModels
      else if path = accounts_base @ ''/bulk-update'' \<and> method = ''POST'' then AcBulk
      else if path = accounts_base \<and> method = ''POST'' then AcCreate
      else if path = accounts_base @ ''/:id'' \<and> method = ''PUT'' then AcUpdate
      else if path = accounts_base @ ''/:id'' \<and> method = ''DELETE'' then AcDelete
      else if path = accounts_base @ ''/:id/schedulable'' \<and> method = ''POST'' then AcSchedulable
      else if path = accounts_base @ ''/:id/clear-error'' \<and> method = ''POST'' then AcClearError
      else if path = accounts_base @ ''/:id/refresh'' \<and> method = ''POST'' then AcRefresh
      else AcRefused)"

text \<open>\<open>ShouldBindJSON\<close> into a map: \<open>None\<close> is an error, \<open>Some None\<close> the nil map of \<open>null\<close>.\<close>

definition bind_map :: "json option \<Rightarrow> fields option option" where
  "bind_map body =
     (case body of Some (JObj kvs) \<Rightarrow> Some (Some kvs) | Some JNull \<Rightarrow> Some None | _ \<Rightarrow> None)"

text \<open>The arguments of the call of \<open>ScopedAdminWrite\<close>, or the status of the refusal.\<close>

record write_call =
  wc_id :: int
  wc_action :: string
  wc_fields :: fields
  wc_run :: bool

definition scopedAccountRead :: "policy \<Rightarrow> string \<Rightarrow> int \<Rightarrow> service_account option \<Rightarrow> bool" where
  "scopedAccountRead p permission i found =
     (case found of None \<Rightarrow> False
      | Some a \<Rightarrow> AllowsAccount p permission
          \<lparr>acc_ID = i, acc_GroupIDs = sa_groups a, acc_Type = sa_type a, acc_Platform = sa_platform a\<rparr>)"

definition single_call ::
    "policy \<Rightarrow> (int \<Rightarrow> write_env) \<Rightarrow> request \<Rightarrow> account_branch \<Rightarrow> nat + write_call" where
  "single_call p envs rq branch =
     (let i = (case rq_id rq of None \<Rightarrow> 0 | Some i \<Rightarrow> i);
          call = (\<lambda>action fs run. if i \<le> 0 then Inl 400
                    else Inr \<lparr>wc_id = i, wc_action = action, wc_fields = fs, wc_run = run\<rparr>)
      in case branch of
           AcCreate \<Rightarrow>
             (case bind_map (rq_body rq) of
                Some (Some fs) \<Rightarrow> Inr \<lparr>wc_id = 0, wc_action = [], wc_fields = fs, wc_run = False\<rparr>
              | _ \<Rightarrow> Inl 400)
         | AcUpdate \<Rightarrow>
             (case bind_map (rq_body rq) of
                Some (Some fs) \<Rightarrow> if fs = [] then Inl 400 else call [] fs False
              | _ \<Rightarrow> Inl 400)
         | AcDelete \<Rightarrow> call ''accounts.delete'' [] False
         | AcSchedulable \<Rightarrow>
             (case bind_map (rq_body rq) of
                Some (Some fs) \<Rightarrow>
                  if length fs \<noteq> 1 \<or> map_of fs ''schedulable'' = None then Inl 400 else call [] fs False
              | _ \<Rightarrow> Inl 400)
         | AcClearError \<Rightarrow> call ''accounts.recover'' [] False
         | AcRefresh \<Rightarrow>
             if scopedAccountRead p ''accounts.refresh'' i (we_account (envs i))
             then call ''accounts.refresh'' [] True else Inl 404
         | _ \<Rightarrow> Inl 403)"

text \<open>\<open>scopedAdminBulkUpdate\<close>: at most 100 explicit ids, each once, each with the same fields.\<close>

definition bulk_calls :: "request \<Rightarrow> nat + write_call list" where
  "bulk_calls rq =
     (case bind_map (rq_body rq) of
        Some (Some fs) \<Rightarrow>
          (case (case map_of fs ''account_ids'' of None \<Rightarrow> None | Some r \<Rightarrow> as_ints (raw_val r)) of
             None \<Rightarrow> Inl 400
           | Some ids \<Rightarrow>
               if ids = [] \<or> length ids > 100 then Inl 400
               else
                 let rest = AList.delete ''account_ids'' fs
                 in if map_of rest ''filters'' \<noteq> None \<or> rest = [] then Inl 400
                    else if list_ex (\<lambda>i. i \<le> 0) ids then Inl 400
                    else Inr (map (\<lambda>i. \<lparr>wc_id = i, wc_action = [], wc_fields = rest, wc_run = False\<rparr>)
                               (new_groups [] ids [])))
      | _ \<Rightarrow> Inl 400)"

section \<open>Account answers\<close>

text \<open>
  The answer about one account: the groups the key may see, and the model mapping of a readable account. An account is
  given by the fields the answer is built from; the mapping is the one with string targets.
\<close>

definition item_resource :: "list_item \<Rightarrow> account" where
  "item_resource a =
     \<lparr>acc_ID = li_id a, acc_GroupIDs = li_groups a, acc_Type = li_type a, acc_Platform = li_platform a\<rparr>"

definition scopedAdminAccountDTO :: "policy \<Rightarrow> list_item \<Rightarrow> list_item" where
  "scopedAdminAccountDTO p a =
     a\<lparr>li_groups := filter (AllowsGroup p ''accounts.read'' (item_resource a)) (li_groups a),
       li_mapping := (if AllowsAccount p ''accounts.read'' (item_resource a)
                      then Some (case li_mapping a of None \<Rightarrow> [] | Some mapping \<Rightarrow> mapping) else None)\<rparr>"

text \<open>What the reads ask of the services: the pages of \<open>ScopedAdminList\<close> and \<open>GetAccount\<close>.\<close>

record reader =
  rd_list :: "policy \<Rightarrow> int \<Rightarrow> int \<Rightarrow> (list_item list \<times> int) option"
  rd_account :: "int \<Rightarrow> list_item option"

datatype account_answer =
    Listed "list_item list" int int int
  | Shown list_item
  | ModelsOf list_item
  | DefaultMapping
  | ImportHandler
  | ReadFailed nat

definition account_read :: "policy \<Rightarrow> reader \<Rightarrow> request \<Rightarrow> account_branch \<Rightarrow> account_answer" where
  "account_read p rd rq branch =
     (let one = (\<lambda>show. let i = (case rq_id rq of None \<Rightarrow> 0 | Some i \<Rightarrow> i)
                in case rd_account rd i of
                     None \<Rightarrow> ReadFailed 404
                   | Some a \<Rightarrow> if \<not> AllowsAccount p ''accounts.read'' ((item_resource a)\<lparr>acc_ID := i\<rparr>)
                               then ReadFailed 404 else show a)
      in case branch of
           AcList \<Rightarrow>
             (let page = (if rq_page rq < 1 then 1 else rq_page rq);
                  psize = (if rq_size rq < 1 \<or> rq_size rq > 100 then 20 else rq_size rq)
              in case rd_list rd p page psize of
                   None \<Rightarrow> ReadFailed 503
                 | Some (accounts, number) \<Rightarrow>
                     Listed (map (scopedAdminAccountDTO p)
                               (filter (\<lambda>a. AllowsAccount p ''accounts.read'' (item_resource a)) accounts))
                            number page psize)
         | AcGet \<Rightarrow> one (\<lambda>a. Shown (scopedAdminAccountDTO p a))
         | AcModels \<Rightarrow> one ModelsOf
         | AcMapping \<Rightarrow> DefaultMapping
         | AcImport \<Rightarrow> ImportHandler
         | _ \<Rightarrow> ReadFailed 403)"

section \<open>Group requests\<close>

datatype group_branch =
    GrFullHandler | GrList | GrSimpleRefused | GrBadID | GrDefaults | GrDefaultsDenied | GrMissing
  | GrPlatformMismatch | GrCandidates | GrReadFull | GrReadModels | GrRefused | GrWrite

definition ScopedAdminKeyGroupModels ::
    "policy \<Rightarrow> bool \<Rightarrow> (int \<Rightarrow> (int \<times> string) option) \<Rightarrow> request \<Rightarrow> group_branch" where
  "ScopedAdminKeyGroupModels p simple_mode find_group rq =
     (let base = groups_base @ ''/:id''; path = rq_path rq; get = (rq_method rq = ''GET'');
          put = (rq_method rq = ''PUT'');
          full_read = (''groups.read'' \<in> set (GlobalPermissions p));
          candidates = (path = base @ ''/model-allowlist-candidates'')
      in if get \<and> (path = groups_base \<or> path = groups_base @ ''/all'') then
           (if full_read then GrFullHandler else GrList)
         else if full_read \<and> path = base \<and> get \<and> simple_mode then GrFullHandler
         else if \<not> candidates \<and> path \<noteq> base then GrFullHandler
         else if simple_mode then GrSimpleRefused
         else case rq_id rq of
                None \<Rightarrow> GrBadID
              | Some i \<Rightarrow>
                  if i < 0 \<or> (i = 0 \<and> \<not> candidates) then GrBadID
                  else if candidates \<and> get \<and> i = 0 then
                    (if ''models.defaults.read'' \<notin> set (GlobalPermissions p) then GrDefaultsDenied else GrDefaults)
                  else (case find_group i of
                          None \<Rightarrow> GrMissing
                        | Some (gid, platform) \<Rightarrow>
                            let permission = (if put then ''groups.models.write'' else ''groups.models.read'')
                            in if \<not> (AllowsGroupConfig p permission gid platform \<or> (get \<and> full_read)) then GrMissing
                               else if get then
                                 (if candidates then
                                    (if trim_space (rq_platform rq) \<noteq> [] \<and> trim_space (rq_platform rq) \<noteq> platform
                                     then GrPlatformMismatch else GrCandidates)
                                  else if full_read then GrReadFull else GrReadModels)
                               else if \<not> put \<or> candidates then GrRefused
                               else GrWrite))"

section \<open>The whole request\<close>

text \<open>
  Who answers: a refusal with its status, one of the two scoped handlers, or the full handler of the route. Writes to accounts
  come with the result of every call of \<open>ScopedAdminWrite\<close>.
\<close>

datatype served =
    Refused nat
  | AccountRead account_answer
  | AccountWrites "(write_call \<times> (admin_error + write_effect)) list"
  | GroupServed group_branch
  | FullHandler

definition serve ::
    "policy \<Rightarrow> bool \<Rightarrow> reader \<Rightarrow> (int \<Rightarrow> (int \<times> string) option) \<Rightarrow> (int \<Rightarrow> write_env) \<Rightarrow> request \<Rightarrow> served" where
  "serve p simple_mode rd find_group envs rq =
     (let run = (\<lambda>c. (c, ScopedAdminWrite (Some p) (envs (wc_id c)) (wc_id c) (wc_action c) (wc_fields c) (wc_run c)))
      in if has_prefix (rq_path rq) accounts_base then
           (let branch = account_branch_of p (rq_method rq) (rq_path rq)
            in if branch \<in> {AcMapping, AcMappingDenied, AcImport, AcList, AcGet, AcModels}
               then AccountRead (account_read p rd rq branch)
               else if branch = AcBulk then
                 (case bulk_calls rq of Inl status \<Rightarrow> Refused status | Inr calls \<Rightarrow> AccountWrites (map run calls))
               else (case single_call p envs rq branch of
                       Inl status \<Rightarrow> Refused status | Inr call \<Rightarrow> AccountWrites [run call]))
         else (case ScopedAdminKeyGroupModels p simple_mode find_group rq of
                 GrFullHandler \<Rightarrow> FullHandler
               | branch \<Rightarrow> GroupServed branch))"

definition authenticateScopedAdminRequest ::
    "(string \<Rightarrow> string) \<Rightarrow> (string \<Rightarrow> addr option) \<Rightarrow> (string \<Rightarrow> (addr \<times> nat) option) \<Rightarrow> gotime \<Rightarrow> gotime \<Rightarrow>
     (int \<Rightarrow> user option) \<Rightarrow> request \<Rightarrow> key_table \<Rightarrow> key_table \<Rightarrow> nat + key_row" where
  "authenticateScopedAdminRequest sha ParseAddr ParsePrefix now1 now2 users rq seen rows =
     (case AuthenticateScopedAdminKey sha ParseAddr ParsePrefix now1 now2 (rq_key rq) (rq_ip rq) seen rows of
        Inl e \<Rightarrow> Inl 401
      | Inr (item, rows') \<Rightarrow>
          (case users (kr_created_by item) of
             None \<Rightarrow> Inl 401
           | Some u \<Rightarrow>
               if \<not> us_active u \<or> \<not> us_admin u then Inl 401
               else if contains_text (rq_path rq) ''/settings/admin-api-key'' \<or>
                       \<not> RouteAllowed (ki_policy (kr_input item)) (rq_method rq) (rq_path rq) then Inl 403
               else Inr item))"

definition handle_request ::
    "(string \<Rightarrow> string) \<Rightarrow> (string \<Rightarrow> addr option) \<Rightarrow> (string \<Rightarrow> (addr \<times> nat) option) \<Rightarrow> gotime \<Rightarrow> gotime \<Rightarrow>
     (int \<Rightarrow> user option) \<Rightarrow> key_table \<Rightarrow> key_table \<Rightarrow> bool \<Rightarrow> reader \<Rightarrow> (int \<Rightarrow> (int \<times> string) option) \<Rightarrow>
     (int \<Rightarrow> write_env) \<Rightarrow> request \<Rightarrow> served" where
  "handle_request sha ParseAddr ParsePrefix now1 now2 users seen rows simple_mode rd find_group envs rq =
     (case authenticateScopedAdminRequest sha ParseAddr ParsePrefix now1 now2 users rq seen rows of
        Inl status \<Rightarrow> Refused status
      | Inr item \<Rightarrow> serve (ki_policy (kr_input item)) simple_mode rd find_group envs rq)"

section \<open>Admission\<close>

lemma admitted:
  assumes "authenticateScopedAdminRequest sha ParseAddr ParsePrefix now1 now2 users rq seen rows = Inr item"
  shows "\<exists>i u. key_id (rq_key rq) = Some i \<and> GetScopedAdminKey i seen = Some item \<and> sha (rq_key rq) = kr_hash item \<and>
     kr_revoked_at item = None \<and> ki_enabled (kr_input item) \<and>
     users (kr_created_by item) = Some u \<and> us_active u \<and> us_admin u \<and>
     RouteAllowed (ki_policy (kr_input item)) (rq_method rq) (rq_path rq)"
proof -
  from assms obtain rows' u where
    auth: "AuthenticateScopedAdminKey sha ParseAddr ParsePrefix now1 now2 (rq_key rq) (rq_ip rq) seen rows = Inr (item, rows')"
    and u: "users (kr_created_by item) = Some u" "us_active u" "us_admin u"
    and route: "RouteAllowed (ki_policy (kr_input item)) (rq_method rq) (rq_path rq)"
    by (auto simp: authenticateScopedAdminRequest_def split: sum.splits option.splits if_splits)
  from auth obtain i where i: "key_id (rq_key rq) = Some i"
    by (auto simp: AuthenticateScopedAdminKey_def split: option.splits)
  from auth_touch [OF i auth] i u route show ?thesis by blast
qed

text \<open>Routes of account and group permissions: the account routes, and the group routes the scoped handler serves.\<close>

definition scoped_group_routes :: "string list" where
  "scoped_group_routes = [''GET /groups'', ''GET /groups/all'', ''GET /groups/:id'',
     ''GET /groups/:id/model-allowlist-candidates'', ''PUT /groups/:id'']"

definition account_route :: "string \<Rightarrow> bool" where
  "account_route route = (case split_blank route of None \<Rightarrow> False | Some (m, rest) \<Rightarrow> has_prefix rest ''/accounts'')"

lemma rule_routes:
  assumes "d \<in> set definitions" "Scope d \<in> {''account'', ''group''}" "route \<in> set (Routes d)"
  shows "account_route route \<or> route \<in> set scoped_group_routes"
proof -
  have "list_all (\<lambda>d. Scope d = ''global'' \<or>
      list_all (\<lambda>route. account_route route \<or> route \<in> set scoped_group_routes) (Routes d)) definitions"
    by code_simp
  with assms show ?thesis by (fastforce simp: list_all_iff)
qed

lemma groups_read_routes:
  "\<exists>d \<in> set definitions. ID d = ''groups.read'' \<and> Scope d = ''global'' \<and>
     ''GET /groups'' \<in> set (Routes d) \<and> ''GET /groups/all'' \<in> set (Routes d) \<and> ''GET /groups/:id'' \<in> set (Routes d) \<and>
     ''GET /groups/:id/model-allowlist-candidates'' \<in> set (Routes d)"
  by code_simp

lemma has_prefix_append: "has_prefix (admin_prefix @ s) (admin_prefix @ t) \<longleftrightarrow> has_prefix s t"
  by (simp add: has_prefix_def)

lemma group_paths:
  "admin_prefix @ rest = groups_base \<longleftrightarrow> rest = ''/groups''"
  "admin_prefix @ rest = groups_base @ t \<longleftrightarrow> rest = ''/groups'' @ t"
  by (simp_all add: groups_base_def)

text \<open>The five group routes that rules can open: only \<open>groups.read\<close> reaches more than the scoped views.\<close>

lemma group_full_needs_read:
  assumes "rq_path rq = admin_prefix @ rest" "rq_method rq @ CHR '' '' # rest \<in> set scoped_group_routes"
    and "CHR '' '' \<notin> set (rq_method rq)"
    and "ScopedAdminKeyGroupModels p simple_mode find_group rq \<in> {GrFullHandler, GrReadFull}"
  shows "''groups.read'' \<in> set (GlobalPermissions p) \<and> rq_method rq = ''GET'' \<and>
    rest \<in> {''/groups'', ''/groups/all'', ''/groups/:id'', ''/groups/:id/model-allowlist-candidates''}"
proof -
  have "\<exists>m r. rq_method rq = m \<and> rest = r \<and> split_blank (rq_method rq @ CHR '' '' # rest) = Some (m, r)"
    using assms(3) by simp
  then have "(rq_method rq = ''GET'' \<and>
      rest \<in> {''/groups'', ''/groups/all'', ''/groups/:id'', ''/groups/:id/model-allowlist-candidates''}) \<or>
      (rq_method rq = ''PUT'' \<and> rest = ''/groups/:id'')"
    using assms(2) by (auto simp: scoped_group_routes_def)
  with assms(1,4) show ?thesis
    by (auto simp: ScopedAdminKeyGroupModels_def Let_def group_paths split: if_splits option.splits prod.splits)
qed

lemma full_needs_global:
  assumes "RouteAllowed p (rq_method rq) (rq_path rq)" "CHR '' '' \<notin> set (rq_method rq)"
    and "serve p simple_mode rd find_group envs rq \<in> {FullHandler, GroupServed GrReadFull}"
  shows "\<exists>d \<in> set definitions. \<exists>rest. Scope d = ''global'' \<and> ID d \<in> set (GlobalPermissions p) \<and>
     rq_method rq @ CHR '' '' # rest \<in> set (Routes d) \<and> rq_path rq = admin_prefix @ rest"
proof -
  from assms(1) obtain d rest where d: "d \<in> set definitions" "rq_method rq @ CHR '' '' # rest \<in> set (Routes d)"
    and path: "rq_path rq = admin_prefix @ rest" and granted: "entry_granted p d"
    unfolding RouteAllowed_iff [OF assms(2)] by blast
  from assms(3) have not_account: "\<not> has_prefix (rq_path rq) accounts_base"
    by (auto simp: serve_def Let_def split: if_splits sum.splits)
  with assms(3) have branch: "ScopedAdminKeyGroupModels p simple_mode find_group rq \<in> {GrFullHandler, GrReadFull}"
    by (auto simp: serve_def Let_def split: group_branch.splits)
  show ?thesis
  proof (cases "Scope d = ''global''")
    case True
    with granted d path show ?thesis by (auto simp: entry_granted_iff)
  next
    case False
    with granted have "Scope d \<in> {''account'', ''group''}" by (auto simp: entry_granted_iff)
    from rule_routes [OF d(1) this d(2)] have "rq_method rq @ CHR '' '' # rest \<in> set scoped_group_routes"
      using not_account assms(2) by (auto simp: account_route_def path accounts_base_def has_prefix_append)
    from group_full_needs_read [OF path this assms(2) branch] groups_read_routes path show ?thesis by auto
  qed
qed


section \<open>Reads\<close>

fun shown_items :: "account_answer \<Rightarrow> list_item list" where
  "shown_items (Listed items number page psize) = items"
| "shown_items (Shown a) = [a]"
| "shown_items _ = []"

lemma dto_resource: "x = scopedAdminAccountDTO p a \<Longrightarrow> set (li_groups x) \<subseteq> {g. AllowsGroup p ''accounts.read'' (item_resource a) g}"
  by (auto simp: scopedAdminAccountDTO_def)

lemma item_resource_id [simp]: "li_id a = i \<Longrightarrow> (item_resource a)\<lparr>acc_ID := i\<rparr> = item_resource a"
  by (simp add: item_resource_def)

lemma Matches_id [simp]: "Matches r (a\<lparr>acc_ID := i\<rparr>) = Matches r a"
  by (simp add: Matches_def)

lemma AllowsAccount_id [simp]: "AllowsAccount p q (a\<lparr>acc_ID := i\<rparr>) = AllowsAccount p q a"
  by (simp add: AllowsAccount_def)

text \<open>Every account in an answer is one the policy lets the key read, with no group the key may not see.\<close>

lemma read_items_authorised:
  assumes "serve p simple_mode rd find_group envs rq = AccountRead answer" "x \<in> set (shown_items answer)"
  shows "\<exists>a. x = scopedAdminAccountDTO p a \<and> AllowsAccount p ''accounts.read'' (item_resource a) \<and>
    set (li_groups x) \<subseteq> {g. AllowsGroup p ''accounts.read'' (item_resource a) g}"
proof -
  from assms(1) obtain branch where "answer = account_read p rd rq branch"
    by (auto simp: serve_def Let_def split: if_splits sum.splits group_branch.splits)
  with assms(2) have "\<exists>a. x = scopedAdminAccountDTO p a \<and> AllowsAccount p ''accounts.read'' (item_resource a)"
    by (cases branch) (auto simp: account_read_def Let_def split: option.splits if_splits)
  then show ?thesis using dto_resource by blast
qed

lemma list_item_resource: "item_resource (to_list_item links row) = row_resource links row"
  by (simp add: item_resource_def to_list_item_def row_resource_def Let_def)

text \<open>On the real list of a validated policy the second check of the handler drops nothing, so the answer agrees with its total.\<close>

lemma list_check_redundant:
  assumes "ValidatePolicy p = None" "ScopedAdminList contains_fold now db_now db (Some p) page psize q = Some (items, number)"
  shows "filter (\<lambda>a. AllowsAccount p ''accounts.read'' (item_resource a)) items = items"
proof -
  from assms(2) have "set items \<subseteq> to_list_item (db_links db) ` set (readable_rows contains_fold now db_now db p q)"
    by (auto simp: ScopedAdminList_valid [OF assms(1)] Let_def dest!: in_set_takeD in_set_dropD)
  then show ?thesis by (auto simp: filter_id_conv readable_rows_def list_item_resource)
qed

section \<open>Writes\<close>

definition effect_authorised :: "policy \<Rightarrow> write_env \<Rightarrow> write_effect \<Rightarrow> bool" where
  "effect_authorised p env eff \<longleftrightarrow>
     (case eff of
        ApplyCreate input \<Rightarrow> create_authorised p input
      | ApplyUpdate i u schedulable \<Rightarrow> (\<exists>a. we_account env = Some a \<and> update_authorised p a u schedulable)
      | ApplyDelete i \<Rightarrow> (\<exists>a. we_account env = Some a \<and> AllowsAccount p ''accounts.delete'' (scopedAccountResource a))
      | ApplyRecover i \<Rightarrow> (\<exists>a. we_account env = Some a \<and> AllowsAccount p ''accounts.recover'' (scopedAccountResource a))
      | RunCallback a \<Rightarrow> we_account env = Some a \<and> AllowsAccount p ''accounts.refresh'' (scopedAccountResource a))"

lemma callback_only_run:
  "ScopedAdminWrite who env i action fs has_run = Inr (RunCallback a) \<Longrightarrow> has_run"
  by (auto simp: ScopedAdminWrite_def scoped_update_def scoped_create_def scopedAdminCreateTransaction_def Let_def
           split: option.splits sum.splits if_splits)

lemma call_effect:
  assumes "ScopedAdminWrite (Some p) env (wc_id c) (wc_action c) (wc_fields c) (wc_run c) = Inr eff"
    and "wc_run c \<Longrightarrow> wc_action c = ''accounts.refresh'' \<and> wc_id c \<noteq> 0"
  shows "effect_authorised p env eff"
proof (cases "wc_id c = 0")
  case True
  with assms(1) show ?thesis by (auto simp: effect_authorised_def dest: new_write_authorised)
next
  case False
  have "wc_action c = ''accounts.refresh''" if "eff = RunCallback a" for a
    using callback_only_run assms(1) assms(2) unfolding that by blast
  with existing_write_authorised [OF assms(1) False] show ?thesis by (auto simp: effect_authorised_def)
qed

lemma single_call_run:
  "single_call p envs rq branch = Inr c \<Longrightarrow> wc_run c \<Longrightarrow> wc_action c = ''accounts.refresh'' \<and> wc_id c \<noteq> 0"
  by (cases branch) (auto simp: single_call_def Let_def split: option.splits if_splits)

lemma bulk_calls_run: "bulk_calls rq = Inr cs \<Longrightarrow> c \<in> set cs \<Longrightarrow> \<not> wc_run c"
  by (auto simp: bulk_calls_def Let_def split: option.splits if_splits)

lemma serve_writes:
  assumes "serve p simple_mode rd find_group envs rq = AccountWrites results" "(c, r) \<in> set results"
  shows "r = ScopedAdminWrite (Some p) (envs (wc_id c)) (wc_id c) (wc_action c) (wc_fields c) (wc_run c) \<and>
    (wc_run c \<longrightarrow> wc_action c = ''accounts.refresh'' \<and> wc_id c \<noteq> 0)"
  using assms
  by (auto simp: serve_def Let_def split: if_splits sum.splits group_branch.splits
           dest: single_call_run bulk_calls_run)


section \<open>Witnesses\<close>

definition sample_request :: request where
  "sample_request = \<lparr>rq_method = ''PUT'', rq_path = accounts_base @ ''/:id'', rq_key = sample_key 1, rq_ip = ''ip'',
     rq_id = Some 5, rq_body = Some (JObj sample_fields), rq_platform = [], rq_page = 0, rq_size = 0\<rparr>"

definition sample_reader :: reader where
  "sample_reader =
     \<lparr>rd_list = (\<lambda>p page psize. ScopedAdminList (\<lambda>_ _. True) 0 0 sample_db (Some p) page psize sample_query),
      rd_account = (\<lambda>_. None)\<rparr>"

definition reading_policy :: policy where
  "reading_policy = \<lparr>Rules = [], GlobalPermissions = [''users.read'']\<rparr>"

lemma sample_admission:
  assumes "RouteAllowed pol (rq_method rq) (rq_path rq)" "rq_key rq = sample_key 1"
    and "\<not> contains_text (rq_path rq) ''/settings/admin-api-key''"
  shows "authenticateScopedAdminRequest sample_sha (\<lambda>_. None) (\<lambda>_. None) 6 8 (\<lambda>_. Some \<lparr>us_active = True, us_admin = True\<rparr>) rq
      [(sample_row 1 5)\<lparr>kr_input := sample_input\<lparr>ki_policy := pol\<rparr>\<rparr>]
      [(sample_row 1 5)\<lparr>kr_input := sample_input\<lparr>ki_policy := pol\<rparr>\<rparr>] =
    Inr ((sample_row 1 5)\<lparr>kr_input := sample_input\<lparr>ki_policy := pol\<rparr>\<rparr>)"
  using assms
  by (simp add: authenticateScopedAdminRequest_def AuthenticateScopedAdminKey_def sample_key_id GetScopedAdminKey_def
      sample_row_def verifyScopedAdminKey_def sample_input_def scopedAdminIPAllowed_def TouchScopedAdminKey_def
      sql_update_def)

definition full_request :: request where
  "full_request = \<lparr>rq_method = ''GET'', rq_path = admin_prefix @ ''/users'', rq_key = sample_key 1, rq_ip = ''ip'',
     rq_id = None, rq_body = None, rq_platform = [], rq_page = 0, rq_size = 0\<rparr>"


lemma single_update:
  "(case s of AccountWrites [(c, Inr (ApplyUpdate i u None))] \<Rightarrow> P c u | _ \<Rightarrow> False) \<Longrightarrow>
   \<exists>c i u. s = AccountWrites [(c, Inr (ApplyUpdate i u None))] \<and> P c u"
  by (auto split: served.split_asm list.split_asm prod.split_asm sum.split_asm write_effect.split_asm option.split_asm)


end
