(* ===== verification/Spec2Isabelle.thy ===== *)
theory Spec2Isabelle
  imports Prelude ClashSources ClashNodes ClashDocument ClashImport ClashPool ClashRuns ClashRuntime
    ClashSafety ClashViews ModelPlatforms CompositeRoutes CompositeAdmin CompositeRequests ProxyHealth ProxyFailover ProxyAllocation GenerationHealth
    AllocationStore TestLeases StreamCircuit ModelTransient InvalidAuth KiroCooldown ImageArena IdempotencyStore Idempotency SystemLock
    KeywordMatcher KeywordTrie KeywordLinks KeywordSearch
    AdminPolicy AdminScope AdminWrite AdminKeys AdminRequest
begin

text \<open>
  A model of the decision logic of an AI API gateway (Sub2API with Adobe Firefly support), written in Go under
  \<open>src/backend/internal\<close>; all paths below are relative to that directory. The gateway forwards requests of many clients
  to pooled provider accounts through pooled outgoing proxies. Around the forwarding code, which is network and JSON
  glue, stand self-contained components that decide which account and proxy a request may use, when one is taken out of
  service, and how an operation is done once only. Those components are modelled here, each in a theory of its own.

  \<^bold>\<open>Outgoing proxies\<close> (\<open>clash\<close>, \<open>proxyfailover\<close>). Subscriptions deliver proxies; probes and real generations
  deliver evidence about them; the failover moves single accounts, the allocation all of them.

  \<^item> \<open>ClashSources\<close> (\<open>clash/source_health.go\<close>, \<open>clash/health_view.go\<close>): the traffic header of a subscription, the merge of a
    new observation, the reasons that block a source, the operator's view, the freshness window of probes. The block
    reason is what \<open>ProxyHealth\<close> reads as the flag of a blocked source.
  \<^item> \<open>ProxyHealth\<close> (types of \<open>proxyfailover/manager.go\<close>, \<open>probe.go\<close>, \<open>quality.go\<close>, \<open>refreshHealth\<close>): records of proxies and of
    their health, what one probe answer proves, streaks, scores, and the merge of a round of probes.
  \<^item> \<open>ProxyFailover\<close> (\<open>proxyfailover/manager.go\<close>, \<open>recovery.go\<close>): the choice of a backup, the switch under locks, a round
    over all policies, saving a policy, and the gate of on-demand recoveries as a step relation (\<open>gate_step\<close>).
  \<^item> \<open>ProxyAllocation\<close> (\<open>planAllocation\<close>): the plan of three passes as a function of accounts and of the proxy map, whose order
    is arbitrary; \<open>route_order\<close> shows that this order does not matter.
  \<^item> \<open>GenerationHealth\<close> (\<open>generation_health.go\<close>): tables of evidence from real generations, their update and the guard \<open>RouteReady\<close>.
  \<^item> \<open>AllocationStore\<close> and \<open>TestLeases\<close> (\<open>allocation.go\<close>, \<open>test_lease.go\<close>): the transactions that plan, apply, save and count,
    and that lend a route to a connection test and take it back.

  \<^bold>\<open>Breakers and limiters\<close> (\<open>service\<close>, \<open>pkg/kirocooldown\<close>): bounded in-memory tables under one mutex, one operation one
  step. \<open>StreamCircuit\<close> (\<open>openai_proxy_stream_circuit.go\<close>), \<open>ModelTransient\<close> (\<open>openai_account_model_transient.go\<close>),
  \<open>InvalidAuth\<close> (\<open>invalid_auth_abuse_limiter.go\<close>), and \<open>KiroCooldown\<close> (\<open>pkg/kirocooldown/store.go\<close> with its Lua scripts).

  \<^bold>\<open>Doing a thing once\<close> (\<open>service/idempotency.go\<close>, \<open>repository/idempotency_repo.go\<close>, \<open>service/system_operation_lock_service.go\<close>).

  \<^item> \<open>IdempotencyStore\<close>: the Go interface of the store as a record of its methods, its contract as the locale
    \<open>idem_contract\<close>, the SQL implementation on a table, and the interpretation \<open>idem_sql\<close> of the contract on it.
  \<^item> \<open>Idempotency\<close>: \<open>Execute\<close>, cut at its calls to the store (\<open>idem_pc\<close>, \<open>idem_call\<close>), composed to the sequential function and
    to the interleaving of concurrent requests (\<open>idem_step\<close>). The invariant \<open>idem_inv\<close> is proved inside the locale.
  \<^item> \<open>SystemLock\<close>: the lock of system operations over the same interface, cut in the same way.

  \<^bold>\<open>Restricted management keys\<close> (\<open>pkg/adminaccess\<close>, \<open>service/custom_admin_key*.go\<close>, \<open>repository/custom_admin_key*.go\<close>). A key
  carries a policy, a list of rules over accounts and groups; every request with it is authenticated, routed, and each of its
  reads and writes checked against the policy.

  \<^item> \<open>AdminPolicy\<close> (\<open>policy.go\<close>, \<open>catalog.go\<close>): policies, what a rule matches, the catalogue of permissions with its routes.
  \<^item> \<open>AdminScope\<close> (\<open>custom_admin_key_scope.go\<close>, \<open>custom_admin_key_group_models.go\<close>): a policy as a disjunction of SQL predicates over the
    rows of accounts and groups, and the lists and group updates that use it.
  \<^item> \<open>AdminWrite\<close> (\<open>service/custom_admin_key_accounts.go\<close>, \<open>custom_admin_key_proxy_selection.go\<close>): \<open>ScopedAdminWrite\<close>, field by field, on the
    account read under the lock. Its outcome is the call of the general account service it ends with, as a value
    (\<open>write_effect\<close>), or its error.
  \<^item> \<open>AdminKeys\<close> (\<open>custom_admin_keys.go\<close>): the table of keys, its statements, creation, rotation, and authentication with the
    read of a key and the statement that touches it as two steps. Addresses are words with a prefix length.
  \<^item> \<open>AdminRequest\<close> (\<open>server/middleware/admin_auth.go\<close>, \<open>handler/admin/custom_admin_key_*.go\<close>): a request from its header to its answer.

  \<^bold>\<open>Data structures\<close>. \<open>ImageArena\<close> (\<open>pkg/imagebuffer\<close>): a file of fixed size with a free list and interleaved builds
  (\<open>arena_step\<close>). \<open>KeywordMatcher\<close>, \<open>KeywordTrie\<close>, \<open>KeywordLinks\<close>, \<open>KeywordSearch\<close>
  (\<open>service/content_moderation_keyword_matcher.go\<close>): an Aho-Corasick automaton in arrays; the first theory is the model, the
  other three show the trie, the failure links, and the search to be right.

  \<^bold>\<open>Conventions\<close> (\<open>Prelude\<close>). A Go \<open>int64\<close> is an \<open>int\<close>, wrapped by \<open>i64\<close> where the code can overflow; times are
  nanoseconds since year 1, durations nanoseconds; a Go string is a \<open>string\<close> of bytes; a Go map whose order matters is an
  association list in an arbitrary order; a failing call or transaction is a value. Code outside the repository is an
  argument: SHA-256, JSON, Unicode lower- and upper-casing, log redaction, the file system, HTTP answers, random owners.
  Its documented behaviour is a hypothesis where it matters (for example that lower-casing keeps non-empty strings non-empty).
  A SQL statement is its effect on the rows, a transaction one step; \<open>NOW()\<close> and the process clock are arguments.

  \<^bold>\<open>What the lemmas show\<close>. Capacity, ownership and order-independence of the allocation; soundness of every switch and of every
  quarantine, cooldown and block (nothing is taken out of service without the evidence the code asks for); exact counters and
  bounds of the tables; memory safety of the arena under interleaving; at most one success per idempotency key, faithful
  replay, and which conflicts are answered how; exclusion of system operations during a lease; that the keyword filter
  equals a linear scan; that no request with a restricted key has an effect its policy does not permit, that the SQL
  predicates select exactly what the policy allows, and that a revoked, disabled or replaced key stays out. The contracts are locales
  that several components share: \<open>weak_order\<close> and \<open>strict_order\<close> (the best element of a scan), \<open>capped_table\<close> (make room,
  then insert), \<open>idem_contract\<close> (the store), \<open>rule_query\<close> (a policy compiled rule by rule to a query).

  \<^bold>\<open>Bounds and fuel\<close>. \<open>claim_calls\<close> runs five calls, the longest way through \<open>Execute\<close> (\<open>claim_calls_enough\<close>); \<open>lock_calls\<close> runs
  four, the longest way through \<open>Acquire\<close>. In the keyword filter a chain of siblings is bounded by the number of edges (indices
  fall along a chain), a chain of failure links by the number of nodes (the words get shorter), the queue by the number of nodes
  (no node is queued twice); \<open>matcher_finds_first_keyword\<close> holds with these bounds, so none is reached too early.

  \<^bold>\<open>Findings\<close>. A lock acquired over an older record is never renewed (\<open>reclaimed_lock_lost\<close>); an answer cut at the storage limit
  cannot be replayed (\<open>truncated_answer_lost\<close>); the Go formula of the Kiro cooldown wraps (\<open>go_cooldown_agrees_until_overflow\<close>);
  the probe window does not hold a full sweep (\<open>probe_freshness_sweep\<close>).

  \<^bold>\<open>Not modelled\<close>. Code generated by ent; HTTP servers, and the handlers and middleware apart from those of
  restricted keys; the general account and group services that a permitted write of such a key ends in; the streaming proxies and protocol conversions of the
  gateway services, which are driven by \<open>encoding/json\<close>; the import of subscriptions and the mihomo controller; floating-point
  billing; payment providers; configuration loading; metrics and logs; the web frontend, which is another language. In the
  modelled components, reads that only fill the operator's page and the goroutines that only repeat a modelled step on a ticker
  are left out. Indices of the keyword automaton are unbounded, since the sum of the keyword lengths is far below \<open>2^31\<close>.

  \<^bold>\<open>Plan\<close>. Next are composite routes (\<open>service/composite_route_resolver.go\<close>), the Codex import of restricted keys, application errors
  (\<open>pkg/errors\<close>), subscriptions (\<open>service/user_subscription.go\<close>) and the rest of the Clash import.
\<close>

end
